(* ===== verification/Vicarl_Prelude.thy ===== *)
theory Vicarl_Prelude
  imports Main "HOL-Library.Word"
begin

unbundle bit_operations_syntax

text \<open>
  Shared vocabulary of the development: the fixed-width integer types of the C code, the status
  codes of \<^verbatim>\<open>include/vicarl/error.h\<close>, the error values every fallible function returns, the
  state-and-error monad in which stateful C functions are written, byte slices, and generic
  lemmas on lists and words that the component theories use.

  \<^verbatim>\<open>size_t\<close> is modelled by \<^typ>\<open>nat\<close> on a machine with 64-bit addresses; wherever the C code
  can wrap around, \<^verbatim>\<open>mod size_mod\<close> is written out.
\<close>

section \<open>Integers and bytes\<close>

type_synonym u8 = "8 word"
type_synonym u16 = "16 word"
type_synonym u32 = "32 word"
type_synonym u64 = "64 word"
type_synonym bytes = "u8 list"

definition size_mod :: nat where
  "size_mod = 2 ^ 64"

text \<open>\<^verbatim>\<open>SIZE_MAX\<close>.\<close>

definition size_max :: nat where
  "size_max = 2 ^ 64 - 1"

lemma size_mod_gt_0 [simp]: "0 < size_mod"
  by (simp add: size_mod_def)

lemma size_max_less_mod [simp]: "size_max < size_mod"
  by (simp add: size_mod_def size_max_def)

section \<open>Status codes and error values\<close>

datatype vicarl_status =
    VICARL_OK
  | VICARL_ERR_INVALID_ARGUMENT
  | VICARL_ERR_FORMAT
  | VICARL_ERR_NOT_FOUND
  | VICARL_ERR_IO
  | VICARL_ERR_OOM
  | VICARL_ERR_BUSY
  | VICARL_ERR_UNSUPPORTED
  | VICARL_ERR_CRYPTO
  | VICARL_ERR_INTERNAL

text \<open>
  A call that does not return \<^verbatim>\<open>VICARL_OK\<close> yields \<^verbatim>\<open>VErr status message\<close>: the status it returns
  and the text it left in the thread-local error buffer (\<^const>\<open>None\<close> if it left the buffer alone).
  \<^verbatim>\<open>UB what\<close> is an access the C standard leaves undefined (a read or write outside an object);
  the code has no such result, and the safety theorems show that it does not arise.
\<close>

datatype verror = VErr vicarl_status "string option" | UB string

type_synonym 'a res = "verror + 'a"

definition fail_with :: "vicarl_status \<Rightarrow> string \<Rightarrow> verror" where
  "fail_with st msg = VErr st (Some msg)"

text \<open>An error the caller sees, not undefined behaviour.\<close>

definition no_ub :: "verror \<Rightarrow> bool" where
  "no_ub e \<longleftrightarrow> (\<exists>st m. e = VErr st m)"

lemma no_ub_simps [simp]: "no_ub (VErr st m)" "no_ub (fail_with st m')"
  by (simp_all add: no_ub_def fail_with_def)

abbreviation err_oom :: verror where
  "err_oom \<equiv> fail_with VICARL_ERR_OOM ''out of memory''"

text \<open>The file-local helpers \<^verbatim>\<open>badarg\<close> and \<^verbatim>\<open>badfmt\<close> of the C files.\<close>

definition badarg :: "string \<Rightarrow> verror" where
  "badarg msg = fail_with VICARL_ERR_INVALID_ARGUMENT msg"

definition badfmt :: "string \<Rightarrow> verror" where
  "badfmt msg = fail_with VICARL_ERR_FORMAT msg"

definition is_ub :: "'a res \<Rightarrow> bool" where
  "is_ub r \<longleftrightarrow> (\<exists>s. r = Inl (UB s))"

text \<open>The status a caller sees.\<close>

fun status_of :: "'a res \<Rightarrow> vicarl_status option" where
  "status_of (Inr _) = Some VICARL_OK"
| "status_of (Inl (VErr st _)) = Some st"
| "status_of (Inl (UB _)) = None"

section \<open>The state-and-error monad\<close>

type_synonym ('s, 'a) vm = "'s \<Rightarrow> 'a res \<times> 's"

definition retr :: "'a \<Rightarrow> ('s, 'a) vm" where
  "retr x s = (Inr x, s)"

definition failr :: "verror \<Rightarrow> ('s, 'a) vm" where
  "failr e s = (Inl e, s)"

definition bindr :: "('s, 'a) vm \<Rightarrow> ('a \<Rightarrow> ('s, 'b) vm) \<Rightarrow> ('s, 'b) vm" where
  "bindr m f s = (case m s of (Inl e, s') \<Rightarrow> (Inl e, s') | (Inr x, s') \<Rightarrow> f x s')"

text \<open>\<^verbatim>\<open>if (st != VICARL_OK) return g(...)\<close>: the caller replaces the callee's error.\<close>

definition rethrow :: "(verror \<Rightarrow> verror) \<Rightarrow> ('s, 'a) vm \<Rightarrow> ('s, 'a) vm" where
  "rethrow g m s = (case m s of (Inl e, s') \<Rightarrow> (Inl (g e), s') | (Inr x, s') \<Rightarrow> (Inr x, s'))"

text \<open>Replacing an error keeps an undefined access undefined.\<close>

fun replace_err :: "verror \<Rightarrow> verror \<Rightarrow> verror" where
  "replace_err e (VErr _ _) = e"
| "replace_err e (UB s) = UB s"

text \<open>The caller returns another status and leaves the message of the callee in place.\<close>

fun replace_status :: "vicarl_status \<Rightarrow> verror \<Rightarrow> verror" where
  "replace_status st (VErr _ m) = VErr st m"
| "replace_status st (UB s) = UB s"

fun guardr :: "bool \<Rightarrow> verror \<Rightarrow> ('s, unit) vm" where
  "guardr True _ = retr ()"
| "guardr False e = failr e"

text \<open>A plain result as a program.\<close>

definition of_res :: "'a res \<Rightarrow> ('s, 'a) vm" where
  "of_res r s = (r, s)"

text \<open>Cleaning up: a state change on the error path only, and on every path.\<close>

definition on_error :: "('s \<Rightarrow> 's) \<Rightarrow> ('s, 'a) vm \<Rightarrow> ('s, 'a) vm" where
  "on_error c m s = (case m s of (Inl e, s') \<Rightarrow> (Inl e, c s') | (Inr x, s') \<Rightarrow> (Inr x, s'))"

definition finally_do :: "('s \<Rightarrow> 's) \<Rightarrow> ('s, 'a) vm \<Rightarrow> ('s, 'a) vm" where
  "finally_do c m s = (case m s of (r, s') \<Rightarrow> (r, c s'))"

named_theorems vm_simps "rewrite rules that run a program of the monad"

lemma retr_run [vm_simps]: "retr x s = (Inr x, s)"
  by (simp add: retr_def)

lemma failr_run [vm_simps]: "failr e s = (Inl e, s)"
  by (simp add: failr_def)

lemma guardr_run [vm_simps]: "guardr b e s = (if b then (Inr (), s) else (Inl e, s))"
  by (cases b) (simp_all add: vm_simps)

lemma bindr_Inr: "m s = (Inr x, s') \<Longrightarrow> bindr m f s = f x s'"
  by (simp add: bindr_def)

lemma bindr_Inl: "m s = (Inl e, s') \<Longrightarrow> bindr m f s = (Inl e, s')"
  by (simp add: bindr_def)

lemma bindr_retr [vm_simps]: "bindr (retr x) f s = f x s"
  by (simp add: bindr_def retr_def)

lemma bindr_failr [vm_simps]: "bindr (failr e) f s = (Inl e, s)"
  by (simp add: bindr_def failr_def)

lemma bindr_guardr [vm_simps]: "bindr (guardr b e) f s = (if b then f () s else (Inl e, s))"
  by (cases b) (simp_all add: vm_simps)

lemma bindr_assoc: "bindr (bindr m f) g = bindr m (\<lambda>x. bindr (f x) g)"
  by (rule ext) (simp add: bindr_def split: prod.split sum.split)

lemma rethrow_Inr: "m s = (Inr x, s') \<Longrightarrow> rethrow g m s = (Inr x, s')"
  by (simp add: rethrow_def)

lemma rethrow_Inl: "m s = (Inl e, s') \<Longrightarrow> rethrow g m s = (Inl (g e), s')"
  by (simp add: rethrow_def)

lemmas vm_run = bindr_Inr bindr_Inl rethrow_Inr rethrow_Inl

lemma bindr_eq_Inr:
  "bindr m f s = (Inr y, t) \<longleftrightarrow> (\<exists>x s'. m s = (Inr x, s') \<and> f x s' = (Inr y, t))"
  by (auto simp: bindr_def split: prod.splits sum.splits)

lemma rethrow_eq_Inr: "rethrow g m s = (Inr y, t) \<longleftrightarrow> m s = (Inr y, t)"
  by (auto simp: rethrow_def split: prod.splits sum.splits)

lemmas vm_Inr_iff = bindr_eq_Inr rethrow_eq_Inr

text \<open>
  A property of every outcome of a program: \<^verbatim>\<open>Q\<close> of a result and the state it is returned in,
  \<^verbatim>\<open>E\<close> of an error and the state it is raised in.
\<close>

definition outcome :: "('s, 'a) vm \<Rightarrow> ('a \<Rightarrow> 's \<Rightarrow> bool) \<Rightarrow> (verror \<Rightarrow> 's \<Rightarrow> bool) \<Rightarrow> 's \<Rightarrow> bool" where
  "outcome m Q E s = (case m s of (Inl e, s') \<Rightarrow> E e s' | (Inr x, s') \<Rightarrow> Q x s')"

lemma outcome_bindr:
  "outcome m (\<lambda>x. outcome (f x) Q E) E s \<Longrightarrow> outcome (bindr m f) Q E s"
  by (simp add: outcome_def bindr_def split: prod.splits sum.splits)

lemma outcome_retr: "Q x s \<Longrightarrow> outcome (retr x) Q E s"
  by (simp add: outcome_def retr_def)

lemma outcome_failr: "E e s \<Longrightarrow> outcome (failr e) Q E s"
  by (simp add: outcome_def failr_def)

lemma outcome_guardr: "(b \<Longrightarrow> Q () s) \<Longrightarrow> (\<not> b \<Longrightarrow> E e s) \<Longrightarrow> outcome (guardr b e) Q E s"
  by (cases b) (simp_all add: outcome_retr outcome_failr)

lemma outcome_rethrow: "outcome m Q (\<lambda>e. E (g e)) s \<Longrightarrow> outcome (rethrow g m) Q E s"
  by (simp add: outcome_def rethrow_def split: prod.splits sum.splits)

lemma outcome_mono:
  "outcome m Q E s \<Longrightarrow> (\<And>x t. Q x t \<Longrightarrow> Q' x t) \<Longrightarrow> (\<And>e t. E e t \<Longrightarrow> E' e t) \<Longrightarrow> outcome m Q' E' s"
  by (auto simp: outcome_def split: prod.splits sum.splits)

lemma outcome_Inr: "outcome m Q E s \<Longrightarrow> m s = (Inr x, t) \<Longrightarrow> Q x t"
  by (simp add: outcome_def)

lemma outcome_Inl: "outcome m Q E s \<Longrightarrow> m s = (Inl e, t) \<Longrightarrow> E e t"
  by (simp add: outcome_def)

lemma outcome_on_error:
  "outcome m Q (\<lambda>e s. E e (c s)) s \<Longrightarrow> outcome (on_error c m) Q E s"
  by (auto simp: outcome_def on_error_def split: prod.splits sum.splits)

lemma outcome_finally:
  "outcome m (\<lambda>x s. Q x (c s)) (\<lambda>e s. E e (c s)) s \<Longrightarrow> outcome (finally_do c m) Q E s"
  by (auto simp: outcome_def finally_do_def split: prod.splits sum.splits)

lemma outcome_run: "m s = m' s' \<Longrightarrow> outcome m' Q E s' \<Longrightarrow> outcome m Q E s"
  by (simp add: outcome_def)

lemma outcome_bindr_twice: "outcome (bindr m (\<lambda>_. k)) (\<lambda>x. outcome (f x) Q E) E s \<Longrightarrow> outcome (bindr m (\<lambda>_. bindr k f)) Q E s"
  using outcome_bindr [of "bindr m (\<lambda>_. k)" f] by (simp add: bindr_assoc)

lemma outcome_of_res: "Q x s \<Longrightarrow> outcome (of_res (Inr x)) Q E s"
  by (simp add: outcome_def of_res_def)

text \<open>A loop over a list that stops at the first error.\<close>

fun mapr :: "('a \<Rightarrow> 'b res) \<Rightarrow> 'a list \<Rightarrow> 'b list res" where
  "mapr f [] = Inr []"
| "mapr f (x # xs) =
     (case f x of
        Inl e \<Rightarrow> Inl e
      | Inr y \<Rightarrow> (case mapr f xs of Inl e \<Rightarrow> Inl e | Inr ys \<Rightarrow> Inr (y # ys)))"

lemma mapr_Inr: "(\<And>x. x \<in> set xs \<Longrightarrow> f x = Inr (g x)) \<Longrightarrow> mapr f xs = Inr (map g xs)"
  by (induction xs) simp_all

section \<open>Slices\<close>

text \<open>
  \<^verbatim>\<open>vicarl_slice_t\<close>: a pointer (\<^const>\<open>None\<close> for \<^verbatim>\<open>NULL\<close>, otherwise the bytes readable from it)
  and a length. \<^verbatim>\<open>vicarl_hash32_t\<close>, \<^verbatim>\<open>vicarl_pubkey32_t\<close> and \<^verbatim>\<open>vicarl_sig64_t\<close> are byte lists of 32, 32 and
  64 bytes.
\<close>

record vicarl_slice =
  sl_ptr :: "bytes option"
  sl_len :: nat

type_synonym vicarl_hash32 = bytes
type_synonym vicarl_pubkey32 = bytes
type_synonym vicarl_sig64 = bytes

definition slice_of :: "bytes \<Rightarrow> vicarl_slice" where
  "slice_of bs = \<lparr>sl_ptr = Some bs, sl_len = length bs\<rparr>"

text \<open>The guard \<^verbatim>\<open>s.len > 0 && !s.ptr\<close>.\<close>

definition slice_bad :: "vicarl_slice \<Rightarrow> bool" where
  "slice_bad s \<longleftrightarrow> sl_len s > 0 \<and> sl_ptr s = None"

text \<open>The bytes a slice denotes.\<close>

definition slice_bytes :: "vicarl_slice \<Rightarrow> bytes" where
  "slice_bytes s = (case sl_ptr s of None \<Rightarrow> [] | Some bs \<Rightarrow> take (sl_len s) bs)"

text \<open>A slice whose pointer has at least as many readable bytes as its length says.\<close>

definition slice_wf :: "vicarl_slice \<Rightarrow> bool" where
  "slice_wf s \<longleftrightarrow> sl_len s < size_mod \<and>
     (case sl_ptr s of None \<Rightarrow> sl_len s = 0 | Some bs \<Rightarrow> sl_len s \<le> length bs)"

lemma slice_of_simps [simp]:
  "sl_ptr (slice_of bs) = Some bs" "sl_len (slice_of bs) = length bs"
  "slice_bytes (slice_of bs) = bs" "\<not> slice_bad (slice_of bs)"
  by (simp_all add: slice_of_def slice_bytes_def slice_bad_def)

lemma slice_wf_slice_of [simp]: "slice_wf (slice_of bs) \<longleftrightarrow> length bs < size_mod"
  by (simp add: slice_wf_def)

lemma slice_wf_not_bad: "slice_wf s \<Longrightarrow> \<not> slice_bad s"
  by (auto simp: slice_wf_def slice_bad_def split: option.splits)

lemma slice_wf_length: "slice_wf s \<Longrightarrow> length (slice_bytes s) = sl_len s"
  by (auto simp: slice_wf_def slice_bytes_def split: option.splits)

text \<open>Reading the bytes of a slice: undefined when the pointer has fewer readable bytes than the length.\<close>

definition slice_read :: "vicarl_slice \<Rightarrow> bytes res" where
  "slice_read s =
     (if sl_len s = 0 then Inr []
      else case sl_ptr s of
             None \<Rightarrow> Inl (UB ''read through a NULL pointer'')
           | Some bs \<Rightarrow>
               if sl_len s \<le> length bs then Inr (take (sl_len s) bs)
               else Inl (UB ''read past the end of a slice''))"

lemma slice_read_wf: "slice_wf s \<Longrightarrow> slice_read s = Inr (slice_bytes s)"
  by (auto simp: slice_wf_def slice_read_def slice_bytes_def split: option.splits)

lemma slice_read_of [simp]: "slice_read (slice_of bs) = Inr bs"
  by (auto simp: slice_read_def)

definition zero_hash :: vicarl_hash32 where
  "zero_hash = replicate 32 0"

lemma length_zero_hash [simp]: "length zero_hash = 32"
  by (simp add: zero_hash_def)

text \<open>The macro \<^verbatim>\<open>VICARL_HASH32_IS_ZERO\<close> and the file-local \<^verbatim>\<open>hash_is_zero32\<close>.\<close>

definition hash_is_zero32 :: "vicarl_hash32 \<Rightarrow> bool" where
  "hash_is_zero32 h \<longleftrightarrow> h = zero_hash"

section \<open>Decimal numerals\<close>

text \<open>The digits \<^verbatim>\<open>%llu\<close> prints.\<close>

definition digit_char :: "nat \<Rightarrow> char" where
  "digit_char d = char_of (48 + d)"

fun dec_nat :: "nat \<Rightarrow> string" where
  "dec_nat n = (if n < 10 then [digit_char n] else dec_nat (n div 10) @ [digit_char (n mod 10)])"

declare dec_nat.simps [simp del]

definition dec_u64 :: "u64 \<Rightarrow> string" where
  "dec_u64 v = dec_nat (unat v)"

section \<open>Generic lemmas\<close>

lemma take_drop_Cons: "i < length xs \<Longrightarrow> drop i xs = xs ! i # drop (Suc i) xs"
  by (rule Cons_nth_drop_Suc [symmetric])

lemma unat_u64_less [simp]: "unat (v :: u64) < size_mod"
  using unsigned_less [of v] by (simp add: size_mod_def)

lemma unat_of_nat_u64: "n < size_mod \<Longrightarrow> unat (of_nat n :: u64) = n"
  by (simp add: size_mod_def unat_of_nat)

text \<open>A word with a small low part and a word shifted above it do not overlap.\<close>

lemma unat_or_push_bit:
  fixes a b :: u64
  assumes a: "unat a < 2 ^ s" and b: "unat b * 2 ^ s < 2 ^ 64" and s: "s < 64"
  shows "unat (a OR push_bit s b) = unat a + unat b * 2 ^ s"
proof -
  have pb: "unat (push_bit s b) = push_bit s (unat b)"
  proof -
    have "push_bit s (unat b) < 2 ^ 64"
      using b by (simp add: push_bit_eq_mult)
    then show ?thesis
      by (simp add: unsigned_push_bit_eq take_bit_nat_eq_self)
  qed
  have na: "unat a = take_bit s (unat a)"
    using a by (simp add: take_bit_nat_eq_self)
  have disj: "take_bit s (unat a) AND push_bit s (unat b) = 0"
    by (rule bit_eqI) (auto simp: bit_and_iff bit_take_bit_iff bit_push_bit_iff)
  have "unat (a OR push_bit s b) = take_bit s (unat a) OR push_bit s (unat b)"
    using pb na by (simp add: unsigned_or_eq)
  also have "\<dots> = take_bit s (unat a) + push_bit s (unat b)"
    using disj by (simp add: disjunctive_add_eq_or)
  finally show ?thesis using na by (simp add: push_bit_eq_mult)
qed

end
