(* ===== verification/Vicarl_Error.thy ===== *)
theory Vicarl_Error
  imports Vicarl_Prelude
begin

text \<open>
  \<^verbatim>\<open>src/core/error.c\<close>: the thread-local buffer that holds the last error message, the functions that
  write it, and the names of the status codes. The buffer is the list of its
  \<^verbatim>\<open>VICARL_ERRMSG_CAP\<close> characters; a C string in it ends at the first NUL. One buffer is one
  thread's buffer: \<^verbatim>\<open>_Thread_local\<close> gives every thread its own.
\<close>

section \<open>The error buffer\<close>

type_synonym errbuf = "char list"

definition VICARL_ERRMSG_CAP :: nat where
  "VICARL_ERRMSG_CAP = 512"

definition NUL :: char where
  "NUL = char_of (0 :: nat)"

text \<open>A static array starts zeroed.\<close>

definition g_vicarl_last_err :: errbuf where
  "g_vicarl_last_err = replicate VICARL_ERRMSG_CAP NUL"

definition vicarl__clear_error :: "errbuf \<Rightarrow> errbuf" where
  "vicarl__clear_error b = b[0 := NUL]"

text \<open>The C string that starts at the first character of a buffer.\<close>

definition c_string :: "errbuf \<Rightarrow> string" where
  "c_string b = takeWhile (\<lambda>c. c \<noteq> NUL) b"

definition vicarl_last_error_message :: "errbuf \<Rightarrow> string" where
  "vicarl_last_error_message b = (if b ! 0 = NUL then '''' else c_string b)"

text \<open>
  \<^verbatim>\<open>strncpy(dst, src, n)\<close>: at most \<open>n\<close> characters of the string \<open>src\<close>, padded with NUL up to \<open>n\<close>;
  the rest of \<open>dst\<close> is untouched.
\<close>

definition strncpy :: "errbuf \<Rightarrow> string \<Rightarrow> nat \<Rightarrow> errbuf" where
  "strncpy dst src n =
     take n src @ replicate (n - length src) NUL @ drop n dst"

text \<open>
  \<^verbatim>\<open>vsnprintf(dst, n, ...)\<close> with \<open>n > 0\<close>, where \<open>txt\<close> is the formatted text: at most \<open>n - 1\<close> characters
  and a terminating NUL; the rest of \<open>dst\<close> is untouched.
\<close>

definition vsnprintf :: "errbuf \<Rightarrow> nat \<Rightarrow> string \<Rightarrow> errbuf" where
  "vsnprintf dst n txt = take (n - 1) txt @ NUL # drop (Suc (length (take (n - 1) txt))) dst"

text \<open>\<^verbatim>\<open>msg\<close> is \<^const>\<open>None\<close> for a NULL pointer.\<close>

definition vicarl__set_error_static :: "string option \<Rightarrow> errbuf \<Rightarrow> errbuf" where
  "vicarl__set_error_static msg b =
     (case msg of
        None \<Rightarrow> vicarl__clear_error b
      | Some m \<Rightarrow> (strncpy b m (VICARL_ERRMSG_CAP - 1))[VICARL_ERRMSG_CAP - 1 := NUL])"

text \<open>\<^verbatim>\<open>fmt\<close> and its arguments come as the text they print, \<^const>\<open>None\<close> for a NULL format.\<close>

definition vicarl__set_errorv :: "string option \<Rightarrow> errbuf \<Rightarrow> errbuf" where
  "vicarl__set_errorv txt b =
     (case txt of
        None \<Rightarrow> vicarl__clear_error b
      | Some m \<Rightarrow> vsnprintf b VICARL_ERRMSG_CAP m)"

definition vicarl__set_errorf :: "string option \<Rightarrow> errbuf \<Rightarrow> errbuf" where
  "vicarl__set_errorf txt b =
     (case txt of
        None \<Rightarrow> vicarl__clear_error b
      | Some _ \<Rightarrow> vicarl__set_errorv txt b)"

section \<open>Status names\<close>

text \<open>The numeric values of the enumerators.\<close>

fun status_code :: "vicarl_status \<Rightarrow> nat" where
  "status_code VICARL_OK = 0"
| "status_code VICARL_ERR_INVALID_ARGUMENT = 1"
| "status_code VICARL_ERR_FORMAT = 2"
| "status_code VICARL_ERR_NOT_FOUND = 3"
| "status_code VICARL_ERR_IO = 4"
| "status_code VICARL_ERR_OOM = 5"
| "status_code VICARL_ERR_BUSY = 6"
| "status_code VICARL_ERR_UNSUPPORTED = 7"
| "status_code VICARL_ERR_CRYPTO = 8"
| "status_code VICARL_ERR_INTERNAL = 9"

text \<open>The switch of \<^verbatim>\<open>vicarl_status_string\<close>, on any integer a caller may pass.\<close>

definition vicarl_status_string :: "nat \<Rightarrow> string" where
  "vicarl_status_string c =
     (if c = status_code VICARL_OK then ''VICARL_OK''
      else if c = status_code VICARL_ERR_INVALID_ARGUMENT then ''VICARL_ERR_INVALID_ARGUMENT''
      else if c = status_code VICARL_ERR_FORMAT then ''VICARL_ERR_FORMAT''
      else if c = status_code VICARL_ERR_NOT_FOUND then ''VICARL_ERR_NOT_FOUND''
      else if c = status_code VICARL_ERR_IO then ''VICARL_ERR_IO''
      else if c = status_code VICARL_ERR_OOM then ''VICARL_ERR_OOM''
      else if c = status_code VICARL_ERR_BUSY then ''VICARL_ERR_BUSY''
      else if c = status_code VICARL_ERR_UNSUPPORTED then ''VICARL_ERR_UNSUPPORTED''
      else if c = status_code VICARL_ERR_CRYPTO then ''VICARL_ERR_CRYPTO''
      else if c = status_code VICARL_ERR_INTERNAL then ''VICARL_ERR_INTERNAL''
      else ''VICARL_ERR_UNKNOWN'')"

text \<open>Statuses are ordered by their numeric values.\<close>

instantiation vicarl_status :: linorder
begin

definition less_eq_vicarl_status :: "vicarl_status \<Rightarrow> vicarl_status \<Rightarrow> bool" where
  "less_eq_vicarl_status a b \<longleftrightarrow> status_code a \<le> status_code b"

definition less_vicarl_status :: "vicarl_status \<Rightarrow> vicarl_status \<Rightarrow> bool" where
  "less_vicarl_status a b \<longleftrightarrow> status_code a < status_code b"

instance
proof
  fix x y z :: vicarl_status
  show "(x < y) = (x \<le> y \<and> \<not> y \<le> x)"
    by (auto simp: less_eq_vicarl_status_def less_vicarl_status_def)
  show "x \<le> x" by (simp add: less_eq_vicarl_status_def)
  show "x \<le> y \<Longrightarrow> y \<le> z \<Longrightarrow> x \<le> z" by (simp add: less_eq_vicarl_status_def)
  show "x \<le> y \<Longrightarrow> y \<le> x \<Longrightarrow> x = y"
    by (cases x; cases y) (simp_all add: less_eq_vicarl_status_def)
  show "x \<le> y \<or> y \<le> x" by (simp add: less_eq_vicarl_status_def linear)
qed

end

section \<open>Lemmas\<close>

text \<open>The buffer keeps its size and always holds a terminated string.\<close>

definition errbuf_wf :: "errbuf \<Rightarrow> bool" where
  "errbuf_wf b \<longleftrightarrow> length b = VICARL_ERRMSG_CAP \<and> NUL \<in> set b"

lemma errbuf_wf_init: "errbuf_wf g_vicarl_last_err"
  by (simp add: errbuf_wf_def g_vicarl_last_err_def VICARL_ERRMSG_CAP_def)

lemma errbuf_wf_clear: "errbuf_wf b \<Longrightarrow> errbuf_wf (vicarl__clear_error b)"
  by (simp add: errbuf_wf_def vicarl__clear_error_def VICARL_ERRMSG_CAP_def set_update_memI)

lemma length_strncpy: "n \<le> length dst \<Longrightarrow> length (strncpy dst src n) = length dst"
  by (simp add: strncpy_def)

lemma errbuf_wf_set_error_static: "errbuf_wf b \<Longrightarrow> errbuf_wf (vicarl__set_error_static m b)"
proof (cases m)
  case None
  assume "errbuf_wf b"
  with None show ?thesis by (simp add: vicarl__set_error_static_def errbuf_wf_clear)
next
  case (Some t)
  assume "errbuf_wf b"
  with Some show ?thesis
    by (simp add: vicarl__set_error_static_def errbuf_wf_def length_strncpy set_update_memI
        VICARL_ERRMSG_CAP_def)
qed

lemma errbuf_wf_vsnprintf: "errbuf_wf b \<Longrightarrow> errbuf_wf (vsnprintf b VICARL_ERRMSG_CAP m)"
  by (simp add: errbuf_wf_def vsnprintf_def VICARL_ERRMSG_CAP_def)

lemma errbuf_wf_set_errorf: "errbuf_wf b \<Longrightarrow> errbuf_wf (vicarl__set_errorf m b)"
  by (simp add: vicarl__set_errorf_def vicarl__set_errorv_def errbuf_wf_clear errbuf_wf_vsnprintf
      split: option.split)

text \<open>A message read back as a C string, when the message itself has no NUL.\<close>

lemma takeWhile_NUL: "NUL \<notin> set m \<Longrightarrow> takeWhile (\<lambda>c. c \<noteq> NUL) (take k m @ NUL # r) = take k m"
  by (subst takeWhile_append2) (auto dest: in_set_takeD)

lemma last_message_c_string: "errbuf_wf b \<Longrightarrow> vicarl_last_error_message b = c_string b"
  by (cases b) (auto simp: vicarl_last_error_message_def c_string_def errbuf_wf_def
      VICARL_ERRMSG_CAP_def)

lemma c_string_vsnprintf:
  "NUL \<notin> set m \<Longrightarrow> c_string (vsnprintf b VICARL_ERRMSG_CAP m) = take 511 m"
  by (simp add: vsnprintf_def c_string_def VICARL_ERRMSG_CAP_def takeWhile_NUL)

lemma strncpy_terminated:
  assumes "errbuf_wf b"
  shows "\<exists>r. (strncpy b m 511)[511 := NUL] = take 511 m @ NUL # r"
proof (cases "length m < 511")
  case True
  then have "replicate (511 - length m) NUL = NUL # replicate (510 - length m) NUL"
    by (simp add: replicate_Suc [symmetric] Suc_diff_le del: replicate_Suc)
  with True show ?thesis
    by (cases "511 - length m") (simp_all add: strncpy_def list_update_append)
next
  case False
  from assms obtain x where "drop 511 b = [x]"
    by (auto simp: errbuf_wf_def VICARL_ERRMSG_CAP_def length_Suc_conv
        dest!: arg_cong [where f = length] intro!: that [of "b ! 511"]
        simp: Cons_nth_drop_Suc [symmetric])
  with False show ?thesis
    by (simp add: strncpy_def list_update_append)
qed

lemma c_string_set_error_static:
  "errbuf_wf b \<Longrightarrow> NUL \<notin> set m \<Longrightarrow> c_string (vicarl__set_error_static (Some m) b) = take 511 m"
  using strncpy_terminated [of b m]
  by (auto simp: vicarl__set_error_static_def c_string_def VICARL_ERRMSG_CAP_def takeWhile_NUL)

section \<open>Properties\<close>

text \<open>
  C37. Whatever message is stored, and by whichever of the three setters, the error buffer keeps
  its 512 bytes and stays NUL-terminated, and the message read back is the message stored, cut
  to its first 511 characters (a NULL message reads back as the empty string).
\<close>

theorem last_error_after_set:
  assumes wf: "errbuf_wf b" and m: "\<forall>m. msg = Some m \<longrightarrow> NUL \<notin> set m"
  shows "errbuf_wf (vicarl__set_error_static msg b) \<and> errbuf_wf (vicarl__set_errorf msg b) \<and>
    vicarl_last_error_message (vicarl__set_error_static msg b) =
      (case msg of None \<Rightarrow> '''' | Some t \<Rightarrow> take 511 t) \<and>
    vicarl_last_error_message (vicarl__set_errorf msg b) =
      (case msg of None \<Rightarrow> '''' | Some t \<Rightarrow> take 511 t)"
proof -
  have ws: "errbuf_wf (vicarl__set_error_static msg b)"
    using wf by (rule errbuf_wf_set_error_static)
  have wr: "errbuf_wf (vicarl__set_errorf msg b)"
    using wf by (rule errbuf_wf_set_errorf)
  have cl: "c_string (vicarl__clear_error b) = ''''"
    using wf by (cases b) (simp_all add: c_string_def vicarl__clear_error_def errbuf_wf_def)
  have "c_string (vicarl__set_error_static msg b) = (case msg of None \<Rightarrow> '''' | Some t \<Rightarrow> take 511 t)"
    using wf m cl c_string_set_error_static
    by (cases msg) (simp_all add: vicarl__set_error_static_def [where msg = None])
  moreover have "c_string (vicarl__set_errorf msg b) = (case msg of None \<Rightarrow> '''' | Some t \<Rightarrow> take 511 t)"
    using m cl c_string_vsnprintf
    by (cases msg) (simp_all add: vicarl__set_errorf_def vicarl__set_errorv_def)
  ultimately show ?thesis
    using ws wr by (simp add: last_message_c_string)
qed

theorem last_error_after_set_witness:
  "vicarl_last_error_message (vicarl__set_error_static (Some ''out of memory'') g_vicarl_last_err)
     = ''out of memory''"
  using last_error_after_set [of g_vicarl_last_err "Some ''out of memory''"] errbuf_wf_init
  by (simp add: NUL_def char_of_def)

end
