(* ===== verification/Vicarl_Hash.thy ===== *)
theory Vicarl_Hash
  imports Vicarl_Prelude
begin

unbundle bit_operations_syntax

text \<open>
  \<^verbatim>\<open>src/core/hash.c\<close>: SHA-256 on 32-bit words, with the context that buffers a partial block. The
  context of \<^verbatim>\<open>vicarl__sha256\<close> is an uninitialised local, so the model takes its initial contents as an
  argument; the digest does not depend on them. The reference is the padding and the block
  iteration of FIPS 180-4, sections 5.1.1 and 6.2.2.
\<close>

section \<open>Primitives\<close>

definition rotr32 :: "u32 \<Rightarrow> nat \<Rightarrow> u32" where
  "rotr32 x n = drop_bit n x OR push_bit (32 - n) x"

definition ch :: "u32 \<Rightarrow> u32 \<Rightarrow> u32 \<Rightarrow> u32" where
  "ch x y z = (x AND y) XOR (NOT x AND z)"

definition maj :: "u32 \<Rightarrow> u32 \<Rightarrow> u32 \<Rightarrow> u32" where
  "maj x y z = (x AND y) XOR (x AND z) XOR (y AND z)"

definition big_sigma0 :: "u32 \<Rightarrow> u32" where
  "big_sigma0 x = rotr32 x 2 XOR rotr32 x 13 XOR rotr32 x 22"

definition big_sigma1 :: "u32 \<Rightarrow> u32" where
  "big_sigma1 x = rotr32 x 6 XOR rotr32 x 11 XOR rotr32 x 25"

definition small_sigma0 :: "u32 \<Rightarrow> u32" where
  "small_sigma0 x = rotr32 x 7 XOR rotr32 x 18 XOR drop_bit 3 x"

definition small_sigma1 :: "u32 \<Rightarrow> u32" where
  "small_sigma1 x = rotr32 x 17 XOR rotr32 x 19 XOR drop_bit 10 x"

text \<open>\<^verbatim>\<open>load_be32(p)\<close> of the four bytes at \<open>p\<close>.\<close>

definition load_be32 :: "bytes \<Rightarrow> u32" where
  "load_be32 p = push_bit 24 (ucast (p ! 0)) OR push_bit 16 (ucast (p ! 1)) OR
     push_bit 8 (ucast (p ! 2)) OR ucast (p ! 3)"

text \<open>The bytes that \<^verbatim>\<open>store_be32\<close> and \<^verbatim>\<open>store_be64\<close> write.\<close>

definition store_be32 :: "u32 \<Rightarrow> bytes" where
  "store_be32 v = [ucast (drop_bit 24 v), ucast (drop_bit 16 v), ucast (drop_bit 8 v), ucast v]"

definition store_be64 :: "u64 \<Rightarrow> bytes" where
  "store_be64 v = [ucast (drop_bit 56 v), ucast (drop_bit 48 v), ucast (drop_bit 40 v),
     ucast (drop_bit 32 v), ucast (drop_bit 24 v), ucast (drop_bit 16 v), ucast (drop_bit 8 v), ucast v]"

definition K :: "u32 list" where
  "K = concat [
    [0x428a2f98, 0x71374491, 0xb5c0fbcf, 0xe9b5dba5, 0x3956c25b, 0x59f111f1, 0x923f82a4, 0xab1c5ed5],
    [0xd807aa98, 0x12835b01, 0x243185be, 0x550c7dc3, 0x72be5d74, 0x80deb1fe, 0x9bdc06a7, 0xc19bf174],
    [0xe49b69c1, 0xefbe4786, 0x0fc19dc6, 0x240ca1cc, 0x2de92c6f, 0x4a7484aa, 0x5cb0a9dc, 0x76f988da],
    [0x983e5152, 0xa831c66d, 0xb00327c8, 0xbf597fc7, 0xc6e00bf3, 0xd5a79147, 0x06ca6351, 0x14292967],
    [0x27b70a85, 0x2e1b2138, 0x4d2c6dfc, 0x53380d13, 0x650a7354, 0x766a0abb, 0x81c2c92e, 0x92722c85],
    [0xa2bfe8a1, 0xa81a664b, 0xc24b8b70, 0xc76c51a3, 0xd192e819, 0xd6990624, 0xf40e3585, 0x106aa070],
    [0x19a4c116, 0x1e376c08, 0x2748774c, 0x34b0bcb5, 0x391c0cb3, 0x4ed8aa4a, 0x5b9cca4f, 0x682e6ff3],
    [0x748f82ee, 0x78a5636f, 0x84c87814, 0x8cc70208, 0x90befffa, 0xa4506ceb, 0xbef9a3f7, 0xc67178f2]]"

section \<open>The context\<close>

record vicarl_sha256_ctx =
  ctx_h :: "u32 list"
  total_len :: u64
  ctx_buf :: bytes
  buf_len :: nat

definition sha256_h0 :: "u32 list" where
  "sha256_h0 = [0x6a09e667, 0xbb67ae85, 0x3c6ef372, 0xa54ff53a, 0x510e527f, 0x9b05688c, 0x1f83d9ab, 0x5be0cd19]"

definition sha256_init :: "vicarl_sha256_ctx \<Rightarrow> vicarl_sha256_ctx" where
  "sha256_init ctx = ctx\<lparr>ctx_h := sha256_h0, total_len := 0, buf_len := 0\<rparr>"

text \<open>The message schedule \<^verbatim>\<open>w[0..63]\<close>, filled in index order.\<close>

definition sha256_schedule :: "bytes \<Rightarrow> u32 list" where
  "sha256_schedule block =
     foldl (\<lambda>w i. w @ [small_sigma1 (w ! (i - 2)) + w ! (i - 7) + small_sigma0 (w ! (i - 15)) + w ! (i - 16)])
       (map (\<lambda>i. load_be32 (drop (i * 4) block)) [0..<16]) [16..<64]"

type_synonym sha_vars = "u32 \<times> u32 \<times> u32 \<times> u32 \<times> u32 \<times> u32 \<times> u32 \<times> u32"

definition sha256_round :: "u32 list \<Rightarrow> sha_vars \<Rightarrow> nat \<Rightarrow> sha_vars" where
  "sha256_round w v i =
     (case v of (a, b, c, d, e, f, g, h) \<Rightarrow>
        let t1 = h + big_sigma1 e + ch e f g + K ! i + w ! i;
            t2 = big_sigma0 a + maj a b c
        in (t1 + t2, a, b, c, d + t1, e, f, g))"

text \<open>What \<^verbatim>\<open>sha256_compress\<close> does to \<^verbatim>\<open>ctx->h\<close>.\<close>

definition compress_h :: "u32 list \<Rightarrow> bytes \<Rightarrow> u32 list" where
  "compress_h hs block =
     (let w = sha256_schedule block in
      case foldl (sha256_round w)
             (hs ! 0, hs ! 1, hs ! 2, hs ! 3, hs ! 4, hs ! 5, hs ! 6, hs ! 7) [0..<64] of
        (a, b, c, d, e, f, g, h) \<Rightarrow>
          [hs ! 0 + a, hs ! 1 + b, hs ! 2 + c, hs ! 3 + d, hs ! 4 + e, hs ! 5 + f, hs ! 6 + g, hs ! 7 + h])"

definition sha256_compress :: "vicarl_sha256_ctx \<Rightarrow> bytes \<Rightarrow> vicarl_sha256_ctx" where
  "sha256_compress ctx block = ctx\<lparr>ctx_h := compress_h (ctx_h ctx) block\<rparr>"

text \<open>\<^verbatim>\<open>memcpy(buf + at, src, ...)\<close> into the 64-byte buffer.\<close>

definition buf_write :: "bytes \<Rightarrow> nat \<Rightarrow> bytes \<Rightarrow> bytes" where
  "buf_write buf at src = take at buf @ src @ drop (at + length src) buf"

text \<open>\<^verbatim>\<open>while (len >= 64U)\<close>: whole blocks straight from the input; returns the context and the rest.\<close>

function update_blocks :: "vicarl_sha256_ctx \<Rightarrow> bytes \<Rightarrow> vicarl_sha256_ctx \<times> bytes" where
  "update_blocks ctx data =
     (if 64 \<le> length data then update_blocks (sha256_compress ctx (take 64 data)) (drop 64 data)
      else (ctx, data))"
  by pat_completeness auto
termination
  by (relation "measure (\<lambda>(ctx, data). length data)") auto

declare update_blocks.simps [simp del]

text \<open>The first part of \<^verbatim>\<open>sha256_update\<close>: fill a partial buffer.\<close>

definition update_fill :: "vicarl_sha256_ctx \<Rightarrow> bytes \<Rightarrow> vicarl_sha256_ctx \<times> bytes" where
  "update_fill ctx data =
     (if buf_len ctx > 0 then
        let tk = min (64 - buf_len ctx) (length data);
            ctx1 = ctx\<lparr>ctx_buf := buf_write (ctx_buf ctx) (buf_len ctx) (take tk data),
                       buf_len := buf_len ctx + tk\<rparr>;
            ctx2 = (if buf_len ctx1 = 64 then (sha256_compress ctx1 (ctx_buf ctx1))\<lparr>buf_len := 0\<rparr> else ctx1)
        in (ctx2, drop tk data)
      else (ctx, data))"

definition sha256_update :: "vicarl_sha256_ctx \<Rightarrow> bytes \<Rightarrow> vicarl_sha256_ctx" where
  "sha256_update ctx data =
     (if length data = 0 then ctx
      else
        case update_fill ctx data of (ctx1, data1) \<Rightarrow>
        case update_blocks ctx1 data1 of (ctx2, data2) \<Rightarrow>
        if length data2 > 0
        then ctx2\<lparr>ctx_buf := buf_write (ctx_buf ctx2) 0 data2, buf_len := length data2\<rparr>
        else ctx2)"

text \<open>\<^verbatim>\<open>while (ctx->buf_len < lim) ctx->buf[ctx->buf_len++] = 0x00U;\<close>\<close>

function pad_zeros :: "vicarl_sha256_ctx \<Rightarrow> nat \<Rightarrow> vicarl_sha256_ctx" where
  "pad_zeros ctx lim =
     (if buf_len ctx < lim
      then pad_zeros (ctx\<lparr>ctx_buf := (ctx_buf ctx)[buf_len ctx := 0], buf_len := buf_len ctx + 1\<rparr>) lim
      else ctx)"
  by pat_completeness auto
termination
  by (relation "measure (\<lambda>(ctx, lim). lim - buf_len ctx)") auto

declare pad_zeros.simps [simp del]

definition sha256_final :: "vicarl_sha256_ctx \<Rightarrow> bytes" where
  "sha256_final ctx =
     (let bit_len = total_len ctx * 8;
          ctx1 = ctx\<lparr>ctx_buf := (ctx_buf ctx)[buf_len ctx := 0x80], buf_len := buf_len ctx + 1\<rparr>;
          ctx2 = (if buf_len ctx1 > 56
                  then (let c = pad_zeros ctx1 64 in (sha256_compress c (ctx_buf c))\<lparr>buf_len := 0\<rparr>)
                  else ctx1);
          ctx3 = pad_zeros ctx2 56;
          ctx4 = ctx3\<lparr>ctx_buf := buf_write (ctx_buf ctx3) 56 (store_be64 bit_len)\<rparr>;
          ctx5 = sha256_compress ctx4 (ctx_buf ctx4)
      in concat (map (\<lambda>i. store_be32 (ctx_h ctx5 ! i)) [0..<8]))"

text \<open>The work of \<^verbatim>\<open>vicarl__sha256\<close> on \<open>data\<close>, starting from the uninitialised context \<open>ctx0\<close>.\<close>

definition sha256_with :: "vicarl_sha256_ctx \<Rightarrow> bytes \<Rightarrow> vicarl_hash32" where
  "sha256_with ctx0 data =
     sha256_final (sha256_update ((sha256_init ctx0)\<lparr>total_len := of_nat (length data)\<rparr>) data)"

definition ctx_any :: vicarl_sha256_ctx where
  "ctx_any = \<lparr>ctx_h = replicate 8 0, total_len = 0, ctx_buf = replicate 64 0, buf_len = 0\<rparr>"

definition sha256 :: "bytes \<Rightarrow> vicarl_hash32" where
  "sha256 data = sha256_with ctx_any data"

text \<open>\<^verbatim>\<open>out\<close> tells whether the result pointer is non-NULL.\<close>

definition vicarl__sha256 :: "vicarl_slice \<Rightarrow> bool \<Rightarrow> vicarl_hash32 res" where
  "vicarl__sha256 data out =
     (if \<not> out then Inl (badarg ''sha256: out is NULL'')
      else if sl_len data > 0 \<and> sl_ptr data = None then Inl (badarg ''sha256: data is NULL'')
      else if sl_len data > 2 ^ 64 - 1 then Inl (badarg ''sha256: input too large'')
      else case slice_read data of
             Inl e \<Rightarrow> Inl e
           | Inr bs \<Rightarrow> Inr (sha256 bs))"

section \<open>The reference: FIPS 180-4\<close>

text \<open>Iteration of the compression function over the 64-byte blocks of a message.\<close>

function hash_blocks :: "u32 list \<Rightarrow> bytes \<Rightarrow> u32 list" where
  "hash_blocks hs m =
     (if 64 \<le> length m then hash_blocks (compress_h hs (take 64 m)) (drop 64 m) else hs)"
  by pat_completeness auto
termination
  by (relation "measure (\<lambda>(hs, m). length m)") auto

declare hash_blocks.simps [simp del]

text \<open>One \<open>0x80\<close> byte, zeros up to 56 modulo 64, and the bit length in 64 bits.\<close>

definition sha256_pad :: "bytes \<Rightarrow> bytes" where
  "sha256_pad m = m @ [0x80] @ replicate ((119 - length m mod 64) mod 64) 0 @
     store_be64 (of_nat (length m) * 8)"

definition sha256_ref :: "bytes \<Rightarrow> vicarl_hash32" where
  "sha256_ref m = concat (map store_be32 (hash_blocks sha256_h0 (sha256_pad m)))"

section \<open>The buffered computation is the reference\<close>

lemma hash_blocks_short [simp]: "length m < 64 \<Longrightarrow> hash_blocks hs m = hs"
  by (subst hash_blocks.simps) simp

lemma hash_blocks_step: "length b = 64 \<Longrightarrow> hash_blocks hs (b @ m) = hash_blocks (compress_h hs b) m"
  by (subst hash_blocks.simps) simp

lemma hash_blocks_append: "64 dvd length b \<Longrightarrow> hash_blocks hs (b @ m) = hash_blocks (hash_blocks hs b) m"
proof (induction hs b rule: hash_blocks.induct)
  case (1 hs b)
  show ?case
  proof (cases "64 \<le> length b")
    case True
    have "64 dvd length (drop 64 b)" using "1.prems" by (simp add: dvd_minus_self)
    with True "1.IH" show ?thesis
      by (simp add: hash_blocks.simps [of hs "b @ m"] hash_blocks.simps [of hs b])
  next
    case False
    with "1.prems" have "b = []" by (auto dest: dvd_imp_le)
    then show ?thesis by simp
  qed
qed

lemma compress_h_length [simp]: "length (compress_h hs b) = 8"
  by (simp add: compress_h_def Let_def split: prod.split)

lemma hash_blocks_length: "length hs = 8 \<Longrightarrow> length (hash_blocks hs m) = 8"
  by (induction hs m rule: hash_blocks.induct) (subst hash_blocks.simps, simp)

lemma store_be32_length [simp]: "length (store_be32 v) = 4"
  by (simp add: store_be32_def)

lemma store_be64_length [simp]: "length (store_be64 v) = 8"
  by (simp add: store_be64_def)

text \<open>The context holds the message \<open>m\<close>: whole blocks in \<^const>\<open>ctx_h\<close>, the rest in the buffer.\<close>

definition absorbed :: "vicarl_sha256_ctx \<Rightarrow> bytes \<Rightarrow> bool" where
  "absorbed ctx m \<longleftrightarrow> length (ctx_buf ctx) = 64 \<and> buf_len ctx < 64 \<and>
     (\<exists>bl. m = bl @ take (buf_len ctx) (ctx_buf ctx) \<and> 64 dvd length bl \<and>
        ctx_h ctx = hash_blocks sha256_h0 bl)"

lemma absorbed_init: "length (ctx_buf c) = 64 \<Longrightarrow> absorbed ((sha256_init c)\<lparr>total_len := n\<rparr>) []"
  by (auto simp: absorbed_def sha256_init_def intro: exI [of _ "[]"])

lemma absorbed_length_mod: "absorbed ctx m \<Longrightarrow> length m mod 64 = buf_len ctx"
  by (auto simp: absorbed_def mod_add_left_eq [symmetric] elim!: dvdE)

lemma update_blocks_absorbed:
  "absorbed ctx m \<Longrightarrow> buf_len ctx = 0 \<Longrightarrow> update_blocks ctx d = (ctx', d') \<Longrightarrow>
     length d' < 64 \<and> buf_len ctx' = 0 \<and> total_len ctx' = total_len ctx \<and>
     (\<exists>d0. d = d0 @ d' \<and> absorbed ctx' (m @ d0))"
proof (induction ctx d arbitrary: m rule: update_blocks.induct)
  case (1 ctx d)
  show ?case
  proof (cases "64 \<le> length d")
    case True
    let ?c = "sha256_compress ctx (take 64 d)"
    from "1.prems"(1,2) obtain bl where bl: "m = bl" "64 dvd length bl" "ctx_h ctx = hash_blocks sha256_h0 bl"
      by (auto simp: absorbed_def)
    have "ctx_h ?c = hash_blocks sha256_h0 (bl @ take 64 d)"
      using bl True by (simp add: sha256_compress_def hash_blocks_append)
        (metis append_Nil2 hash_blocks_short hash_blocks_step length_take list.size(3) min.absorb2 zero_less_numeral)
    then have "absorbed ?c (m @ take 64 d)"
      using "1.prems"(1,2) bl True by (auto simp: absorbed_def sha256_compress_def)
    moreover have "buf_len ?c = 0" using "1.prems"(2) by (simp add: sha256_compress_def)
    moreover have "update_blocks ?c (drop 64 d) = (ctx', d')"
      using "1.prems"(3) True by (simp add: update_blocks.simps [of ctx d])
    ultimately have "length d' < 64 \<and> buf_len ctx' = 0 \<and> total_len ctx' = total_len ?c \<and>
        (\<exists>d0. drop 64 d = d0 @ d' \<and> absorbed ctx' ((m @ take 64 d) @ d0))"
      by (rule "1.IH" [OF True])
    then obtain d0 where "length d' < 64" "buf_len ctx' = 0" "total_len ctx' = total_len ctx"
      "drop 64 d = d0 @ d'" "absorbed ctx' (m @ take 64 d @ d0)"
      by (auto simp: sha256_compress_def)
    then show ?thesis
      by (metis append_assoc append_take_drop_id)
  next
    case False
    with "1.prems" show ?thesis
      by (auto simp: update_blocks.simps [of ctx d])
  qed
qed

lemma update_fill_absorbed:
  assumes "absorbed ctx m" "update_fill ctx d = (ctx', d')"
  shows "\<exists>d0. d = d0 @ d' \<and> absorbed ctx' (m @ d0) \<and> total_len ctx' = total_len ctx \<and>
    (buf_len ctx' = 0 \<or> d' = [])"
proof (cases "buf_len ctx > 0")
  case False
  with assms show ?thesis by (auto simp: update_fill_def)
next
  case True
  let ?n = "buf_len ctx" and ?b = "ctx_buf ctx"
  from assms(1) obtain bl where bl: "m = bl @ take ?n ?b" "64 dvd length bl"
    "ctx_h ctx = hash_blocks sha256_h0 bl" "length ?b = 64" "?n < 64"
    by (auto simp: absorbed_def)
  let ?tk = "min (64 - ?n) (length d)"
  let ?nb = "buf_write ?b ?n (take ?tk d)"
  have nb: "take (?n + ?tk) ?nb = take ?n ?b @ take ?tk d" "length ?nb = 64"
    using bl(4,5) by (auto simp: buf_write_def)
  show ?thesis
  proof (cases "?n + ?tk = 64")
    case full: True
    then have c: "ctx' = ctx\<lparr>ctx_buf := ?nb, buf_len := 0, ctx_h := compress_h (ctx_h ctx) ?nb\<rparr>"
      "d' = drop ?tk d"
      using assms(2) True by (auto simp: update_fill_def sha256_compress_def Let_def)
    have nb64: "?nb = take ?n ?b @ take ?tk d" using nb full by simp
    have "compress_h (ctx_h ctx) ?nb = hash_blocks sha256_h0 (bl @ ?nb)"
      using bl(2,3) nb(2) hash_blocks_step [of ?nb _ "[]"] by (simp add: hash_blocks_append)
    then have "absorbed ctx' (m @ take ?tk d)"
      using bl c(1) nb(2) nb64 by (auto simp: absorbed_def intro!: exI [of _ "bl @ ?nb"])
    with c show ?thesis by (auto intro!: exI [of _ "take ?tk d"])
  next
    case part: False
    then have c: "ctx' = ctx\<lparr>ctx_buf := ?nb, buf_len := ?n + ?tk\<rparr>" "d' = drop ?tk d"
      using assms(2) True by (auto simp: update_fill_def Let_def)
    have "length d \<le> ?tk" "?n + ?tk < 64" using part bl(5) by auto
    with c bl nb show ?thesis
      by (auto simp: absorbed_def intro!: exI [of _ "take ?tk d"])
  qed
qed

lemma sha256_update_absorbed:
  assumes m: "absorbed ctx m"
  shows "absorbed (sha256_update ctx d) (m @ d) \<and> total_len (sha256_update ctx d) = total_len ctx"
proof (cases "d = []")
  case True
  with m show ?thesis by (simp add: sha256_update_def)
next
  case False
  obtain c1 d1 where f: "update_fill ctx d = (c1, d1)" by (cases "update_fill ctx d")
  obtain c2 d2 where u: "update_blocks c1 d1 = (c2, d2)" by (cases "update_blocks c1 d1")
  from update_fill_absorbed [OF m f] obtain d0 where
    d0: "d = d0 @ d1" "absorbed c1 (m @ d0)" "total_len c1 = total_len ctx" "buf_len c1 = 0 \<or> d1 = []"
    by blast
  show ?thesis
  proof (cases "buf_len c1 = 0")
    case True
    from update_blocks_absorbed [OF d0(2) True u] obtain e where
      e: "length d2 < 64" "buf_len c2 = 0" "total_len c2 = total_len c1" "d1 = e @ d2"
        "absorbed c2 ((m @ d0) @ e)" by blast
    then have "absorbed (c2\<lparr>ctx_buf := buf_write (ctx_buf c2) 0 d2, buf_len := length d2\<rparr>) (m @ d)"
      using d0(1) by (auto simp: absorbed_def buf_write_def)
    with e d0 f u False show ?thesis by (auto simp: sha256_update_def)
  next
    case False
    with d0 have "d1 = []" "d = d0" by auto
    with u have "c2 = c1" "d2 = []" by (simp_all add: update_blocks.simps)
    with d0 f u \<open>d1 = []\<close> \<open>d = d0\<close> \<open>d \<noteq> []\<close> show ?thesis by (simp add: sha256_update_def)
  qed
qed

lemma pad_zeros_eq:
  "buf_len ctx \<le> lim \<Longrightarrow> lim \<le> length (ctx_buf ctx) \<Longrightarrow>
     pad_zeros ctx lim = ctx\<lparr>ctx_buf := take (buf_len ctx) (ctx_buf ctx) @ replicate (lim - buf_len ctx) 0 @
        drop lim (ctx_buf ctx), buf_len := lim\<rparr>"
proof (induction ctx lim rule: pad_zeros.induct)
  case (1 ctx lim)
  show ?case
  proof (cases "buf_len ctx < lim")
    case True
    then have r: "replicate (lim - buf_len ctx) (0::u8) = 0 # replicate (lim - Suc (buf_len ctx)) 0"
      by (simp add: Suc_diff_Suc [symmetric])
    from True "1.prems" "1.IH" show ?thesis
      by (simp add: pad_zeros.simps [of ctx lim] r take_Suc_conv_app_nth)
  next
    case False
    with "1.prems" show ?thesis by (simp add: pad_zeros.simps [of ctx lim])
  qed
qed

lemma digest_eq:
  assumes "length hs = 8"
  shows "concat (map (\<lambda>i. store_be32 (hs ! i)) [0..<8]) = concat (map store_be32 hs)"
proof -
  have "map (\<lambda>i. store_be32 (hs ! i)) [0..<8] = map store_be32 (map ((!) hs) [0..<length hs])"
    unfolding assms by (simp only: map_map comp_def)
  then show ?thesis by (simp only: map_nth)
qed

lemma sha256_final_short:
  assumes "\<not> buf_len ctx + 1 > 56"
  shows "sha256_final ctx =
    (let c3 = pad_zeros (ctx\<lparr>ctx_buf := (ctx_buf ctx)[buf_len ctx := 0x80], buf_len := Suc (buf_len ctx)\<rparr>) 56
     in concat (map store_be32
          (compress_h (ctx_h c3) (buf_write (ctx_buf c3) 56 (store_be64 (total_len ctx * 8))))))"
  unfolding sha256_final_def Let_def sha256_compress_def
  by (subst digest_eq) (use assms in simp_all)

lemma sha256_final_long:
  assumes "buf_len ctx + 1 > 56"
  shows "sha256_final ctx =
    (let c = pad_zeros (ctx\<lparr>ctx_buf := (ctx_buf ctx)[buf_len ctx := 0x80], buf_len := Suc (buf_len ctx)\<rparr>) 64;
         c3 = pad_zeros ((sha256_compress c (ctx_buf c))\<lparr>buf_len := 0\<rparr>) 56
     in concat (map store_be32
          (compress_h (ctx_h c3) (buf_write (ctx_buf c3) 56 (store_be64 (total_len ctx * 8))))))"
  unfolding sha256_final_def Let_def sha256_compress_def
  by (subst digest_eq) (use assms in simp_all)

lemma buf_write_append: "length p = n \<Longrightarrow> buf_write (p @ q) n src = p @ src @ drop (length src) q"
  by (simp add: buf_write_def)

lemma sha256_h0_length [simp]: "length sha256_h0 = 8"
  by (simp add: sha256_h0_def)

lemma absorbed_splitE:
  assumes m: "absorbed ctx m"
  obtains bl t where "m = bl @ t" "64 dvd length bl" "ctx_h ctx = hash_blocks sha256_h0 bl" "length (ctx_buf ctx) = 64" "buf_len ctx < 64"
    "length t = buf_len ctx" "length m mod 64 = buf_len ctx"
    "take (Suc (buf_len ctx)) ((ctx_buf ctx)[buf_len ctx := 0x80]) = t @ [0x80]"
proof -
  let ?t = "take (buf_len ctx) (ctx_buf ctx)"
  from m obtain bl where bl: "m = bl @ ?t" "64 dvd length bl" "ctx_h ctx = hash_blocks sha256_h0 bl" "length (ctx_buf ctx) = 64" "buf_len ctx < 64"
    by (auto simp: absorbed_def)
  then show ?thesis using that absorbed_length_mod [OF m] by (simp add: take_Suc_conv_app_nth)
qed

lemma sha256_final_short_ref:
  assumes m: "absorbed ctx m" and tl: "total_len ctx = of_nat (length m)" and len: "\<not> buf_len ctx + 1 > 56"
  shows "sha256_final ctx = sha256_ref m"
proof -
  let ?n = "buf_len ctx" and ?b = "ctx_buf ctx"
  let ?len = "store_be64 (of_nat (length m) * 8)"
  let ?c1 = "ctx\<lparr>ctx_buf := ?b[?n := 0x80], buf_len := Suc ?n\<rparr>"
  obtain bl t where bl: "m = bl @ t" "64 dvd length bl" "ctx_h ctx = hash_blocks sha256_h0 bl" "length ?b = 64" "?n < 64"
    and lt: "length t = ?n" and mod: "length m mod 64 = ?n" and b1: "take (Suc ?n) (?b[?n := 0x80]) = t @ [0x80]"
    using m by (rule absorbed_splitE)
  let ?c3 = "pad_zeros ?c1 56"
  have c3: "?c3 = ctx\<lparr>ctx_buf := t @ [0x80] @ replicate (55 - ?n) 0 @ drop 56 (?b[?n := 0x80]), buf_len := 56\<rparr>"
    using len bl b1 by (simp add: pad_zeros_eq)
  have blk: "buf_write (ctx_buf ?c3) 56 ?len = t @ [0x80] @ replicate (55 - ?n) 0 @ ?len"
    unfolding c3 using len bl(4,5) lt
      buf_write_append [of "t @ [0x80] @ replicate (55 - ?n) 0" 56 "drop 56 (?b[?n := 0x80])" ?len]
    by simp
  have z: "(119 - ?n) mod 64 = 55 - ?n"
  proof -
    have eq: "119 - ?n = 64 + (55 - ?n)" using len by simp
    show ?thesis unfolding eq by simp
  qed
  have "sha256_pad m = bl @ (t @ [0x80] @ replicate (55 - ?n) 0 @ ?len)"
    by (simp add: sha256_pad_def mod z bl(1) [symmetric])
  then have "hash_blocks sha256_h0 (sha256_pad m) =
      compress_h (ctx_h ctx) (t @ [0x80] @ replicate (55 - ?n) 0 @ ?len)"
    using bl len lt hash_blocks_step [of "t @ [0x80] @ replicate (55 - ?n) 0 @ ?len" _ "[]"]
    by (simp add: hash_blocks_append)
  then show ?thesis
    unfolding sha256_ref_def sha256_final_short [OF len] Let_def tl blk by (simp add: c3)
qed

lemma sha256_final_long_ref:
  assumes m: "absorbed ctx m" and tl: "total_len ctx = of_nat (length m)" and len: "buf_len ctx + 1 > 56"
  shows "sha256_final ctx = sha256_ref m"
proof -
  let ?n = "buf_len ctx" and ?b = "ctx_buf ctx"
  let ?len = "store_be64 (of_nat (length m) * 8)"
  let ?c1 = "ctx\<lparr>ctx_buf := ?b[?n := 0x80], buf_len := Suc ?n\<rparr>"
  obtain bl t where bl: "m = bl @ t" "64 dvd length bl" "ctx_h ctx = hash_blocks sha256_h0 bl" "length ?b = 64" "?n < 64"
    and lt: "length t = ?n" and mod: "length m mod 64 = ?n" and b1: "take (Suc ?n) (?b[?n := 0x80]) = t @ [0x80]"
    using m by (rule absorbed_splitE)
  let ?blk1 = "t @ [0x80] @ replicate (63 - ?n) 0"
  define z56 where "z56 = replicate 56 (0 :: u8)"
  have l56: "length z56 = 56" by (simp add: z56_def)
  have l1: "length ?blk1 = 64" using lt bl(5) by simp
  let ?p = "pad_zeros ?c1 64"
  have p: "?p = ctx\<lparr>ctx_buf := ?blk1, buf_len := 64\<rparr>"
    using bl b1 by (simp add: pad_zeros_eq)
  let ?c2 = "(sha256_compress ?p (ctx_buf ?p))\<lparr>buf_len := 0\<rparr>"
  let ?c3 = "pad_zeros ?c2 56"
  have c3: "?c3 = ctx\<lparr>ctx_h := compress_h (ctx_h ctx) ?blk1, ctx_buf := z56 @ drop 56 ?blk1, buf_len := 56\<rparr>"
    unfolding p z56_def using l1 by (subst pad_zeros_eq) (simp_all add: sha256_compress_def)
  have l8: "length (drop 56 ?blk1) = 8" using l1 by simp
  have blk: "buf_write (ctx_buf ?c3) 56 ?len = z56 @ ?len"
    unfolding c3 using l8 buf_write_append [OF l56, of "drop 56 ?blk1" ?len] by simp
  have "(119 - ?n) mod 64 = (63 - ?n) + 56" using len bl(5) by simp
  then have "replicate ((119 - ?n) mod 64) (0 :: u8) = replicate (63 - ?n) 0 @ z56"
    by (simp only: replicate_add z56_def)
  then have "sha256_pad m = bl @ ?blk1 @ (z56 @ ?len)"
    by (simp add: sha256_pad_def mod bl(1) [symmetric])
  then have "hash_blocks sha256_h0 (sha256_pad m) = hash_blocks (ctx_h ctx) (?blk1 @ (z56 @ ?len))"
    using bl(2,3) by (simp only: hash_blocks_append)
  also have "\<dots> = hash_blocks (compress_h (ctx_h ctx) ?blk1) ((z56 @ ?len) @ [])"
    using l1 by (simp only: hash_blocks_step append_Nil2)
  also have "\<dots> = compress_h (compress_h (ctx_h ctx) ?blk1) (z56 @ ?len)"
    using l56 by (subst hash_blocks_step) simp_all
  finally show ?thesis
    unfolding sha256_ref_def sha256_final_long [OF len] Let_def tl blk by (simp only: c3) simp
qed

lemma sha256_final_absorbed: "absorbed ctx m \<Longrightarrow> total_len ctx = of_nat (length m) \<Longrightarrow> sha256_final ctx = sha256_ref m"
  using sha256_final_short_ref sha256_final_long_ref by blast

lemma sha256_with_ref: "length (ctx_buf c) = 64 \<Longrightarrow> sha256_with c m = sha256_ref m"
  using sha256_update_absorbed [OF absorbed_init, of c "of_nat (length m)" m]
  by (simp add: sha256_with_def sha256_final_absorbed sha256_init_def)

lemma sha256_length [simp]: "length (sha256 m) = 32"
proof -
  have "length (concat (map store_be32 hs)) = 4 * length hs" for hs
    by (induction hs) simp_all
  then show ?thesis
    by (simp add: sha256_def sha256_with_ref ctx_any_def sha256_ref_def hash_blocks_length)
qed

lemma vicarl__sha256_slice_of [simp]:
  "length bs < size_mod \<Longrightarrow> vicarl__sha256 (slice_of bs) True = Inr (sha256 bs)"
  by (simp add: vicarl__sha256_def size_mod_def)

lemma vicarl__sha256_wf: "slice_wf s \<Longrightarrow> vicarl__sha256 s True = Inr (sha256 (slice_bytes s))"
  by (auto simp: vicarl__sha256_def slice_read_wf slice_wf_def size_mod_def split: option.splits)

section \<open>Properties\<close>



text \<open>
  Feeding a message in two pieces is feeding it at once: the context reached after
  \<^verbatim>\<open>sha256_update\<close> with \<open>a\<close> and then with \<open>b\<close> finalises to the same digest as one
  \<^verbatim>\<open>sha256_update\<close> with \<open>a @ b\<close>.
\<close>

theorem sha256_update_split:
  assumes "length (ctx_buf c) = 64"
  shows "let c0 = (sha256_init c)\<lparr>total_len := of_nat (length (a @ b))\<rparr> in
     sha256_final (sha256_update (sha256_update c0 a) b) = sha256_final (sha256_update c0 (a @ b))"
proof -
  let ?c0 = "(sha256_init c)\<lparr>total_len := of_nat (length (a @ b))\<rparr>"
  have 0: "absorbed ?c0 []" using assms by (rule absorbed_init)
  have 1: "absorbed (sha256_update ?c0 a) a" "total_len (sha256_update ?c0 a) = of_nat (length (a @ b))"
    using sha256_update_absorbed [OF 0, of a] by simp_all
  have "absorbed (sha256_update (sha256_update ?c0 a) b) (a @ b)"
    "total_len (sha256_update (sha256_update ?c0 a) b) = of_nat (length (a @ b))"
    using sha256_update_absorbed [OF 1(1), of b] 1(2) by simp_all
  then have "sha256_final (sha256_update (sha256_update ?c0 a) b) = sha256_ref (a @ b)"
    by (rule sha256_final_absorbed)
  moreover have "sha256_final (sha256_update ?c0 (a @ b)) = sha256_ref (a @ b)"
    using sha256_update_absorbed [OF 0, of "a @ b"] by (intro sha256_final_absorbed) simp_all
  ultimately show ?thesis by simp
qed

theorem sha256_update_split_witness:
  "let c0 = (sha256_init ctx_any)\<lparr>total_len := of_nat (length ([1, 2] @ [3]))\<rparr> in
     sha256_final (sha256_update (sha256_update c0 [1, 2]) [3]) = sha256_final (sha256_update c0 ([1, 2] @ [3]))"
  using sha256_update_split [of ctx_any "[1, 2]" "[3]"] by (simp add: ctx_any_def)


end
