(* ===== verification/Vicarl_Alloc.thy ===== *)
theory Vicarl_Alloc
  imports Vicarl_Prelude
begin

text \<open>
  \<^verbatim>\<open>src/core/alloc.c\<close>: the pluggable allocator. A heap records which blocks are live, whether a block
  was ever released that was not live (a double or a wild free), and the outcomes of the
  requests to come (\<^const>\<open>True\<close>: the request fails; none left: it succeeds). The contents of a block are
  kept with the pointer that owns it, not in the heap.

  The locale \<^verbatim>\<open>allocator\<close> is the contract of the three functions in the allocator table, in the
  words of the C standard's \<^verbatim>\<open>malloc\<close>, \<^verbatim>\<open>realloc\<close> and \<^verbatim>\<open>free\<close>; libc's functions, the default table,
  interpret it. \<^verbatim>\<open>tidy\<close> states that a function releases on every error path exactly what it
  allocated and returns ownership of the rest on success.
\<close>

type_synonym addr = nat

record heap =
  hp_next :: addr
  hp_live :: "addr set"
  hp_bad :: bool
  hp_oom :: "bool list"

section \<open>The allocator table\<close>

record vicarl_allocator =
  malloc_fn :: "nat \<Rightarrow> heap \<Rightarrow> addr option \<times> heap"
  realloc_fn :: "addr option \<Rightarrow> nat \<Rightarrow> heap \<Rightarrow> addr option \<times> heap"
  free_fn :: "addr \<Rightarrow> heap \<Rightarrow> heap"

definition heap_init :: heap where
  "heap_init = \<lparr>hp_next = 1, hp_live = {}, hp_bad = False, hp_oom = []\<rparr>"

text \<open>libc: a request takes the next outcome; a new block gets a fresh address.\<close>

definition default_malloc :: "nat \<Rightarrow> heap \<Rightarrow> addr option \<times> heap" where
  "default_malloc n h =
     (if hp_oom h \<noteq> [] \<and> hd (hp_oom h) then (None, h\<lparr>hp_oom := tl (hp_oom h)\<rparr>)
      else (Some (hp_next h),
        h\<lparr>hp_next := Suc (hp_next h), hp_live := insert (hp_next h) (hp_live h),
          hp_oom := tl (hp_oom h)\<rparr>))"

definition default_free :: "addr \<Rightarrow> heap \<Rightarrow> heap" where
  "default_free p h = h\<lparr>hp_bad := (hp_bad h \<or> p \<notin> hp_live h), hp_live := hp_live h - {p}\<rparr>"

text \<open>\<^verbatim>\<open>realloc\<close> of NULL is \<^verbatim>\<open>malloc\<close>; otherwise the block moves; a failing request leaves it alone.\<close>

definition default_realloc :: "addr option \<Rightarrow> nat \<Rightarrow> heap \<Rightarrow> addr option \<times> heap" where
  "default_realloc q n h =
     (case default_malloc n h of
        (None, h') \<Rightarrow> (None, h')
      | (Some p, h') \<Rightarrow> (Some p, (case q of None \<Rightarrow> h' | Some a \<Rightarrow> default_free a h')))"

text \<open>The initial value of \<^verbatim>\<open>g_alloc\<close>.\<close>

definition default_allocator :: vicarl_allocator where
  "default_allocator =
     \<lparr>malloc_fn = default_malloc, realloc_fn = default_realloc, free_fn = default_free\<rparr>"

text \<open>
  \<^verbatim>\<open>vicarl__set_allocator(a)\<close> on the current table: a NULL argument or a NULL function keeps it.
\<close>

definition vicarl__set_allocator ::
  "((nat \<Rightarrow> heap \<Rightarrow> addr option \<times> heap) option \<times>
    (addr option \<Rightarrow> nat \<Rightarrow> heap \<Rightarrow> addr option \<times> heap) option \<times>
    (addr \<Rightarrow> heap \<Rightarrow> heap) option) option \<Rightarrow> vicarl_allocator \<Rightarrow> vicarl_allocator" where
  "vicarl__set_allocator a g =
     (case a of
        Some (Some m, Some r, Some f) \<Rightarrow> \<lparr>malloc_fn = m, realloc_fn = r, free_fn = f\<rparr>
      | _ \<Rightarrow> g)"

section \<open>Allocation functions\<close>

definition vicarl__malloc :: "vicarl_allocator \<Rightarrow> nat \<Rightarrow> heap \<Rightarrow> addr option \<times> heap" where
  "vicarl__malloc A n h = malloc_fn A (if n = 0 then 1 else n) h"

definition vicarl__calloc :: "vicarl_allocator \<Rightarrow> nat \<Rightarrow> nat \<Rightarrow> heap \<Rightarrow> addr option \<times> heap" where
  "vicarl__calloc A count sz h =
     (if count = 0 \<or> sz = 0 then vicarl__malloc A 1 h
      else if sz \<noteq> 0 \<and> count > size_max div sz then (None, h)
      else vicarl__malloc A (count * sz mod size_mod) h)"

definition vicarl__realloc ::
  "vicarl_allocator \<Rightarrow> addr option \<Rightarrow> nat \<Rightarrow> heap \<Rightarrow> addr option \<times> heap" where
  "vicarl__realloc A p n h = realloc_fn A p (if n = 0 then 1 else n) h"

definition vicarl__free :: "vicarl_allocator \<Rightarrow> addr option \<Rightarrow> heap \<Rightarrow> heap" where
  "vicarl__free A p h = (case p of None \<Rightarrow> h | Some a \<Rightarrow> free_fn A a h)"

text \<open>\<^verbatim>\<open>vicarl_free\<close>, the public name of the same function (\<^verbatim>\<open>src/core/error.c\<close>).\<close>

definition vicarl_free :: "vicarl_allocator \<Rightarrow> addr option \<Rightarrow> heap \<Rightarrow> heap" where
  "vicarl_free A p h = vicarl__free A p h"

lemma vicarl__free_None [simp]: "vicarl__free A None h = h"
  by (simp add: vicarl__free_def)

lemma vicarl__free_Some [simp]: "vicarl__free A (Some a) h = free_fn A a h"
  by (simp add: vicarl__free_def)

lemma vicarl_free_eq [simp]: "vicarl_free A = vicarl__free A"
  by (simp add: vicarl_free_def fun_eq_iff)

section \<open>The allocator contract\<close>

text \<open>The heap keeps the allocator's invariant and its record of bad frees, and has the live blocks \<open>L\<close>.\<close>

definition heap_to :: "(heap \<Rightarrow> bool) \<Rightarrow> heap \<Rightarrow> addr set \<Rightarrow> heap \<Rightarrow> bool" where
  "heap_to ok h L h' \<longleftrightarrow> ok h' \<and> hp_live h' = L \<and> hp_bad h' = hp_bad h"

locale allocator =
  fixes A :: vicarl_allocator
    and ok :: "heap \<Rightarrow> bool"
  assumes malloc_None: "ok h \<Longrightarrow> malloc_fn A n h = (None, h') \<Longrightarrow> heap_to ok h (hp_live h) h'"
    and malloc_Some: "ok h \<Longrightarrow> malloc_fn A n h = (Some p, h') \<Longrightarrow>
      p \<notin> hp_live h \<and> heap_to ok h (insert p (hp_live h)) h'"
    and realloc_None: "ok h \<Longrightarrow> set_option q \<subseteq> hp_live h \<Longrightarrow> realloc_fn A q n h = (None, h') \<Longrightarrow>
      heap_to ok h (hp_live h) h'"
    and realloc_Some: "ok h \<Longrightarrow> set_option q \<subseteq> hp_live h \<Longrightarrow> realloc_fn A q n h = (Some p, h') \<Longrightarrow>
      p \<notin> hp_live h - set_option q \<and> heap_to ok h (insert p (hp_live h - set_option q)) h'"
    and free_live: "ok h \<Longrightarrow> p \<in> hp_live h \<Longrightarrow> heap_to ok h (hp_live h - {p}) (free_fn A p h)"
begin

lemma vmalloc_None: "ok h \<Longrightarrow> vicarl__malloc A n h = (None, h') \<Longrightarrow> heap_to ok h (hp_live h) h'"
  by (auto simp: vicarl__malloc_def split: if_splits intro: malloc_None)

lemma vmalloc_Some:
  "ok h \<Longrightarrow> vicarl__malloc A n h = (Some p, h') \<Longrightarrow>
    p \<notin> hp_live h \<and> heap_to ok h (insert p (hp_live h)) h'"
  by (auto simp: vicarl__malloc_def dest: malloc_Some split: if_splits)

lemma vcalloc_None: "ok h \<Longrightarrow> vicarl__calloc A c s h = (None, h') \<Longrightarrow> heap_to ok h (hp_live h) h'"
  by (auto simp: vicarl__calloc_def heap_to_def dest: vmalloc_None split: if_splits)

lemma vcalloc_Some:
  "ok h \<Longrightarrow> vicarl__calloc A c s h = (Some p, h') \<Longrightarrow>
    p \<notin> hp_live h \<and> heap_to ok h (insert p (hp_live h)) h'"
  by (auto simp: vicarl__calloc_def dest: vmalloc_Some split: if_splits)

lemma vrealloc_None:
  "ok h \<Longrightarrow> set_option q \<subseteq> hp_live h \<Longrightarrow> vicarl__realloc A q n h = (None, h') \<Longrightarrow>
    heap_to ok h (hp_live h) h'"
  by (auto simp: vicarl__realloc_def intro: realloc_None split: if_splits)

lemma vrealloc_Some:
  "ok h \<Longrightarrow> set_option q \<subseteq> hp_live h \<Longrightarrow> vicarl__realloc A q n h = (Some p, h') \<Longrightarrow>
    p \<notin> hp_live h - set_option q \<and> heap_to ok h (insert p (hp_live h - set_option q)) h'"
  by (auto simp: vicarl__realloc_def dest: realloc_Some split: if_splits)

lemma vfree_live:
  "ok h \<Longrightarrow> set_option q \<subseteq> hp_live h \<Longrightarrow> heap_to ok h (hp_live h - set_option q) (vicarl__free A q h)"
  by (cases q) (simp_all add: heap_to_def free_live [unfolded heap_to_def])

lemmas alloc_dests = vmalloc_None vmalloc_Some vcalloc_None vcalloc_Some

end

text \<open>An allocator whose requests succeed in every state of its invariant.\<close>

locale reliable_allocator = allocator +
  assumes malloc_succeeds: "ok h \<Longrightarrow> \<exists>p h'. malloc_fn A n h = (Some p, h')"
    and realloc_succeeds: "ok h \<Longrightarrow> \<exists>p h'. realloc_fn A q n h = (Some p, h')"
begin

lemma vmalloc_succeeds: "ok h \<Longrightarrow> \<exists>p h'. vicarl__malloc A n h = (Some p, h')"
  by (simp add: vicarl__malloc_def malloc_succeeds)

lemma vcalloc_succeeds:
  "ok h \<Longrightarrow> c * s < size_mod \<Longrightarrow> \<exists>p h'. vicarl__calloc A c s h = (Some p, h')"
proof -
  assume ok: "ok h" and le: "c * s < size_mod"
  then have "s \<noteq> 0 \<Longrightarrow> \<not> size_max div s < c"
    by (simp add: size_mod_def size_max_def not_less less_eq_div_iff_mult_less_eq)
  with ok show ?thesis by (simp add: vicarl__calloc_def vmalloc_succeeds)
qed

lemma vrealloc_succeeds: "ok h \<Longrightarrow> \<exists>p h'. vicarl__realloc A q n h = (Some p, h')"
  by (simp add: vicarl__realloc_def realloc_succeeds)

end

section \<open>libc meets the contract\<close>

text \<open>Addresses of live blocks were handed out before, so the next address is fresh.\<close>

definition heap_wf :: "heap \<Rightarrow> bool" where
  "heap_wf h \<longleftrightarrow> (\<forall>p \<in> hp_live h. p < hp_next h)"

definition heap_plenty :: "heap \<Rightarrow> bool" where
  "heap_plenty h \<longleftrightarrow> heap_wf h \<and> hp_oom h = []"

lemma heap_plenty_init [simp]: "heap_plenty heap_init"
  by (simp add: heap_plenty_def heap_wf_def heap_init_def)

lemma heap_wf_init [simp]: "heap_wf heap_init"
  by (simp add: heap_wf_def heap_init_def)

lemmas default_defs = default_allocator_def default_malloc_def default_realloc_def default_free_def

interpretation libc: allocator default_allocator heap_wf
  by unfold_locales
     (auto simp: default_defs heap_wf_def heap_to_def less_Suc_eq split: if_splits option.splits)

interpretation libc_plenty: reliable_allocator default_allocator heap_plenty
  by unfold_locales
     (auto simp: default_defs heap_wf_def heap_plenty_def heap_to_def less_Suc_eq
        split: if_splits option.splits)

section \<open>Stepping through allocations\<close>

text \<open>
  The contract with a switch: \<open>rel\<close> may be assumed when the allocator is reliable. The rules follow a
  heap from a start \<open>h0\<close> through allocations and frees; \<open>L\<close> is the set of live blocks.
\<close>

definition alloc_rel :: "vicarl_allocator \<Rightarrow> (heap \<Rightarrow> bool) \<Rightarrow> bool \<Rightarrow> bool" where
  "alloc_rel A ok rel \<longleftrightarrow> allocator A ok \<and> (rel \<longrightarrow> reliable_allocator A ok)"

lemma alloc_rel_False: "allocator A ok \<Longrightarrow> alloc_rel A ok False"
  by (simp add: alloc_rel_def)

lemma alloc_rel_True: "reliable_allocator A ok \<Longrightarrow> alloc_rel A ok True"
  by (simp add: alloc_rel_def reliable_allocator.axioms(1))

lemma libc_reliable: "alloc_rel default_allocator heap_plenty True"
  by (rule alloc_rel_True) (rule libc_plenty.reliable_allocator_axioms)

lemma libc_contract: "alloc_rel default_allocator heap_wf False"
  by (rule alloc_rel_False) (rule libc.allocator_axioms)

lemma alloc_relD: "alloc_rel A ok rel \<Longrightarrow> allocator A ok"
  by (simp add: alloc_rel_def)

lemma heap_to_refl: "ok h \<Longrightarrow> heap_to ok h (hp_live h) h"
  by (simp add: heap_to_def)

lemma heap_to_trans: "heap_to ok h0 L h \<Longrightarrow> heap_to ok h L' h' \<Longrightarrow> heap_to ok h0 L' h'"
  by (simp add: heap_to_def)

lemma heap_to_live: "heap_to ok h0 L h \<Longrightarrow> hp_live h = L"
  by (simp add: heap_to_def)

lemma heap_to_ok: "heap_to ok h0 L h \<Longrightarrow> ok h"
  by (simp add: heap_to_def)

lemma malloc_stepE:
  assumes "alloc_rel A ok rel" "heap_to ok h0 L h"
  obtains (fail) h' where "vicarl__malloc A n h = (None, h')" "\<not> rel" "heap_to ok h0 L h'"
  | (new) p h' where "vicarl__malloc A n h = (Some p, h')" "p \<notin> L" "heap_to ok h0 (insert p L) h'"
proof -
  obtain r h' where e: "vicarl__malloc A n h = (r, h')" by (cases "vicarl__malloc A n h")
  have okh: "ok h" using assms(2) by (rule heap_to_ok)
  show ?thesis
  proof (cases r)
    case None
    have "\<not> rel"
      using assms(1) okh e None reliable_allocator.vmalloc_succeeds [of A ok h n]
      by (auto simp: alloc_rel_def)
    moreover have "heap_to ok h0 L h'"
      using allocator.vmalloc_None [OF alloc_relD [OF assms(1)] okh, of n h'] e None assms(2)
      by (simp add: heap_to_def)
    ultimately show ?thesis using fail e None by blast
  next
    case (Some p)
    then show ?thesis
      using allocator.vmalloc_Some [OF alloc_relD [OF assms(1)] okh, of n p h'] e assms(2) new
      by (auto simp: heap_to_def)
  qed
qed

lemma calloc_stepE:
  assumes "alloc_rel A ok rel" "heap_to ok h0 L h"
  obtains (fail) h' where "vicarl__calloc A c s h = (None, h')" "\<not> (rel \<and> c * s < size_mod)" "heap_to ok h0 L h'"
  | (new) p h' where "vicarl__calloc A c s h = (Some p, h')" "p \<notin> L" "heap_to ok h0 (insert p L) h'"
proof -
  obtain r h' where e: "vicarl__calloc A c s h = (r, h')" by (cases "vicarl__calloc A c s h")
  have okh: "ok h" using assms(2) by (rule heap_to_ok)
  show ?thesis
  proof (cases r)
    case None
    have "\<not> (rel \<and> c * s < size_mod)"
      using assms(1) okh e None reliable_allocator.vcalloc_succeeds [of A ok h c s]
      by (auto simp: alloc_rel_def)
    moreover have "heap_to ok h0 L h'"
      using allocator.vcalloc_None [OF alloc_relD [OF assms(1)] okh, of c s h'] e None assms(2)
      by (simp add: heap_to_def)
    ultimately show ?thesis using fail e None by blast
  next
    case (Some p)
    then show ?thesis
      using allocator.vcalloc_Some [OF alloc_relD [OF assms(1)] okh, of c s p h'] e assms(2) new
      by (auto simp: heap_to_def)
  qed
qed

lemma realloc_stepE:
  assumes A: "alloc_rel A ok rel" and h: "heap_to ok h0 L h" and q: "set_option q \<subseteq> L"
  obtains (fail) h' where "vicarl__realloc A q n h = (None, h')" "\<not> rel" "heap_to ok h0 L h'"
  | (new) p h' where "vicarl__realloc A q n h = (Some p, h')" "p \<notin> L - set_option q" "heap_to ok h0 (insert p (L - set_option q)) h'"
proof -
  obtain r h' where e: "vicarl__realloc A q n h = (r, h')" by (cases "vicarl__realloc A q n h")
  have okh: "ok h" "hp_live h = L" using h by (simp_all add: heap_to_def)
  show ?thesis
  proof (cases r)
    case None
    have "\<not> rel" using A okh e None reliable_allocator.vrealloc_succeeds [of A ok h q n] by (auto simp: alloc_rel_def)
    moreover have "heap_to ok h0 L h'"
      using allocator.vrealloc_None [OF alloc_relD [OF A] okh(1), of q n h'] e None h q okh by (simp add: heap_to_def)
    ultimately show ?thesis using fail e None by blast
  next
    case (Some p)
    with allocator.vrealloc_Some [OF alloc_relD [OF A] okh(1), of q n p h'] e h q okh new show ?thesis by (auto simp: heap_to_def)
  qed
qed

lemma free_step:
  "alloc_rel A ok rel \<Longrightarrow> heap_to ok h0 L h \<Longrightarrow> p \<in> L \<Longrightarrow> heap_to ok h0 (L - {p}) (free_fn A p h)"
  using allocator.free_live [of A ok h p] by (simp add: alloc_rel_def heap_to_def)

lemma free_step_insert:
  "alloc_rel A ok rel \<Longrightarrow> heap_to ok h0 (insert p L) h \<Longrightarrow> p \<notin> L \<Longrightarrow> heap_to ok h0 L (free_fn A p h)"
  using free_step [of A ok rel h0 "insert p L" h p] by simp

lemma free_step_insert2:
  "alloc_rel A ok rel \<Longrightarrow> heap_to ok h0 (insert q (insert p L)) h \<Longrightarrow> p \<notin> L \<Longrightarrow> q \<noteq> p \<Longrightarrow>
     heap_to ok h0 (insert q L) (free_fn A p h)"
  using free_step [of A ok rel h0 "insert q (insert p L)" h p] by (simp add: insert_Diff_if)

section \<open>Ownership\<close>

text \<open>
  A function that owns nothing when it fails and the blocks \<open>own x\<close>, all of them new, when it
  returns \<open>x\<close>; it never frees a block that is not live.
\<close>

definition tidy :: "(heap \<Rightarrow> bool) \<Rightarrow> (heap, 'a) vm \<Rightarrow> ('a \<Rightarrow> addr set) \<Rightarrow> bool" where
  "tidy ok m own \<longleftrightarrow>
     (\<forall>h. ok h \<longrightarrow>
        outcome m (\<lambda>x h'. heap_to ok h (hp_live h \<union> own x) h' \<and> own x \<inter> hp_live h = {})
          (\<lambda>e h'. heap_to ok h (hp_live h) h') h)"

lemma tidyI:
  assumes "\<And>h x h'. ok h \<Longrightarrow> m h = (Inr x, h') \<Longrightarrow>
      heap_to ok h (hp_live h \<union> own x) h' \<and> own x \<inter> hp_live h = {}"
    and "\<And>h e h'. ok h \<Longrightarrow> m h = (Inl e, h') \<Longrightarrow> heap_to ok h (hp_live h) h'"
  shows "tidy ok m own"
  using assms by (auto simp: tidy_def outcome_def split: prod.splits sum.splits)

lemma tidy_Inr:
  "tidy ok m own \<Longrightarrow> ok h \<Longrightarrow> m h = (Inr x, h') \<Longrightarrow>
    heap_to ok h (hp_live h \<union> own x) h' \<and> own x \<inter> hp_live h = {}"
  unfolding tidy_def outcome_def by (drule spec [of _ h]) simp

lemma tidy_Inl: "tidy ok m own \<Longrightarrow> ok h \<Longrightarrow> m h = (Inl e, h') \<Longrightarrow> heap_to ok h (hp_live h) h'"
  by (auto simp: tidy_def outcome_def)

lemma tidy_failr [intro]: "tidy ok (failr e) own"
  by (rule tidyI) (simp_all add: failr_def heap_to_def)

lemma tidy_retr: "own x = {} \<Longrightarrow> tidy ok (retr x) own"
  by (rule tidyI) (auto simp: retr_def heap_to_def)

end
