(* ===== verification/Vicarl_Codec.thy ===== *)
theory Vicarl_Codec
  imports Vicarl_Alloc
begin

unbundle bit_operations_syntax

text \<open>
  \<^verbatim>\<open>src/core/codec.c\<close>: the growing write buffer, the bounded read buffer, little-endian 16-bit
  integers, unsigned LEB128 integers and length-delimited bytes. The buffer a function gets by
  reference is the state of the monad (with the heap, for the writer), so its NULL guards have
  nothing to test; in every call of the library it is the address of a local.

  A write buffer keeps the bytes written so far (\<^verbatim>\<open>wb_data\<close>, the first \<^verbatim>\<open>len\<close> bytes of its block)
  and its capacity; a write beyond the capacity is \<^const>\<open>UB\<close>.
\<close>

record vicarl_wbuf =
  wb_ptr :: "addr option"
  wb_data :: bytes
  wb_len :: nat
  wb_cap :: nat

record vicarl_rbuf =
  rb_data :: bytes
  rb_len :: nat
  rb_pos :: nat

text \<open>\<^verbatim>\<open>vicarl_bytes_t\<close>: owned bytes handed to a caller.\<close>

record vicarl_bytes =
  by_ptr :: "addr option"
  by_data :: bytes
  by_len :: nat

type_synonym 'a writer = "(vicarl_wbuf \<times> heap, 'a) vm"
type_synonym 'a reader = "(vicarl_rbuf, 'a) vm"

definition VICARL_VARINT_MAX_BYTES_U64 :: nat where
  "VICARL_VARINT_MAX_BYTES_U64 = 10"

definition bounds_err :: verror where
  "bounds_err = fail_with VICARL_ERR_FORMAT ''unexpected end of buffer''"

definition badvarint_err :: verror where
  "badvarint_err = fail_with VICARL_ERR_FORMAT ''invalid varint encoding''"

section \<open>Writer\<close>

definition vicarl_wbuf_init :: vicarl_wbuf where
  "vicarl_wbuf_init = \<lparr>wb_ptr = None, wb_data = [], wb_len = 0, wb_cap = 0\<rparr>"

definition vicarl_wbuf_dispose :: "vicarl_allocator \<Rightarrow> vicarl_wbuf \<times> heap \<Rightarrow> vicarl_wbuf \<times> heap" where
  "vicarl_wbuf_dispose A s = (case s of (w, h) \<Rightarrow> (vicarl_wbuf_init, vicarl__free A (wb_ptr w) h))"

definition vicarl_wbuf_detach :: "vicarl_wbuf \<Rightarrow> vicarl_bytes \<times> vicarl_wbuf" where
  "vicarl_wbuf_detach w =
     (\<lparr>by_ptr = wb_ptr w, by_data = wb_data w, by_len = wb_len w\<rparr>, vicarl_wbuf_init)"

text \<open>
  \<^verbatim>\<open>while (newcap < needed)\<close>: doubling modulo the size of \<^verbatim>\<open>size_t\<close>; \<^const>\<open>None\<close> is the overflow exit.
  The loop starts from 256 or from a non-zero capacity; the conjunct \<open>0 < newcap\<close> only makes the
  recursion total.
\<close>

function grow_cap :: "nat \<Rightarrow> nat \<Rightarrow> nat option" where
  "grow_cap newcap needed =
     (if newcap < needed \<and> 0 < newcap then
        (let nxt = newcap * 2 mod size_mod in
         if nxt < newcap then None else grow_cap nxt needed)
      else Some newcap)"
  by pat_completeness auto

lemma double_mod_grows:
  assumes "0 < (c :: nat)" "\<not> c * 2 mod size_mod < c"
  shows "c < c * 2 mod size_mod"
proof -
  have "c * 2 mod size_mod \<noteq> c"
  proof
    assume e: "c * 2 mod size_mod = c"
    then have "c < size_mod" using size_mod_gt_0 mod_less_divisor by metis
    have "(c * 2 - c) mod size_mod = 0"
      using e by (metis \<open>c < size_mod\<close> mod_less mod_eq_dvd_iff_nat mult_2_right
          le_add1 dvd_imp_mod_0 mult.commute)
    then show False using \<open>c < size_mod\<close> assms(1) by simp
  qed
  with assms(2) show ?thesis by linarith
qed

termination grow_cap
  by (relation "measure (\<lambda>(c, n). n - c)") (auto dest: double_mod_grows)

declare grow_cap.simps [simp del]

definition vicarl_wbuf_reserve :: "vicarl_allocator \<Rightarrow> nat \<Rightarrow> unit writer" where
  "vicarl_wbuf_reserve A additional s =
     (case s of (w, h) \<Rightarrow>
        let needed = (wb_len w + additional) mod size_mod in
        if needed \<le> wb_cap w then (Inr (), (w, h))
        else
          (case grow_cap (if wb_cap w = 0 then 256 else wb_cap w) needed of
             None \<Rightarrow> (Inl err_oom, (w, h))
           | Some newcap \<Rightarrow>
               (case vicarl__realloc A (wb_ptr w) newcap h of
                  (None, h') \<Rightarrow> (Inl err_oom, (w, h'))
                | (Some p, h') \<Rightarrow> (Inr (), (w\<lparr>wb_ptr := Some p, wb_cap := newcap\<rparr>, h')))))"

text \<open>Storing bytes at \<^verbatim>\<open>data + len\<close> and advancing \<^verbatim>\<open>len\<close>.\<close>

definition wbuf_store :: "bytes \<Rightarrow> unit writer" where
  "wbuf_store bs s =
     (case s of (w, h) \<Rightarrow>
        if wb_len w + length bs \<le> wb_cap w
        then (Inr (), (w\<lparr>wb_data := wb_data w @ bs, wb_len := wb_len w + length bs\<rparr>, h))
        else (Inl (UB ''write past the end of the buffer''), (w, h)))"

definition vicarl_wbuf_put_u8 :: "vicarl_allocator \<Rightarrow> u8 \<Rightarrow> unit writer" where
  "vicarl_wbuf_put_u8 A v = bindr (vicarl_wbuf_reserve A 1) (\<lambda>_. wbuf_store [v])"

definition vicarl_wbuf_put_u16le :: "vicarl_allocator \<Rightarrow> u16 \<Rightarrow> unit writer" where
  "vicarl_wbuf_put_u16le A v =
     bindr (vicarl_wbuf_reserve A 2) (\<lambda>_.
     bindr (wbuf_store [ucast (v AND 0xff)]) (\<lambda>_.
     wbuf_store [ucast (drop_bit 8 v AND 0xff)]))"

text \<open>\<^verbatim>\<open>p\<close> and \<^verbatim>\<open>n\<close> come as one slice.\<close>

definition vicarl_wbuf_put_bytes :: "vicarl_allocator \<Rightarrow> vicarl_slice \<Rightarrow> unit writer" where
  "vicarl_wbuf_put_bytes A p =
     (if sl_len p = 0 then retr ()
      else case sl_ptr p of
             None \<Rightarrow> failr (VErr VICARL_ERR_INVALID_ARGUMENT None)
           | Some bs \<Rightarrow>
               bindr (vicarl_wbuf_reserve A (sl_len p)) (\<lambda>_.
               if sl_len p \<le> length bs then wbuf_store (take (sl_len p) bs)
               else failr (UB ''memcpy reads past the end of the source'')))"

lemma unat_drop_bit_7: "unat (drop_bit 7 (v :: u64)) = unat v div 128"
  unfolding unat_drop_bit_eq by (simp add: drop_bit_eq_div)

lemma drop_bit_7_less: "0x80 \<le> v \<Longrightarrow> unat (drop_bit 7 (v :: u64)) < unat v"
proof -
  assume "0x80 \<le> v"
  then have "128 \<le> unat v" by (simp add: word_le_nat_alt)
  then show ?thesis by (simp add: unat_drop_bit_7)
qed

function put_varu64_loop :: "u64 \<Rightarrow> unit writer" where
  "put_varu64_loop v =
     (if 0x80 \<le> v
      then bindr (wbuf_store [ucast ((v AND 0x7F) OR 0x80)]) (\<lambda>_. put_varu64_loop (drop_bit 7 v))
      else wbuf_store [ucast (v AND 0x7F)])"
  by pat_completeness auto
termination
  by (relation "measure unat") (auto simp: drop_bit_7_less)

declare put_varu64_loop.simps [simp del]

definition vicarl_wbuf_put_varu64 :: "vicarl_allocator \<Rightarrow> u64 \<Rightarrow> unit writer" where
  "vicarl_wbuf_put_varu64 A v =
     bindr (vicarl_wbuf_reserve A VICARL_VARINT_MAX_BYTES_U64) (\<lambda>_. put_varu64_loop v)"

definition vicarl_wbuf_put_ldbytes :: "vicarl_allocator \<Rightarrow> vicarl_slice \<Rightarrow> unit writer" where
  "vicarl_wbuf_put_ldbytes A p =
     (if sl_len p > 0 \<and> sl_ptr p = None then failr (VErr VICARL_ERR_INVALID_ARGUMENT None)
      else bindr (vicarl_wbuf_put_varu64 A (of_nat (sl_len p))) (\<lambda>_. vicarl_wbuf_put_bytes A p))"

definition vicarl_wbuf_put_ldslice :: "vicarl_allocator \<Rightarrow> vicarl_slice \<Rightarrow> unit writer" where
  "vicarl_wbuf_put_ldslice A s = vicarl_wbuf_put_ldbytes A s"

section \<open>Reader\<close>

definition vicarl_rbuf_init :: "bytes \<Rightarrow> nat \<Rightarrow> vicarl_rbuf" where
  "vicarl_rbuf_init d n = \<lparr>rb_data = d, rb_len = n, rb_pos = 0\<rparr>"

definition vicarl_rbuf_remaining :: "vicarl_rbuf \<Rightarrow> nat" where
  "vicarl_rbuf_remaining r = (if rb_pos r > rb_len r then 0 else rb_len r - rb_pos r)"

text \<open>The expression \<^verbatim>\<open>r->data[r->pos++]\<close>.\<close>

definition rbuf_next :: "u8 reader" where
  "rbuf_next r =
     (if rb_pos r < length (rb_data r)
      then (Inr (rb_data r ! rb_pos r), r\<lparr>rb_pos := rb_pos r + 1\<rparr>)
      else (Inl (UB ''read past the end of the buffer''), r))"

text \<open>The guard \<^verbatim>\<open>if (vicarl_rbuf_remaining(r) < n) return bounds();\<close>.\<close>

definition need :: "nat \<Rightarrow> unit reader" where
  "need n r = (if vicarl_rbuf_remaining r < n then (Inl bounds_err, r) else (Inr (), r))"

definition vicarl_rbuf_get_u8 :: "u8 reader" where
  "vicarl_rbuf_get_u8 = bindr (need 1) (\<lambda>_. rbuf_next)"

definition vicarl_rbuf_get_u16le :: "u16 reader" where
  "vicarl_rbuf_get_u16le =
     bindr (need 2) (\<lambda>_.
     bindr rbuf_next (\<lambda>lo.
     bindr rbuf_next (\<lambda>hi.
     retr ((0 OR ucast lo) OR push_bit 8 (ucast hi)))))"

definition vicarl_rbuf_get_bytes :: "nat \<Rightarrow> vicarl_slice reader" where
  "vicarl_rbuf_get_bytes n r =
     (if n = 0 then (Inr \<lparr>sl_ptr = Some [], sl_len = 0\<rparr>, r)
      else if vicarl_rbuf_remaining r < n then (Inl bounds_err, r)
      else (Inr \<lparr>sl_ptr = Some (drop (rb_pos r) (rb_data r)), sl_len = n\<rparr>,
            r\<lparr>rb_pos := rb_pos r + n\<rparr>))"

text \<open>The \<^verbatim>\<open>for\<close> loop with \<open>i\<close> iterations to go; a shift by 64 or more would be undefined.\<close>

fun get_varu64_loop :: "nat \<Rightarrow> u64 \<Rightarrow> nat \<Rightarrow> u64 reader" where
  "get_varu64_loop 0 result shift = failr badvarint_err"
| "get_varu64_loop (Suc i) result shift =
     bindr (need 1) (\<lambda>_.
     bindr rbuf_next (\<lambda>byte.
     let bits = ucast (byte AND 0x7F) :: u64 in
     if shift \<ge> 64 \<and> bits \<noteq> 0 then failr badvarint_err
     else if shift \<ge> 64 then failr (UB ''shift count out of range'')
     else let result' = result OR push_bit shift bits in
       if byte AND 0x80 = 0 then retr result'
       else get_varu64_loop i result' (shift + 7)))"

definition vicarl_rbuf_get_varu64 :: "u64 reader" where
  "vicarl_rbuf_get_varu64 = get_varu64_loop VICARL_VARINT_MAX_BYTES_U64 0 0"

definition vicarl_rbuf_get_ldbytes :: "vicarl_slice reader" where
  "vicarl_rbuf_get_ldbytes =
     bindr vicarl_rbuf_get_varu64 (\<lambda>n64.
     if unat n64 > size_max then failr (fail_with VICARL_ERR_FORMAT ''length too large'')
     else vicarl_rbuf_get_bytes (unat n64))"

section \<open>LEB128 as a function on numbers\<close>

text \<open>The encoding as a function of the number: seven bits per byte, low bits first.\<close>

fun leb128 :: "nat \<Rightarrow> bytes" where
  "leb128 n = (if n < 128 then [of_nat n] else of_nat (n mod 128 + 128) # leb128 (n div 128))"

declare leb128.simps [simp del]

lemma leb128_small: "n < 128 \<Longrightarrow> leb128 n = [of_nat n]"
  by (subst leb128.simps) simp

lemma leb128_large: "\<not> n < 128 \<Longrightarrow> leb128 n = of_nat (n mod 128 + 128) # leb128 (n div 128)"
  by (subst leb128.simps) simp

lemma leb128_length_pos: "0 < length (leb128 n)"
  by (subst leb128.simps) simp

lemma leb128_length_le: "n < 128 ^ Suc k \<Longrightarrow> length (leb128 n) \<le> Suc k"
proof (induction k arbitrary: n)
  case 0
  then show ?case by (simp add: leb128_small)
next
  case (Suc k)
  show ?case
  proof (cases "n < 128")
    case False
    have "n div 128 < 128 ^ Suc k"
      using Suc.prems by (simp add: less_mult_imp_div_less mult.commute)
    with Suc.IH False show ?thesis by (simp add: leb128_large)
  qed (simp add: leb128_small)
qed

lemma leb128_u64_length: "length (leb128 (unat (v :: u64))) \<le> 10"
proof -
  have "unat v < 128 ^ Suc 9"
    using unat_u64_less [of v] by (simp add: size_mod_def)
  then show ?thesis using leb128_length_le [of "unat v" 9] by simp
qed

lemma unat_and_7F: "unat (v AND 0x7F :: 'a::len word) = unat v mod 128" if "8 \<le> LENGTH('a)"
proof -
  have "v AND 0x7F = take_bit 7 v"
    by (simp add: take_bit_eq_mask mask_numeral)
  then have "unat (v AND 0x7F) = take_bit 7 (unat v)"
    by (simp add: unsigned_take_bit_eq)
  then show ?thesis by (simp add: take_bit_eq_mod)
qed

lemma varint_low_byte: "(ucast (v AND 0x7F) :: u8) = of_nat (unat (v :: u64) mod 128)"
  by (rule word_unat_eq_iff [THEN iffD2])
     (simp add: unsigned_ucast_eq unat_and_7F unat_of_nat take_bit_eq_mod)

lemma unat_or_80: "unat ((v AND 0x7F) OR 0x80 :: u64) = unat v mod 128 + 128"
proof -
  have "unat ((v AND 0x7F) OR push_bit 7 1 :: u64) = unat (v AND 0x7F) + unat (1 :: u64) * 2 ^ 7"
    by (rule unat_or_push_bit) (simp_all add: unat_and_7F)
  then show ?thesis by (simp add: unat_and_7F)
qed

lemma varint_cont_byte: "(ucast ((v AND 0x7F) OR 0x80) :: u8) = of_nat (unat (v :: u64) mod 128 + 128)"
proof -
  have "unat (ucast ((v AND 0x7F) OR 0x80) :: u8) = unat ((v AND 0x7F) OR 0x80) mod 256"
    by (simp add: unsigned_ucast_eq take_bit_eq_mod)
  also have "\<dots> = unat (of_nat (unat v mod 128 + 128) :: u8)"
    unfolding unat_or_80 unat_of_nat by simp
  finally show ?thesis by (simp add: word_unat_eq_iff)
qed

lemma unat_eq_of_nat_self: "unat (w :: u64) = n \<Longrightarrow> w = of_nat n"
  by auto

lemma unat_small_u8: "n < 256 \<Longrightarrow> unat (of_nat n :: u8) = n"
  by (simp add: unat_of_nat)

lemma byte_msb: "(b :: u8) AND 0x80 = 0 \<longleftrightarrow> unat b < 128"
proof -
  have "b AND 2 ^ 7 = 0 \<longleftrightarrow> \<not> bit b 7"
    by (rule and_exp_eq_0_iff_not_bit)
  also have "\<dots> \<longleftrightarrow> \<not> bit (unat b) 7"
    by (simp add: bit_unsigned_iff)
  also have "\<dots> \<longleftrightarrow> unat b < 128"
  proof -
    have "unat b < 256" using unsigned_less [of b] by simp
    then have "\<not> unat b < 128 \<Longrightarrow> unat b div 128 = 1"
      by (intro div_nat_eqI) simp_all
    then show ?thesis by (cases "unat b < 128") (simp_all add: bit_iff_odd)
  qed
  finally show ?thesis by simp
qed


section \<open>Reading back\<close>

definition rbuf_wf :: "vicarl_rbuf \<Rightarrow> bool" where
  "rbuf_wf r \<longleftrightarrow> rb_len r = length (rb_data r) \<and> rb_pos r \<le> rb_len r"

text \<open>The bytes still to be read.\<close>

definition unread :: "vicarl_rbuf \<Rightarrow> bytes" where
  "unread r = drop (rb_pos r) (rb_data r)"

definition rbuf_skip :: "nat \<Rightarrow> vicarl_rbuf \<Rightarrow> vicarl_rbuf" where
  "rbuf_skip n r = r\<lparr>rb_pos := rb_pos r + n\<rparr>"

lemma rbuf_wf_init [simp]: "rbuf_wf (vicarl_rbuf_init bs (length bs))"
  and unread_init [simp]: "unread (vicarl_rbuf_init bs n) = bs"
  by (simp_all add: rbuf_wf_def unread_def vicarl_rbuf_init_def)

lemma remaining_unread: "rbuf_wf r \<Longrightarrow> vicarl_rbuf_remaining r = length (unread r)"
  by (simp add: rbuf_wf_def unread_def vicarl_rbuf_remaining_def)

lemma rbuf_skip_wf: "rbuf_wf r \<Longrightarrow> n \<le> length (unread r) \<Longrightarrow> rbuf_wf (rbuf_skip n r)"
  by (auto simp: rbuf_wf_def unread_def rbuf_skip_def)

lemma unread_skip [simp]: "unread (rbuf_skip n r) = drop n (unread r)"
  by (simp add: unread_def rbuf_skip_def add.commute)

lemma rbuf_skip_skip [simp]: "rbuf_skip n (rbuf_skip m r) = rbuf_skip (m + n) r"
  by (simp add: rbuf_skip_def)

lemma rbuf_skip_0 [simp]: "rbuf_skip 0 r = r"
  by (simp add: rbuf_skip_def)

lemma rbuf_next_Cons: "unread r = b # t \<Longrightarrow> rbuf_next r = (Inr b, rbuf_skip 1 r)"
proof -
  assume u: "unread r = b # t"
  then have "rb_pos r < length (rb_data r)"
    by (metis unread_def drop_all list.distinct(1) not_le)
  with u show ?thesis
    by (auto simp: rbuf_next_def rbuf_skip_def unread_def dest: hd_drop_conv_nth)
qed

lemma need_run: "rbuf_wf r \<Longrightarrow> need n r = (if length (unread r) < n then (Inl bounds_err, r) else (Inr (), r))"
  by (simp add: need_def remaining_unread)

text \<open>
  A reader that, on any input that starts with \<open>bs\<close>, consumes exactly \<open>bs\<close> and returns a value that
  satisfies \<open>Q\<close>.
\<close>

definition reads :: "'a reader \<Rightarrow> bytes \<Rightarrow> ('a \<Rightarrow> bool) \<Rightarrow> bool" where
  "reads m bs Q \<longleftrightarrow>
     (\<forall>r t. rbuf_wf r \<longrightarrow> unread r = bs @ t \<longrightarrow> (\<exists>x. m r = (Inr x, rbuf_skip (length bs) r) \<and> Q x))"

lemma readsI:
  "(\<And>r t. rbuf_wf r \<Longrightarrow> unread r = bs @ t \<Longrightarrow> \<exists>x. m r = (Inr x, rbuf_skip (length bs) r) \<and> Q x)
   \<Longrightarrow> reads m bs Q"
  by (simp add: reads_def)

lemma readsD:
  "reads m bs Q \<Longrightarrow> rbuf_wf r \<Longrightarrow> unread r = bs @ t \<Longrightarrow>
   \<exists>x. m r = (Inr x, rbuf_skip (length bs) r) \<and> Q x"
  by (simp add: reads_def)

lemma reads_retr: "Q x \<Longrightarrow> reads (retr x) [] Q"
  by (rule readsI) (simp add: retr_def)

lemma reads_bindr:
  assumes m: "reads m bs Q" and f: "\<And>x. Q x \<Longrightarrow> reads (f x) cs R"
  shows "reads (bindr m f) (bs @ cs) R"
proof (rule readsI)
  fix r t assume wf: "rbuf_wf r" and u: "unread r = (bs @ cs) @ t"
  from readsD [OF m wf] u obtain x where x: "m r = (Inr x, rbuf_skip (length bs) r)" "Q x"
    by auto
  have "rbuf_wf (rbuf_skip (length bs) r)" using wf u by (simp add: rbuf_skip_wf)
  from readsD [OF f [OF x(2)] this, of t] u
  show "\<exists>y. bindr m f r = (Inr y, rbuf_skip (length (bs @ cs)) r) \<and> R y"
    using x(1) by (auto simp: bindr_Inr)
qed

lemma reads_guardr: "b \<Longrightarrow> reads (guardr b e) [] (\<lambda>_. True)"
  by (simp add: reads_retr)

lemma reads_rethrow: "reads m bs Q \<Longrightarrow> reads (rethrow g m) bs Q"
  by (auto simp: reads_def rethrow_def)

lemma reads_get_u8: "reads vicarl_rbuf_get_u8 [b] (\<lambda>x. x = b)"
  by (rule readsI)
     (simp add: vicarl_rbuf_get_u8_def bindr_def need_run rbuf_next_Cons)

lemma reads_get_bytes:
  "n = length bs \<Longrightarrow> reads (vicarl_rbuf_get_bytes n) bs (\<lambda>s. slice_bytes s = bs \<and> sl_len s = n \<and> sl_ptr s \<noteq> None)"
  by (rule readsI)
     (auto simp: vicarl_rbuf_get_bytes_def remaining_unread slice_bytes_def unread_def [symmetric]
        rbuf_skip_def)

text \<open>The arithmetic of one more group of seven bits.\<close>

lemma septet_more:
  assumes "\<not> n < 128" "n * 2 ^ shift + res < (2 :: nat) ^ 64" "res < 2 ^ shift"
  shows "shift + 7 < 64" "res + n mod 128 * 2 ^ shift < 2 ^ (shift + 7)"
    "res + n mod 128 * 2 ^ shift + n div 128 * 2 ^ (shift + 7) = res + n * 2 ^ shift"
proof -
  have p: "2 ^ (shift + 7) = 128 * (2 :: nat) ^ shift" by (simp add: power_add)
  moreover have "128 * 2 ^ shift \<le> n * 2 ^ shift" using assms(1) by (intro mult_right_mono) simp_all
  ultimately have "2 ^ (shift + 7) < (2 :: nat) ^ 64" using assms(2) by linarith
  then show "shift + 7 < 64" by (rule power_less_imp_less_exp [rotated]) simp
  have "n mod 128 * 2 ^ shift \<le> 127 * 2 ^ shift" by (intro mult_right_mono) auto
  with p show "res + n mod 128 * 2 ^ shift < 2 ^ (shift + 7)" using assms(3) by linarith
  have "n mod 128 * 2 ^ shift + n div 128 * 128 * 2 ^ shift = (n mod 128 + n div 128 * 128) * 2 ^ shift"
    by (simp only: distrib_right)
  then show "res + n mod 128 * 2 ^ shift + n div 128 * 2 ^ (shift + 7) = res + n * 2 ^ shift"
    unfolding p by (simp add: mult.assoc)
qed

lemma leb128_head: "unat (hd (leb128 n)) = (if n < 128 then n else n mod 128 + 128)"
  using unat_small_u8 [of "n mod 128 + 128"] unat_small_u8 [of n]
  by (auto simp: leb128_small leb128_large simp del: of_nat_add)

lemma get_varu64_loop_leb128:
  assumes "rbuf_wf r" "unread r = leb128 n @ t" "length (leb128 n) \<le> i"
    and "unat res < 2 ^ shift" "n * 2 ^ shift + unat res < 2 ^ 64" "shift < 64"
  shows "get_varu64_loop i res shift r =
    (Inr (of_nat (unat res + n * 2 ^ shift)), rbuf_skip (length (leb128 n)) r)"
  using assms
proof (induction i arbitrary: n res shift r)
  case 0
  then show ?case using leb128_length_pos [of n] by simp
next
  case (Suc i)
  define b where "b = hd (leb128 n)"
  have ub: "unat b = (if n < 128 then n else n mod 128 + 128)" by (simp add: b_def leb128_head)
  have bt: "unread r = b # (tl (leb128 n) @ t)"
    using Suc.prems(2) leb128_length_pos [of n] by (cases "leb128 n") (auto simp: b_def)
  have bits: "unat (ucast (b AND 0x7F) :: u64) = n mod 128"
    using ub by (simp add: unsigned_ucast_eq unat_and_7F take_bit_nat_eq_self)
  have le: "n mod 128 * 2 ^ shift \<le> n * 2 ^ shift" by simp
  define res' where "res' = res OR push_bit shift (ucast (b AND 0x7F))"
  have ures: "unat res' = unat res + n mod 128 * 2 ^ shift"
  proof -
    have "unat (ucast (b AND 0x7F) :: u64) * 2 ^ shift < 2 ^ 64"
      unfolding bits using Suc.prems(5) le by linarith
    then show ?thesis
      unfolding res'_def using Suc.prems(4,6) bits by (simp add: unat_or_push_bit)
  qed
  have step: "get_varu64_loop (Suc i) res shift r =
      (if b AND 0x80 = 0 then (Inr res', rbuf_skip 1 r) else get_varu64_loop i res' (shift + 7) (rbuf_skip 1 r))"
    using Suc.prems(1,6) bt
    by (simp add: bindr_def need_run rbuf_next_Cons res'_def vm_simps Let_def)
  show ?case
  proof (cases "n < 128")
    case True
    then have "res' = of_nat (unat res + n * 2 ^ shift)"
      using ures by (metis mod_less unat_eq_of_nat_self)
    with True show ?thesis unfolding step by (simp add: byte_msb ub leb128_small)
  next
    case False
    let ?r = "rbuf_skip 1 r"
    have sh: "shift + 7 < 64" and small: "unat res' < 2 ^ (shift + 7)"
      and eq: "unat res' + n div 128 * 2 ^ (shift + 7) = unat res + n * 2 ^ shift"
      unfolding ures using septet_more [OF False Suc.prems(5,4)] by simp_all
    have "get_varu64_loop i res' (shift + 7) ?r =
        (Inr (of_nat (unat res' + n div 128 * 2 ^ (shift + 7))), rbuf_skip (length (leb128 (n div 128))) ?r)"
      using Suc.prems False bt eq sh small
      by (intro Suc.IH) (auto simp: rbuf_skip_wf leb128_large add.commute)
    with False eq show ?thesis unfolding step by (simp add: byte_msb ub leb128_large)
  qed
qed

lemma reads_get_varu64: "reads vicarl_rbuf_get_varu64 (leb128 (unat v)) (\<lambda>x. x = v)"
proof (rule readsI)
  fix r t assume "rbuf_wf r" "unread r = leb128 (unat v) @ t"
  then show "\<exists>x. vicarl_rbuf_get_varu64 r = (Inr x, rbuf_skip (length (leb128 (unat v))) r) \<and> x = v"
    using get_varu64_loop_leb128 [of r "unat v" t 10 0 0] leb128_u64_length [of v]
      unat_u64_less [of v]
    by (simp add: vicarl_rbuf_get_varu64_def VICARL_VARINT_MAX_BYTES_U64_def size_mod_def)
qed

text \<open>Length-delimited bytes.\<close>

definition ldbytes :: "bytes \<Rightarrow> bytes" where
  "ldbytes bs = leb128 (length bs) @ bs"

lemma reads_get_ldbytes:
  assumes "length bs < size_mod"
  shows "reads vicarl_rbuf_get_ldbytes (ldbytes bs)
    (\<lambda>s. slice_bytes s = bs \<and> sl_len s = length bs \<and> sl_ptr s \<noteq> None)"
proof -
  have u: "unat (of_nat (length bs) :: u64) = length bs"
    using assms by (rule unat_of_nat_u64)
  show ?thesis
    unfolding vicarl_rbuf_get_ldbytes_def ldbytes_def
    using assms reads_get_varu64 [of "of_nat (length bs)"] u
    by (intro reads_bindr [where Q = "\<lambda>x. x = of_nat (length bs)"])
       (auto simp: u size_max_def size_mod_def simp del: not_None_eq intro: reads_get_bytes)
qed


lemma rbuf_next_hd: "unread r \<noteq> [] \<Longrightarrow> rbuf_next r = (Inr (hd (unread r)), rbuf_skip 1 r)"
  by (cases "unread r") (simp_all add: rbuf_next_Cons)

lemma reads_get_u16le: "reads vicarl_rbuf_get_u16le [ucast (v AND 0xff), ucast (drop_bit 8 v AND 0xff)] (\<lambda>x. x = v)"
proof (rule readsI)
  fix r t assume wf: "rbuf_wf r"
    and u: "unread r = [ucast (v AND 0xff), ucast (drop_bit 8 v AND 0xff)] @ t"
  let ?lo = "ucast (v AND 0xff) :: u8" and ?hi = "ucast (drop_bit 8 v AND 0xff) :: u8"
  have ff: "(0xff :: u16) = mask 8"
    by (simp add: mask_numeral)
  have "(0 OR ucast ?lo) OR push_bit 8 (ucast ?hi) = v"
    unfolding ff by (rule bit_word_eqI) (auto simp: bit_simps)
  moreover have "rbuf_next r = (Inr ?lo, rbuf_skip 1 r)"
    "rbuf_next (rbuf_skip 1 r) = (Inr ?hi, rbuf_skip 1 (rbuf_skip 1 r))"
    using u by (simp_all add: rbuf_next_hd)
  ultimately show "\<exists>x. vicarl_rbuf_get_u16le r = (Inr x, rbuf_skip (length [?lo, ?hi]) r) \<and> x = v"
    using wf u by (simp add: vicarl_rbuf_get_u16le_def bindr_def need_run retr_def)
qed

section \<open>Readers are safe\<close>

text \<open>
  On a well-formed buffer a reader stays inside it, keeps its contents, and fails only with a
  format error; in particular it never reads outside the buffer.
\<close>

definition reader_safe :: "'a reader \<Rightarrow> bool" where
  "reader_safe m \<longleftrightarrow>
     (\<forall>r. rbuf_wf r \<longrightarrow>
        outcome m (\<lambda>x r'. \<exists>k \<le> length (unread r). r' = rbuf_skip k r)
          (\<lambda>e r'. \<exists>msg. e = VErr VICARL_ERR_FORMAT (Some msg)) r)"

lemma reader_safeD_Inl: "reader_safe m \<Longrightarrow> rbuf_wf r \<Longrightarrow> m r = (Inl e, r') \<Longrightarrow> \<exists>msg. e = VErr VICARL_ERR_FORMAT (Some msg)"
  unfolding reader_safe_def outcome_def by (drule spec [of _ r]) simp

lemma reader_safeD_Inr:
  "reader_safe m \<Longrightarrow> rbuf_wf r \<Longrightarrow> m r = (Inr x, r') \<Longrightarrow> \<exists>k \<le> length (unread r). r' = rbuf_skip k r"
  unfolding reader_safe_def outcome_def by (drule spec [of _ r]) simp

named_theorems reader_safe_intros "rules that prove readers safe"

lemma reader_safe_retr [reader_safe_intros]: "reader_safe (retr x)"
  by (auto simp: reader_safe_def outcome_def retr_def intro: exI [of _ 0])

lemma reader_safe_failr [reader_safe_intros]: "reader_safe (failr (fail_with VICARL_ERR_FORMAT m))"
  by (simp add: reader_safe_def outcome_def failr_def fail_with_def)

lemma reader_safe_badfmt [reader_safe_intros]: "reader_safe (failr (badfmt m))"
  by (simp add: badfmt_def reader_safe_failr)

lemma reader_safe_guardr [reader_safe_intros]: "reader_safe (guardr b (badfmt m))"
  by (cases b) (simp_all add: reader_safe_intros)

lemma reader_safe_bindr [reader_safe_intros]:
  assumes m: "reader_safe m" and f: "\<And>x. reader_safe (f x)"
  shows "reader_safe (bindr m f)"
  unfolding reader_safe_def
proof (intro allI impI outcome_bindr)
  fix r assume wf: "rbuf_wf r"
  show "outcome m (\<lambda>x. outcome (f x) (\<lambda>y r'. \<exists>k\<le>length (unread r). r' = rbuf_skip k r)
      (\<lambda>e r'. \<exists>msg. e = VErr VICARL_ERR_FORMAT (Some msg)))
      (\<lambda>e r'. \<exists>msg. e = VErr VICARL_ERR_FORMAT (Some msg)) r"
  proof (rule outcome_mono)
    show "outcome m (\<lambda>x r'. \<exists>k\<le>length (unread r). r' = rbuf_skip k r)
        (\<lambda>e r'. \<exists>msg. e = VErr VICARL_ERR_FORMAT (Some msg)) r"
      using m wf by (simp add: reader_safe_def)
  next
    fix x r1 assume "\<exists>k\<le>length (unread r). r1 = rbuf_skip k r"
    then obtain k where k: "k \<le> length (unread r)" "r1 = rbuf_skip k r" by blast
    then have "rbuf_wf r1" using wf by (simp add: rbuf_skip_wf)
    then have "outcome (f x) (\<lambda>y r'. \<exists>k\<le>length (unread r1). r' = rbuf_skip k r1)
        (\<lambda>e r'. \<exists>msg. e = VErr VICARL_ERR_FORMAT (Some msg)) r1"
      using f by (simp add: reader_safe_def)
    then show "outcome (f x) (\<lambda>y r'. \<exists>k\<le>length (unread r). r' = rbuf_skip k r)
        (\<lambda>e r'. \<exists>msg. e = VErr VICARL_ERR_FORMAT (Some msg)) r1"
    proof (rule outcome_mono)
      fix y r' assume "\<exists>j\<le>length (unread r1). r' = rbuf_skip j r1"
      then obtain j where "j \<le> length (unread r1)" "r' = rbuf_skip j r1" by blast
      with k show "\<exists>k\<le>length (unread r). r' = rbuf_skip k r"
        by (intro exI [of _ "k + j"]) auto
    qed
  qed auto
qed

lemma reader_safe_rethrow [reader_safe_intros]:
  "reader_safe m \<Longrightarrow> reader_safe (rethrow (replace_err (badfmt s)) m)"
  unfolding reader_safe_def
  by (auto intro!: outcome_rethrow elim!: outcome_mono simp: badfmt_def fail_with_def)

lemma outcome_need_next:
  "rbuf_wf r \<Longrightarrow> outcome (bindr (need 1) (\<lambda>_. rbuf_next))
     (\<lambda>x r'. \<exists>t. unread r = x # t \<and> r' = rbuf_skip 1 r) (\<lambda>e r'. e = bounds_err) r"
  by (cases "unread r") (simp_all add: outcome_def bindr_def need_run rbuf_next_Cons)

lemma reader_safe_next: "reader_safe (bindr (need 1) (\<lambda>_. rbuf_next))"
  unfolding reader_safe_def
proof (intro allI impI)
  fix r assume "rbuf_wf r"
  from outcome_need_next [OF this]
  show "outcome (bindr (need 1) (\<lambda>_. rbuf_next)) (\<lambda>x r'. \<exists>k\<le>length (unread r). r' = rbuf_skip k r)
     (\<lambda>e r'. \<exists>msg. e = VErr VICARL_ERR_FORMAT (Some msg)) r"
    by (rule outcome_mono) (auto simp: bounds_err_def fail_with_def intro: exI [of _ "Suc 0"])
qed

lemma reader_safe_get_u8 [reader_safe_intros]: "reader_safe vicarl_rbuf_get_u8"
  unfolding vicarl_rbuf_get_u8_def by (rule reader_safe_next)

lemma reader_safe_get_u16le [reader_safe_intros]: "reader_safe vicarl_rbuf_get_u16le"
  unfolding reader_safe_def outcome_def
proof (intro allI impI)
  fix r assume wf: "rbuf_wf r"
  show "case vicarl_rbuf_get_u16le r of
      (Inl e, r') \<Rightarrow> \<exists>msg. e = VErr VICARL_ERR_FORMAT (Some msg)
    | (Inr x, r') \<Rightarrow> \<exists>k\<le>length (unread r). r' = rbuf_skip k r"
  proof (cases "length (unread r) < 2")
    case True
    with wf show ?thesis
      by (simp add: vicarl_rbuf_get_u16le_def bindr_def need_run bounds_err_def fail_with_def)
  next
    case False
    then obtain a b t where u: "unread r = a # b # t"
      by (cases "unread r"; cases "tl (unread r)") auto
    then have "rbuf_next r = (Inr a, rbuf_skip 1 r)" "rbuf_next (rbuf_skip 1 r) = (Inr b, rbuf_skip 1 (rbuf_skip 1 r))"
      by (simp_all add: rbuf_next_hd)
    with u wf show ?thesis
      by (auto simp: vicarl_rbuf_get_u16le_def bindr_def need_run retr_def intro: exI [of _ "Suc (Suc 0)"])
  qed
qed

lemma get_bytes_cases:
  "rbuf_wf r \<Longrightarrow> outcome (vicarl_rbuf_get_bytes n)
     (\<lambda>s r'. n \<le> length (unread r) \<and> slice_bytes s = take n (unread r) \<and> sl_len s = n \<and>
        sl_ptr s \<noteq> None \<and> r' = rbuf_skip n r)
     (\<lambda>e r'. e = bounds_err) r"
  by (auto simp: outcome_def vicarl_rbuf_get_bytes_def remaining_unread slice_bytes_def
      unread_def [symmetric] rbuf_skip_def)

lemma reader_safe_get_bytes [reader_safe_intros]: "reader_safe (vicarl_rbuf_get_bytes n)"
  unfolding reader_safe_def
  by (auto elim!: outcome_mono [OF get_bytes_cases] simp: bounds_err_def fail_with_def)

lemma reader_safe_varu64_loop:
  "shift + 7 * i \<le> 70 \<Longrightarrow> reader_safe (get_varu64_loop i res shift)"
proof (induction i arbitrary: res shift)
  case 0
  then show ?case by (simp add: badvarint_err_def reader_safe_intros)
next
  case (Suc i)
  let ?body = "\<lambda>byte. let bits = ucast (byte AND 0x7F) :: u64 in
     if shift \<ge> 64 \<and> bits \<noteq> 0 then failr badvarint_err
     else if shift \<ge> 64 then failr (UB ''shift count out of range'')
     else let result' = res OR push_bit shift bits in
       if byte AND 0x80 = 0 then retr result'
       else get_varu64_loop i result' (shift + 7)"
  have eq: "get_varu64_loop (Suc i) res shift = bindr (bindr (need 1) (\<lambda>_. rbuf_next)) ?body"
    by (simp add: bindr_assoc)
  show ?case
    unfolding eq using Suc
    by (intro reader_safe_bindr reader_safe_next) (simp add: Let_def badvarint_err_def reader_safe_intros)
qed

lemma reader_safe_get_varu64 [reader_safe_intros]: "reader_safe vicarl_rbuf_get_varu64"
  by (simp add: vicarl_rbuf_get_varu64_def VICARL_VARINT_MAX_BYTES_U64_def reader_safe_varu64_loop)

lemma reader_safe_get_ldbytes [reader_safe_intros]: "reader_safe vicarl_rbuf_get_ldbytes"
  unfolding vicarl_rbuf_get_ldbytes_def
  by (auto intro!: reader_safe_intros)


section \<open>Writers append\<close>

lemma grow_cap_Some:
  "grow_cap c n = Some c' \<Longrightarrow> 0 < c \<Longrightarrow> c < size_mod \<Longrightarrow> n \<le> c' \<and> c \<le> c' \<and> c' < size_mod"
proof (induction c n rule: grow_cap.induct)
  case (1 c n)
  show ?case
  proof (cases "c < n")
    case True
    with "1.prems" have "\<not> c * 2 mod size_mod < c" and rec: "grow_cap (c * 2 mod size_mod) n = Some c'"
      by (auto simp: grow_cap.simps [of c n] Let_def split: if_splits)
    then have "n \<le> c' \<and> c * 2 mod size_mod \<le> c' \<and> c' < size_mod"
      using "1.IH" [of "c * 2 mod size_mod"] True "1.prems" by auto
    with \<open>\<not> c * 2 mod size_mod < c\<close> show ?thesis by simp
  next
    case False
    with "1.prems" show ?thesis by (auto simp: grow_cap.simps [of c n])
  qed
qed

lemma grow_cap_succeeds: "0 < c \<Longrightarrow> n \<le> 2 ^ 63 \<Longrightarrow> \<exists>c'. grow_cap c n = Some c'"
proof (induction c n rule: grow_cap.induct)
  case (1 c n)
  show ?case
  proof (cases "c < n")
    case True
    with "1.prems" have m: "c * 2 mod size_mod = c * 2" by (simp add: size_mod_def)
    with True "1.prems" "1.IH" [of "c * 2"] show ?thesis
      by (simp add: grow_cap.simps [of c n])
  qed (simp add: grow_cap.simps [of c n])
qed

definition wbuf_wf :: "vicarl_wbuf \<Rightarrow> bool" where
  "wbuf_wf w \<longleftrightarrow> wb_len w = length (wb_data w) \<and> wb_len w \<le> wb_cap w \<and> wb_cap w < size_mod \<and>
     (wb_ptr w = None \<longrightarrow> wb_cap w = 0)"

text \<open>
  The buffer is well formed and owns its block; the other live blocks are \<open>L\<close>; no bad free happened
  since the heap had \<open>b\<close> in its record.
\<close>

definition wbuf_inv :: "(heap \<Rightarrow> bool) \<Rightarrow> addr set \<Rightarrow> bool \<Rightarrow> vicarl_wbuf \<times> heap \<Rightarrow> bool" where
  "wbuf_inv ok L b s \<longleftrightarrow>
     wbuf_wf (fst s) \<and> ok (snd s) \<and> hp_live (snd s) = L \<union> set_option (wb_ptr (fst s)) \<and>
     set_option (wb_ptr (fst s)) \<inter> L = {} \<and> hp_bad (snd s) = b"

text \<open>
  A writer that appends \<open>bs\<close> or fails for lack of memory, and keeps the invariant either way. With
  \<open>rel\<close>, it does not fail as long as the contents stay below half of the address space.
\<close>

definition appends :: "(heap \<Rightarrow> bool) \<Rightarrow> bool \<Rightarrow> unit writer \<Rightarrow> bytes \<Rightarrow> bool" where
  "appends ok rel m bs \<longleftrightarrow>
     (\<forall>s L b. wbuf_inv ok L b s \<longrightarrow> length (wb_data (fst s)) + length bs + 10 < size_mod \<longrightarrow>
        outcome m
          (\<lambda>_ s'. wbuf_inv ok L b s' \<and> wb_data (fst s') = wb_data (fst s) @ bs)
          (\<lambda>e s'. wbuf_inv ok L b s' \<and> e = err_oom \<and>
             \<not> (rel \<and> length (wb_data (fst s)) + length bs + 10 \<le> 2 ^ 63)) s)"

lemma appendsD:
  "appends ok rel m bs \<Longrightarrow> wbuf_inv ok L b s \<Longrightarrow> length (wb_data (fst s)) + length bs + 10 < size_mod \<Longrightarrow>
     outcome m
       (\<lambda>_ s'. wbuf_inv ok L b s' \<and> wb_data (fst s') = wb_data (fst s) @ bs)
       (\<lambda>e s'. wbuf_inv ok L b s' \<and> e = err_oom \<and>
          \<not> (rel \<and> length (wb_data (fst s)) + length bs + 10 \<le> 2 ^ 63)) s"
  unfolding appends_def by blast

named_theorems appends_intros "rules that prove what writers append"

lemma appends_retr: "appends ok rel (retr ()) []"
  by (simp add: appends_def outcome_def retr_def)

lemma appends_bindr:
  assumes m: "appends ok rel m bs" and f: "appends ok rel (f ()) cs"
  shows "appends ok rel (bindr m f) (bs @ cs)"
  unfolding appends_def
proof (intro allI impI outcome_bindr)
  fix s L b
  assume inv: "wbuf_inv ok L b s" and bound: "length (wb_data (fst s)) + length (bs @ cs) + 10 < size_mod"
  have "outcome m (\<lambda>_ s'. wbuf_inv ok L b s' \<and> wb_data (fst s') = wb_data (fst s) @ bs)
          (\<lambda>e s'. wbuf_inv ok L b s' \<and> e = err_oom \<and>
             \<not> (rel \<and> length (wb_data (fst s)) + length bs + 10 \<le> 2 ^ 63)) s"
    using m inv bound by (intro appendsD) auto
  then show "outcome m (\<lambda>x. outcome (f x)
      (\<lambda>_ s'. wbuf_inv ok L b s' \<and> wb_data (fst s') = wb_data (fst s) @ bs @ cs)
      (\<lambda>e s'. wbuf_inv ok L b s' \<and> e = err_oom \<and>
         \<not> (rel \<and> length (wb_data (fst s)) + length (bs @ cs) + 10 \<le> 2 ^ 63)))
      (\<lambda>e s'. wbuf_inv ok L b s' \<and> e = err_oom \<and>
         \<not> (rel \<and> length (wb_data (fst s)) + length (bs @ cs) + 10 \<le> 2 ^ 63)) s"
  proof (rule outcome_mono)
    fix x t assume t: "wbuf_inv ok L b t \<and> wb_data (fst t) = wb_data (fst s) @ bs"
    have "appends ok rel (f x) cs" using f by (cases x) simp
    with t have "outcome (f x) (\<lambda>_ s'. wbuf_inv ok L b s' \<and> wb_data (fst s') = wb_data (fst t) @ cs)
          (\<lambda>e s'. wbuf_inv ok L b s' \<and> e = err_oom \<and>
             \<not> (rel \<and> length (wb_data (fst t)) + length cs + 10 \<le> 2 ^ 63)) t"
      using bound by (intro appendsD) auto
    then show "outcome (f x)
      (\<lambda>_ s'. wbuf_inv ok L b s' \<and> wb_data (fst s') = wb_data (fst s) @ bs @ cs)
      (\<lambda>e s'. wbuf_inv ok L b s' \<and> e = err_oom \<and>
         \<not> (rel \<and> length (wb_data (fst s)) + length (bs @ cs) + 10 \<le> 2 ^ 63)) t"
      by (rule outcome_mono) (use t in auto)
  qed auto
qed

lemma appends_bindr_unit:
  "appends ok rel m bs \<Longrightarrow> appends ok rel m' cs \<Longrightarrow> appends ok rel (bindr m (\<lambda>_. m')) (bs @ cs)"
  by (rule appends_bindr)

text \<open>After a successful reservation there is room for the bytes reserved.\<close>

definition reserved :: "(heap \<Rightarrow> bool) \<Rightarrow> addr set \<Rightarrow> bool \<Rightarrow> bytes \<Rightarrow> nat \<Rightarrow> vicarl_wbuf \<times> heap \<Rightarrow> bool" where
  "reserved ok L b d n s \<longleftrightarrow> wbuf_inv ok L b s \<and> wb_data (fst s) = d \<and> length d + n \<le> wb_cap (fst s)"

lemma wbuf_store_reserved:
  "reserved ok L b d n s \<Longrightarrow> length bs \<le> n \<Longrightarrow>
     \<exists>s'. wbuf_store bs s = (Inr (), s') \<and> reserved ok L b (d @ bs) (n - length bs) s'"
  by (cases s) (auto simp: reserved_def wbuf_inv_def wbuf_wf_def wbuf_store_def)

context allocator
begin

lemma reserve_outcome:
  assumes rel: "rel \<Longrightarrow> (\<And>q n h. ok h \<Longrightarrow> \<exists>p h'. realloc_fn A q n h = (Some p, h'))"
    and inv: "wbuf_inv ok L b s" and bound: "length (wb_data (fst s)) + n < size_mod"
  shows "outcome (vicarl_wbuf_reserve A n)
    (\<lambda>_ s'. reserved ok L b (wb_data (fst s)) n s')
    (\<lambda>e s'. wbuf_inv ok L b s' \<and> e = err_oom \<and> \<not> (rel \<and> length (wb_data (fst s)) + n \<le> 2 ^ 63)) s"
proof -
  obtain w h where s: "s = (w, h)" by (cases s)
  have len: "wb_len w = length (wb_data w)" and cap: "wb_cap w < size_mod" and okh: "ok h"
    and live: "hp_live h = L \<union> set_option (wb_ptr w)" and disj: "set_option (wb_ptr w) \<inter> L = {}"
    and bad: "hp_bad h = b"
    using inv by (auto simp: s wbuf_inv_def wbuf_wf_def)
  have m: "(wb_len w + n) mod size_mod = length (wb_data w) + n" using bound len by (simp add: s)
  let ?c0 = "if wb_cap w = 0 then 256 else wb_cap w"
  have c0: "0 < ?c0" "?c0 < size_mod" using cap by (auto simp: size_mod_def)
  show ?thesis
  proof (cases "length (wb_data w) + n \<le> wb_cap w")
    case True
    with inv m show ?thesis
      by (simp add: s outcome_def vicarl_wbuf_reserve_def reserved_def)
  next
    case big: False
    show ?thesis
    proof (cases "grow_cap ?c0 (length (wb_data w) + n)")
      case None
      with grow_cap_succeeds [OF c0(1), of "length (wb_data w) + n"]
      have "\<not> length (wb_data w) + n \<le> 2 ^ 63" by auto
      with None big m inv show ?thesis
        by (simp add: s outcome_def vicarl_wbuf_reserve_def)
    next
      case (Some c)
      from grow_cap_Some [OF Some c0] have c: "length (wb_data w) + n \<le> c" "c < size_mod" by auto
      obtain r h' where re: "vicarl__realloc A (wb_ptr w) c h = (r, h')"
        by (cases "vicarl__realloc A (wb_ptr w) c h")
      have sub: "set_option (wb_ptr w) \<subseteq> hp_live h" using live by simp
      show ?thesis
      proof (cases r)
        case None
        have "heap_to ok h (hp_live h) h'" using vrealloc_None [OF okh sub] re None by blast
        moreover have "\<not> rel"
          using rel [OF _ okh, of "wb_ptr w" "if c = 0 then 1 else c"] re None
          by (auto simp: vicarl__realloc_def)
        ultimately show ?thesis
          using None Some big m re live disj bad inv
          by (simp add: s outcome_def vicarl_wbuf_reserve_def wbuf_inv_def heap_to_def)
      next
        case p: (Some p)
        have "p \<notin> hp_live h - set_option (wb_ptr w) \<and>
            heap_to ok h (insert p (hp_live h - set_option (wb_ptr w))) h'"
          using vrealloc_Some [OF okh sub] re p by blast
        moreover have "hp_live h - set_option (wb_ptr w) = L" using live disj by auto
        ultimately show ?thesis
          using p Some big m re bad c len
          by (simp add: s outcome_def vicarl_wbuf_reserve_def reserved_def wbuf_inv_def heap_to_def wbuf_wf_def)
      qed
    qed
  qed
qed

text \<open>A reservation followed by stores of at most the reserved bytes appends.\<close>

lemma appends_reserve_store:
  assumes rel: "rel \<Longrightarrow> (\<And>q n h. ok h \<Longrightarrow> \<exists>p h'. realloc_fn A q n h = (Some p, h'))"
    and n: "n \<le> length bs + 10"
    and m: "\<And>L b d s. reserved ok L b d n s \<Longrightarrow> \<exists>s' k. m s = (Inr (), s') \<and> reserved ok L b (d @ bs) k s'"
  shows "appends ok rel (bindr (vicarl_wbuf_reserve A n) (\<lambda>_. m)) bs"
  unfolding appends_def
proof (intro allI impI outcome_bindr)
  fix s L b
  assume inv: "wbuf_inv ok L b s" and bound: "length (wb_data (fst s)) + length bs + 10 < size_mod"
  have "length (wb_data (fst s)) + n < size_mod" using bound n by linarith
  from reserve_outcome [OF rel inv this]
  show "outcome (vicarl_wbuf_reserve A n) (\<lambda>x. outcome m
      (\<lambda>_ s'. wbuf_inv ok L b s' \<and> wb_data (fst s') = wb_data (fst s) @ bs)
      (\<lambda>e s'. wbuf_inv ok L b s' \<and> e = err_oom \<and>
         \<not> (rel \<and> length (wb_data (fst s)) + length bs + 10 \<le> 2 ^ 63)))
      (\<lambda>e s'. wbuf_inv ok L b s' \<and> e = err_oom \<and>
         \<not> (rel \<and> length (wb_data (fst s)) + length bs + 10 \<le> 2 ^ 63)) s"
  proof (rule outcome_mono)
    fix x t assume "reserved ok L b (wb_data (fst s)) n t"
    from m [OF this] show "outcome m
      (\<lambda>_ s'. wbuf_inv ok L b s' \<and> wb_data (fst s') = wb_data (fst s) @ bs)
      (\<lambda>e s'. wbuf_inv ok L b s' \<and> e = err_oom \<and>
         \<not> (rel \<and> length (wb_data (fst s)) + length bs + 10 \<le> 2 ^ 63)) t"
      by (auto simp: outcome_def reserved_def)
  qed (use n in auto)
qed

end

lemma put_varu64_loop_reserved:
  "reserved ok L b d n s \<Longrightarrow> length (leb128 (unat v)) \<le> n \<Longrightarrow>
     \<exists>s' k. put_varu64_loop v s = (Inr (), s') \<and> reserved ok L b (d @ leb128 (unat v)) k s'"
proof (induction v arbitrary: d n s rule: put_varu64_loop.induct)
  case (1 v)
  show ?case
  proof (cases "0x80 \<le> v")
    case True
    then have big: "\<not> unat v < 128" by (simp add: word_le_nat_alt)
    let ?c = "ucast ((v AND 0x7F) OR 0x80) :: u8"
    from wbuf_store_reserved [OF "1.prems"(1), of "[?c]"] "1.prems"(2) leb128_length_pos [of "unat v"]
    obtain s1 where s1: "wbuf_store [?c] s = (Inr (), s1)" "reserved ok L b (d @ [?c]) (n - 1) s1"
      by auto
    have "length (leb128 (unat (drop_bit 7 v))) \<le> n - 1"
      using "1.prems"(2) big by (simp add: unat_drop_bit_7 leb128_large)
    from "1.IH" [OF True s1(2) this] obtain s' k where
      "put_varu64_loop (drop_bit 7 v) s1 = (Inr (), s')"
      "reserved ok L b ((d @ [?c]) @ leb128 (unat (drop_bit 7 v))) k s'" by blast
    moreover have "(d @ [?c]) @ leb128 (unat (drop_bit 7 v)) = d @ leb128 (unat v)"
      using big by (simp only: varint_cont_byte unat_drop_bit_7) (simp add: leb128_large)
    ultimately show ?thesis
      using True s1(1) by (subst put_varu64_loop.simps) (auto simp: bindr_Inr)
  next
    case False
    then have small: "unat v < 128" by (simp add: word_le_nat_alt)
    then have "leb128 (unat v) = [ucast (v AND 0x7F)]"
      by (simp add: leb128_small varint_low_byte)
    with False wbuf_store_reserved [OF "1.prems"(1), of "[ucast (v AND 0x7F)]"] "1.prems"(2)
    show ?thesis by (subst put_varu64_loop.simps) auto
  qed
qed

lemma appends_reserve_store_rel:
  assumes "alloc_rel A ok rel" "n \<le> length bs + 10"
    and "\<And>L b d s. reserved ok L b d n s \<Longrightarrow> \<exists>s' k. m s = (Inr (), s') \<and> reserved ok L b (d @ bs) k s'"
  shows "appends ok rel (bindr (vicarl_wbuf_reserve A n) (\<lambda>_. m)) bs"
  using assms
  by (intro allocator.appends_reserve_store)
     (auto simp: alloc_rel_def reliable_allocator.realloc_succeeds)

lemma appends_put_u8 [appends_intros]:
  assumes "alloc_rel A ok rel" shows "appends ok rel (vicarl_wbuf_put_u8 A v) [v]"
  unfolding vicarl_wbuf_put_u8_def using assms
proof (rule appends_reserve_store_rel)
  fix L b d s assume "reserved ok L b d 1 s"
  from wbuf_store_reserved [OF this, of "[v]"]
  show "\<exists>s' k. wbuf_store [v] s = (Inr (), s') \<and> reserved ok L b (d @ [v]) k s'" by auto
qed simp

lemma appends_put_u16le [appends_intros]:
  assumes "alloc_rel A ok rel"
  shows "appends ok rel (vicarl_wbuf_put_u16le A v) [ucast (v AND 0xff), ucast (drop_bit 8 v AND 0xff)]"
  unfolding vicarl_wbuf_put_u16le_def using assms
proof (rule appends_reserve_store_rel)
  fix L b d s assume r: "reserved ok L b d 2 s"
  let ?lo = "ucast (v AND 0xff) :: u8" and ?hi = "ucast (drop_bit 8 v AND 0xff) :: u8"
  from wbuf_store_reserved [OF r, of "[?lo]"] obtain s1 where
    s1: "wbuf_store [?lo] s = (Inr (), s1)" "reserved ok L b (d @ [?lo]) 1 s1" by auto
  from wbuf_store_reserved [OF s1(2), of "[?hi]"] s1(1)
  show "\<exists>s' k. bindr (wbuf_store [?lo]) (\<lambda>_. wbuf_store [?hi]) s = (Inr (), s') \<and>
      reserved ok L b (d @ [?lo, ?hi]) k s'"
    by (auto simp: bindr_Inr)
qed simp

lemma appends_put_varu64 [appends_intros]:
  assumes "alloc_rel A ok rel"
  shows "appends ok rel (vicarl_wbuf_put_varu64 A v) (leb128 (unat v))"
  unfolding vicarl_wbuf_put_varu64_def using assms
proof (rule appends_reserve_store_rel)
  fix L b d s assume "reserved ok L b d VICARL_VARINT_MAX_BYTES_U64 s"
  then show "\<exists>s' k. put_varu64_loop v s = (Inr (), s') \<and> reserved ok L b (d @ leb128 (unat v)) k s'"
    using leb128_u64_length [of v]
    by (intro put_varu64_loop_reserved) (auto simp: VICARL_VARINT_MAX_BYTES_U64_def)
qed (simp add: VICARL_VARINT_MAX_BYTES_U64_def)

lemma appends_put_bytes:
  assumes "alloc_rel A ok rel" "slice_wf p"
  shows "appends ok rel (vicarl_wbuf_put_bytes A p) (slice_bytes p)"
proof (cases "sl_len p = 0")
  case True
  then have "slice_bytes p = []" by (simp add: slice_bytes_def split: option.split)
  with True show ?thesis by (simp add: vicarl_wbuf_put_bytes_def appends_retr)
next
  case False
  with assms(2) obtain bs where bs: "sl_ptr p = Some bs" "sl_len p \<le> length bs"
    by (auto simp: slice_wf_def split: option.splits)
  then have sb: "slice_bytes p = take (sl_len p) bs" by (simp add: slice_bytes_def)
  have "appends ok rel (bindr (vicarl_wbuf_reserve A (sl_len p)) (\<lambda>_. wbuf_store (take (sl_len p) bs)))
      (take (sl_len p) bs)"
    using assms(1)
  proof (rule appends_reserve_store_rel)
    fix L b d s assume "reserved ok L b d (sl_len p) s"
    from wbuf_store_reserved [OF this, of "take (sl_len p) bs"]
    show "\<exists>s' k. wbuf_store (take (sl_len p) bs) s = (Inr (), s') \<and>
        reserved ok L b (d @ take (sl_len p) bs) k s'" by auto
  qed (use bs in simp)
  with False bs sb show ?thesis by (simp add: vicarl_wbuf_put_bytes_def)
qed

lemma appends_put_raw [appends_intros]:
  assumes "alloc_rel A ok rel" "length bs < size_mod"
  shows "appends ok rel (vicarl_wbuf_put_bytes A (slice_of bs)) bs"
  using appends_put_bytes [OF assms(1), of "slice_of bs"] assms(2) by simp

lemma appends_put_ldbytes [appends_intros]:
  assumes A: "alloc_rel A ok rel" and p: "slice_wf p"
  shows "appends ok rel (vicarl_wbuf_put_ldbytes A p) (ldbytes (slice_bytes p))"
proof -
  have "unat (of_nat (sl_len p) :: u64) = length (slice_bytes p)"
    using p slice_wf_length [OF p] by (simp add: unat_of_nat_u64 slice_wf_def)
  with appends_put_varu64 [OF A, of "of_nat (sl_len p)"]
  have "appends ok rel (bindr (vicarl_wbuf_put_varu64 A (of_nat (sl_len p))) (\<lambda>_. vicarl_wbuf_put_bytes A p))
      (leb128 (length (slice_bytes p)) @ slice_bytes p)"
    using appends_put_bytes [OF A p] by (intro appends_bindr) simp_all
  with slice_wf_not_bad [OF p] show ?thesis
    by (auto simp: vicarl_wbuf_put_ldbytes_def ldbytes_def slice_bad_def)
qed

lemma appends_put_ldslice [appends_intros]:
  "alloc_rel A ok rel \<Longrightarrow> slice_wf p \<Longrightarrow>
     appends ok rel (vicarl_wbuf_put_ldslice A p) (ldbytes (slice_bytes p))"
  by (simp add: vicarl_wbuf_put_ldslice_def appends_put_ldbytes)

section \<open>Whole buffers\<close>

text \<open>
  The shape of every encoder: a local write buffer is filled; on an error it is disposed of, on
  success its contents are detached for the caller (and the empty buffer disposed of).
\<close>

definition run_encoder :: "vicarl_allocator \<Rightarrow> unit writer \<Rightarrow> (heap, vicarl_bytes) vm" where
  "run_encoder A m h =
     (case m (vicarl_wbuf_init, h) of
        (Inl e, s) \<Rightarrow> (Inl e, snd (vicarl_wbuf_dispose A s))
      | (Inr _, (w, h1)) \<Rightarrow>
          (case vicarl_wbuf_detach w of
             (bytes, w') \<Rightarrow> (Inr bytes, snd (vicarl_wbuf_dispose A (w', h1)))))"

text \<open>The test for trailing bytes: \<^verbatim>\<open>if (vicarl_rbuf_remaining(&r) != 0) return badfmt(msg)\<close>.\<close>

definition no_trailing :: "string \<Rightarrow> unit reader" where
  "no_trailing msg r =
     (if vicarl_rbuf_remaining r \<noteq> 0 then (Inl (badfmt msg), r) else (Inr (), r))"

definition own_bytes :: "vicarl_bytes \<Rightarrow> addr set" where
  "own_bytes b = set_option (by_ptr b)"

definition bytes_slice :: "vicarl_bytes \<Rightarrow> vicarl_slice" where
  "bytes_slice b = \<lparr>sl_ptr = (case by_ptr b of None \<Rightarrow> None | Some _ \<Rightarrow> Some (by_data b)), sl_len = by_len b\<rparr>"

text \<open>Owned bytes with the contents \<open>bs\<close>, not empty.\<close>

definition holds_bytes :: "vicarl_bytes \<Rightarrow> bytes \<Rightarrow> bool" where
  "holds_bytes b bs \<longleftrightarrow> by_data b = bs \<and> by_len b = length bs \<and> by_ptr b \<noteq> None"

lemma bytes_slice_of: "holds_bytes b bs \<Longrightarrow> bytes_slice b = slice_of bs"
  by (auto simp: holds_bytes_def bytes_slice_def slice_of_def)

lemma appends_replace_oom [appends_intros]:
  "appends ok rel m bs \<Longrightarrow> appends ok rel (rethrow (replace_status VICARL_ERR_OOM) m) bs"
  unfolding appends_def [of _ _ "rethrow _ _"]
proof (intro allI impI outcome_rethrow)
  fix s L b
  assume "appends ok rel m bs" "wbuf_inv ok L b s" "length (wb_data (fst s)) + length bs + 10 < size_mod"
  from appendsD [OF this]
  show "outcome m (\<lambda>_ s'. wbuf_inv ok L b s' \<and> wb_data (fst s') = wb_data (fst s) @ bs)
      (\<lambda>e s'. wbuf_inv ok L b s' \<and> replace_status VICARL_ERR_OOM e = err_oom \<and>
         \<not> (rel \<and> length (wb_data (fst s)) + length bs + 10 \<le> 2 ^ 63)) s"
    by (rule outcome_mono) (auto simp: fail_with_def)
qed

lemma wbuf_inv_init: "ok h \<Longrightarrow> wbuf_inv ok (hp_live h) (hp_bad h) (vicarl_wbuf_init, h)"
  by (simp add: wbuf_inv_def wbuf_wf_def vicarl_wbuf_init_def)

lemma wbuf_dispose_heap:
  "alloc_rel A ok rel \<Longrightarrow> wbuf_inv ok L (hp_bad h0) s \<Longrightarrow> heap_to ok h0 L (snd (vicarl_wbuf_dispose A s))"
  using free_step_insert [of A ok rel h0 _ L "snd s"]
  by (cases s; cases "wb_ptr (fst s)") (auto simp: vicarl_wbuf_dispose_def wbuf_inv_def heap_to_def)

lemma run_encoder_outcome:
  assumes A: "alloc_rel A ok rel" and m: "appends ok rel m bs" and h: "ok h"
    and bs: "bs \<noteq> []" "length bs + 10 < size_mod"
  shows "outcome (run_encoder A m)
    (\<lambda>b h'. holds_bytes b bs \<and> own_bytes b \<inter> hp_live h = {} \<and> heap_to ok h (hp_live h \<union> own_bytes b) h')
    (\<lambda>e h'. e = err_oom \<and> \<not> (rel \<and> length bs + 10 \<le> 2 ^ 63) \<and> heap_to ok h (hp_live h) h') h"
proof -
  have "outcome m
      (\<lambda>_ s'. wbuf_inv ok (hp_live h) (hp_bad h) s' \<and> wb_data (fst s') = bs)
      (\<lambda>e s'. wbuf_inv ok (hp_live h) (hp_bad h) s' \<and> e = err_oom \<and> \<not> (rel \<and> length bs + 10 \<le> 2 ^ 63))
      (vicarl_wbuf_init, h)"
    using appendsD [OF m wbuf_inv_init [of ok, OF h]] bs(2) by (simp add: vicarl_wbuf_init_def)
  note res = this
  show ?thesis
  proof (cases "m (vicarl_wbuf_init, h)" rule: prod.exhaust)
    case (Pair out s)
    show ?thesis
    proof (cases out)
      case (Inl e)
      with Pair res have "wbuf_inv ok (hp_live h) (hp_bad h) s" "e = err_oom"
        "\<not> (rel \<and> length bs + 10 \<le> 2 ^ 63)" by (auto simp: outcome_def)
      with Pair Inl wbuf_dispose_heap [OF A] show ?thesis by (simp add: outcome_def run_encoder_def)
    next
      case (Inr u)
      obtain w h1 where s: "s = (w, h1)" by (cases s)
      from Inr Pair res have "wbuf_inv ok (hp_live h) (hp_bad h) (w, h1)" "wb_data w = bs"
        by (auto simp: outcome_def s)
      with Pair Inr s bs(1) show ?thesis
        by (auto simp: outcome_def run_encoder_def vicarl_wbuf_detach_def vicarl_wbuf_dispose_def
            holds_bytes_def own_bytes_def vicarl_wbuf_init_def wbuf_inv_def wbuf_wf_def heap_to_def)
    qed
  qed
qed

lemma reader_safe_no_trailing [reader_safe_intros]: "reader_safe (no_trailing msg)"
  by (auto simp: reader_safe_def outcome_def no_trailing_def badfmt_def fail_with_def intro: exI [of _ 0])

text \<open>A reader that is followed by the test for trailing bytes, on exactly its own bytes.\<close>

lemma reads_whole:
  assumes "reads m bs Q"
  shows "\<exists>x r'. bindr m (\<lambda>x. bindr (no_trailing msg) (\<lambda>_. retr x)) (vicarl_rbuf_init bs (length bs)) = (Inr x, r') \<and> Q x"
proof -
  let ?r = "vicarl_rbuf_init bs (length bs)"
  from readsD [OF assms, of ?r "[]"] obtain x where x: "m ?r = (Inr x, rbuf_skip (length bs) ?r)" "Q x" by auto
  have "vicarl_rbuf_remaining (rbuf_skip (length bs) ?r) = 0"
    by (simp add: vicarl_rbuf_remaining_def rbuf_skip_def vicarl_rbuf_init_def)
  with x show ?thesis by (auto simp: bindr_Inr no_trailing_def bindr_def retr_def)
qed

section \<open>Reading ten bytes\<close>

lemma get_varu64_loop_step:
  "rbuf_wf r \<Longrightarrow> unread r = b # t \<Longrightarrow> shift < 64 \<Longrightarrow>
   get_varu64_loop (Suc i) res shift r =
     (let res' = res OR push_bit shift (ucast (b AND 0x7F)) in
      if b AND 0x80 = 0 then (Inr res', rbuf_skip 1 r)
      else get_varu64_loop i res' (shift + 7) (rbuf_skip 1 r))"
  by (simp add: bindr_def need_run rbuf_next_Cons vm_simps Let_def)

lemma get_varu64_loop_zeros:
  "rbuf_wf r \<Longrightarrow> unread r = replicate k 0x80 @ t \<Longrightarrow> shift + 7 * k \<le> 63 \<Longrightarrow>
   get_varu64_loop (k + i) res shift r = get_varu64_loop i res (shift + 7 * k) (rbuf_skip k r)"
proof (induction k arbitrary: shift r)
  case (Suc k)
  have u: "unread r = 0x80 # (replicate k 0x80 @ t)" using Suc.prems(2) by simp
  have "get_varu64_loop (Suc (k + i)) res shift r = get_varu64_loop (k + i) res (shift + 7) (rbuf_skip 1 r)"
    using get_varu64_loop_step [OF Suc.prems(1) u, of shift "k + i" res] Suc.prems(3) by (simp add: byte_msb)
  also have "\<dots> = get_varu64_loop i res (shift + 7 + 7 * k) (rbuf_skip k (rbuf_skip 1 r))"
    using Suc.prems u by (intro Suc.IH) (auto intro: rbuf_skip_wf)
  finally show ?case by (simp add: add.assoc)
qed simp

section \<open>What readers return\<close>

text \<open>A property of every value a reader returns on a well-formed buffer that fits in memory.\<close>

definition reader_gives :: "'a reader \<Rightarrow> ('a \<Rightarrow> bool) \<Rightarrow> bool" where
  "reader_gives m Q \<longleftrightarrow>
     (\<forall>r x r'. rbuf_wf r \<longrightarrow> length (rb_data r) < size_mod \<longrightarrow> m r = (Inr x, r') \<longrightarrow> Q x)"

lemma reader_givesD:
  "reader_gives m Q \<Longrightarrow> rbuf_wf r \<Longrightarrow> length (rb_data r) < size_mod \<Longrightarrow> m r = (Inr x, r') \<Longrightarrow> Q x"
  unfolding reader_gives_def by blast

lemma reader_gives_any: "reader_gives m (\<lambda>_. True)"
  by (simp add: reader_gives_def)

lemma reader_gives_retr: "Q x \<Longrightarrow> reader_gives (retr x) Q"
  by (simp add: reader_gives_def retr_def)

lemma reader_gives_failr: "reader_gives (failr e) Q"
  by (simp add: reader_gives_def failr_def)

lemma reader_gives_rethrow: "reader_gives m Q \<Longrightarrow> reader_gives (rethrow g m) Q"
  unfolding reader_gives_def rethrow_eq_Inr by blast

lemma reader_gives_bindr:
  assumes s: "reader_safe m" and P: "reader_gives m P" and f: "\<And>x. P x \<Longrightarrow> reader_gives (f x) Q"
  shows "reader_gives (bindr m f) Q"
  unfolding reader_gives_def
proof (intro allI impI)
  fix r y r' assume wf: "rbuf_wf r" and len: "length (rb_data r) < size_mod" and b: "bindr m f r = (Inr y, r')"
  obtain x t where x: "m r = (Inr x, t)" "f x t = (Inr y, r')" using b by (auto simp: bindr_eq_Inr)
  obtain k where k: "k \<le> length (unread r)" "t = rbuf_skip k r" using reader_safeD_Inr [OF s wf x(1)] by blast
  have "rbuf_wf t" "length (rb_data t) < size_mod"
    using k wf len by (simp_all add: rbuf_skip_wf) (simp add: rbuf_skip_def)
  with f [OF reader_givesD [OF P wf len x(1)]] x(2) show "Q y" by (blast intro: reader_givesD)
qed

lemmas reader_gives_skip = reader_gives_bindr [OF _ reader_gives_any]

lemma reader_gives_get_bytes: "reader_gives (vicarl_rbuf_get_bytes n) (\<lambda>s. slice_wf s \<and> length (slice_bytes s) = n)"
  by (auto simp: reader_gives_def vicarl_rbuf_get_bytes_def slice_wf_def slice_bytes_def rbuf_wf_def
      vicarl_rbuf_remaining_def split: if_splits)

lemma reader_gives_get_ldbytes: "reader_gives vicarl_rbuf_get_ldbytes slice_wf"
  unfolding vicarl_rbuf_get_ldbytes_def
proof (rule reader_gives_skip)
  fix n :: u64
  have "reader_gives (vicarl_rbuf_get_bytes (unat n)) slice_wf"
    using reader_gives_get_bytes [of "unat n"] by (auto simp: reader_gives_def)
  then show "reader_gives (if unat n > size_max then failr (fail_with VICARL_ERR_FORMAT ''length too large'')
      else vicarl_rbuf_get_bytes (unat n)) slice_wf"
    by (simp add: reader_gives_failr)
qed (rule reader_safe_get_varu64)

section \<open>Properties\<close>

text \<open>Varint round trip: \<^verbatim>\<open>vicarl_wbuf_put_varu64\<close> appends at most ten bytes to any well-formed
  buffer, and \<^verbatim>\<open>vicarl_rbuf_get_varu64\<close> on any input that starts with these bytes consumes exactly
  them and returns the same 64-bit value. The write fails only for lack of memory, and not at all
  with a reliable allocator while the buffer stays below half the address space.\<close>
theorem varu64_roundtrip:
  assumes "alloc_rel A ok rel" and "wbuf_inv ok L b s" and "length (wb_data (fst s)) + 20 < size_mod"
  shows "outcome (vicarl_wbuf_put_varu64 A v)
    (\<lambda>_ s'. wbuf_inv ok L b s' \<and>
       (\<exists>enc. wb_data (fst s') = wb_data (fst s) @ enc \<and> length enc \<le> 10 \<and>
          (\<forall>r t. rbuf_wf r \<longrightarrow> unread r = enc @ t \<longrightarrow>
             vicarl_rbuf_get_varu64 r = (Inr v, rbuf_skip (length enc) r))))
    (\<lambda>e s'. wbuf_inv ok L b s' \<and> e = err_oom \<and> \<not> (rel \<and> length (wb_data (fst s)) + 20 \<le> 2 ^ 63)) s"
proof (rule outcome_mono)
  show "outcome (vicarl_wbuf_put_varu64 A v)
      (\<lambda>_ s'. wbuf_inv ok L b s' \<and> wb_data (fst s') = wb_data (fst s) @ leb128 (unat v))
      (\<lambda>e s'. wbuf_inv ok L b s' \<and> e = err_oom \<and>
         \<not> (rel \<and> length (wb_data (fst s)) + length (leb128 (unat v)) + 10 \<le> 2 ^ 63)) s"
    using assms(3) leb128_u64_length [of v]
    by (intro appendsD [OF appends_put_varu64 [OF assms(1)] assms(2)]) linarith
next
  fix t assume "wbuf_inv ok L b t \<and> wb_data (fst t) = wb_data (fst s) @ leb128 (unat v)"
  then show "wbuf_inv ok L b t \<and> (\<exists>enc. wb_data (fst t) = wb_data (fst s) @ enc \<and> length enc \<le> 10 \<and>
      (\<forall>r t. rbuf_wf r \<longrightarrow> unread r = enc @ t \<longrightarrow>
         vicarl_rbuf_get_varu64 r = (Inr v, rbuf_skip (length enc) r)))"
    using leb128_u64_length [of v] readsD [OF reads_get_varu64] by auto
qed (use leb128_u64_length [of v] in auto)

theorem varu64_roundtrip_witness:
  "outcome (vicarl_wbuf_put_varu64 default_allocator 300)
    (\<lambda>_ s'. \<exists>enc. wb_data (fst s') = enc \<and>
       vicarl_rbuf_get_varu64 (vicarl_rbuf_init enc (length enc)) =
         (Inr 300, rbuf_skip (length enc) (vicarl_rbuf_init enc (length enc))))
    (\<lambda>e s'. False) (vicarl_wbuf_init, heap_init)"
proof -
  have inv: "wbuf_inv heap_plenty (hp_live heap_init) (hp_bad heap_init) (vicarl_wbuf_init, heap_init)"
    by (rule wbuf_inv_init) simp
  have "length (wb_data (fst (vicarl_wbuf_init, heap_init))) + 20 < size_mod"
    by (simp add: vicarl_wbuf_init_def size_mod_def)
  from varu64_roundtrip [OF libc_reliable inv this, of 300] show ?thesis
    by (rule outcome_mono) (auto simp: vicarl_wbuf_init_def)
qed

text \<open>Length-delimited round trip: what \<^verbatim>\<open>vicarl_wbuf_put_ldbytes\<close> appends for a readable slice is
  read back by \<^verbatim>\<open>vicarl_rbuf_get_ldbytes\<close> as a slice with the same bytes, consuming exactly them.\<close>
theorem ldbytes_roundtrip:
  assumes "alloc_rel A ok rel" and "wbuf_inv ok L b s" and "slice_wf p"
    and "length (wb_data (fst s)) + sl_len p + 20 < size_mod"
  shows "outcome (vicarl_wbuf_put_ldbytes A p)
    (\<lambda>_ s'. wbuf_inv ok L b s' \<and>
       (\<exists>enc. wb_data (fst s') = wb_data (fst s) @ enc \<and>
          (\<forall>r t. rbuf_wf r \<longrightarrow> unread r = enc @ t \<longrightarrow>
             (\<exists>q. vicarl_rbuf_get_ldbytes r = (Inr q, rbuf_skip (length enc) r) \<and>
                slice_bytes q = slice_bytes p \<and> sl_len q = sl_len p))))
    (\<lambda>e s'. wbuf_inv ok L b s' \<and> e = err_oom \<and> \<not> (rel \<and> length (wb_data (fst s)) + sl_len p + 20 \<le> 2 ^ 63)) s"
proof (rule outcome_mono)
  have lp: "length (slice_bytes p) = sl_len p" "sl_len p < size_mod"
    using assms(3) by (simp_all add: slice_wf_length slice_wf_def)
  have "length (leb128 (sl_len p)) \<le> 10"
    using leb128_u64_length [of "of_nat (sl_len p)"] lp(2) by (simp add: unat_of_nat_u64)
  then have ll: "length (ldbytes (slice_bytes p)) \<le> sl_len p + 10" using lp by (simp add: ldbytes_def)
  show "outcome (vicarl_wbuf_put_ldbytes A p)
      (\<lambda>_ s'. wbuf_inv ok L b s' \<and> wb_data (fst s') = wb_data (fst s) @ ldbytes (slice_bytes p))
      (\<lambda>e s'. wbuf_inv ok L b s' \<and> e = err_oom \<and>
         \<not> (rel \<and> length (wb_data (fst s)) + length (ldbytes (slice_bytes p)) + 10 \<le> 2 ^ 63)) s"
    using assms(4) ll by (intro appendsD [OF appends_put_ldbytes [OF assms(1,3)] assms(2)]) linarith
  show "wbuf_inv ok L b t \<and> (\<exists>enc. wb_data (fst t) = wb_data (fst s) @ enc \<and>
      (\<forall>r t. rbuf_wf r \<longrightarrow> unread r = enc @ t \<longrightarrow>
         (\<exists>q. vicarl_rbuf_get_ldbytes r = (Inr q, rbuf_skip (length enc) r) \<and>
            slice_bytes q = slice_bytes p \<and> sl_len q = sl_len p)))"
    if "wbuf_inv ok L b t \<and> wb_data (fst t) = wb_data (fst s) @ ldbytes (slice_bytes p)" for t
    using that readsD [OF reads_get_ldbytes [of "slice_bytes p"]] lp by fastforce
  show "wbuf_inv ok L b t \<and> e = err_oom \<and> \<not> (rel \<and> length (wb_data (fst s)) + sl_len p + 20 \<le> 2 ^ 63)"
    if "wbuf_inv ok L b t \<and> e = err_oom \<and>
      \<not> (rel \<and> length (wb_data (fst s)) + length (ldbytes (slice_bytes p)) + 10 \<le> 2 ^ 63)" for e t
    using that ll by auto
qed

theorem ldbytes_roundtrip_witness:
  "outcome (vicarl_wbuf_put_ldbytes default_allocator (slice_of [1, 2, 3]))
    (\<lambda>_ s'. \<exists>q r'. vicarl_rbuf_get_ldbytes (vicarl_rbuf_init (wb_data (fst s')) (length (wb_data (fst s')))) =
         (Inr q, r') \<and> slice_bytes q = [1, 2, 3])
    (\<lambda>e s'. False) (vicarl_wbuf_init, heap_init)"
proof -
  have inv: "wbuf_inv heap_plenty (hp_live heap_init) (hp_bad heap_init) (vicarl_wbuf_init, heap_init)"
    by (rule wbuf_inv_init) simp
  have "slice_wf (slice_of [1, 2, 3])"
    "length (wb_data (fst (vicarl_wbuf_init, heap_init))) + sl_len (slice_of [1, 2, 3]) + 20 < size_mod"
    by (simp_all add: vicarl_wbuf_init_def size_mod_def)
  from ldbytes_roundtrip [OF libc_reliable inv this] show ?thesis
  proof (rule outcome_mono)
    fix u :: unit and t :: "vicarl_wbuf \<times> heap"
    let ?d = "wb_data (fst t)" and ?p = "slice_of [1, 2, 3]"
    assume "wbuf_inv heap_plenty (hp_live heap_init) (hp_bad heap_init) t \<and>
      (\<exists>enc. ?d = wb_data (fst (vicarl_wbuf_init, heap_init)) @ enc \<and>
        (\<forall>r t. rbuf_wf r \<longrightarrow> unread r = enc @ t \<longrightarrow>
           (\<exists>q. vicarl_rbuf_get_ldbytes r = (Inr q, rbuf_skip (length enc) r) \<and>
              slice_bytes q = slice_bytes ?p \<and> sl_len q = sl_len ?p)))"
    then have get: "\<And>r t. rbuf_wf r \<Longrightarrow> unread r = ?d @ t \<Longrightarrow>
        \<exists>q. vicarl_rbuf_get_ldbytes r = (Inr q, rbuf_skip (length ?d) r) \<and> slice_bytes q = [1, 2, 3]"
      by (auto simp: vicarl_wbuf_init_def)
    show "\<exists>q r'. vicarl_rbuf_get_ldbytes (vicarl_rbuf_init ?d (length ?d)) = (Inr q, r') \<and> slice_bytes q = [1, 2, 3]"
      using get [of "vicarl_rbuf_init ?d (length ?d)" "[]"] by auto
  qed (simp add: vicarl_wbuf_init_def)
qed

text \<open>C31. Memory safety of the decoder: on every well-formed read buffer, whatever its bytes, the
  integer and byte readers never read outside the buffer and never shift out of range; they
  advance the position within the buffer or fail with a format error.\<close>
theorem readers_safe:
  "reader_safe vicarl_rbuf_get_u8 \<and> reader_safe vicarl_rbuf_get_u16le \<and> reader_safe (vicarl_rbuf_get_bytes n) \<and>
   reader_safe vicarl_rbuf_get_varu64 \<and> reader_safe vicarl_rbuf_get_ldbytes"
  by (simp add: reader_safe_intros)

text \<open>The overflow test of \<^verbatim>\<open>vicarl_rbuf_get_varu64\<close> never fires: of the tenth byte only the lowest
  bit survives, the other six payload bits are dropped without an error, so that for instance the
  ten bytes \<^verbatim>\<open>80 80 80 80 80 80 80 80 80 02\<close> decode as zero.\<close>
theorem varu64_tenth_byte:
  assumes "unat c < 128"
  shows "fst (vicarl_rbuf_get_varu64 (vicarl_rbuf_init (replicate 9 0x80 @ [c]) 10)) =
    Inr (of_nat (unat c mod 2 * 2 ^ 63))"
proof -
  let ?r = "vicarl_rbuf_init (replicate 9 0x80 @ [c]) 10"
  have wf: "rbuf_wf ?r" using rbuf_wf_init [of "replicate 9 0x80 @ [c]"] by simp
  have wf9: "rbuf_wf (rbuf_skip 9 ?r)" using wf by (intro rbuf_skip_wf) simp_all
  have "vicarl_rbuf_get_varu64 ?r = get_varu64_loop 1 0 63 (rbuf_skip 9 ?r)"
    using get_varu64_loop_zeros [OF wf, of 9 "[c]" 0 1 0]
    by (simp add: vicarl_rbuf_get_varu64_def VICARL_VARINT_MAX_BYTES_U64_def)
  also have "fst \<dots> = Inr (push_bit 63 (ucast (c AND 0x7F)))"
    using get_varu64_loop_step [OF wf9, of c "[]" 63 0 0] assms by (simp add: byte_msb)
  also have "push_bit 63 (ucast (c AND 0x7F)) = (of_nat (unat c mod 2 * 2 ^ 63) :: u64)"
  proof -
    have "(ucast (c AND 0x7F) :: u64) = of_nat (unat c)"
      using assms by (intro unat_eq_of_nat_self) (simp add: unsigned_ucast_eq unat_and_7F take_bit_nat_eq_self)
    moreover have "push_bit 63 (of_nat (unat c) :: u64) = of_nat (unat c * 2 ^ 63)"
      by (simp add: push_bit_eq_mult)
    moreover have "(of_nat (unat c * 2 ^ 63) :: u64) = of_nat (unat c mod 2 * 2 ^ 63)"
    proof -
      have "unat c * 2 ^ 63 = (unat c mod 2 + 2 * (unat c div 2)) * 2 ^ 63" by simp
      also have "\<dots> = unat c mod 2 * 2 ^ 63 + 2 ^ 64 * (unat c div 2)" by (simp only: distrib_right) simp
      finally have "(of_nat (unat c * 2 ^ 63) :: u64) =
          of_nat (unat c mod 2 * 2 ^ 63) + of_nat (2 ^ 64) * of_nat (unat c div 2)"
        by (simp only: of_nat_add of_nat_mult)
      moreover have "of_nat (2 ^ 64) = (0 :: u64)" using word_exp_length_eq_0 [where 'a = 64] by simp
      ultimately show ?thesis by (simp only: mult_zero_left add_0_right)
    qed
    ultimately show ?thesis by simp
  qed
  finally show ?thesis .
qed

theorem varu64_tenth_byte_witness:
  "fst (vicarl_rbuf_get_varu64 (vicarl_rbuf_init (replicate 9 0x80 @ [2]) 10)) = Inr 0"
  using varu64_tenth_byte [of 2] by simp

end
