(* ===== verification/Vicarl_Record.thy ===== *)
theory Vicarl_Record
  imports Vicarl_Codec Vicarl_Hash
begin

text \<open>
  \<^verbatim>\<open>src/model/record.c\<close>: encoding, decoding and verification of one record. A decoded record is a
  handle that owns two blocks, its own and the copy of the encoding; the slices of the handle are
  views into that copy. \<^verbatim>\<open>record_wire\<close> is the wire format as a function of the fields.
\<close>

section \<open>Data\<close>

record vicarl_record_meta =
  namespace_utf8 :: vicarl_slice
  schema_utf8 :: vicarl_slice
  author :: vicarl_pubkey32
  seq :: u64
  timestamp_ms :: u64

record vicarl_record =
  rec_ptr :: addr
  rec_owned :: "addr option"
  rec_owned_bytes :: bytes
  rec_owned_len :: nat
  rec_meta :: vicarl_record_meta
  rec_payload :: vicarl_slice
  rec_has_sig :: bool
  rec_sig :: vicarl_sig64

definition VICARL_REC_MAGIC :: bytes where
  "VICARL_REC_MAGIC = [0x56, 0x43, 0x52, 0x31]"

definition VICARL_REC_FLAG_HAS_SIG :: u8 where
  "VICARL_REC_FLAG_HAS_SIG = 0x01"

text \<open>\<^verbatim>\<open>sizeof(vicarl_record_t)\<close> on the modelled machine.\<close>

definition sizeof_record :: nat where
  "sizeof_record = 184"

section \<open>Encoding\<close>

text \<open>The four \<^verbatim>\<open>put_u8\<close> calls of the magic; any failure is reported as OOM.\<close>

definition put_magic :: "vicarl_allocator \<Rightarrow> bytes \<Rightarrow> unit writer" where
  "put_magic A magic =
     rethrow (replace_status VICARL_ERR_OOM)
       (bindr (vicarl_wbuf_put_u8 A (magic ! 0)) (\<lambda>_.
        bindr (vicarl_wbuf_put_u8 A (magic ! 1)) (\<lambda>_.
        bindr (vicarl_wbuf_put_u8 A (magic ! 2)) (\<lambda>_.
        vicarl_wbuf_put_u8 A (magic ! 3)))))"

definition put_signature :: "vicarl_allocator \<Rightarrow> vicarl_sig64 option \<Rightarrow> unit writer" where
  "put_signature A signature =
     (case signature of None \<Rightarrow> retr () | Some sig \<Rightarrow> vicarl_wbuf_put_bytes A (slice_of sig))"

text \<open>The sequence of writes of \<^verbatim>\<open>vicarl_record_encode\<close>.\<close>

definition record_write ::
  "vicarl_allocator \<Rightarrow> vicarl_record_meta \<Rightarrow> vicarl_slice \<Rightarrow> vicarl_sig64 option \<Rightarrow> unit writer" where
  "record_write A meta payload signature =
     bindr (put_magic A VICARL_REC_MAGIC) (\<lambda>_.
     bindr (vicarl_wbuf_put_u8 A (if signature \<noteq> None then 0 OR VICARL_REC_FLAG_HAS_SIG else 0)) (\<lambda>_.
     bindr (vicarl_wbuf_put_ldslice A (namespace_utf8 meta)) (\<lambda>_.
     bindr (vicarl_wbuf_put_ldslice A (schema_utf8 meta)) (\<lambda>_.
     bindr (vicarl_wbuf_put_bytes A (slice_of (author meta))) (\<lambda>_.
     bindr (vicarl_wbuf_put_varu64 A (seq meta)) (\<lambda>_.
     bindr (vicarl_wbuf_put_varu64 A (timestamp_ms meta)) (\<lambda>_.
     bindr (vicarl_wbuf_put_ldbytes A payload) (\<lambda>_.
     put_signature A signature))))))))"

definition vicarl_record_encode ::
  "vicarl_allocator \<Rightarrow> vicarl_record_meta option \<Rightarrow> vicarl_slice \<Rightarrow> vicarl_sig64 option \<Rightarrow> bool \<Rightarrow>
     (heap, vicarl_bytes) vm" where
  "vicarl_record_encode A meta payload signature out h =
     (if \<not> out then (Inl (badarg ''record_encode: out_encoded is NULL''), h)
      else case meta of
        None \<Rightarrow> (Inl (badarg ''record_encode: meta is NULL''), h)
      | Some m \<Rightarrow>
          if slice_bad (namespace_utf8 m) \<or> slice_bad (schema_utf8 m)
          then (Inl (badarg ''record_encode: namespace/schema slice is invalid''), h)
          else if slice_bad payload
          then (Inl (badarg ''record_encode: payload slice is invalid''), h)
          else run_encoder A (record_write A m payload signature) h)"

section \<open>Decoding\<close>

definition get_magic :: "bytes reader" where
  "get_magic =
     bindr vicarl_rbuf_get_u8 (\<lambda>m0.
     bindr vicarl_rbuf_get_u8 (\<lambda>m1.
     bindr vicarl_rbuf_get_u8 (\<lambda>m2.
     bindr vicarl_rbuf_get_u8 (\<lambda>m3.
     retr [m0, m1, m2, m3]))))"

text \<open>The optional signature of 64 bytes; the handle keeps zeros when there is none.\<close>

definition get_signature :: "string \<Rightarrow> bool \<Rightarrow> vicarl_sig64 reader" where
  "get_signature msg has_sig =
     (if has_sig
      then bindr (rethrow (replace_err (badfmt msg)) (vicarl_rbuf_get_bytes 64)) (\<lambda>s. retr (slice_bytes s))
      else retr (replicate 64 0))"

text \<open>The reads of \<^verbatim>\<open>vicarl_record_decode\<close>, up to the test for trailing bytes.\<close>

definition record_fields :: "(vicarl_record_meta \<times> vicarl_slice \<times> bool \<times> vicarl_sig64) reader" where
  "record_fields =
     bindr (rethrow (replace_err (badfmt ''record_decode: truncated magic'')) get_magic) (\<lambda>magic.
     bindr (guardr (magic = VICARL_REC_MAGIC) (badfmt ''record_decode: bad magic'')) (\<lambda>_.
     bindr (rethrow (replace_err (badfmt ''record_decode: missing flags'')) vicarl_rbuf_get_u8) (\<lambda>flags.
     bindr vicarl_rbuf_get_ldbytes (\<lambda>ns.
     bindr vicarl_rbuf_get_ldbytes (\<lambda>schema.
     bindr (rethrow (replace_err (badfmt ''record_decode: missing author'')) (vicarl_rbuf_get_bytes 32)) (\<lambda>author_bytes.
     bindr vicarl_rbuf_get_varu64 (\<lambda>sq.
     bindr vicarl_rbuf_get_varu64 (\<lambda>ts.
     bindr vicarl_rbuf_get_ldbytes (\<lambda>payload.
     let has_sig = (flags AND VICARL_REC_FLAG_HAS_SIG \<noteq> 0) in
     bindr (get_signature ''record_decode: missing signature'' has_sig) (\<lambda>sig.
     retr (\<lparr>namespace_utf8 = ns, schema_utf8 = schema, author = slice_bytes author_bytes, seq = sq,
             timestamp_ms = ts\<rparr>, payload, has_sig, sig)))))))))))"

definition record_parse :: "(vicarl_record_meta \<times> vicarl_slice \<times> bool \<times> vicarl_sig64) reader" where
  "record_parse =
     bindr record_fields (\<lambda>x.
     bindr (no_trailing ''record_decode: trailing bytes (non-canonical)'') (\<lambda>_. retr x))"

definition vicarl_record_decode ::
  "vicarl_allocator \<Rightarrow> vicarl_slice \<Rightarrow> bool \<Rightarrow> (heap, vicarl_record) vm" where
  "vicarl_record_decode A encoded out h =
     (if \<not> out then (Inl (badarg ''record_decode: out is NULL''), h)
      else if sl_len encoded < 5 \<or> sl_ptr encoded = None
      then (Inl (badfmt ''record_decode: input too short''), h)
      else
        (case vicarl__malloc A (sl_len encoded) h of
           (None, h1) \<Rightarrow> (Inl err_oom, h1)
         | (Some copy, h1) \<Rightarrow>
             (case slice_read encoded of
                Inl e \<Rightarrow> (Inl e, h1)
              | Inr bs \<Rightarrow>
                  (case record_parse (vicarl_rbuf_init bs (sl_len encoded)) of
                     (Inl e, _) \<Rightarrow> (Inl e, vicarl__free A (Some copy) h1)
                   | (Inr (meta, payload, has_sig, sig), _) \<Rightarrow>
                       (case vicarl__calloc A 1 sizeof_record h1 of
                          (None, h2) \<Rightarrow> (Inl err_oom, vicarl__free A (Some copy) h2)
                        | (Some rp, h2) \<Rightarrow>
                            (Inr \<lparr>rec_ptr = rp, rec_owned = Some copy, rec_owned_bytes = bs,
                                  rec_owned_len = sl_len encoded, rec_meta = meta,
                                  rec_payload = payload, rec_has_sig = has_sig, rec_sig = sig\<rparr>, h2))))))"

section \<open>Accessors, identity, verification\<close>

text \<open>The function \<^verbatim>\<open>vicarl_record_meta\<close>; the struct of the same name is the record type.\<close>

definition record_meta_of :: "vicarl_record option \<Rightarrow> vicarl_record_meta option" where
  "record_meta_of r = (case r of None \<Rightarrow> None | Some x \<Rightarrow> Some (rec_meta x))"

definition vicarl_record_payload :: "vicarl_record option \<Rightarrow> vicarl_slice" where
  "vicarl_record_payload r = (case r of None \<Rightarrow> \<lparr>sl_ptr = None, sl_len = 0\<rparr> | Some x \<Rightarrow> rec_payload x)"

definition vicarl_record_signature :: "vicarl_record option \<Rightarrow> vicarl_sig64 option" where
  "vicarl_record_signature r =
     (case r of None \<Rightarrow> None | Some x \<Rightarrow> if \<not> rec_has_sig x then None else Some (rec_sig x))"

definition vicarl_record_id :: "vicarl_slice \<Rightarrow> bool \<Rightarrow> vicarl_hash32 res" where
  "vicarl_record_id encoded out =
     (if \<not> out then Inl (badarg ''record_id: out_id is NULL'')
      else if slice_bad encoded then Inl (badarg ''record_id: encoded.ptr is NULL'')
      else vicarl__sha256 encoded True)"

definition vicarl_record_destroy :: "vicarl_allocator \<Rightarrow> vicarl_record option \<Rightarrow> heap \<Rightarrow> heap" where
  "vicarl_record_destroy A r h =
     (case r of
        None \<Rightarrow> h
      | Some x \<Rightarrow> vicarl__free A (Some (rec_ptr x)) (vicarl__free A (rec_owned x) h))"

definition vicarl_record_verify :: "vicarl_allocator \<Rightarrow> vicarl_slice \<Rightarrow> (heap, unit) vm" where
  "vicarl_record_verify A encoded h =
     (case vicarl_record_decode A encoded True h of
        (Inl e, h1) \<Rightarrow> (Inl e, h1)
      | (Inr r, h1) \<Rightarrow>
          (case vicarl_record_signature (Some r) of
             None \<Rightarrow>
               (Inl (fail_with VICARL_ERR_CRYPTO ''record is unsigned''), vicarl_record_destroy A (Some r) h1)
           | Some _ \<Rightarrow>
               (Inl (fail_with VICARL_ERR_UNSUPPORTED
                  ''record signature verification not configured (crypto backend missing)''),
                vicarl_record_destroy A (Some r) h1)))"

section \<open>The wire format\<close>

definition record_wire :: "bytes \<Rightarrow> bytes \<Rightarrow> bytes \<Rightarrow> u64 \<Rightarrow> u64 \<Rightarrow> bytes \<Rightarrow> bytes option \<Rightarrow> bytes" where
  "record_wire ns schema auth sq ts payload sig =
     VICARL_REC_MAGIC @ [if sig \<noteq> None then 1 else 0] @ ldbytes ns @ ldbytes schema @ auth @
     leb128 (unat sq) @ leb128 (unat ts) @ ldbytes payload @ (case sig of None \<Rightarrow> [] | Some s \<Rightarrow> s)"

lemma appends_put_magic [appends_intros]:
  "alloc_rel A ok rel \<Longrightarrow> length magic = 4 \<Longrightarrow> appends ok rel (put_magic A magic) magic"
proof -
  assume A: "alloc_rel A ok rel" and "length magic = 4"
  then obtain a b c d where m: "magic = [a, b, c, d]"
    by (auto simp: length_Suc_conv numeral_eq_Suc)
  have "appends ok rel (put_magic A magic) ([a] @ [b] @ [c] @ [d])"
    unfolding put_magic_def m by (intro appends_bindr appends_intros A) (simp_all add: appends_put_u8 A)
  then show ?thesis by (simp add: m)
qed

lemma appends_put_signature [appends_intros]:
  "alloc_rel A ok rel \<Longrightarrow> (\<And>s. sig = Some s \<Longrightarrow> length s = 64) \<Longrightarrow>
    appends ok rel (put_signature A sig) (case sig of None \<Rightarrow> [] | Some s \<Rightarrow> s)"
  by (cases sig) (simp_all add: put_signature_def appends_retr appends_put_raw size_mod_def)

text \<open>Arguments of the encoder whose pointers are good.\<close>

definition meta_wf :: "vicarl_record_meta \<Rightarrow> bool" where
  "meta_wf m \<longleftrightarrow> slice_wf (namespace_utf8 m) \<and> slice_wf (schema_utf8 m) \<and> length (author m) = 32"

definition sig_wf :: "vicarl_sig64 option \<Rightarrow> bool" where
  "sig_wf sig \<longleftrightarrow> (\<forall>s. sig = Some s \<longrightarrow> length s = 64)"

definition meta_wire :: "vicarl_record_meta \<Rightarrow> vicarl_slice \<Rightarrow> vicarl_sig64 option \<Rightarrow> bytes" where
  "meta_wire m payload sig =
     record_wire (slice_bytes (namespace_utf8 m)) (slice_bytes (schema_utf8 m)) (author m) (seq m)
       (timestamp_ms m) (slice_bytes payload) sig"

lemma appends_record_write:
  assumes A: "alloc_rel A ok rel" and "meta_wf m" "slice_wf payload" "sig_wf sig"
  shows "appends ok rel (record_write A m payload sig) (meta_wire m payload sig)"
  unfolding record_write_def meta_wire_def record_wire_def
  using assms
  by (intro appends_bindr appends_intros)
     (auto simp: meta_wf_def sig_wf_def size_mod_def VICARL_REC_MAGIC_def VICARL_REC_FLAG_HAS_SIG_def
       intro: appends_put_u8)

lemma reads_get_magic: "length magic = 4 \<Longrightarrow> reads get_magic magic (\<lambda>x. x = magic)"
proof -
  assume "length magic = 4"
  then obtain a b c d where m: "magic = [a, b, c, d]"
    by (auto simp: length_Suc_conv numeral_eq_Suc)
  have "reads get_magic ([a] @ [b] @ [c] @ [d] @ []) (\<lambda>x. x = magic)"
    unfolding get_magic_def by (intro reads_bindr [OF reads_get_u8] reads_retr) (simp add: m)
  then show ?thesis by (simp add: m)
qed

lemma reads_get_signature:
  "sig_wf sig \<Longrightarrow> has = (sig \<noteq> None) \<Longrightarrow>
   reads (get_signature msg has) (case sig of None \<Rightarrow> [] | Some s \<Rightarrow> s)
     (\<lambda>x. x = (case sig of None \<Rightarrow> replicate 64 0 | Some s \<Rightarrow> s))"
proof (cases sig)
  case (Some s)
  assume "sig_wf sig" "has = (sig \<noteq> None)"
  with Some have "reads (get_signature msg has) (s @ []) (\<lambda>x. x = s)"
    using reads_bindr [OF reads_rethrow [OF reads_get_bytes [of 64 s]], of "\<lambda>s. retr (slice_bytes s)" "[]" "\<lambda>x. x = s"]
    by (simp add: get_signature_def sig_wf_def reads_retr)
  with Some show ?thesis by simp
qed (simp add: get_signature_def reads_retr)

text \<open>A length of zero in two bytes.\<close>

lemma reads_long_zero:
  "reads vicarl_rbuf_get_ldbytes [0x80, 0] (\<lambda>s. slice_bytes s = [] \<and> sl_len s = 0 \<and> sl_ptr s \<noteq> None)"
proof (rule readsI)
  fix r t assume wf: "rbuf_wf r" and u: "unread r = [0x80, 0] @ t"
  have wf1: "rbuf_wf (rbuf_skip 1 r)" using wf u by (intro rbuf_skip_wf) simp_all
  have "vicarl_rbuf_get_varu64 r = get_varu64_loop (1 + Suc 8) 0 0 r"
    by (simp add: vicarl_rbuf_get_varu64_def VICARL_VARINT_MAX_BYTES_U64_def del: get_varu64_loop.simps)
  also have "\<dots> = get_varu64_loop (Suc 8) 0 (0 + 7 * 1) (rbuf_skip 1 r)"
    using u by (intro get_varu64_loop_zeros [OF wf]) simp_all
  also have "\<dots> = (Inr 0, rbuf_skip 2 r)"
    using get_varu64_loop_step [OF wf1, of 0 t 7 8 0] u by (simp del: get_varu64_loop.simps add: Let_def numeral_2_eq_2)
  finally have "vicarl_rbuf_get_varu64 r = (Inr 0, rbuf_skip 2 r)" .
  then show "\<exists>x. vicarl_rbuf_get_ldbytes r = (Inr x, rbuf_skip (length [0x80, 0 :: u8]) r) \<and>
      slice_bytes x = [] \<and> sl_len x = 0 \<and> sl_ptr x \<noteq> None"
    by (simp add: vicarl_rbuf_get_ldbytes_def bindr_Inr vicarl_rbuf_get_bytes_def slice_bytes_def numeral_2_eq_2)
qed

text \<open>The decoded fields are the encoded ones.\<close>

definition fields_match ::
  "vicarl_record_meta \<Rightarrow> vicarl_slice \<Rightarrow> vicarl_sig64 option \<Rightarrow>
   vicarl_record_meta \<times> vicarl_slice \<times> bool \<times> vicarl_sig64 \<Rightarrow> bool" where
  "fields_match m payload sig x \<longleftrightarrow>
     (case x of (m', payload', has_sig, sig') \<Rightarrow>
        slice_bytes (namespace_utf8 m') = slice_bytes (namespace_utf8 m) \<and>
        slice_bytes (schema_utf8 m') = slice_bytes (schema_utf8 m) \<and>
        author m' = author m \<and> seq m' = seq m \<and> timestamp_ms m' = timestamp_ms m \<and>
        slice_bytes payload' = slice_bytes payload \<and>
        has_sig = (sig \<noteq> None) \<and> sig' = (case sig of None \<Rightarrow> replicate 64 0 | Some s \<Rightarrow> s))"

lemma reads_record_fields:
  assumes "meta_wf m" "slice_wf payload" "sig_wf sig"
  shows "reads record_fields (meta_wire m payload sig) (fields_match m payload sig)"
proof -
  have len: "length (slice_bytes (namespace_utf8 m)) < size_mod" "length (slice_bytes (schema_utf8 m)) < size_mod"
    "length (slice_bytes payload) < size_mod" "length (author m) = 32"
    using assms(1,2) by (auto simp: meta_wf_def slice_wf_length) (auto simp: slice_wf_def)
  have flag: "((if sig \<noteq> None then 1 else 0) AND VICARL_REC_FLAG_HAS_SIG \<noteq> 0) = (sig \<noteq> None)"
    by (simp add: VICARL_REC_FLAG_HAS_SIG_def)
  have "reads record_fields
     (VICARL_REC_MAGIC @ [] @ [if sig \<noteq> None then 1 else 0] @ ldbytes (slice_bytes (namespace_utf8 m)) @
      ldbytes (slice_bytes (schema_utf8 m)) @ author m @ leb128 (unat (seq m)) @ leb128 (unat (timestamp_ms m)) @
      ldbytes (slice_bytes payload) @ (case sig of None \<Rightarrow> [] | Some s \<Rightarrow> s) @ [])
     (fields_match m payload sig)"
    unfolding record_fields_def Let_def
    apply (rule reads_bindr [OF reads_rethrow [OF reads_get_magic]])
     apply (simp add: VICARL_REC_MAGIC_def)
    apply (rule reads_bindr [OF reads_guardr], simp)
    apply (rule reads_bindr [OF reads_rethrow [OF reads_get_u8]])
    apply (rule reads_bindr [OF reads_get_ldbytes], use len in simp)
    apply (rule reads_bindr [OF reads_get_ldbytes], use len in simp)
    apply (rule reads_bindr [OF reads_rethrow [OF reads_get_bytes]], use len in simp)
    apply (rule reads_bindr [OF reads_get_varu64])
    apply (rule reads_bindr [OF reads_get_varu64])
    apply (rule reads_bindr [OF reads_get_ldbytes], use len in simp)
    apply (rule reads_bindr [OF reads_get_signature [OF assms(3)]], use flag in simp)
    apply (rule reads_retr)
    using flag by (simp add: fields_match_def)
  then show ?thesis by (simp add: meta_wire_def record_wire_def)
qed

lemma reader_safe_get_magic [reader_safe_intros]: "reader_safe get_magic"
  unfolding get_magic_def by (intro reader_safe_intros)

lemma reader_safe_get_signature [reader_safe_intros]: "reader_safe (get_signature msg has)"
  unfolding get_signature_def by (auto intro!: reader_safe_intros)

lemma reader_safe_record_parse: "reader_safe record_parse"
  unfolding record_parse_def record_fields_def Let_def by (intro reader_safe_intros)

section \<open>Decoding is safe and tidy\<close>

definition own_record :: "vicarl_record \<Rightarrow> addr set" where
  "own_record r = insert (rec_ptr r) (set_option (rec_owned r))"

text \<open>The fields of a handle, and what the parser says about some bytes.\<close>

definition handle_fields :: "vicarl_record \<Rightarrow> vicarl_record_meta \<times> vicarl_slice \<times> bool \<times> vicarl_sig64" where
  "handle_fields r = (rec_meta r, rec_payload r, rec_has_sig r, rec_sig r)"

definition record_spec :: "bytes \<Rightarrow> (vicarl_record_meta \<times> vicarl_slice \<times> bool \<times> vicarl_sig64) res" where
  "record_spec bs =
     (if length bs < 5 then Inl (badfmt ''record_decode: input too short'')
      else fst (record_parse (vicarl_rbuf_init bs (length bs))))"

lemma record_spec_error: "record_spec bs = Inl e \<Longrightarrow> \<exists>msg. e = VErr VICARL_ERR_FORMAT (Some msg)"
  using reader_safeD_Inl [OF reader_safe_record_parse rbuf_wf_init [of bs]]
  by (cases "record_parse (vicarl_rbuf_init bs (length bs))")
     (auto simp: record_spec_def badfmt_def fail_with_def split: if_splits)

lemma record_destroy_heap:
  assumes "alloc_rel A ok rel" "heap_to ok h0 (L \<union> own_record r) h" "own_record r \<inter> L = {}"
    "rec_owned r = Some q" "q \<noteq> rec_ptr r"
  shows "heap_to ok h0 L (vicarl_record_destroy A (Some r) h)"
  using assms(2-)
  by (auto simp: vicarl_record_destroy_def own_record_def insert_commute intro!: free_step_insert [OF assms(1)])

text \<open>A handle that owns two different blocks, both of them new.\<close>

definition record_owned :: "addr set \<Rightarrow> vicarl_record \<Rightarrow> bool" where
  "record_owned L r \<longleftrightarrow> own_record r \<inter> L = {} \<and> (\<exists>q. rec_owned r = Some q \<and> q \<noteq> rec_ptr r)"

lemma record_decode_outcome:
  assumes A: "alloc_rel A ok rel" and h: "ok h" and wf: "slice_wf enc"
  shows "outcome (vicarl_record_decode A enc True)
    (\<lambda>r h'. record_spec (slice_bytes enc) = Inr (handle_fields r) \<and> rec_owned_bytes r = slice_bytes enc \<and>
       record_owned (hp_live h) r \<and> heap_to ok h (hp_live h \<union> own_record r) h')
    (\<lambda>e h'. heap_to ok h (hp_live h) h' \<and>
       (record_spec (slice_bytes enc) = Inl e \<or> e = err_oom \<and> \<not> rel)) h"
proof (cases "sl_len enc < 5 \<or> sl_ptr enc = None")
  case True
  have "length (slice_bytes enc) < 5"
    using True wf slice_wf_length [OF wf] by (auto simp: slice_wf_def)
  with True h show ?thesis
    by (simp add: outcome_def vicarl_record_decode_def record_spec_def heap_to_refl)
next
  case False
  then obtain mem where big: "\<not> sl_len enc < 5" "sl_ptr enc = Some mem" by auto
  let ?bs = "slice_bytes enc" and ?L = "hp_live h"
  have len: "sl_len enc = length ?bs" and rd: "slice_read enc = Inr ?bs"
    using wf by (simp_all add: slice_wf_length slice_read_wf)
  obtain out r' where p: "record_parse (vicarl_rbuf_init ?bs (length ?bs)) = (out, r')" by fastforce
  with big(1) len have spec: "record_spec ?bs = out" by (simp add: record_spec_def)
  have start: "heap_to ok h ?L h" using h by (rule heap_to_refl)
  from A start show ?thesis
  proof (cases rule: malloc_stepE [where n = "sl_len enc"])
    case (fail h1)
    with big show ?thesis by (simp add: outcome_def vicarl_record_decode_def)
  next
    case (new copy h1)
    have freed: "heap_to ok h ?L (free_fn A copy h2)" if "heap_to ok h (insert copy ?L) h2" for h2
      using that new(2) by (rule free_step_insert [OF A])
    show ?thesis
    proof (cases out)
      case (Inl e)
      with new big rd p len spec freed show ?thesis by (simp add: outcome_def vicarl_record_decode_def)
    next
      case (Inr x)
      obtain m pl hs sg where x: "x = (m, pl, hs, sg)" by (cases x)
      from A new(3) show ?thesis
      proof (cases rule: calloc_stepE [where c = 1 and s = sizeof_record])
        case (fail h2)
        then have "\<not> rel" by (simp add: sizeof_record_def size_mod_def)
        with fail new big rd p len Inr x freed show ?thesis by (simp add: outcome_def vicarl_record_decode_def)
      next
        case r: (new rp h2)
        with new big rd p len Inr x spec show ?thesis
          by (auto simp: outcome_def vicarl_record_decode_def record_owned_def own_record_def handle_fields_def
              insert_commute)
      qed
    qed
  qed
qed

lemma record_spec_wire:
  assumes "meta_wf m" "slice_wf payload" "sig_wf sig"
  shows "\<exists>x. record_spec (meta_wire m payload sig) = Inr x \<and> fields_match m payload sig x"
proof -
  have "5 \<le> length (meta_wire m payload sig)"
    by (simp add: meta_wire_def record_wire_def VICARL_REC_MAGIC_def)
  with reads_whole [OF reads_record_fields [OF assms], of "''record_decode: trailing bytes (non-canonical)''"]
  show ?thesis by (auto simp: record_spec_def record_parse_def)
qed

lemma record_encode_outcome:
  assumes A: "alloc_rel A ok rel" and h: "ok h" and wf: "meta_wf m" "slice_wf payload" "sig_wf sig"
    and len: "length (meta_wire m payload sig) + 10 < size_mod"
  shows "outcome (vicarl_record_encode A (Some m) payload sig True)
    (\<lambda>b h'. holds_bytes b (meta_wire m payload sig) \<and> own_bytes b \<inter> hp_live h = {} \<and>
       heap_to ok h (hp_live h \<union> own_bytes b) h')
    (\<lambda>e h'. e = err_oom \<and> \<not> (rel \<and> length (meta_wire m payload sig) + 10 \<le> 2 ^ 63) \<and>
       heap_to ok h (hp_live h) h') h"
proof -
  have "meta_wire m payload sig \<noteq> []" by (simp add: meta_wire_def record_wire_def VICARL_REC_MAGIC_def)
  from run_encoder_outcome [OF A appends_record_write [OF A wf] h this len]
  show ?thesis
    using wf slice_wf_not_bad
    by (simp add: outcome_def vicarl_record_encode_def meta_wf_def)
qed

section \<open>Properties\<close>

text \<open>C23. Record round trip: encoding a record with readable slices produces an owned buffer which
  \<^verbatim>\<open>vicarl_record_decode\<close> accepts and decodes to a handle with the same namespace, schema, author,
  sequence number, timestamp, payload and signature. Either call fails only for lack of memory; with
  a reliable allocator (and less than half the address space used) neither fails.\<close>
theorem record_roundtrip:
  assumes "alloc_rel A ok rel" and "ok h" and "meta_wf m" and "slice_wf payload" and "sig_wf sig"
    and "length (meta_wire m payload sig) + 10 \<le> 2 ^ 63"
  shows "outcome (bindr (vicarl_record_encode A (Some m) payload sig True)
      (\<lambda>b. vicarl_record_decode A (bytes_slice b) True))
    (\<lambda>r h'. fields_match m payload sig (handle_fields r) \<and> vicarl_record_signature (Some r) = sig)
    (\<lambda>e h'. e = err_oom \<and> \<not> rel) h"
proof -
  let ?w = "meta_wire m payload sig"
  have len: "length ?w + 10 < size_mod" using assms(6) by (simp add: size_mod_def)
  show ?thesis
  proof (rule outcome_bindr, rule outcome_mono [OF record_encode_outcome [OF assms(1-5) len]])
    fix b h1
    assume b: "holds_bytes b ?w \<and> own_bytes b \<inter> hp_live h = {} \<and> heap_to ok h (hp_live h \<union> own_bytes b) h1"
    then have "ok h1" "slice_wf (bytes_slice b)" "slice_bytes (bytes_slice b) = ?w"
      using len by (auto simp: heap_to_def bytes_slice_of)
    from record_decode_outcome [OF assms(1) this(1,2), unfolded this(3)]
    show "outcome (vicarl_record_decode A (bytes_slice b) True)
      (\<lambda>r h'. fields_match m payload sig (handle_fields r) \<and> vicarl_record_signature (Some r) = sig)
      (\<lambda>e h'. e = err_oom \<and> \<not> rel) h1"
      by (rule outcome_mono)
         (use record_spec_wire [OF assms(3-5)] in
           \<open>auto simp: fields_match_def handle_fields_def vicarl_record_signature_def split: option.splits\<close>)
  qed (use assms(6) in auto)
qed

theorem record_roundtrip_witness:
  "outcome (bindr (vicarl_record_encode default_allocator
        (Some \<lparr>namespace_utf8 = slice_of [97], schema_utf8 = slice_of [98, 99], author = replicate 32 7,
               seq = 300, timestamp_ms = 0\<rparr>) (slice_of [1, 2]) (Some (replicate 64 9)) True)
      (\<lambda>b. vicarl_record_decode default_allocator (bytes_slice b) True))
    (\<lambda>r h'. slice_bytes (rec_payload r) = [1, 2] \<and> seq (rec_meta r) = 300 \<and>
       vicarl_record_signature (Some r) = Some (replicate 64 9))
    (\<lambda>e h'. False) heap_init"
proof -
  let ?m = "\<lparr>namespace_utf8 = slice_of [97], schema_utf8 = slice_of [98, 99], author = replicate 32 7,
               seq = 300, timestamp_ms = 0\<rparr>"
  have wf: "meta_wf ?m" "slice_wf (slice_of [1, 2])" "sig_wf (Some (replicate 64 9))"
    by (simp_all add: meta_wf_def sig_wf_def size_mod_def)
  have "length (meta_wire ?m (slice_of [1, 2]) (Some (replicate 64 9))) + 10 \<le> 2 ^ 63"
    using leb128_u64_length [of 300]
    by (simp add: meta_wire_def record_wire_def VICARL_REC_MAGIC_def ldbytes_def leb128_small)
  from record_roundtrip [OF libc_reliable heap_plenty_init wf this] show ?thesis
    by (rule outcome_mono) (auto simp: fields_match_def handle_fields_def)
qed

text \<open>C28. Decoding is safe on every input: for any readable slice, whatever its bytes,
  \<^verbatim>\<open>vicarl_record_decode\<close> never reads outside the input; it returns a handle for exactly the inputs
  the parser accepts, rejects the others with a format error, and fails otherwise only for lack of
  memory; on an error it leaves no block behind, and destroying the handle gives back everything.\<close>
theorem record_decode_safe:
  assumes "alloc_rel A ok rel" and "ok h" and "slice_wf enc"
  shows "outcome (vicarl_record_decode A enc True)
    (\<lambda>r h'. record_spec (slice_bytes enc) = Inr (handle_fields r) \<and>
       heap_to ok h (hp_live h) (vicarl_record_destroy A (Some r) h'))
    (\<lambda>e h'. heap_to ok h (hp_live h) h' \<and>
       (record_spec (slice_bytes enc) = Inl e \<and> (\<exists>msg. e = VErr VICARL_ERR_FORMAT (Some msg)) \<or>
        e = err_oom \<and> \<not> rel)) h"
  using record_decode_outcome [OF assms]
  by (rule outcome_mono)
     (auto simp: record_owned_def intro: record_destroy_heap [OF assms(1)] dest: record_spec_error)

theorem record_decode_safe_witness:
  "outcome (vicarl_record_decode default_allocator (slice_of [0, 1, 2, 3, 4]) True)
    (\<lambda>r h'. record_spec [0, 1, 2, 3, 4] = Inr (handle_fields r))
    (\<lambda>e h'. hp_live h' = {} \<and> (\<exists>msg. e = VErr VICARL_ERR_FORMAT (Some msg))) heap_init"
proof -
  have "slice_wf (slice_of [0, 1, 2, 3, 4])" by (simp add: size_mod_def)
  from record_decode_safe [OF libc_reliable heap_plenty_init this] show ?thesis
    by (rule outcome_mono) (auto simp: heap_to_def heap_init_def)
qed

text \<open>C38. No record verifies: there is no signature backend, so \<^verbatim>\<open>vicarl_record_verify\<close> fails on every
  readable input, with a format error or OOM from decoding, with \<^verbatim>\<open>VICARL_ERR_CRYPTO\<close> if the record is
  unsigned and with \<^verbatim>\<open>VICARL_ERR_UNSUPPORTED\<close> if it carries a signature; it leaves no block behind.\<close>
theorem record_verify_always_fails:
  assumes "alloc_rel A ok rel" and "ok h" and "slice_wf enc"
  shows "outcome (vicarl_record_verify A enc) (\<lambda>_ h'. False)
    (\<lambda>e h'. heap_to ok h (hp_live h) h' \<and>
       (case record_spec (slice_bytes enc) of
          Inl e' \<Rightarrow> e = e' \<or> e = err_oom \<and> \<not> rel
        | Inr (m, payload, has_sig, sig) \<Rightarrow>
            (\<exists>msg. e = VErr (if has_sig then VICARL_ERR_UNSUPPORTED else VICARL_ERR_CRYPTO) (Some msg)) \<or>
            e = err_oom \<and> \<not> rel)) h"
  using record_decode_outcome [OF assms] record_destroy_heap [OF assms(1)]
  unfolding outcome_def vicarl_record_verify_def
  by (auto simp: vicarl_record_signature_def handle_fields_def fail_with_def record_owned_def
      split: prod.splits sum.splits)

theorem record_verify_always_fails_witness:
  "fst (vicarl_record_verify default_allocator (slice_of [1, 2]) heap_init) =
     Inl (badfmt ''record_decode: input too short'')"
proof -
  have "slice_wf (slice_of [1, 2])" by (simp add: size_mod_def)
  from record_verify_always_fails [OF libc_reliable heap_plenty_init this] show ?thesis
    by (auto simp: outcome_def record_spec_def split: prod.splits sum.splits)
qed

text \<open>The record identifier binds the record: two encodings with the same identifier are the same
  bytes, or they are themselves a SHA-256 collision; in the first case the two records have
  the same fields.\<close>
theorem record_id_binding:
  assumes "meta_wf m" and "slice_wf payload" and "sig_wf sig"
    and "meta_wf m'" and "slice_wf payload'" and "sig_wf sig'"
    and "length (meta_wire m payload sig) < size_mod" and "length (meta_wire m' payload' sig') < size_mod"
    and "vicarl_record_id (slice_of (meta_wire m payload sig)) True =
         vicarl_record_id (slice_of (meta_wire m' payload' sig')) True"
  shows "(meta_wire m payload sig \<noteq> meta_wire m' payload' sig' \<and>
          sha256 (meta_wire m payload sig) = sha256 (meta_wire m' payload' sig')) \<or>
    (slice_bytes (namespace_utf8 m) = slice_bytes (namespace_utf8 m') \<and>
     slice_bytes (schema_utf8 m) = slice_bytes (schema_utf8 m') \<and> author m = author m' \<and> seq m = seq m' \<and>
     timestamp_ms m = timestamp_ms m' \<and> slice_bytes payload = slice_bytes payload' \<and> sig = sig')"
proof (cases "meta_wire m payload sig = meta_wire m' payload' sig'")
  case True
  then show ?thesis
    using record_spec_wire [OF assms(1-3)] record_spec_wire [OF assms(4-6)]
    by (auto simp: fields_match_def split: option.splits)
next
  case False
  with assms(7-9) show ?thesis by (simp add: vicarl_record_id_def vicarl__sha256_slice_of)
qed

theorem record_id_binding_witness:
  "let m = \<lparr>namespace_utf8 = slice_of [97], schema_utf8 = slice_of [98], author = replicate 32 7, seq = 1, timestamp_ms = 0\<rparr>;
       m' = m\<lparr>namespace_utf8 := \<lparr>sl_ptr = Some [97, 5], sl_len = 1\<rparr>\<rparr>
   in slice_bytes (schema_utf8 m) = slice_bytes (schema_utf8 m')"
proof -
  let ?m = "\<lparr>namespace_utf8 = slice_of [97], schema_utf8 = slice_of [98], author = replicate 32 7, seq = 1, timestamp_ms = 0\<rparr>"
  let ?m' = "?m\<lparr>namespace_utf8 := \<lparr>sl_ptr = Some [97, 5], sl_len = 1\<rparr>\<rparr>"
  have wf: "meta_wf ?m" "slice_wf (slice_of [1])" "sig_wf None" "meta_wf ?m'" "slice_wf (slice_of [1])" "sig_wf None"
    by (simp_all add: meta_wf_def sig_wf_def size_mod_def slice_wf_def)
  have same: "meta_wire ?m (slice_of [1]) None = meta_wire ?m' (slice_of [1]) None"
    by (simp add: meta_wire_def slice_bytes_def)
  have len: "length (meta_wire ?m (slice_of [1]) None) < size_mod" "length (meta_wire ?m' (slice_of [1]) None) < size_mod"
    by (simp_all add: meta_wire_def record_wire_def VICARL_REC_MAGIC_def ldbytes_def leb128_small size_mod_def slice_bytes_def)
  from record_id_binding [OF wf len] same show ?thesis by simp
qed

text \<open>Decoding is not canonical: a record whose empty namespace is written with the two-byte length
  \<^verbatim>\<open>80 00\<close> instead of \<^verbatim>\<open>00\<close> is accepted and decodes to the same fields, so one record has encodings with
  different identifiers although the decoder means to admit canonical encodings only.\<close>
theorem record_decode_not_canonical:
  assumes "length auth = 32"
  shows "\<exists>x y. record_spec (record_wire [] [] auth 0 0 [] None) = Inr x \<and>
    record_spec (VICARL_REC_MAGIC @ [0] @ [0x80, 0] @ ldbytes [] @ auth @ leb128 0 @ leb128 0 @ ldbytes []) = Inr y \<and>
    slice_bytes (namespace_utf8 (fst x)) = slice_bytes (namespace_utf8 (fst y)) \<and>
    slice_bytes (schema_utf8 (fst x)) = slice_bytes (schema_utf8 (fst y)) \<and>
    author (fst x) = author (fst y) \<and> seq (fst x) = seq (fst y) \<and> timestamp_ms (fst x) = timestamp_ms (fst y) \<and>
    slice_bytes (fst (snd x)) = slice_bytes (fst (snd y)) \<and> snd (snd x) = snd (snd y)"
proof -
  let ?m = "\<lparr>namespace_utf8 = slice_of [], schema_utf8 = slice_of [], author = auth, seq = 0, timestamp_ms = 0\<rparr>"
  have wf: "meta_wf ?m" "slice_wf (slice_of [])" "sig_wf None"
    using assms by (simp_all add: meta_wf_def sig_wf_def)
  have wire: "record_wire [] [] auth 0 0 [] None = meta_wire ?m (slice_of []) None" by (simp add: meta_wire_def)
  have "reads record_fields
      (VICARL_REC_MAGIC @ [] @ [0] @ [0x80, 0] @ ldbytes [] @ auth @ leb128 (unat (0 :: u64)) @ leb128 (unat (0 :: u64)) @ ldbytes [] @ [] @ [])
      (fields_match ?m (slice_of []) None)"
    unfolding record_fields_def Let_def
    apply (rule reads_bindr [OF reads_rethrow [OF reads_get_magic]])
     apply (simp add: VICARL_REC_MAGIC_def)
    apply (rule reads_bindr [OF reads_guardr], simp)
    apply (rule reads_bindr [OF reads_rethrow [OF reads_get_u8]])
    apply (rule reads_bindr [OF reads_long_zero])
    apply (rule reads_bindr [OF reads_get_ldbytes], simp)
    apply (rule reads_bindr [OF reads_rethrow [OF reads_get_bytes]], use assms in simp)
    apply (rule reads_bindr [OF reads_get_varu64])
    apply (rule reads_bindr [OF reads_get_varu64])
    apply (rule reads_bindr [OF reads_get_ldbytes], simp)
    apply (rule reads_bindr [OF reads_get_signature [OF wf(3), simplified]], simp)
    apply (rule reads_retr)
    by (simp add: fields_match_def)
  from reads_whole [OF this, of "''record_decode: trailing bytes (non-canonical)''"] record_spec_wire [OF wf]
  show ?thesis
    by (fastforce simp: wire record_spec_def record_parse_def fields_match_def VICARL_REC_MAGIC_def)
qed

theorem record_decode_not_canonical_witness:
  "\<exists>y. record_spec (VICARL_REC_MAGIC @ [0] @ [0x80, 0] @ ldbytes [] @ replicate 32 7 @ leb128 0 @ leb128 0 @ ldbytes []) = Inr y"
  using record_decode_not_canonical [of "replicate 32 7"] by auto

end
