(* ===== verification/Vicarl_Merkle.thy ===== *)
theory Vicarl_Merkle
  imports Vicarl_Alloc Vicarl_Hash
begin

text \<open>
  \<^verbatim>\<open>src/model/merkle.c\<close>: the Merkle root of a list of records, inclusion proofs and their
  verification. A level is the list of its 32-byte hashes together with the block that holds
  them. The reference is the tree recursion \<^verbatim>\<open>mroot\<close>; security is stated relative to explicit
  SHA-256 collisions between strings that were really hashed.
\<close>

section \<open>Hashing a level\<close>

definition hash_concat :: "vicarl_hash32 \<Rightarrow> vicarl_hash32 \<Rightarrow> vicarl_hash32 res" where
  "hash_concat left right = vicarl__sha256 (slice_of (take 32 left @ take 32 right)) True"

text \<open>The leaf loop: every slice is checked, then hashed.\<close>

definition leaf_hash :: "string \<Rightarrow> vicarl_slice \<Rightarrow> vicarl_hash32 res" where
  "leaf_hash msg r = (if slice_bad r then Inl (badarg msg) else vicarl__sha256 r True)"

definition leaf_level :: "string \<Rightarrow> vicarl_slice list \<Rightarrow> nat \<Rightarrow> vicarl_hash32 list res" where
  "leaf_level msg records n =
     (if n \<le> length records then mapr (leaf_hash msg) (take n records)
      else Inl (UB ''records array too short''))"

text \<open>The parents of the first \<open>count\<close> hashes of a level; the last one is paired with itself if odd.\<close>

definition parent_level :: "vicarl_hash32 list \<Rightarrow> nat \<Rightarrow> vicarl_hash32 list res" where
  "parent_level level count =
     mapr (\<lambda>i. hash_concat (level ! (2 * i))
                 (if 2 * i + 1 < count then level ! (2 * i + 1) else level ! (2 * i)))
       [0..<((count + 1) mod size_mod) div 2]"

section \<open>The root\<close>

text \<open>
  The \<^verbatim>\<open>while (count > 1)\<close> loop of \<^verbatim>\<open>vicarl__merkle_root\<close>; \<open>p\<close> is the block of the current level.
  It returns the block and the single hash left.
\<close>

function merkle_reduce ::
  "vicarl_allocator \<Rightarrow> addr \<Rightarrow> vicarl_hash32 list \<Rightarrow> nat \<Rightarrow> (heap, addr \<times> vicarl_hash32 list) vm" where
  "merkle_reduce A p level count h =
     (if count > 1 then
        let parent_count = ((count + 1) mod size_mod) div 2 in
        if parent_count > size_max div 32
        then (Inl (fail_with VICARL_ERR_INTERNAL ''merkle_root: overflow''), vicarl__free A (Some p) h)
        else
          (case vicarl__malloc A (parent_count * 32) h of
             (None, h1) \<Rightarrow> (Inl err_oom, vicarl__free A (Some p) h1)
           | (Some q, h1) \<Rightarrow>
               (case parent_level level count of
                  Inl e \<Rightarrow> (Inl e, vicarl__free A (Some p) (vicarl__free A (Some q) h1))
                | Inr next \<Rightarrow> merkle_reduce A q next parent_count (vicarl__free A (Some p) h1)))
      else (Inr (p, level), h))"
  by pat_completeness auto

lemma halve_less: "1 < count \<Longrightarrow> ((count + 1) mod size_mod) div 2 < (count :: nat)"
proof -
  assume "1 < count"
  moreover have "(count + 1) mod size_mod \<le> count + 1" by simp
  ultimately show ?thesis by linarith
qed

termination merkle_reduce
  by (relation "measure (\<lambda>(A, p, level, count, h). count)") (auto simp: halve_less [simplified])

declare merkle_reduce.simps [simp del]

text \<open>
  \<^verbatim>\<open>vicarl__merkle_root(records, n, out_root)\<close>; \<open>records\<close> is \<^const>\<open>None\<close> for NULL and \<open>out\<close> tells whether
  \<^verbatim>\<open>out_root\<close> is non-NULL.
\<close>

definition vicarl__merkle_root ::
  "vicarl_allocator \<Rightarrow> vicarl_slice list option \<Rightarrow> nat \<Rightarrow> bool \<Rightarrow> (heap, vicarl_hash32) vm" where
  "vicarl__merkle_root A records n out h =
     (if \<not> out then (Inl (badarg ''merkle_root: out_root is NULL''), h)
      else if n = 0 then (Inr zero_hash, h)
      else case records of
        None \<Rightarrow> (Inl (badarg ''merkle_root: records is NULL''), h)
      | Some recs \<Rightarrow>
          if n > size_max div 32
          then (Inl (fail_with VICARL_ERR_FORMAT ''merkle_root: too many leaves''), h)
          else
            (case vicarl__malloc A (n * 32) h of
               (None, h1) \<Rightarrow> (Inl err_oom, h1)
             | (Some p, h1) \<Rightarrow>
                 (case leaf_level ''merkle_root: record slice invalid'' recs n of
                    Inl e \<Rightarrow> (Inl e, vicarl__free A (Some p) h1)
                  | Inr level \<Rightarrow>
                      (case merkle_reduce A p level n h1 of
                         (Inl e, h2) \<Rightarrow> (Inl e, h2)
                       | (Inr (q, final), h2) \<Rightarrow> (Inr (hd final), vicarl__free A (Some q) h2)))))"

section \<open>Proofs\<close>

record vicarl_merkle_proof =
  pf_siblings_ptr :: "addr option"
  pf_siblings :: "vicarl_hash32 list"
  pf_is_left_ptr :: "addr option"
  pf_is_left :: "bool list"
  pf_count :: nat

definition vicarl__merkle_proof_destroy ::
  "vicarl_allocator \<Rightarrow> vicarl_merkle_proof option \<Rightarrow> heap \<Rightarrow> vicarl_merkle_proof option \<times> heap" where
  "vicarl__merkle_proof_destroy A proof h =
     (case proof of
        None \<Rightarrow> (None, h)
      | Some pf \<Rightarrow>
          (Some \<lparr>pf_siblings_ptr = None, pf_siblings = [], pf_is_left_ptr = None, pf_is_left = [], pf_count = 0\<rparr>,
           vicarl__free A (pf_is_left_ptr pf) (vicarl__free A (pf_siblings_ptr pf) h)))"

text \<open>\<^verbatim>\<open>while (count > 1) { cap++; count = (count + 1) / 2; }\<close>\<close>

function proof_len :: "nat \<Rightarrow> nat" where
  "proof_len count = (if count > 1 then Suc (proof_len (((count + 1) mod size_mod) div 2)) else 0)"
  by pat_completeness auto
termination
  by (relation "measure (\<lambda>n. n)") (auto simp: halve_less [simplified])

declare proof_len.simps [simp del]

text \<open>
  The level loop of \<^verbatim>\<open>vicarl__merkle_proof_build\<close>: \<open>p\<close> is the block of the level, \<open>sibs\<close> and \<open>lefts\<close> the
  entries written so far, \<open>cap\<close> the size of the two arrays. On error the blocks \<open>sp\<close> and \<open>lp\<close> of the
  arrays are released as well.
\<close>

function proof_loop ::
  "vicarl_allocator \<Rightarrow> addr \<Rightarrow> addr \<Rightarrow> nat \<Rightarrow> addr \<Rightarrow> vicarl_hash32 list \<Rightarrow> nat \<Rightarrow> nat \<Rightarrow>
     vicarl_hash32 list \<Rightarrow> bool list \<Rightarrow> (heap, addr \<times> vicarl_hash32 list \<times> bool list) vm" where
  "proof_loop A sp lp cap p level level_count idx sibs lefts h =
     (if level_count > 1 then
        if length sibs \<ge> cap then (Inl (UB ''write past the end of the proof arrays''), h)
        else
        let even_idx = (idx mod 2 = 0);
            sib_idx = (if even_idx then (if idx + 1 < level_count then idx + 1 else idx) else idx - 1);
            sibs' = sibs @ [take 32 (level ! sib_idx)];
            lefts' = lefts @ [\<not> even_idx];
            parent_count = ((level_count + 1) mod size_mod) div 2
        in
          (case vicarl__malloc A (parent_count * 32 mod size_mod) h of
             (None, h1) \<Rightarrow>
               (Inl err_oom, vicarl__free A (Some lp) (vicarl__free A (Some sp) (vicarl__free A (Some p) h1)))
           | (Some q, h1) \<Rightarrow>
               (case parent_level level level_count of
                  Inl e \<Rightarrow>
                    (Inl e, vicarl__free A (Some lp) (vicarl__free A (Some sp)
                       (vicarl__free A (Some p) (vicarl__free A (Some q) h1))))
                | Inr next \<Rightarrow>
                    proof_loop A sp lp cap q next parent_count (idx div 2) sibs' lefts'
                      (vicarl__free A (Some p) h1)))
      else (Inr (p, sibs, lefts), h))"
  by pat_completeness auto
termination
  by (relation "measure (\<lambda>(A, sp, lp, cap, p, level, count, idx, sibs, lefts, h). count)") (auto simp: halve_less [simplified])

declare proof_loop.simps [simp del]

definition vicarl__merkle_proof_build ::
  "vicarl_allocator \<Rightarrow> vicarl_slice list option \<Rightarrow> nat \<Rightarrow> nat \<Rightarrow> bool \<Rightarrow> (heap, vicarl_merkle_proof) vm" where
  "vicarl__merkle_proof_build A records n index out h =
     (if \<not> out then (Inl (badarg ''merkle_proof_build: out_proof is NULL''), h)
      else if n = 0 then (Inl (badarg ''merkle_proof_build: empty tree''), h)
      else case records of
        None \<Rightarrow> (Inl (badarg ''merkle_proof_build: records is NULL''), h)
      | Some recs \<Rightarrow>
          if index \<ge> n then (Inl (badarg ''merkle_proof_build: index out of range''), h)
          else
            let cap = proof_len n; cells = (if cap \<noteq> 0 then cap else 1) in
            case vicarl__calloc A cells 32 h of (siblings, h1) \<Rightarrow>
            case vicarl__calloc A cells 1 h1 of (is_left, h2) \<Rightarrow>
            case (siblings, is_left) of
              (Some sp, Some lp) \<Rightarrow>
                if n > size_max div 32
                then (Inl (fail_with VICARL_ERR_FORMAT ''merkle_proof_build: too many leaves''),
                      vicarl__free A (Some lp) (vicarl__free A (Some sp) h2))
                else
                  (case vicarl__malloc A (n * 32) h2 of
                     (None, h3) \<Rightarrow> (Inl err_oom, vicarl__free A (Some lp) (vicarl__free A (Some sp) h3))
                   | (Some p, h3) \<Rightarrow>
                       (case leaf_level ''merkle_proof_build: record slice invalid'' recs n of
                          Inl e \<Rightarrow>
                            (Inl e, vicarl__free A (Some lp) (vicarl__free A (Some sp) (vicarl__free A (Some p) h3)))
                        | Inr level \<Rightarrow>
                            (case proof_loop A sp lp cap p level n index [] [] h3 of
                               (Inl e, h4) \<Rightarrow> (Inl e, h4)
                             | (Inr (q, sibs, lefts), h4) \<Rightarrow>
                                 (Inr \<lparr>pf_siblings_ptr = Some sp, pf_siblings = sibs,
                                       pf_is_left_ptr = Some lp, pf_is_left = lefts, pf_count = length sibs\<rparr>,
                                  vicarl__free A (Some q) h4))))
            | _ \<Rightarrow> (Inl err_oom, vicarl__free A is_left (vicarl__free A siblings h2)))"

text \<open>The fold over the proof entries: the sibling goes left or right of the current hash.\<close>

fun proof_fold :: "vicarl_hash32 \<Rightarrow> (vicarl_hash32 \<times> bool) list \<Rightarrow> vicarl_hash32 res" where
  "proof_fold cur [] = Inr cur"
| "proof_fold cur ((sib, left) # rest) =
     (case (if left then hash_concat sib cur else hash_concat cur sib) of
        Inl e \<Rightarrow> Inl e
      | Inr next \<Rightarrow> proof_fold next rest)"

definition vicarl__merkle_proof_verify ::
  "vicarl_slice \<Rightarrow> nat \<Rightarrow> nat \<Rightarrow> vicarl_merkle_proof option \<Rightarrow> vicarl_hash32 option \<Rightarrow> unit res" where
  "vicarl__merkle_proof_verify record_bytes index n proof expected_root =
     (case (proof, expected_root) of
        (Some pf, Some root) \<Rightarrow>
          if n = 0 then Inl (badarg ''merkle_proof_verify: empty tree'')
          else if index \<ge> n then Inl (badarg ''merkle_proof_verify: index out of range'')
          else
            let need = proof_len n in
            if pf_count pf \<noteq> need
            then Inl (fail_with VICARL_ERR_FORMAT ''merkle_proof_verify: proof length mismatch'')
            else if need > 0 \<and> (pf_siblings_ptr pf = None \<or> pf_is_left_ptr pf = None)
            then Inl (badarg ''merkle_proof_verify: proof arrays missing'')
            else
              (case vicarl__sha256 record_bytes True of
                 Inl e \<Rightarrow> Inl e
               | Inr cur \<Rightarrow>
                   if length (pf_siblings pf) < pf_count pf \<or> length (pf_is_left pf) < pf_count pf
                   then Inl (UB ''read past the end of the proof arrays'')
                   else
                     (case proof_fold cur (take (pf_count pf) (zip (pf_siblings pf) (pf_is_left pf))) of
                        Inl e \<Rightarrow> Inl e
                      | Inr cur' \<Rightarrow>
                          if cur' \<noteq> root
                          then Inl (fail_with VICARL_ERR_FORMAT ''merkle_proof_verify: root mismatch'')
                          else Inr ()))
      | _ \<Rightarrow> Inl (badarg ''merkle_proof_verify: invalid args''))"

section \<open>The reference tree\<close>

fun pairup :: "vicarl_hash32 list \<Rightarrow> vicarl_hash32 list" where
  "pairup [] = []"
| "pairup [a] = [sha256 (a @ a)]"
| "pairup (a # b # hs) = sha256 (a @ b) # pairup hs"

lemma length_pairup: "length (pairup hs) = (length hs + 1) div 2"
  by (induction hs rule: pairup.induct) simp_all

function mroot :: "vicarl_hash32 list \<Rightarrow> vicarl_hash32" where
  "mroot hs = (if length hs > 1 then mroot (pairup hs) else if hs = [] then zero_hash else hd hs)"
  by pat_completeness auto
termination
  by (relation "measure length") (auto simp: length_pairup)

declare mroot.simps [simp del]

lemma mroot_step: "length hs > 1 \<Longrightarrow> mroot hs = mroot (pairup hs)"
  by (simp add: mroot.simps [of hs])

lemma mroot_single [simp]: "mroot [a] = a"
  by (simp add: mroot.simps [of "[a]"])

text \<open>Levels of a tree: hashes of 32 bytes, few enough that their array fits in memory.\<close>

definition level_ok :: "vicarl_hash32 list \<Rightarrow> bool" where
  "level_ok hs \<longleftrightarrow> (\<forall>x \<in> set hs. length x = 32) \<and> length hs \<le> size_max div 32"

lemma pairup_32: "\<forall>x \<in> set (pairup hs). length x = 32"
  by (induction hs rule: pairup.induct) simp_all

lemma level_ok_pairup: "level_ok hs \<Longrightarrow> level_ok (pairup hs)"
  by (auto simp: level_ok_def pairup_32 length_pairup)

lemma hash_concat_eq [simp]: "length a = 32 \<Longrightarrow> length b = 32 \<Longrightarrow> hash_concat a b = Inr (sha256 (a @ b))"
  by (simp add: hash_concat_def size_mod_def)

lemma size_bound: "n \<le> size_max div 32 \<Longrightarrow> (n + 1) mod size_mod = n + 1"
  by (simp add: size_max_def size_mod_def)

lemma pairup_nth:
  "map (\<lambda>i. sha256 (hs ! (2 * i) @ (if 2 * i + 1 < length hs then hs ! (2 * i + 1) else hs ! (2 * i))))
     [0..<(length hs + 1) div 2] = pairup hs"
proof (induction hs rule: pairup.induct)
  case (3 a b hs)
  have "[0..<(length (a # b # hs) + 1) div 2] = 0 # map Suc [0..<(length hs + 1) div 2]"
    by (simp add: upt_conv_Cons map_Suc_upt del: upt_Suc)
  then show ?case
    by (simp add: "3.IH" [symmetric] o_def)
qed simp_all

lemma parent_level_eq:
  assumes "level_ok hs"
  shows "parent_level hs (length hs) = Inr (pairup hs)"
proof -
  have "parent_level hs (length hs) = Inr (map (\<lambda>i. sha256 (hs ! (2 * i) @
      (if 2 * i + 1 < length hs then hs ! (2 * i + 1) else hs ! (2 * i)))) [0..<(length hs + 1) div 2])"
    using assms unfolding parent_level_def level_ok_def
    by (auto simp: size_bound [simplified] intro!: mapr_Inr)
  then show ?thesis by (simp only: pairup_nth)
qed

lemma leaf_level_eq:
  assumes "\<forall>r \<in> set recs. slice_wf r"
  shows "leaf_level msg recs (length recs) = Inr (map (\<lambda>r. sha256 (slice_bytes r)) recs)"
  unfolding leaf_level_def using assms
  by (auto simp: leaf_hash_def slice_wf_not_bad vicarl__sha256_wf intro!: mapr_Inr)

section \<open>The code computes the reference root\<close>

text \<open>The loop owns one block more than its caller and hands over one block, the last level.\<close>

lemma merkle_reduce_outcome:
  assumes A: "alloc_rel A ok rel"
  shows "heap_to ok h0 (insert p L) h \<Longrightarrow> p \<notin> L \<Longrightarrow> level_ok level \<Longrightarrow> level \<noteq> [] \<Longrightarrow>
    outcome (merkle_reduce A p level (length level))
      (\<lambda>r h'. snd r = [mroot level] \<and> fst r \<notin> L \<and> heap_to ok h0 (insert (fst r) L) h')
      (\<lambda>e h'. e = err_oom \<and> \<not> rel \<and> heap_to ok h0 L h') h"
proof (induction "length level" arbitrary: p level h rule: less_induct)
  case less
  note prems = less.prems
  show ?case
  proof (cases "length level > 1")
    case False
    with prems(4) have "length level = 1" by (cases level) auto
    then obtain a where "level = [a]" by (auto simp: length_Suc_conv)
    with prems show ?thesis by (simp add: merkle_reduce.simps outcome_def)
  next
    case True
    let ?pc = "(length level + 1) div 2"
    have pc: "((length level + 1) mod size_mod) div 2 = ?pc" "\<not> ?pc > size_max div 32"
      using prems(3) True by (auto simp: level_ok_def size_bound [simplified])
    have pl: "parent_level level (length level) = Inr (pairup level)"
      using prems(3) by (rule parent_level_eq)
    from A prems(1) show ?thesis
    proof (cases rule: malloc_stepE [where n = "?pc * 32"])
      case (fail h')
      have "heap_to ok h0 L (free_fn A p h')"
        using free_step_insert [OF A fail(3) prems(2)] .
      with fail True pc show ?thesis
        by (simp add: outcome_def merkle_reduce.simps [of A p level] Let_def)
    next
      case (new q h')
      have step: "merkle_reduce A p level (length level) h =
          merkle_reduce A q (pairup level) (length (pairup level)) (free_fn A p h')"
        using new True pc pl by (simp add: merkle_reduce.simps [of A p level] Let_def length_pairup)
      have "heap_to ok h0 (insert q L) (free_fn A p h')"
        using free_step_insert2 [OF A new(3) prems(2)] new(2) by auto
      moreover have "length (pairup level) < length level"
        using True by (simp add: length_pairup)
      moreover have "pairup level \<noteq> []" using True length_pairup [of level] by auto
      ultimately have "outcome (merkle_reduce A q (pairup level) (length (pairup level)))
          (\<lambda>r h'. snd r = [mroot (pairup level)] \<and> fst r \<notin> L \<and> heap_to ok h0 (insert (fst r) L) h')
          (\<lambda>e h'. e = err_oom \<and> \<not> rel \<and> heap_to ok h0 L h') (free_fn A p h')"
        using new(2) level_ok_pairup [OF prems(3)] by (intro less.hyps) auto
      with True show ?thesis by (simp add: outcome_def step mroot_step)
    qed
  qed
qed

definition records_ok :: "vicarl_slice list \<Rightarrow> bool" where
  "records_ok recs \<longleftrightarrow> (\<forall>r \<in> set recs. slice_wf r) \<and> length recs \<le> size_max div 32"

definition leaves :: "vicarl_slice list \<Rightarrow> vicarl_hash32 list" where
  "leaves recs = map (\<lambda>r. sha256 (slice_bytes r)) recs"

lemma level_ok_leaves: "records_ok recs \<Longrightarrow> level_ok (leaves recs)"
  by (auto simp: level_ok_def records_ok_def leaves_def)

lemma merkle_root_outcome:
  assumes A: "alloc_rel A ok rel" and h: "ok h" and r: "records_ok recs"
  shows "outcome (vicarl__merkle_root A (Some recs) (length recs) True)
    (\<lambda>root h'. root = mroot (leaves recs) \<and> heap_to ok h (hp_live h) h')
    (\<lambda>e h'. e = err_oom \<and> \<not> rel \<and> heap_to ok h (hp_live h) h') h"
proof (cases "recs = []")
  case True
  with h show ?thesis
    by (simp add: outcome_def vicarl__merkle_root_def leaves_def mroot.simps heap_to_refl)
next
  case False
  let ?ls = "leaves recs" and ?L = "hp_live h"
  have n: "length recs \<noteq> 0" "\<not> length recs > size_max div 32" using False r by (auto simp: records_ok_def)
  have ll: "leaf_level msg recs (length recs) = Inr ?ls" for msg
    using r leaf_level_eq by (simp add: leaves_def records_ok_def)
  have start: "heap_to ok h ?L h" using h by (rule heap_to_refl)
  from A start show ?thesis
  proof (cases rule: malloc_stepE [where n = "length recs * 32"])
    case (fail h')
    with n h show ?thesis by (simp add: outcome_def vicarl__merkle_root_def)
  next
    case (new p h')
    have "outcome (merkle_reduce A p ?ls (length ?ls))
      (\<lambda>r h'. snd r = [mroot ?ls] \<and> fst r \<notin> ?L \<and> heap_to ok h (insert (fst r) ?L) h')
      (\<lambda>e h'. e = err_oom \<and> \<not> rel \<and> heap_to ok h ?L h') h'"
      using new r False level_ok_leaves by (intro merkle_reduce_outcome [OF A]) (auto simp: leaves_def)
    with new n ll False show ?thesis
      by (auto simp: outcome_def vicarl__merkle_root_def leaves_def free_step_insert [OF A]
          split: prod.splits sum.splits)
  qed
qed


section \<open>Inclusion proofs\<close>

definition sibling :: "vicarl_hash32 list \<Rightarrow> nat \<Rightarrow> vicarl_hash32" where
  "sibling hs i = hs ! (if even i then (if i + 1 < length hs then i + 1 else i) else i - 1)"

text \<open>The audit path of leaf \<open>i\<close>: the sibling on every level and whether it stands on the left.\<close>

function mpath :: "vicarl_hash32 list \<Rightarrow> nat \<Rightarrow> (vicarl_hash32 \<times> bool) list" where
  "mpath hs i = (if length hs > 1 then (sibling hs i, odd i) # mpath (pairup hs) (i div 2) else [])"
  by pat_completeness auto
termination
  by (relation "measure (\<lambda>(hs, i). length hs)") (auto simp: length_pairup)

declare mpath.simps [simp del]

lemma mpath_step: "length hs > 1 \<Longrightarrow> mpath hs i = (sibling hs i, odd i) # mpath (pairup hs) (i div 2)"
  by (subst mpath.simps) simp

lemma mpath_done: "\<not> length hs > 1 \<Longrightarrow> mpath hs i = []"
  by (subst mpath.simps) simp

lemma proof_len_step: "n > 1 \<Longrightarrow> n \<le> size_max div 32 \<Longrightarrow> proof_len n = Suc (proof_len ((n + 1) div 2))"
  by (subst proof_len.simps) (simp add: size_bound [simplified])

lemma proof_len_done: "\<not> n > 1 \<Longrightarrow> proof_len n = 0"
  by (subst proof_len.simps) simp

lemma length_mpath: "length hs \<le> size_max div 32 \<Longrightarrow> length (mpath hs i) = proof_len (length hs)"
proof (induction hs i rule: mpath.induct)
  case (1 hs i)
  show ?case
  proof (cases "length hs > 1")
    case True
    have "length (mpath (pairup hs) (i div 2)) = proof_len (length (pairup hs))"
      using "1.prems" by (intro "1.IH" [OF True]) (simp add: length_pairup)
    with True "1.prems" show ?thesis by (simp add: mpath_step proof_len_step length_pairup)
  qed (simp add: mpath_done proof_len_done)
qed

lemma proof_len_bound: "n \<le> size_max div 32 \<Longrightarrow> proof_len n \<le> n"
proof (induction n rule: less_induct)
  case (less n)
  show ?case
  proof (cases "n > 1")
    case True
    with less.prems less.IH [of "(n + 1) div 2"] have "proof_len ((n + 1) div 2) \<le> (n + 1) div 2" by auto
    with True less.prems show ?thesis by (simp add: proof_len_step)
  qed (simp add: proof_len_done)
qed

lemma pairup_at: "i < length hs \<Longrightarrow>
  pairup hs ! (i div 2) = (if even i then sha256 (hs ! i @ sibling hs i) else sha256 (sibling hs i @ hs ! i))"
proof -
  assume i: "i < length hs"
  let ?f = "\<lambda>i. sha256 (hs ! (2 * i) @ (if 2 * i + 1 < length hs then hs ! (2 * i + 1) else hs ! (2 * i)))"
  have "pairup hs ! (i div 2) = map ?f [0..<(length hs + 1) div 2] ! (i div 2)"
    by (simp only: pairup_nth)
  also have "\<dots> = ?f (i div 2)" using i by (subst nth_map) auto
  also have "\<dots> = (if even i then sha256 (hs ! i @ sibling hs i) else sha256 (sibling hs i @ hs ! i))"
  proof (cases "even i")
    case True
    then show ?thesis by (simp add: sibling_def)
  next
    case False
    then have "2 * (i div 2) + 1 = i" "2 * (i div 2) = i - 1" by presburger+
    with False i show ?thesis by (simp add: sibling_def)
  qed
  finally show ?thesis .
qed

lemma sibling_32: "level_ok hs \<Longrightarrow> i < length hs \<Longrightarrow> length (sibling hs i) = 32"
  by (auto simp: level_ok_def sibling_def)

lemma half_less_pairup: "i < length hs \<Longrightarrow> i div 2 < length (pairup hs)"
  by (simp add: length_pairup)

text \<open>Folding the audit path of leaf \<open>i\<close> into leaf \<open>i\<close> gives the root.\<close>

lemma proof_fold_mpath: "level_ok hs \<Longrightarrow> i < length hs \<Longrightarrow> proof_fold (hs ! i) (mpath hs i) = Inr (mroot hs)"
proof (induction hs i rule: mpath.induct)
  case (1 hs i)
  show ?case
  proof (cases "length hs > 1")
    case True
    have "proof_fold (pairup hs ! (i div 2)) (mpath (pairup hs) (i div 2)) = Inr (mroot (pairup hs))"
      using "1.prems" by (intro "1.IH" [OF True] level_ok_pairup half_less_pairup)
    moreover have "length (hs ! i) = 32" using "1.prems" by (simp add: level_ok_def)
    ultimately show ?thesis
      using True "1.prems" sibling_32 [of hs i] by (auto simp: mpath_step mroot_step pairup_at)
  next
    case False
    with "1.prems"(2) have "length hs = 1" by linarith
    then obtain a where "hs = [a]" by (auto simp: length_Suc_conv)
    with "1.prems"(2) show ?thesis by (simp add: mpath_done)
  qed
qed

lemma proof_loop_outcome:
  assumes A: "alloc_rel A ok rel" and d: "sp \<notin> L" "lp \<notin> L" "sp \<noteq> lp"
  shows "heap_to ok h0 (insert p (insert sp (insert lp L))) h \<Longrightarrow> p \<notin> insert sp (insert lp L) \<Longrightarrow>
    level_ok level \<Longrightarrow> idx < length level \<Longrightarrow> cap = length sibs + proof_len (length level) \<Longrightarrow>
    outcome (proof_loop A sp lp cap p level (length level) idx sibs lefts)
      (\<lambda>r h'. snd r = (sibs @ map fst (mpath level idx), lefts @ map snd (mpath level idx)) \<and>
         fst r \<notin> insert sp (insert lp L) \<and> heap_to ok h0 (insert (fst r) (insert sp (insert lp L))) h')
      (\<lambda>e h'. e = err_oom \<and> \<not> rel \<and> heap_to ok h0 L h') h"
proof (induction "length level" arbitrary: p level h idx sibs lefts rule: less_induct)
  case less
  note prems = less.prems
  let ?S = "insert sp (insert lp L)"
  show ?case
  proof (cases "length level > 1")
    case False
    with prems show ?thesis by (simp add: proof_loop.simps [of A] outcome_def mpath_done)
  next
    case True
    let ?pc = "(length level + 1) div 2"
    let ?sibs = "sibs @ [sibling level idx]" and ?lefts = "lefts @ [odd idx]"
    have pc: "((length level + 1) mod size_mod) div 2 = ?pc"
      using prems(3) True by (auto simp: level_ok_def size_bound [simplified])
    have pl: "parent_level level (length level) = Inr (pairup level)"
      using prems(3) by (rule parent_level_eq)
    have cap: "\<not> cap \<le> length sibs" "cap = length ?sibs + proof_len (length (pairup level))"
      using prems(3,5) True by (simp_all add: proof_len_step level_ok_def length_pairup)
    have sib: "take 32 (level ! (if idx mod 2 = 0 then if idx + 1 < length level then idx + 1 else idx else idx - 1))
        = sibling level idx" "(idx mod 2 \<noteq> 0) = odd idx"
      using sibling_32 [OF prems(3,4)] by (simp_all add: sibling_def even_iff_mod_2_eq_zero)
    from A prems(1) show ?thesis
    proof (cases rule: malloc_stepE [where n = "?pc * 32 mod size_mod"])
      case (fail h')
      have "heap_to ok h0 L (free_fn A lp (free_fn A sp (free_fn A p h')))"
        using d prems(2) fail(3) by (intro free_step_insert [OF A]) auto
      moreover have "proof_loop A sp lp cap p level (length level) idx sibs lefts h =
          (Inl err_oom, free_fn A lp (free_fn A sp (free_fn A p h')))"
        using fail True pc cap(1) by (simp add: proof_loop.simps [of A sp lp cap p level] Let_def)
      ultimately show ?thesis using fail by (simp add: outcome_def)
    next
      case (new q h')
      have step: "proof_loop A sp lp cap p level (length level) idx sibs lefts h =
          proof_loop A sp lp cap q (pairup level) (length (pairup level)) (idx div 2) ?sibs ?lefts (free_fn A p h')"
        using new True pc pl cap(1) sib
        by (simp add: proof_loop.simps [of A sp lp cap p level] Let_def length_pairup)
      have "heap_to ok h0 (insert q ?S) (free_fn A p h')"
        using free_step_insert2 [OF A new(3) prems(2)] new(2) by auto
      then have "outcome (proof_loop A sp lp cap q (pairup level) (length (pairup level)) (idx div 2) ?sibs ?lefts)
          (\<lambda>r h'. snd r = (?sibs @ map fst (mpath (pairup level) (idx div 2)),
               ?lefts @ map snd (mpath (pairup level) (idx div 2))) \<and>
             fst r \<notin> ?S \<and> heap_to ok h0 (insert (fst r) ?S) h')
          (\<lambda>e h'. e = err_oom \<and> \<not> rel \<and> heap_to ok h0 L h') (free_fn A p h')"
        using new(2) level_ok_pairup [OF prems(3)] half_less_pairup [OF prems(4)] cap True
        by (intro less.hyps) (auto simp: length_pairup)
      with True show ?thesis by (simp add: outcome_def step mpath_step)
    qed
  qed
qed

definition proof_of :: "addr \<Rightarrow> addr \<Rightarrow> (vicarl_hash32 \<times> bool) list \<Rightarrow> vicarl_merkle_proof" where
  "proof_of sp lp path =
     \<lparr>pf_siblings_ptr = Some sp, pf_siblings = map fst path, pf_is_left_ptr = Some lp,
      pf_is_left = map snd path, pf_count = length path\<rparr>"

lemma merkle_proof_build_outcome:
  assumes A: "alloc_rel A ok rel" and h: "ok h" and r: "records_ok recs" and i: "i < length recs"
  shows "outcome (vicarl__merkle_proof_build A (Some recs) (length recs) i True)
    (\<lambda>pf h'. \<exists>sp lp. sp \<noteq> lp \<and> {sp, lp} \<inter> hp_live h = {} \<and> pf = proof_of sp lp (mpath (leaves recs) i) \<and>
       heap_to ok h (insert sp (insert lp (hp_live h))) h')
    (\<lambda>e h'. e = err_oom \<and> \<not> rel \<and> heap_to ok h (hp_live h) h') h"
proof -
  let ?ls = "leaves recs" and ?L = "hp_live h" and ?n = "length recs"
  let ?m = "vicarl__merkle_proof_build A (Some recs) ?n i True"
  let ?cells = "if proof_len ?n \<noteq> 0 then proof_len ?n else 1"
  have n: "?n \<noteq> 0" "\<not> ?n > size_max div 32" using i r by (auto simp: records_ok_def)
  have lls: "length ?ls = ?n" by (simp add: leaves_def)
  have ll: "leaf_level msg recs ?n = Inr ?ls" for msg
    using r leaf_level_eq by (simp add: leaves_def records_ok_def)
  have "?cells \<le> size_max div 32"
    using proof_len_bound [of ?n] n by (auto simp: size_max_def)
  then have cells: "?cells * 32 < size_mod" "?cells * 1 < size_mod"
    by (auto simp: size_max_def size_mod_def)
  have h0: "heap_to ok h ?L h" using h by (rule heap_to_refl)
  from A h0 show ?thesis
  proof (cases rule: calloc_stepE [where c = ?cells and s = 32])
    case s: (fail h1)
    from A s(3) show ?thesis
    proof (cases rule: calloc_stepE [where c = ?cells and s = 1])
      case (fail h2)
      with s n i cells show ?thesis by (auto simp: outcome_def vicarl__merkle_proof_build_def Let_def)
    next
      case (new lp h2)
      have "heap_to ok h ?L (free_fn A lp h2)" using new by (intro free_step_insert [OF A]) auto
      with s new n i cells show ?thesis by (auto simp: outcome_def vicarl__merkle_proof_build_def Let_def)
    qed
  next
    case s: (new sp h1)
    from A s(3) show ?thesis
    proof (cases rule: calloc_stepE [where c = ?cells and s = 1])
      case (fail h2)
      have "heap_to ok h ?L (free_fn A sp h2)" using s fail by (intro free_step_insert [OF A]) auto
      with s fail n i cells show ?thesis by (auto simp: outcome_def vicarl__merkle_proof_build_def Let_def)
    next
      case l: (new lp h2)
      have live2: "heap_to ok h (insert sp (insert lp ?L)) h2" using l(3) by (simp add: insert_commute)
      from A live2 show ?thesis
      proof (cases rule: malloc_stepE [where n = "?n * 32"])
        case (fail h3)
        have "heap_to ok h ?L (free_fn A lp (free_fn A sp h3))"
          using s l fail by (intro free_step_insert [OF A]) auto
        with s l fail n i show ?thesis by (simp add: outcome_def vicarl__merkle_proof_build_def Let_def)
      next
        case p: (new p h3)
        have "outcome (proof_loop A sp lp (proof_len ?n) p ?ls (length ?ls) i [] [])
          (\<lambda>r h'. snd r = ([] @ map fst (mpath ?ls i), [] @ map snd (mpath ?ls i)) \<and>
             fst r \<notin> insert sp (insert lp ?L) \<and> heap_to ok h (insert (fst r) (insert sp (insert lp ?L))) h')
          (\<lambda>e h'. e = err_oom \<and> \<not> rel \<and> heap_to ok h ?L h') h3"
          using s l p i lls level_ok_leaves [OF r] by (intro proof_loop_outcome [OF A]) auto
        then show ?thesis
          using s l p n i ll lls
          by (auto simp: outcome_def vicarl__merkle_proof_build_def Let_def proof_of_def
              free_step_insert [OF A] split: prod.splits sum.splits)
      qed
    qed
  qed
qed

section \<open>What is hashed\<close>

text \<open>The strings hashed above the leaves of a tree, over its leaves, and along a proof.\<close>

fun pairs :: "vicarl_hash32 list \<Rightarrow> bytes list" where
  "pairs [] = []"
| "pairs [a] = [a @ a]"
| "pairs (a # b # hs) = (a @ b) # pairs hs"

lemma pairup_pairs: "pairup hs = map sha256 (pairs hs)"
  by (induction hs rule: pairs.induct) simp_all

function node_inputs :: "vicarl_hash32 list \<Rightarrow> bytes list" where
  "node_inputs hs = (if length hs > 1 then pairs hs @ node_inputs (pairup hs) else [])"
  by pat_completeness auto
termination
  by (relation "measure length") (auto simp: length_pairup)

declare node_inputs.simps [simp del]

lemma node_inputs_step: "length hs > 1 \<Longrightarrow> set (node_inputs hs) = set (pairs hs) \<union> set (node_inputs (pairup hs))"
  by (subst node_inputs.simps) simp

definition tree_inputs :: "vicarl_slice list \<Rightarrow> bytes list" where
  "tree_inputs recs = map slice_bytes recs @ node_inputs (leaves recs)"

fun path_inputs :: "vicarl_hash32 \<Rightarrow> (vicarl_hash32 \<times> bool) list \<Rightarrow> bytes list" where
  "path_inputs cur [] = []"
| "path_inputs cur ((sib, left) # rest) =
     (let s = (if left then sib @ cur else cur @ sib) in s # path_inputs (sha256 s) rest)"

definition proof_inputs :: "vicarl_slice \<Rightarrow> vicarl_merkle_proof \<Rightarrow> bytes list" where
  "proof_inputs r pf =
     slice_bytes r # path_inputs (sha256 (slice_bytes r)) (zip (pf_siblings pf) (pf_is_left pf))"

text \<open>Two different strings, one hashed on either side, with the same hash.\<close>

definition collision :: "bytes list \<Rightarrow> bytes list \<Rightarrow> bool" where
  "collision xs ys \<longleftrightarrow> (\<exists>x \<in> set xs. \<exists>y \<in> set ys. x \<noteq> y \<and> sha256 x = sha256 y)"

lemma collisionI: "x \<in> set xs \<Longrightarrow> y \<in> set ys \<Longrightarrow> x \<noteq> y \<Longrightarrow> sha256 x = sha256 y \<Longrightarrow> collision xs ys"
  by (auto simp: collision_def)

lemma collision_mono: "collision xs ys \<Longrightarrow> set xs \<subseteq> set xs' \<Longrightarrow> set ys \<subseteq> set ys' \<Longrightarrow> collision xs' ys'"
  unfolding collision_def by blast

lemma map_sha256_collision: "map sha256 xs = map sha256 ys \<Longrightarrow> xs = ys \<or> collision xs ys"
proof (rule disjCI)
  assume e: "map sha256 xs = map sha256 ys" and n: "\<not> collision xs ys"
  then have len: "length xs = length ys" by (metis length_map)
  show "xs = ys"
  proof (rule nth_equalityI [OF len])
    fix i assume i: "i < length xs"
    with e len have "sha256 (xs ! i) = sha256 (ys ! i)" by (metis nth_map)
    with n i len show "xs ! i = ys ! i" by (metis collisionI nth_mem)
  qed
qed

lemma pairs_inject:
  "length hs = length gs \<Longrightarrow> level_ok hs \<Longrightarrow> level_ok gs \<Longrightarrow> pairs hs = pairs gs \<Longrightarrow> hs = gs"
proof (induction hs arbitrary: gs rule: pairs.induct)
  case (2 a)
  then obtain c where "gs = [c]" by (cases gs) auto
  with 2 show ?case by (simp add: level_ok_def)
next
  case (3 a b hs)
  then obtain c d gs' where "gs = c # d # gs'" by (cases gs; cases "tl gs") auto
  with 3 show ?case by (simp add: level_ok_def)
qed simp

lemma mroot_binding:
  "length hs = length gs \<Longrightarrow> level_ok hs \<Longrightarrow> level_ok gs \<Longrightarrow> mroot hs = mroot gs \<Longrightarrow>
     hs = gs \<or> collision (node_inputs hs) (node_inputs gs)"
proof (induction hs arbitrary: gs rule: node_inputs.induct)
  case (1 hs)
  show ?case
  proof (cases "length hs > 1")
    case True
    have "pairup hs = pairup gs \<or> collision (node_inputs (pairup hs)) (node_inputs (pairup gs))"
      using True "1.prems" by (intro "1.IH") (auto simp: level_ok_pairup mroot_step length_pairup)
    then have "pairs hs = pairs gs \<or> collision (node_inputs hs) (node_inputs gs)"
      using True "1.prems"(1) map_sha256_collision [of "pairs hs" "pairs gs"]
      by (auto simp: pairup_pairs node_inputs_step collision_def)
    with pairs_inject "1.prems" show ?thesis by blast
  next
    case False
    with "1.prems" show ?thesis
      by (cases hs; cases gs) auto
  qed
qed

lemma in_pairs: "x \<in> set (pairs hs) \<Longrightarrow> \<exists>a \<in> set hs. \<exists>b \<in> set hs. x = a @ b"
  by (induction hs rule: pairs.induct) auto

lemma proof_fold_sound:
  "level_ok hs \<Longrightarrow> hs \<noteq> [] \<Longrightarrow> length cur = 32 \<Longrightarrow> \<forall>(s, l) \<in> set path. length s = 32 \<Longrightarrow>
   length path = proof_len (length hs) \<Longrightarrow> proof_fold cur path = Inr (mroot hs) \<Longrightarrow>
   cur \<in> set hs \<or> collision (path_inputs cur path) (node_inputs hs)"
proof (induction hs arbitrary: cur path rule: node_inputs.induct)
  case (1 hs)
  show ?case
  proof (cases "length hs > 1")
    case True
    have "length hs \<le> size_max div 32" using "1.prems"(1) by (simp add: level_ok_def)
    then have pl: "proof_len (length hs) = Suc (proof_len (length (pairup hs)))"
      using True by (simp add: proof_len_step length_pairup)
    with "1.prems"(5) obtain sib left rest where path: "path = (sib, left) # rest"
      by (cases path) auto
    define s where "s = (if left then sib @ cur else cur @ sib)"
    have s: "proof_fold (sha256 s) rest = Inr (mroot (pairup hs))"
      "path_inputs cur path = s # path_inputs (sha256 s) rest"
      using "1.prems" True by (auto simp: path s_def mroot_step Let_def split: if_splits)
    have "pairup hs \<noteq> []" using True length_pairup [of hs] by auto
    then have "sha256 s \<in> set (pairup hs) \<or> collision (path_inputs (sha256 s) rest) (node_inputs (pairup hs))"
      using "1.prems" s(1) pl by (intro "1.IH" [OF True]) (auto simp: path level_ok_pairup)
    then show ?thesis
    proof
      assume "sha256 s \<in> set (pairup hs)"
      then obtain x where x: "x \<in> set (pairs hs)" "sha256 s = sha256 x" by (auto simp: pairup_pairs)
      obtain a b where ab: "a \<in> set hs" "b \<in> set hs" "x = a @ b" using in_pairs [OF x(1)] by blast
      show ?thesis
      proof (cases "s = x")
        case eq: True
        have "length a = 32" "length sib = 32" using ab "1.prems" by (auto simp: level_ok_def path)
        with eq ab "1.prems"(3) have "cur = a \<or> cur = b" by (auto simp: s_def split: if_splits)
        with ab show ?thesis by blast
      next
        case False
        with x True s(2) have "collision (path_inputs cur path) (node_inputs hs)"
          by (intro collisionI [of s _ x]) (auto simp: node_inputs_step)
        then show ?thesis ..
      qed
    next
      assume "collision (path_inputs (sha256 s) rest) (node_inputs (pairup hs))"
      with True s(2) show ?thesis by (auto simp: node_inputs_step collision_def)
    qed
  next
    case False
    with "1.prems"(2) obtain a where "hs = [a]" by (cases hs) auto
    with "1.prems"(5,6) show ?thesis by (simp add: proof_len_done)
  qed
qed

lemma pairup_dup_last: "odd (length hs) \<Longrightarrow> pairup (hs @ [last hs]) = pairup hs"
  by (induction hs rule: pairup.induct) auto

text \<open>A proof with arrays as long as its count, of 32-byte hashes.\<close>

definition proof_wf :: "vicarl_merkle_proof \<Rightarrow> bool" where
  "proof_wf pf \<longleftrightarrow> length (pf_siblings pf) = pf_count pf \<and> length (pf_is_left pf) = pf_count pf \<and>
     (\<forall>s \<in> set (pf_siblings pf). length s = 32)"

lemma proof_verify_Inr:
  assumes "vicarl__merkle_proof_verify r index n (Some pf) (Some root) = Inr ()" "proof_wf pf" "slice_wf r"
  shows "pf_count pf = proof_len n" "proof_fold (sha256 (slice_bytes r)) (zip (pf_siblings pf) (pf_is_left pf)) = Inr root"
  using assms
  by (auto simp: vicarl__merkle_proof_verify_def proof_wf_def vicarl__sha256_wf Let_def split: if_splits sum.splits)

lemma records_ok_small: "\<forall>r \<in> set recs. slice_wf r \<Longrightarrow> length recs \<le> 1000 \<Longrightarrow> records_ok recs"
  by (simp add: records_ok_def size_max_def)

lemma slice_wf_small: "length bs \<le> 1000000 \<Longrightarrow> slice_wf (slice_of bs)"
  by (simp add: size_mod_def)

section \<open>Properties\<close>

text \<open>C26. On records whose slices are readable, \<^verbatim>\<open>vicarl__merkle_root\<close> returns the root of the
  reference tree (the zero hash for no records) or fails with OOM; it cannot fail at all with a
  reliable allocator; on both exits exactly the blocks that were live before are live again and
  nothing was freed twice.\<close>
theorem merkle_root_correct:
  assumes "alloc_rel A ok rel" and "ok h" and "records_ok recs"
  shows "outcome (vicarl__merkle_root A (Some recs) (length recs) True)
    (\<lambda>root h'. root = mroot (leaves recs) \<and> heap_to ok h (hp_live h) h')
    (\<lambda>e h'. e = err_oom \<and> \<not> rel \<and> heap_to ok h (hp_live h) h') h"
  using assms by (rule merkle_root_outcome)

theorem merkle_root_correct_witness:
  "outcome (vicarl__merkle_root default_allocator (Some [slice_of [1], slice_of [2, 3]]) 2 True)
    (\<lambda>root h'. root = sha256 (sha256 [1] @ sha256 [2, 3]) \<and> hp_live h' = {})
    (\<lambda>e h'. False) heap_init"
proof -
  let ?recs = "[slice_of [1], slice_of [2, 3]]"
  have n: "length ?recs = 2" and ok: "records_ok ?recs" by (simp_all add: records_ok_small size_mod_def)
  show ?thesis
    using merkle_root_correct [OF libc_reliable heap_plenty_init ok, unfolded n]
    by (auto elim!: outcome_mono simp: leaves_def mroot_step heap_to_def heap_init_def)
qed

text \<open>C30. Completeness of inclusion proofs: the proof built for record \<open>i\<close> is accepted by
  \<^verbatim>\<open>vicarl__merkle_proof_verify\<close> for that record against the root of the tree; the caller owns
  exactly the two arrays of the proof, and destroying the proof gives them back; building fails only
  for lack of memory and then owns nothing.\<close>
theorem merkle_proof_complete:
  assumes "alloc_rel A ok rel" and "ok h" and "records_ok recs" and "i < length recs"
  shows "outcome (vicarl__merkle_proof_build A (Some recs) (length recs) i True)
    (\<lambda>pf h'. vicarl__merkle_proof_verify (recs ! i) i (length recs) (Some pf) (Some (mroot (leaves recs))) = Inr () \<and>
       heap_to ok h (hp_live h) (snd (vicarl__merkle_proof_destroy A (Some pf) h')))
    (\<lambda>e h'. e = err_oom \<and> \<not> rel \<and> heap_to ok h (hp_live h) h') h"
  using merkle_proof_build_outcome [OF assms]
proof (rule outcome_mono)
  fix pf h'
  assume "\<exists>sp lp. sp \<noteq> lp \<and> {sp, lp} \<inter> hp_live h = {} \<and> pf = proof_of sp lp (mpath (leaves recs) i) \<and>
    heap_to ok h (insert sp (insert lp (hp_live h))) h'"
  then obtain sp lp where d: "sp \<noteq> lp" "{sp, lp} \<inter> hp_live h = {}" and
    pf: "pf = proof_of sp lp (mpath (leaves recs) i)" and
    hp: "heap_to ok h (insert sp (insert lp (hp_live h))) h'" by blast
  have "heap_to ok h (hp_live h) (free_fn A lp (free_fn A sp h'))"
    using d hp by (intro free_step_insert [OF assms(1)]) auto
  moreover have "slice_wf (recs ! i)" using assms(3,4) by (simp add: records_ok_def)
  moreover have "proof_fold (leaves recs ! i) (mpath (leaves recs) i) = Inr (mroot (leaves recs))"
    using assms(3,4) by (intro proof_fold_mpath level_ok_leaves) (simp_all add: leaves_def)
  moreover have "length (mpath (leaves recs) i) = proof_len (length recs)"
    using assms(3) length_mpath [of "leaves recs" i] by (simp add: leaves_def records_ok_def)
  ultimately show "vicarl__merkle_proof_verify (recs ! i) i (length recs) (Some pf) (Some (mroot (leaves recs))) = Inr () \<and>
       heap_to ok h (hp_live h) (snd (vicarl__merkle_proof_destroy A (Some pf) h'))"
    using assms(4)
    by (auto simp: pf proof_of_def vicarl__merkle_proof_verify_def vicarl__merkle_proof_destroy_def Let_def
        vicarl__sha256_wf leaves_def zip_map_fst_snd)
qed

theorem merkle_proof_complete_witness:
  "outcome (vicarl__merkle_proof_build default_allocator (Some [slice_of [1], slice_of [2], slice_of [3]]) 3 2 True)
    (\<lambda>pf h'. vicarl__merkle_proof_verify (slice_of [3]) 2 3 (Some pf)
        (Some (mroot (leaves [slice_of [1], slice_of [2], slice_of [3]]))) = Inr ())
    (\<lambda>e h'. False) heap_init"
proof -
  let ?recs = "[slice_of [1], slice_of [2], slice_of [3]]"
  have n: "length ?recs = 3" and ok: "records_ok ?recs" by (simp_all add: records_ok_small size_mod_def)
  show ?thesis
    using merkle_proof_complete [OF libc_reliable heap_plenty_init ok, of 2, unfolded n]
    by (auto elim!: outcome_mono)
qed

text \<open>C20. Soundness of inclusion proofs: if any proof is accepted for some bytes against the root of a
  tree of \<open>n\<close> records, then the bytes are one of the records, or two different strings with the same
  SHA-256 hash are at hand: one hashed by the verifier, the other hashed while the tree was built.\<close>
theorem merkle_proof_sound:
  assumes "records_ok recs" and "slice_wf r" and "proof_wf pf"
    and "vicarl__merkle_proof_verify r index (length recs) (Some pf) (Some (mroot (leaves recs))) = Inr ()"
  shows "(\<exists>q \<in> set recs. slice_bytes q = slice_bytes r) \<or> collision (proof_inputs r pf) (tree_inputs recs)"
proof -
  let ?path = "zip (pf_siblings pf) (pf_is_left pf)" and ?cur = "sha256 (slice_bytes r)"
  note v = proof_verify_Inr [OF assms(4,3,2)]
  have ne: "leaves recs \<noteq> []"
    using assms(4) by (auto simp: vicarl__merkle_proof_verify_def leaves_def)
  have "\<forall>(s, l) \<in> set ?path. length s = 32"
    using assms(3) by (auto simp: proof_wf_def dest: set_zip_leftD)
  moreover have "length ?path = proof_len (length (leaves recs))"
    using v(1) assms(3) by (simp add: proof_wf_def leaves_def)
  ultimately have "?cur \<in> set (leaves recs) \<or> collision (path_inputs ?cur ?path) (node_inputs (leaves recs))"
    using v(2) level_ok_leaves [OF assms(1)] ne by (intro proof_fold_sound) auto
  then show ?thesis
  proof
    assume "?cur \<in> set (leaves recs)"
    then obtain q where q: "q \<in> set recs" "sha256 (slice_bytes r) = sha256 (slice_bytes q)"
      by (auto simp: leaves_def)
    show ?thesis
    proof (cases "slice_bytes q = slice_bytes r")
      case False
      with q have "collision (proof_inputs r pf) (tree_inputs recs)"
        by (intro collisionI [of "slice_bytes r" _ "slice_bytes q"]) (auto simp: proof_inputs_def tree_inputs_def)
      then show ?thesis ..
    qed (use q in blast)
  qed (auto simp: proof_inputs_def tree_inputs_def collision_def)
qed

theorem merkle_proof_sound_witness:
  "(\<exists>q \<in> set [slice_of [7]]. slice_bytes q = slice_bytes (slice_of [7])) \<or>
   collision (proof_inputs (slice_of [7]) (proof_of 1 2 [])) (tree_inputs [slice_of [7]])"
  by (rule merkle_proof_sound [where index = 0])
     (simp_all add: records_ok_def size_max_def size_mod_def proof_wf_def proof_of_def vicarl__merkle_proof_verify_def
       proof_len_done vicarl__sha256_slice_of leaves_def Let_def)

text \<open>The root binds the records: two lists of the same number of records with the same root
  have the same bytes, record by record, or two different strings with the same SHA-256 hash were
  hashed while the two roots were computed.\<close>
theorem merkle_root_binding:
  assumes "records_ok recs" and "records_ok recs'" and "length recs = length recs'"
    and "mroot (leaves recs) = mroot (leaves recs')"
  shows "map slice_bytes recs = map slice_bytes recs' \<or> collision (tree_inputs recs) (tree_inputs recs')"
proof -
  have "leaves recs = leaves recs' \<or> collision (node_inputs (leaves recs)) (node_inputs (leaves recs'))"
    using assms by (intro mroot_binding level_ok_leaves) (simp_all add: leaves_def)
  then show ?thesis
  proof
    assume "leaves recs = leaves recs'"
    then have "map sha256 (map slice_bytes recs) = map sha256 (map slice_bytes recs')"
      by (simp add: leaves_def o_def)
    from map_sha256_collision [OF this] show ?thesis
      by (auto simp: tree_inputs_def collision_def)
  qed (auto simp: tree_inputs_def collision_def)
qed

theorem merkle_root_binding_witness:
  "map slice_bytes [slice_of [7]] = map slice_bytes [\<lparr>sl_ptr = Some [7, 8], sl_len = 1\<rparr>] \<or>
   collision (tree_inputs [slice_of [7]]) (tree_inputs [\<lparr>sl_ptr = Some [7, 8], sl_len = 1\<rparr>])"
  by (rule merkle_root_binding)
     (simp_all add: records_ok_def size_max_def size_mod_def leaves_def slice_wf_def slice_bytes_def)

text \<open>The number of records is not bound by the root: repeating the last record of an odd
  number of records (more than one) leaves the root as it is. Only the record count stored next to
  the root tells the two lists apart.\<close>
theorem merkle_root_duplicate_last:
  assumes "1 < length recs" and "odd (length recs)" and "records_ok (recs @ [last recs])"
  shows "fst (vicarl__merkle_root default_allocator (Some (recs @ [last recs])) (Suc (length recs)) True heap_init) =
    fst (vicarl__merkle_root default_allocator (Some recs) (length recs) True heap_init)"
proof -
  have "mroot (leaves (recs @ [last recs])) = mroot (leaves recs)"
  proof -
    have "recs \<noteq> []" using assms(1) by auto
    then have "leaves recs \<noteq> []" "leaves (recs @ [last recs]) = leaves recs @ [last (leaves recs)]"
      by (simp_all add: leaves_def last_map)
    with assms(1,2) pairup_dup_last [of "leaves recs"] show ?thesis
      by (simp add: mroot_step) (simp add: leaves_def mroot_step)
  qed
  moreover have "records_ok recs" using assms(3) by (auto simp: records_ok_def)
  moreover have root: "fst (vicarl__merkle_root default_allocator (Some rs) (length rs) True heap_init) = Inr (mroot (leaves rs))"
    if "records_ok rs" for rs
    using merkle_root_outcome [OF libc_reliable heap_plenty_init that]
    by (auto simp: outcome_def split: prod.splits sum.splits)
  ultimately show ?thesis using root [OF assms(3)] by simp
qed

theorem merkle_root_duplicate_last_witness:
  "fst (vicarl__merkle_root default_allocator (Some [slice_of [1], slice_of [2], slice_of [3], slice_of [3]]) 4 True heap_init) =
   fst (vicarl__merkle_root default_allocator (Some [slice_of [1], slice_of [2], slice_of [3]]) 3 True heap_init)"
proof -
  let ?recs = "[slice_of [1], slice_of [2], slice_of [3]]"
  have n: "length ?recs = 3" "Suc 3 = 4" "?recs @ [last ?recs] = [slice_of [1], slice_of [2], slice_of [3], slice_of [3]]"
    by simp_all
  have "records_ok [slice_of [1], slice_of [2], slice_of [3], slice_of [3]]"
    by (simp add: records_ok_small size_mod_def)
  then show ?thesis using merkle_root_duplicate_last [of ?recs, unfolded n] by simp
qed

end
