(* ===== verification/Vicarl_Segment.thy ===== *)
theory Vicarl_Segment
  imports Vicarl_Record Vicarl_Merkle
begin

text \<open>
  \<^verbatim>\<open>src/model/segment.c\<close>: encoding, decoding and verification of a segment, a header followed by
  length-delimited records. A decoded segment owns its own block, the copy of the encoding and, unless
  it has no records, the array of record slices. \<^verbatim>\<open>segment_wire\<close> is the wire format.
\<close>

section \<open>Data\<close>

record vicarl_segment_header =
  segment_no :: u64
  prev_segment_hash :: vicarl_hash32
  record_count :: u64
  records_merkle_root :: vicarl_hash32
  hdr_timestamp_ms :: u64

record vicarl_segment =
  seg_ptr :: addr
  seg_owned :: "addr option"
  seg_owned_bytes :: bytes
  seg_owned_len :: nat
  seg_hdr :: vicarl_segment_header
  seg_records_ptr :: "addr option"
  seg_records :: "vicarl_slice list"
  seg_record_count :: nat
  seg_has_sig :: bool
  seg_sig :: vicarl_sig64

definition VICARL_SEG_MAGIC :: bytes where
  "VICARL_SEG_MAGIC = [0x56, 0x43, 0x53, 0x31]"

definition VICARL_SEG_FLAG_HAS_SIG :: u8 where
  "VICARL_SEG_FLAG_HAS_SIG = 0x01"

text \<open>\<^verbatim>\<open>sizeof(vicarl_segment_t)\<close> and \<^verbatim>\<open>sizeof(vicarl_slice_t)\<close> on the modelled machine.\<close>

definition sizeof_segment :: nat where
  "sizeof_segment = 192"

definition sizeof_slice :: nat where
  "sizeof_slice = 16"

section \<open>Encoding\<close>

text \<open>The loop over the records.\<close>

fun put_records :: "vicarl_allocator \<Rightarrow> vicarl_slice list \<Rightarrow> unit writer" where
  "put_records A [] = retr ()"
| "put_records A (r # rs) = bindr (vicarl_wbuf_put_ldbytes A r) (\<lambda>_. put_records A rs)"

definition segment_write ::
  "vicarl_allocator \<Rightarrow> vicarl_segment_header \<Rightarrow> vicarl_slice list \<Rightarrow> vicarl_sig64 option \<Rightarrow> unit writer" where
  "segment_write A hdr records segment_sig =
     bindr (put_magic A VICARL_SEG_MAGIC) (\<lambda>_.
     bindr (vicarl_wbuf_put_u8 A (if segment_sig \<noteq> None then 0 OR VICARL_SEG_FLAG_HAS_SIG else 0)) (\<lambda>_.
     bindr (vicarl_wbuf_put_varu64 A (segment_no hdr)) (\<lambda>_.
     bindr (vicarl_wbuf_put_bytes A (slice_of (prev_segment_hash hdr))) (\<lambda>_.
     bindr (vicarl_wbuf_put_varu64 A (record_count hdr)) (\<lambda>_.
     bindr (vicarl_wbuf_put_bytes A (slice_of (records_merkle_root hdr))) (\<lambda>_.
     bindr (vicarl_wbuf_put_varu64 A (hdr_timestamp_ms hdr)) (\<lambda>_.
     bindr (put_records A records) (\<lambda>_.
     put_signature A segment_sig))))))))"

text \<open>\<open>records\<close> is \<^const>\<open>None\<close> for NULL; an array shorter than \<open>n\<close> would be read past its end.\<close>

definition vicarl_segment_encode ::
  "vicarl_allocator \<Rightarrow> vicarl_segment_header option \<Rightarrow> vicarl_slice list option \<Rightarrow> nat \<Rightarrow>
     vicarl_sig64 option \<Rightarrow> bool \<Rightarrow> (heap, vicarl_bytes) vm" where
  "vicarl_segment_encode A hdr records n segment_sig out h =
     (if \<not> out then (Inl (badarg ''segment_encode: out_encoded is NULL''), h)
      else case hdr of
        None \<Rightarrow> (Inl (badarg ''segment_encode: hdr is NULL''), h)
      | Some hdr1 \<Rightarrow>
          if n > 0 \<and> records = None then (Inl (badarg ''segment_encode: records is NULL''), h)
          else if record_count hdr1 \<noteq> of_nat n
          then (Inl (fail_with VICARL_ERR_INVALID_ARGUMENT ''segment_encode: hdr->record_count mismatch''), h)
          else
            let recs = (case records of None \<Rightarrow> [] | Some rs \<Rightarrow> rs) in
            if n > length recs then (Inl (UB ''records array too short''), h)
            else if \<exists>r \<in> set (take n recs). slice_bad r
            then (Inl (badarg ''segment_encode: record slice is invalid''), h)
            else run_encoder A (segment_write A hdr1 (take n recs) segment_sig) h)"

section \<open>Decoding\<close>

text \<open>The magic, the flags and the header.\<close>

definition segment_head :: "(u8 \<times> vicarl_segment_header) reader" where
  "segment_head =
     bindr (rethrow (replace_err (badfmt ''segment_decode: truncated magic'')) get_magic) (\<lambda>magic.
     bindr (guardr (magic = VICARL_SEG_MAGIC) (badfmt ''segment_decode: bad magic'')) (\<lambda>_.
     bindr (rethrow (replace_err (badfmt ''segment_decode: missing flags'')) vicarl_rbuf_get_u8) (\<lambda>flags.
     bindr vicarl_rbuf_get_varu64 (\<lambda>no.
     bindr (rethrow (replace_err (badfmt ''segment_decode: missing prev_hash'')) (vicarl_rbuf_get_bytes 32)) (\<lambda>prev_hash_bytes.
     bindr vicarl_rbuf_get_varu64 (\<lambda>record_count_u64.
     bindr (rethrow (replace_err (badfmt ''segment_decode: missing merkle root'')) (vicarl_rbuf_get_bytes 32)) (\<lambda>merkle_bytes.
     bindr vicarl_rbuf_get_varu64 (\<lambda>ts.
     bindr (guardr (\<not> unat record_count_u64 > size_max) (badfmt ''segment_decode: record_count too large'')) (\<lambda>_.
     retr (flags, \<lparr>segment_no = no, prev_segment_hash = slice_bytes prev_hash_bytes,
                   record_count = record_count_u64, records_merkle_root = slice_bytes merkle_bytes,
                   hdr_timestamp_ms = ts\<rparr>))))))))))"

fun get_records :: "nat \<Rightarrow> vicarl_slice list reader" where
  "get_records 0 = retr []"
| "get_records (Suc n) =
     bindr vicarl_rbuf_get_ldbytes (\<lambda>r. bindr (get_records n) (\<lambda>rs. retr (r # rs)))"

text \<open>The records, the optional signature and the test for trailing bytes.\<close>

definition segment_tail :: "u8 \<Rightarrow> nat \<Rightarrow> (vicarl_slice list \<times> bool \<times> vicarl_sig64) reader" where
  "segment_tail flags n =
     bindr
       (bindr (get_records n) (\<lambda>recs.
        let has_sig = (flags AND VICARL_SEG_FLAG_HAS_SIG \<noteq> 0) in
        bindr (get_signature ''segment_decode: missing segment signature'' has_sig) (\<lambda>sig.
        retr (recs, has_sig, sig)))) (\<lambda>x.
     bindr (no_trailing ''segment_decode: trailing bytes (non-canonical)'') (\<lambda>_. retr x))"

text \<open>
  Between the header and the records the array of slices is allocated (only if there are records);
  errors release it and the copy, in this order.
\<close>

definition vicarl_segment_decode ::
  "vicarl_allocator \<Rightarrow> vicarl_slice \<Rightarrow> bool \<Rightarrow> (heap, vicarl_segment) vm" where
  "vicarl_segment_decode A encoded out h =
     (if \<not> out then (Inl (badarg ''segment_decode: out is NULL''), h)
      else if sl_len encoded < 5 \<or> sl_ptr encoded = None
      then (Inl (badfmt ''segment_decode: input too short''), h)
      else
        (case vicarl__malloc A (sl_len encoded) h of
           (None, h1) \<Rightarrow> (Inl err_oom, h1)
         | (Some copy, h1) \<Rightarrow>
             (case slice_read encoded of
                Inl e \<Rightarrow> (Inl e, h1)
              | Inr bs \<Rightarrow>
                  (case segment_head (vicarl_rbuf_init bs (sl_len encoded)) of
                     (Inl e, _) \<Rightarrow> (Inl e, vicarl__free A (Some copy) h1)
                   | (Inr (flags, hdr), r) \<Rightarrow>
                       let n = unat (record_count hdr) in
                       (case (if n > 0 then vicarl__calloc A n sizeof_slice h1 else (None, h1)) of
                          (recs, h2) \<Rightarrow>
                            if n > 0 \<and> recs = None then (Inl err_oom, vicarl__free A (Some copy) h2)
                            else
                              (case segment_tail flags n r of
                                 (Inl e, _) \<Rightarrow>
                                   (Inl e, vicarl__free A (Some copy) (vicarl__free A recs h2))
                               | (Inr (rs, has_sig, sig), _) \<Rightarrow>
                                   (case vicarl__calloc A 1 sizeof_segment h2 of
                                      (None, h3) \<Rightarrow>
                                        (Inl err_oom, vicarl__free A (Some copy) (vicarl__free A recs h3))
                                    | (Some sp, h3) \<Rightarrow>
                                        (Inr \<lparr>seg_ptr = sp, seg_owned = Some copy, seg_owned_bytes = bs,
                                              seg_owned_len = sl_len encoded, seg_hdr = hdr,
                                              seg_records_ptr = recs, seg_records = rs,
                                              seg_record_count = n, seg_has_sig = has_sig,
                                              seg_sig = sig\<rparr>, h3))))))))"

section \<open>Accessors, hash, verification\<close>

text \<open>The function \<^verbatim>\<open>vicarl_segment_header\<close>; the struct of the same name is the record type.\<close>

definition segment_header_of :: "vicarl_segment option \<Rightarrow> vicarl_segment_header option" where
  "segment_header_of s = (case s of None \<Rightarrow> None | Some x \<Rightarrow> Some (seg_hdr x))"

definition vicarl_segment_get_record :: "vicarl_segment option \<Rightarrow> nat \<Rightarrow> bool \<Rightarrow> vicarl_slice res" where
  "vicarl_segment_get_record s index out =
     (case s of
        None \<Rightarrow> Inl (badarg ''segment_get_record: NULL arg'')
      | Some x \<Rightarrow>
          if \<not> out then Inl (badarg ''segment_get_record: NULL arg'')
          else if index \<ge> seg_record_count x then Inl (badarg ''segment_get_record: index out of range'')
          else if index < length (seg_records x) then Inr (seg_records x ! index)
          else Inl (UB ''read past the end of the records array''))"

definition vicarl_segment_signature :: "vicarl_segment option \<Rightarrow> vicarl_sig64 option" where
  "vicarl_segment_signature s =
     (case s of None \<Rightarrow> None | Some x \<Rightarrow> if \<not> seg_has_sig x then None else Some (seg_sig x))"

definition vicarl_segment_hash :: "vicarl_slice \<Rightarrow> bool \<Rightarrow> vicarl_hash32 res" where
  "vicarl_segment_hash encoded out =
     (if \<not> out then Inl (badarg ''segment_hash: out_hash is NULL'')
      else if slice_bad encoded then Inl (badarg ''segment_hash: encoded.ptr is NULL'')
      else vicarl__sha256 encoded True)"

definition vicarl_segment_destroy :: "vicarl_allocator \<Rightarrow> vicarl_segment option \<Rightarrow> heap \<Rightarrow> heap" where
  "vicarl_segment_destroy A s h =
     (case s of
        None \<Rightarrow> h
      | Some x \<Rightarrow>
          vicarl__free A (Some (seg_ptr x)) (vicarl__free A (seg_owned x) (vicarl__free A (seg_records_ptr x) h)))"

text \<open>The loop of \<^verbatim>\<open>vicarl_segment_verify\<close> that decodes and destroys every record.\<close>

fun check_records :: "vicarl_allocator \<Rightarrow> vicarl_slice list \<Rightarrow> (heap, unit) vm" where
  "check_records A [] h = (Inr (), h)"
| "check_records A (r # rs) h =
     (case vicarl_record_decode A r True h of
        (Inl e, h1) \<Rightarrow> (Inl e, h1)
      | (Inr x, h1) \<Rightarrow> check_records A rs (vicarl_record_destroy A (Some x) h1))"

definition vicarl_segment_verify :: "vicarl_allocator \<Rightarrow> vicarl_slice \<Rightarrow> (heap, unit) vm" where
  "vicarl_segment_verify A encoded h =
     (case vicarl_segment_decode A encoded True h of
        (Inl e, h1) \<Rightarrow> (Inl e, h1)
      | (Inr s, h1) \<Rightarrow>
          if record_count (seg_hdr s) \<noteq> of_nat (seg_record_count s)
          then (Inl (badfmt ''segment_verify: record_count mismatch''), vicarl_segment_destroy A (Some s) h1)
          else
            (case check_records A (take (seg_record_count s) (seg_records s)) h1 of
               (Inl e, h2) \<Rightarrow> (Inl e, vicarl_segment_destroy A (Some s) h2)
             | (Inr _, h2) \<Rightarrow>
                 (case (if \<not> hash_is_zero32 (records_merkle_root (seg_hdr s)) then
                          (case vicarl__merkle_root A
                                  (case seg_records_ptr s of None \<Rightarrow> None | Some _ \<Rightarrow> Some (seg_records s))
                                  (seg_record_count s) True h2 of
                             (Inl e, h3) \<Rightarrow> (Inl e, h3)
                           | (Inr computed, h3) \<Rightarrow>
                               if computed \<noteq> records_merkle_root (seg_hdr s)
                               then (Inl (badfmt ''segment_verify: merkle root mismatch''), h3)
                               else (Inr (), h3))
                        else (Inr (), h2)) of
                    (Inl e, h3) \<Rightarrow> (Inl e, vicarl_segment_destroy A (Some s) h3)
                  | (Inr _, h3) \<Rightarrow>
                      if seg_has_sig s
                      then (Inl (fail_with VICARL_ERR_UNSUPPORTED
                              ''segment signature verification not configured (crypto backend missing)''),
                            vicarl_segment_destroy A (Some s) h3)
                      else (Inr (), vicarl_segment_destroy A (Some s) h3))))"

section \<open>What the reader of records consumes\<close>

lemma get_varu64_consumes:
  assumes wf: "rbuf_wf r" and g: "vicarl_rbuf_get_varu64 r = (Inr x, r')"
  shows "\<exists>k. 0 < k \<and> k \<le> length (unread r) \<and> r' = rbuf_skip k r"
proof (cases "unread r")
  case Nil
  with wf g show ?thesis
    by (simp add: vicarl_rbuf_get_varu64_def VICARL_VARINT_MAX_BYTES_U64_def eval_nat_numeral bindr_def need_run)
next
  case (Cons b t)
  have wf1: "rbuf_wf (rbuf_skip 1 r)" using wf Cons by (intro rbuf_skip_wf) simp_all
  let ?res = "0 OR push_bit 0 (ucast (b AND 0x7F)) :: u64"
  have "vicarl_rbuf_get_varu64 r = get_varu64_loop (Suc 9) 0 0 r"
    by (simp add: vicarl_rbuf_get_varu64_def VICARL_VARINT_MAX_BYTES_U64_def del: get_varu64_loop.simps)
  then have "(Inr x, r') = (if b AND 0x80 = 0 then (Inr ?res, rbuf_skip 1 r)
      else get_varu64_loop 9 ?res (0 + 7) (rbuf_skip 1 r))"
    using g get_varu64_loop_step [OF wf Cons, of 0 9 0] by (simp only: Let_def)
  then consider "r' = rbuf_skip 1 r" | "get_varu64_loop 9 ?res (0 + 7) (rbuf_skip 1 r) = (Inr x, r')"
    by (metis prod.inject)
  then show ?thesis
  proof cases
    case 1
    with Cons show ?thesis by auto
  next
    case 2
    have "reader_safe (get_varu64_loop 9 ?res (0 + 7))" by (rule reader_safe_varu64_loop) simp
    from reader_safeD_Inr [OF this wf1 2] obtain k where "k \<le> length t" "r' = rbuf_skip k (rbuf_skip 1 r)"
      using Cons by auto
    with Cons show ?thesis by (intro exI [of _ "Suc k"]) auto
  qed
qed

lemma get_ldbytes_result:
  assumes wf: "rbuf_wf r" and len: "length (rb_data r) < size_mod" and g: "vicarl_rbuf_get_ldbytes r = (Inr s, r')"
  shows "slice_wf s \<and> sl_ptr s \<noteq> None \<and> sl_len s \<le> length (rb_data r) \<and> (\<exists>k. 0 < k \<and> k \<le> length (unread r) \<and> r' = rbuf_skip k r)"
proof -
  from g obtain n r1 where n: "vicarl_rbuf_get_varu64 r = (Inr n, r1)" and
    b: "vicarl_rbuf_get_bytes (unat n) r1 = (Inr s, r')"
    by (auto simp: vicarl_rbuf_get_ldbytes_def bindr_eq_Inr failr_def split: if_splits)
  obtain k where k: "0 < k" "k \<le> length (unread r)" "r1 = rbuf_skip k r" using get_varu64_consumes [OF wf n] by blast
  then have wf1: "rbuf_wf r1" using wf by (simp add: rbuf_skip_wf)
  have u: "unat n \<le> length (unread r1)" "r' = rbuf_skip (unat n) r1"
    using outcome_Inr [OF get_bytes_cases [OF wf1] b] by auto
  have "length (unread r1) \<le> length (rb_data r)" using k(3) by (simp add: unread_def rbuf_skip_def)
  with u(1) b len have "slice_wf s \<and> sl_ptr s \<noteq> None \<and> sl_len s \<le> length (rb_data r)"
    by (auto simp: vicarl_rbuf_get_bytes_def slice_wf_def unread_def split: if_splits)
  with k u show ?thesis by (auto intro!: exI [of _ "k + unat n"])
qed

lemma get_records_result:
  "rbuf_wf r \<Longrightarrow> length (rb_data r) < size_mod \<Longrightarrow> get_records n r = (Inr rs, r') \<Longrightarrow>
   length rs = n \<and> (\<forall>s \<in> set rs. slice_wf s \<and> sl_len s \<le> length (rb_data r)) \<and> n \<le> length (unread r)"
proof (induction n arbitrary: r rs)
  case (Suc n)
  from Suc.prems(3) obtain s r1 ss where s: "vicarl_rbuf_get_ldbytes r = (Inr s, r1)"
    "get_records n r1 = (Inr ss, r')" "rs = s # ss"
    by (auto simp: bindr_eq_Inr retr_def)
  from get_ldbytes_result [OF Suc.prems(1,2) s(1)] obtain k where
    k: "slice_wf s \<and> sl_len s \<le> length (rb_data r)" "0 < k" "k \<le> length (unread r)" "r1 = rbuf_skip k r" by blast
  then have "rbuf_wf r1" "rb_data r1 = rb_data r" using Suc.prems(1) by (simp_all add: rbuf_skip_wf) (simp add: rbuf_skip_def)
  with Suc.IH [of r1 ss] Suc.prems(2) s(2) have "length ss = n \<and> (\<forall>s \<in> set ss. slice_wf s \<and> sl_len s \<le> length (rb_data r)) \<and> n \<le> length (unread r1)"
    by simp
  with k s(3) show ?case by auto
qed (simp add: retr_def)

lemma reader_safe_segment_head: "reader_safe segment_head"
  unfolding segment_head_def by (intro reader_safe_intros)

lemma reader_safe_get_records [reader_safe_intros]: "reader_safe (get_records n)"
  by (induction n) (auto intro!: reader_safe_intros)

lemma reader_safe_segment_tail: "reader_safe (segment_tail flags n)"
  unfolding segment_tail_def Let_def by (intro reader_safe_intros)

section \<open>Decoding is safe and tidy\<close>

type_synonym segment_fields = "vicarl_segment_header \<times> vicarl_slice list \<times> bool \<times> vicarl_sig64"

text \<open>What the parser says about some bytes, whatever happens to the memory.\<close>

definition segment_spec :: "bytes \<Rightarrow> segment_fields res" where
  "segment_spec bs =
     (if length bs < 5 then Inl (badfmt ''segment_decode: input too short'')
      else
        (case segment_head (vicarl_rbuf_init bs (length bs)) of
           (Inl e, _) \<Rightarrow> Inl e
         | (Inr (flags, hdr), r) \<Rightarrow>
             (case segment_tail flags (unat (record_count hdr)) r of
                (Inl e, _) \<Rightarrow> Inl e
              | (Inr (rs, has_sig, sig), _) \<Rightarrow> Inr (hdr, rs, has_sig, sig))))"

text \<open>The records in a segment.\<close>

definition seg_records_of :: "bytes \<Rightarrow> bytes list" where
  "seg_records_of bs = (case segment_spec bs of Inl _ \<Rightarrow> [] | Inr (hdr, rs, hs, sig) \<Rightarrow> map slice_bytes rs)"

text \<open>A header that announces more records than an array of slices can hold.\<close>

definition huge_count :: "bytes \<Rightarrow> bool" where
  "huge_count bs \<longleftrightarrow>
     (case fst (segment_head (vicarl_rbuf_init bs (length bs))) of
        Inl _ \<Rightarrow> False
      | Inr (flags, hdr) \<Rightarrow> unat (record_count hdr) * sizeof_slice \<ge> size_mod)"

definition seg_fields :: "vicarl_segment \<Rightarrow> segment_fields" where
  "seg_fields s = (seg_hdr s, seg_records s, seg_has_sig s, seg_sig s)"

definition own_segment :: "vicarl_segment \<Rightarrow> addr set" where
  "own_segment s = insert (seg_ptr s) (set_option (seg_owned s) \<union> set_option (seg_records_ptr s))"

text \<open>A handle that owns two or three different blocks, all of them new.\<close>

definition segment_owned :: "addr set \<Rightarrow> vicarl_segment \<Rightarrow> bool" where
  "segment_owned L s \<longleftrightarrow> own_segment s \<inter> L = {} \<and>
     (\<exists>q. seg_owned s = Some q \<and> q \<noteq> seg_ptr s \<and> q \<notin> set_option (seg_records_ptr s) \<and>
        seg_ptr s \<notin> set_option (seg_records_ptr s)) \<and>
     (seg_records_ptr s = None \<longleftrightarrow> seg_record_count s = 0)"

lemma free_step_option:
  "alloc_rel A ok rel \<Longrightarrow> heap_to ok h0 (L \<union> set_option q) h \<Longrightarrow> set_option q \<inter> L = {} \<Longrightarrow>
     heap_to ok h0 L (vicarl__free A q h)"
  by (cases q) (auto intro: free_step_insert)

lemma segment_destroy_heap:
  assumes A: "alloc_rel A ok rel" and h: "heap_to ok h0 (L \<union> own_segment s) h" and o: "segment_owned L s"
  shows "heap_to ok h0 L (vicarl_segment_destroy A (Some s) h)"
proof -
  obtain q where q: "seg_owned s = Some q" "q \<noteq> seg_ptr s" "q \<notin> set_option (seg_records_ptr s)"
    "seg_ptr s \<notin> set_option (seg_records_ptr s)" and d: "own_segment s \<inter> L = {}"
    using o by (auto simp: segment_owned_def)
  have "heap_to ok h0 (insert q (insert (seg_ptr s) L) \<union> set_option (seg_records_ptr s)) h"
    using h q(1) by (simp add: own_segment_def Un_commute Un_left_commute insert_commute)
  then have "heap_to ok h0 (insert q (insert (seg_ptr s) L)) (vicarl__free A (seg_records_ptr s) h)"
    using q d by (intro free_step_option [OF A]) (auto simp: own_segment_def)
  then show ?thesis
    using q d by (auto simp: vicarl_segment_destroy_def own_segment_def intro!: free_step_insert [OF A])
qed

lemma segment_spec_error: "segment_spec bs = Inl e \<Longrightarrow> \<exists>msg. e = VErr VICARL_ERR_FORMAT (Some msg)"
proof -
  assume s: "segment_spec bs = Inl e"
  let ?r = "vicarl_rbuf_init bs (length bs)"
  obtain out r1 where h: "segment_head ?r = (out, r1)" by (cases "segment_head ?r")
  show ?thesis
  proof (cases out)
    case (Inl e1)
    with s h reader_safeD_Inl [OF reader_safe_segment_head rbuf_wf_init, of bs] show ?thesis
      by (auto simp: segment_spec_def badfmt_def fail_with_def split: if_splits)
  next
    case (Inr x)
    obtain flags hdr where x: "x = (flags, hdr)" by (cases x)
    from reader_safeD_Inr [OF reader_safe_segment_head rbuf_wf_init] h Inr have "rbuf_wf r1"
      using rbuf_skip_wf [OF rbuf_wf_init [of bs]] by blast
    then show ?thesis
      using s h Inr x reader_safeD_Inl [OF reader_safe_segment_tail]
      by (auto simp: segment_spec_def badfmt_def fail_with_def split: if_splits sum.splits prod.splits)
  qed
qed

text \<open>The records of an accepted segment are readable, as many as announced, and fit in the input.\<close>

lemma segment_spec_records:
  assumes "segment_spec bs = Inr (hdr, rs, hs, sig)" and len: "length bs < size_mod"
  shows "length rs = unat (record_count hdr) \<and> (\<forall>s \<in> set rs. slice_wf s) \<and> length rs \<le> length bs \<and> (\<forall>s \<in> set rs. sl_len s \<le> length bs)"
proof -
  let ?r = "vicarl_rbuf_init bs (length bs)"
  obtain flags r1 r2 where h: "segment_head ?r = (Inr (flags, hdr), r1)" and
    t: "segment_tail flags (unat (record_count hdr)) r1 = (Inr (rs, hs, sig), r2)"
    using assms(1) by (auto simp: segment_spec_def split: if_splits prod.splits sum.splits)
  obtain k where k: "k \<le> length bs" "r1 = rbuf_skip k ?r"
    using reader_safeD_Inr [OF reader_safe_segment_head rbuf_wf_init h] by auto
  have d1: "rb_data r1 = bs" using k(2) by (simp add: rbuf_skip_def vicarl_rbuf_init_def)
  then have r1: "rbuf_wf r1" "length (rb_data r1) < size_mod" "length (unread r1) \<le> length bs"
    using k len by (simp_all add: rbuf_skip_wf)
  from t obtain r3 where "get_records (unat (record_count hdr)) r1 = (Inr rs, r3)"
    by (auto simp: segment_tail_def bindr_eq_Inr retr_def Let_def)
  from get_records_result [OF r1(1,2) this] r1(3) show ?thesis by (auto simp: d1)
qed

lemma not_huge:
  assumes "segment_spec bs = Inr x" "length bs < 2 ^ 59"
  shows "\<not> huge_count bs"
proof -
  obtain hdr rs hs sig where x: "x = (hdr, rs, hs, sig)" by (cases x)
  have "length rs = unat (record_count hdr)" "length rs \<le> length bs"
    using segment_spec_records [of bs hdr rs hs sig] assms x by (auto simp: size_mod_def)
  with assms x show ?thesis
    by (auto simp: huge_count_def segment_spec_def sizeof_slice_def size_mod_def split: sum.splits prod.splits if_splits)
qed

text \<open>The array of record slices: allocated unless there are no records.\<close>

lemma records_array_stepE:
  assumes A: "alloc_rel A ok rel" and h: "heap_to ok h0 L h"
  obtains (fail) h' where "(if n > 0 then vicarl__calloc A n sizeof_slice h else (None, h)) = (None, h')"
    "n > 0" "\<not> (rel \<and> n * sizeof_slice < size_mod)" "heap_to ok h0 L h'"
  | (got) recs h' where "(if n > 0 then vicarl__calloc A n sizeof_slice h else (None, h)) = (recs, h')"
    "recs = None \<longleftrightarrow> n = 0" "set_option recs \<inter> L = {}" "heap_to ok h0 (L \<union> set_option recs) h'"
proof (cases "n > 0")
  case True
  from A h show ?thesis
  proof (cases rule: calloc_stepE [where c = n and s = sizeof_slice])
    case (fail h')
    with True that(1) show ?thesis by simp
  next
    case (new p h')
    with True that(2) [of "Some p" h'] show ?thesis by simp
  qed
next
  case False
  with h that(2) [of None h] show ?thesis by simp
qed

lemma segment_tail_outcome:
  assumes A: "alloc_rel A ok rel" and wf: "slice_wf enc" and big: "\<not> sl_len enc < 5" "sl_ptr enc = Some mem"
    and copy: "vicarl__malloc A (sl_len enc) h = (Some copy, h1)" "copy \<notin> hp_live h"
    and hd: "segment_head (vicarl_rbuf_init (slice_bytes enc) (length (slice_bytes enc))) = (Inr (flags, hdr), r1)"
    and recs: "(if unat (record_count hdr) > 0 then vicarl__calloc A (unat (record_count hdr)) sizeof_slice h1 else (None, h1)) = (recs, h2)"
      "recs = None \<longleftrightarrow> unat (record_count hdr) = 0" "set_option recs \<inter> insert copy (hp_live h) = {}"
      "heap_to ok h (insert copy (hp_live h) \<union> set_option recs) h2"
  shows "outcome (vicarl_segment_decode A enc True)
    (\<lambda>s h'. segment_spec (slice_bytes enc) = Inr (seg_fields s) \<and> seg_owned_bytes s = slice_bytes enc \<and>
       seg_record_count s = unat (record_count (seg_hdr s)) \<and>
       segment_owned (hp_live h) s \<and> heap_to ok h (hp_live h \<union> own_segment s) h')
    (\<lambda>e h'. heap_to ok h (hp_live h) h' \<and>
       (segment_spec (slice_bytes enc) = Inl e \<or> e = err_oom \<and> (\<not> rel \<or> huge_count (slice_bytes enc)))) h"
proof -
  let ?bs = "slice_bytes enc" and ?L = "hp_live h" and ?n = "unat (record_count hdr)"
  have len: "sl_len enc = length ?bs" and rd: "slice_read enc = Inr ?bs"
    using wf by (simp_all add: slice_wf_length slice_read_wf)
  have nn: "\<not> (0 < ?n \<and> recs = None)" using recs(2) by linarith
  have freed: "heap_to ok h ?L (free_fn A copy (vicarl__free A recs h3))" if "heap_to ok h (insert copy ?L \<union> set_option recs) h3" for h3
    by (rule free_step_insert [OF A free_step_option [OF A that recs(3)] copy(2)])
  note run = outcome_def vicarl_segment_decode_def Let_def
  obtain tl r2 where tl: "segment_tail flags ?n r1 = (tl, r2)" by fastforce
  show ?thesis
  proof (cases tl)
    case e: (Inl e)
    with tl hd big len have "segment_spec ?bs = Inl e" by (simp add: segment_spec_def)
    with e recs(1) nn copy(1) big rd hd len tl freed [OF recs(4)] show ?thesis by (auto simp: run)
  next
    case y: (Inr y)
    obtain rs hs sg where yy: "y = (rs, hs, sg)" by (cases y)
    have spec: "segment_spec ?bs = Inr (hdr, rs, hs, sg)" using tl hd big len y yy by (simp add: segment_spec_def)
    from A recs(4) show ?thesis
    proof (cases rule: calloc_stepE [where c = 1 and s = sizeof_segment])
      case (fail h3)
      then have "\<not> rel" by (simp add: sizeof_segment_def size_mod_def)
      with fail recs(1) nn copy(1) big rd hd len y yy tl freed [OF fail(3)] show ?thesis by (auto simp: run)
    next
      case s: (new sp h3)
      let ?s = "\<lparr>seg_ptr = sp, seg_owned = Some copy, seg_owned_bytes = ?bs, seg_owned_len = sl_len enc,
         seg_hdr = hdr, seg_records_ptr = recs, seg_records = rs, seg_record_count = ?n,
         seg_has_sig = hs, seg_sig = sg\<rparr>"
      have "vicarl_segment_decode A enc True h = (Inr ?s, h3)"
        using s recs(1) nn copy(1) big rd hd len y yy tl by (auto simp: run)
      moreover have "segment_owned ?L ?s"
        using copy(2) recs(2,3) s(2) by (auto simp: segment_owned_def own_segment_def)
      moreover have "heap_to ok h (?L \<union> own_segment ?s) h3"
        using s(3) by (simp add: own_segment_def Un_commute Un_left_commute insert_commute)
      ultimately show ?thesis using spec by (simp add: outcome_def seg_fields_def)
    qed
  qed
qed

lemma segment_decode_outcome:
  assumes A: "alloc_rel A ok rel" and h: "ok h" and wf: "slice_wf enc"
  shows "outcome (vicarl_segment_decode A enc True)
    (\<lambda>s h'. segment_spec (slice_bytes enc) = Inr (seg_fields s) \<and> seg_owned_bytes s = slice_bytes enc \<and>
       seg_record_count s = unat (record_count (seg_hdr s)) \<and>
       segment_owned (hp_live h) s \<and> heap_to ok h (hp_live h \<union> own_segment s) h')
    (\<lambda>e h'. heap_to ok h (hp_live h) h' \<and>
       (segment_spec (slice_bytes enc) = Inl e \<or> e = err_oom \<and> (\<not> rel \<or> huge_count (slice_bytes enc)))) h"
proof (cases "sl_len enc < 5 \<or> sl_ptr enc = None")
  case True
  have "length (slice_bytes enc) < 5"
    using True wf slice_wf_length [OF wf] by (auto simp: slice_wf_def)
  with True h show ?thesis
    by (simp add: outcome_def vicarl_segment_decode_def segment_spec_def heap_to_refl)
next
  case False
  then obtain mem where big: "\<not> sl_len enc < 5" "sl_ptr enc = Some mem" by auto
  let ?bs = "slice_bytes enc" and ?L = "hp_live h"
  have len: "sl_len enc = length ?bs" and rd: "slice_read enc = Inr ?bs"
    using wf by (simp_all add: slice_wf_length slice_read_wf)
  note run = outcome_def vicarl_segment_decode_def Let_def
  obtain out r1 where hd: "segment_head (vicarl_rbuf_init ?bs (length ?bs)) = (out, r1)" by fastforce
  from A heap_to_refl [of ok h, OF h] show ?thesis
  proof (cases rule: malloc_stepE [where n = "sl_len enc"])
    case (fail h1)
    with big show ?thesis by (simp add: run)
  next
    case (new copy h1)
    have freed: "heap_to ok h ?L (free_fn A copy h2)" if "heap_to ok h (insert copy ?L) h2" for h2
      using that new(2) by (rule free_step_insert [OF A])
    show ?thesis
    proof (cases out)
      case (Inl e)
      with hd big len have "segment_spec ?bs = Inl e" by (simp add: segment_spec_def)
      with Inl new big rd hd len freed show ?thesis by (simp add: run)
    next
      case (Inr x)
      then obtain flags hdr where x: "out = Inr (flags, hdr)" by (cases x) simp
      from A new(3) show ?thesis
      proof (cases rule: records_array_stepE [where n = "unat (record_count hdr)"])
        case (fail h2)
        then have "\<not> rel \<or> huge_count ?bs" using hd x by (auto simp: huge_count_def)
        with fail new big rd hd x len freed [OF fail(4)] show ?thesis by (simp add: run)
      next
        case (got recs h2)
        then show ?thesis by (rule segment_tail_outcome [OF A wf big new(1,2) hd [unfolded x]])
      qed
    qed
  qed
qed

section \<open>Verification\<close>

lemma check_records_outcome:
  assumes A: "alloc_rel A ok rel"
  shows "ok h \<Longrightarrow> \<forall>r \<in> set rs. slice_wf r \<Longrightarrow>
    outcome (check_records A rs)
      (\<lambda>_ h'. heap_to ok h (hp_live h) h' \<and> (\<forall>r \<in> set rs. \<exists>x. record_spec (slice_bytes r) = Inr x))
      (\<lambda>e h'. heap_to ok h (hp_live h) h' \<and>
         ((\<exists>r \<in> set rs. record_spec (slice_bytes r) = Inl e) \<or> e = err_oom \<and> \<not> rel)) h"
proof (induction rs arbitrary: h)
  case Nil
  then show ?case by (simp add: outcome_def heap_to_refl)
next
  case (Cons r rs)
  have wf: "slice_wf r" using Cons.prems(2) by simp
  note dec = record_decode_outcome [OF A Cons.prems(1) wf]
  obtain out h1 where d: "vicarl_record_decode A r True h = (out, h1)" by fastforce
  show ?case
  proof (cases out)
    case (Inl e)
    with d outcome_Inl [OF dec] show ?thesis by (auto simp: outcome_def)
  next
    case (Inr x)
    let ?h2 = "vicarl_record_destroy A (Some x) h1"
    from Inr d outcome_Inr [OF dec] have x: "record_spec (slice_bytes r) = Inr (handle_fields x)"
      "record_owned (hp_live h) x" "heap_to ok h (hp_live h \<union> own_record x) h1" by auto
    then have h2: "heap_to ok h (hp_live h) ?h2"
      by (auto simp: record_owned_def intro: record_destroy_heap [OF A])
    then have "ok ?h2" "hp_live ?h2 = hp_live h" by (simp_all add: heap_to_def)
    with Cons have "outcome (check_records A rs)
      (\<lambda>_ h'. heap_to ok ?h2 (hp_live h) h' \<and> (\<forall>r \<in> set rs. \<exists>x. record_spec (slice_bytes r) = Inr x))
      (\<lambda>e h'. heap_to ok ?h2 (hp_live h) h' \<and>
         ((\<exists>r \<in> set rs. record_spec (slice_bytes r) = Inl e) \<or> e = err_oom \<and> \<not> rel)) ?h2"
      using Cons.IH [of ?h2] by simp
    then show ?thesis
      using d Inr x(1) heap_to_trans [OF h2]
      by (auto simp: outcome_def handle_fields_def split: prod.splits sum.splits)
  qed
qed

text \<open>What verification means to accept: an unsigned segment of decodable records whose Merkle root is
  the one in the header, unless that is zero.\<close>

definition segment_valid :: "bytes \<Rightarrow> bool" where
  "segment_valid bs \<longleftrightarrow>
     (\<exists>hdr rs sig. segment_spec bs = Inr (hdr, rs, False, sig) \<and>
        (\<forall>r \<in> set rs. \<exists>x. record_spec (slice_bytes r) = Inr x) \<and>
        (records_merkle_root hdr = zero_hash \<or> records_merkle_root hdr = mroot (leaves rs)))"

lemma check_root_outcome:
  assumes A: "alloc_rel A ok rel" and h: "ok h" and rs: "records_ok rs" and n: "n = length rs" and p: "p = None \<longleftrightarrow> n = 0"
  shows "outcome (\<lambda>h. if \<not> hash_is_zero32 root then
        (case vicarl__merkle_root A (case p of None \<Rightarrow> None | Some _ \<Rightarrow> Some rs) n True h of
           (Inl e, h') \<Rightarrow> (Inl e, h')
         | (Inr computed, h') \<Rightarrow> if computed \<noteq> root then (Inl bad, h') else (Inr (), h'))
        else (Inr (), h))
      (\<lambda>_ h'. heap_to ok h (hp_live h) h' \<and> (root = zero_hash \<or> root = mroot (leaves rs)))
      (\<lambda>e h'. heap_to ok h (hp_live h) h' \<and> (\<not> (root = zero_hash \<or> root = mroot (leaves rs)) \<or> e = err_oom \<and> \<not> rel)) h"
proof -
  have "vicarl__merkle_root A (case p of None \<Rightarrow> None | Some _ \<Rightarrow> Some rs) n True = vicarl__merkle_root A (Some rs) (length rs) True"
    using n p by (auto simp: vicarl__merkle_root_def fun_eq_iff split: option.splits)
  with merkle_root_outcome [OF A h rs] h show ?thesis
    by (auto simp: outcome_def hash_is_zero32_def heap_to_refl split: prod.splits sum.splits)
qed

lemma segment_valid_iff:
  "segment_spec bs = Inr (hdr, rs, hs, sig) \<Longrightarrow>
   segment_valid bs \<longleftrightarrow> \<not> hs \<and> (\<forall>r \<in> set rs. \<exists>x. record_spec (slice_bytes r) = Inr x) \<and>
     (records_merkle_root hdr = zero_hash \<or> records_merkle_root hdr = mroot (leaves rs))"
  by (auto simp: segment_valid_def)

lemma decoded_verify_outcome:
  assumes A: "alloc_rel A ok rel" and bs: "length bs < 2 ^ 59" and dec: "vicarl_segment_decode A enc True h = (Inr s, h1)"
    and spec: "segment_spec bs = Inr (seg_fields s)" and cnt: "seg_record_count s = unat (record_count (seg_hdr s))"
    and own: "segment_owned (hp_live h) s" and h1: "heap_to ok h (hp_live h \<union> own_segment s) h1"
  shows "outcome (vicarl_segment_verify A enc)
    (\<lambda>_ h'. heap_to ok h (hp_live h) h' \<and> segment_valid bs)
    (\<lambda>e h'. heap_to ok h (hp_live h) h' \<and> (\<not> segment_valid bs \<or> e = err_oom \<and> \<not> rel)) h"
proof -
  let ?rs = "seg_records s" and ?p = "seg_records_ptr s" and ?root = "records_merkle_root (seg_hdr s)"
  have rs: "length ?rs = seg_record_count s" "\<forall>r \<in> set ?rs. slice_wf r" "length ?rs \<le> length bs"
    using segment_spec_records [OF spec [unfolded seg_fields_def]] bs cnt by (auto simp: size_mod_def)
  then have rok: "records_ok ?rs" using bs by (simp add: records_ok_def size_max_def)
  have freed: "heap_to ok h (hp_live h) (vicarl_segment_destroy A (Some s) h2)" if "heap_to ok h1 (hp_live h1) h2" for h2
    using heap_to_trans [OF h1 that] heap_to_live [OF h1] own by (auto intro: segment_destroy_heap [OF A])
  note valid = segment_valid_iff [OF spec [unfolded seg_fields_def]]
  have p: "?p = None \<longleftrightarrow> seg_record_count s = 0" using own by (simp add: segment_owned_def)
  let ?check = "\<lambda>h. if \<not> hash_is_zero32 ?root then
        (case vicarl__merkle_root A (case ?p of None \<Rightarrow> None | Some _ \<Rightarrow> Some ?rs) (seg_record_count s) True h of
           (Inl e, h') \<Rightarrow> (Inl e, h')
         | (Inr computed, h') \<Rightarrow> if computed \<noteq> ?root then (Inl (badfmt ''segment_verify: merkle root mismatch''), h') else (Inr (), h'))
        else (Inr (), h)"
  let ?sig = "fail_with VICARL_ERR_UNSUPPORTED ''segment signature verification not configured (crypto backend missing)''"
  have body: "outcome (bindr ?check (\<lambda>_. guardr (\<not> seg_has_sig s) ?sig))
      (\<lambda>_ h'. heap_to ok h1 (hp_live h1) h' \<and> segment_valid bs)
      (\<lambda>e h'. heap_to ok h1 (hp_live h1) h' \<and> (\<not> segment_valid bs \<or> e = err_oom \<and> \<not> rel)) h2"
    if h2: "heap_to ok h1 (hp_live h1) h2" and all: "\<forall>r \<in> set ?rs. \<exists>x. record_spec (slice_bytes r) = Inr x" for h2
    by (rule outcome_bindr, rule outcome_mono [OF check_root_outcome [OF A heap_to_ok [OF h2] rok rs(1) [symmetric] p]])
       (use h2 all in \<open>auto simp: valid heap_to_def intro!: outcome_guardr\<close>)
  have "outcome (finally_do (vicarl_segment_destroy A (Some s)) (bindr (check_records A ?rs) (\<lambda>_. bindr ?check (\<lambda>_. guardr (\<not> seg_has_sig s) ?sig))))
    (\<lambda>_ h'. heap_to ok h (hp_live h) h' \<and> segment_valid bs)
    (\<lambda>e h'. heap_to ok h (hp_live h) h' \<and> (\<not> segment_valid bs \<or> e = err_oom \<and> \<not> rel)) h1"
    by (rule outcome_finally, rule outcome_bindr, rule outcome_mono [OF check_records_outcome [OF A heap_to_ok [OF h1] rs(2)]])
       (rule outcome_mono [OF body], auto simp: freed, auto simp: valid)
  moreover have "record_count (seg_hdr s) = of_nat (seg_record_count s)" "take (seg_record_count s) ?rs = ?rs" using cnt rs(1) by simp_all
  ultimately show ?thesis
    by (elim outcome_run [rotated]) (simp add: vicarl_segment_verify_def dec finally_do_def bindr_def vm_simps split: prod.splits sum.splits)
qed

lemma segment_verify_outcome:
  assumes A: "alloc_rel A ok rel" and h: "ok h" and wf: "slice_wf enc" and len: "sl_len enc < 2 ^ 59"
  shows "outcome (vicarl_segment_verify A enc)
    (\<lambda>_ h'. heap_to ok h (hp_live h) h' \<and> segment_valid (slice_bytes enc))
    (\<lambda>e h'. heap_to ok h (hp_live h) h' \<and> (\<not> segment_valid (slice_bytes enc) \<or> e = err_oom \<and> \<not> rel)) h"
proof -
  let ?bs = "slice_bytes enc"
  have lbs: "length ?bs < 2 ^ 59" using len wf by (simp add: slice_wf_length)
  note dec = segment_decode_outcome [OF A h wf]
  obtain out h1 where d: "vicarl_segment_decode A enc True h = (out, h1)" by fastforce
  show ?thesis
  proof (cases out)
    case (Inl e)
    have "\<not> segment_valid ?bs" if "huge_count ?bs" using that not_huge [OF _ lbs] by (auto simp: segment_valid_def)
    moreover have "\<not> segment_valid ?bs" if "segment_spec ?bs = Inl e'" for e' using that by (simp add: segment_valid_def)
    ultimately show ?thesis using Inl d outcome_Inl [OF dec] by (auto simp: outcome_def vicarl_segment_verify_def)
  next
    case (Inr s)
    with d outcome_Inr [OF dec] show ?thesis by (intro decoded_verify_outcome [OF A lbs, of enc h s h1]) auto
  qed
qed

section \<open>The wire format\<close>

definition segment_wire :: "vicarl_segment_header \<Rightarrow> bytes list \<Rightarrow> bytes option \<Rightarrow> bytes" where
  "segment_wire hdr recs sig =
     VICARL_SEG_MAGIC @ [if sig \<noteq> None then 1 else 0] @ leb128 (unat (segment_no hdr)) @
     prev_segment_hash hdr @ leb128 (unat (record_count hdr)) @ records_merkle_root hdr @
     leb128 (unat (hdr_timestamp_ms hdr)) @ concat (map ldbytes recs) @
     (case sig of None \<Rightarrow> [] | Some s \<Rightarrow> s)"

definition hdr_wf :: "vicarl_segment_header \<Rightarrow> bool" where
  "hdr_wf hdr \<longleftrightarrow> length (prev_segment_hash hdr) = 32 \<and> length (records_merkle_root hdr) = 32"

lemma appends_put_records [appends_intros]:
  assumes "alloc_rel A ok rel"
  shows "\<forall>r \<in> set recs. slice_wf r \<Longrightarrow>
    appends ok rel (put_records A recs) (concat (map ldbytes (map slice_bytes recs)))"
  by (induction recs) (auto intro!: appends_bindr appends_put_ldbytes [OF assms] simp: appends_retr)

lemma appends_segment_write:
  assumes A: "alloc_rel A ok rel" and "hdr_wf hdr" "\<forall>r \<in> set recs. slice_wf r" "sig_wf sig"
  shows "appends ok rel (segment_write A hdr recs sig) (segment_wire hdr (map slice_bytes recs) sig)"
  unfolding segment_write_def segment_wire_def
  using assms
  by (intro appends_bindr appends_intros)
     (auto simp: hdr_wf_def sig_wf_def size_mod_def VICARL_SEG_MAGIC_def VICARL_SEG_FLAG_HAS_SIG_def
       intro: appends_put_u8)

lemma reads_get_records:
  "\<forall>b \<in> set bss. length b < size_mod \<Longrightarrow>
   reads (get_records (length bss)) (concat (map ldbytes bss)) (\<lambda>rs. map slice_bytes rs = bss)"
proof (induction bss)
  case (Cons b bss)
  have "reads (get_records (length (b # bss))) (ldbytes b @ concat (map ldbytes bss) @ []) (\<lambda>rs. map slice_bytes rs = b # bss)"
    using Cons
    by (simp only: length_Cons get_records.simps)
       (intro reads_bindr [OF reads_get_ldbytes] reads_bindr [OF Cons.IH] reads_retr, auto)
  then show ?case by simp
qed (simp add: reads_retr)

lemma reads_segment_head:
  assumes "hdr_wf hdr"
  shows "reads segment_head
    (VICARL_SEG_MAGIC @ [] @ [fl] @ leb128 (unat (segment_no hdr)) @ prev_segment_hash hdr @
     leb128 (unat (record_count hdr)) @ records_merkle_root hdr @ leb128 (unat (hdr_timestamp_ms hdr)) @ [] @ [])
    (\<lambda>x. x = (fl, hdr))"
  unfolding segment_head_def
  apply (rule reads_bindr [OF reads_rethrow [OF reads_get_magic]])
   apply (simp add: VICARL_SEG_MAGIC_def)
  apply (rule reads_bindr [OF reads_guardr], simp)
  apply (rule reads_bindr [OF reads_rethrow [OF reads_get_u8]])
  apply (rule reads_bindr [OF reads_get_varu64])
  apply (rule reads_bindr [OF reads_rethrow [OF reads_get_bytes]], use assms in \<open>simp add: hdr_wf_def\<close>)
  apply (rule reads_bindr [OF reads_get_varu64])
  apply (rule reads_bindr [OF reads_rethrow [OF reads_get_bytes]], use assms in \<open>simp add: hdr_wf_def\<close>)
  apply (rule reads_bindr [OF reads_get_varu64])
  apply (rule reads_bindr [OF reads_guardr])
   apply (use unat_u64_less [of "record_count hdr"] in \<open>simp add: size_max_def size_mod_def\<close>)
  apply (rule reads_retr)
  by simp

lemma segment_tail_wire:
  assumes bss: "\<forall>b \<in> set bss. length b < size_mod" and sig: "sig_wf sig"
    and fl: "fl = (if sig \<noteq> None then 1 else 0)" and wf: "rbuf_wf r"
    and u: "unread r = concat (map ldbytes bss) @ (case sig of None \<Rightarrow> [] | Some s \<Rightarrow> s)"
  shows "\<exists>rs r'. segment_tail fl (length bss) r =
      (Inr (rs, sig \<noteq> None, case sig of None \<Rightarrow> replicate 64 0 | Some s \<Rightarrow> s), r') \<and> map slice_bytes rs = bss"
proof -
  let ?bs = "concat (map ldbytes bss) @ (case sig of None \<Rightarrow> [] | Some s \<Rightarrow> s) @ []"
  let ?Q = "\<lambda>(rs, has, sg). map slice_bytes rs = bss \<and> has = (sig \<noteq> None) \<and>
      sg = (case sig of None \<Rightarrow> replicate 64 0 | Some s \<Rightarrow> s)"
  let ?m = "bindr (get_records (length bss)) (\<lambda>recs.
        let has_sig = (fl AND VICARL_SEG_FLAG_HAS_SIG \<noteq> 0) in
        bindr (get_signature ''segment_decode: missing segment signature'' has_sig) (\<lambda>sig.
        retr (recs, has_sig, sig)))"
  have flag: "(fl AND VICARL_SEG_FLAG_HAS_SIG \<noteq> 0) = (sig \<noteq> None)"
    by (simp add: fl VICARL_SEG_FLAG_HAS_SIG_def)
  have "reads ?m ?bs ?Q"
    unfolding Let_def flag
    by (intro reads_bindr [OF reads_get_records [OF bss]] reads_bindr [OF reads_get_signature [OF sig refl]] reads_retr) simp
  from readsD [OF this wf, of "[]"] u obtain x where x: "?m r = (Inr x, rbuf_skip (length ?bs) r)" "?Q x" by auto
  have "vicarl_rbuf_remaining (rbuf_skip (length ?bs) r) = 0"
    using wf u rbuf_skip_wf [OF wf, of "length ?bs"] by (simp add: remaining_unread)
  with x show ?thesis
    by (cases x) (simp add: segment_tail_def bindr_Inr no_trailing_def bindr_def retr_def)
qed

text \<open>The header announces the number of records there are.\<close>

definition count_ok :: "vicarl_segment_header \<Rightarrow> 'a list \<Rightarrow> bool" where
  "count_ok hdr recs \<longleftrightarrow> record_count hdr = of_nat (length recs) \<and> length recs < size_mod"

lemma drop_append_self: "drop (length xs) (xs @ ys) = ys"
  by simp

lemma segment_spec_wire:
  assumes hdr: "hdr_wf hdr" and bss: "\<forall>b \<in> set bss. length b < size_mod" and sig: "sig_wf sig" and n: "count_ok hdr bss"
  shows "\<exists>rs. segment_spec (segment_wire hdr bss sig) =
      Inr (hdr, rs, sig \<noteq> None, case sig of None \<Rightarrow> replicate 64 0 | Some s \<Rightarrow> s) \<and> map slice_bytes rs = bss"
proof -
  let ?w = "segment_wire hdr bss sig" and ?fl = "if sig \<noteq> None then 1 else 0 :: u8"
  let ?r = "vicarl_rbuf_init ?w (length ?w)"
  let ?hd = "VICARL_SEG_MAGIC @ [] @ [?fl] @ leb128 (unat (segment_no hdr)) @ prev_segment_hash hdr @
     leb128 (unat (record_count hdr)) @ records_merkle_root hdr @ leb128 (unat (hdr_timestamp_ms hdr)) @ [] @ []"
  let ?tl = "concat (map ldbytes bss) @ (case sig of None \<Rightarrow> [] | Some s \<Rightarrow> s)"
  have w: "?w = ?hd @ ?tl" by (simp add: segment_wire_def)
  have cnt: "unat (record_count hdr) = length bss" using n by (simp add: count_ok_def unat_of_nat_u64)
  have "\<exists>x. segment_head ?r = (Inr x, rbuf_skip (length ?hd) ?r) \<and> x = (?fl, hdr)"
    by (rule readsD [OF reads_segment_head [OF hdr], where t = ?tl]) (simp_all only: rbuf_wf_init unread_init w)
  then have h: "segment_head ?r = (Inr (?fl, hdr), rbuf_skip (length ?hd) ?r)" by blast
  have "rbuf_wf (rbuf_skip (length ?hd) ?r)" 
    by (rule rbuf_skip_wf [OF rbuf_wf_init]) (simp only: unread_init w length_append le_add1)
  moreover have "unread (rbuf_skip (length ?hd) ?r) = ?tl" 
    unfolding unread_skip unread_init w by (rule drop_append_self)
  ultimately obtain rs r' where t: "segment_tail ?fl (length bss) (rbuf_skip (length ?hd) ?r) =
      (Inr (rs, sig \<noteq> None, case sig of None \<Rightarrow> replicate 64 0 | Some s \<Rightarrow> s), r')" "map slice_bytes rs = bss"
    using segment_tail_wire [OF bss sig refl] by blast
  have "5 \<le> length ?w" by (simp add: segment_wire_def VICARL_SEG_MAGIC_def)
  with h t cnt show ?thesis by (simp add: segment_spec_def)
qed

lemma segment_encode_outcome:
  assumes A: "alloc_rel A ok rel" and h: "ok h" and wf: "hdr_wf hdr" "\<forall>r \<in> set recs. slice_wf r" "sig_wf sig"
    and n: "count_ok hdr recs" and len: "length (segment_wire hdr (map slice_bytes recs) sig) + 10 < size_mod"
  shows "outcome (vicarl_segment_encode A (Some hdr) (Some recs) (length recs) sig True)
    (\<lambda>b h'. holds_bytes b (segment_wire hdr (map slice_bytes recs) sig) \<and> own_bytes b \<inter> hp_live h = {} \<and>
       heap_to ok h (hp_live h \<union> own_bytes b) h')
    (\<lambda>e h'. e = err_oom \<and> \<not> (rel \<and> length (segment_wire hdr (map slice_bytes recs) sig) + 10 \<le> 2 ^ 63) \<and>
       heap_to ok h (hp_live h) h') h"
proof -
  have "segment_wire hdr (map slice_bytes recs) sig \<noteq> []" by (simp add: segment_wire_def VICARL_SEG_MAGIC_def)
  from run_encoder_outcome [OF A appends_segment_write [OF A wf] h this len]
  show ?thesis
    using wf(2) n slice_wf_not_bad
    by (auto simp: outcome_def vicarl_segment_encode_def count_ok_def)
qed

section \<open>Properties\<close>

text \<open>C22. Segment round trip: encoding a header and its records produces an owned buffer that
  \<^verbatim>\<open>vicarl_segment_decode\<close> accepts; the decoded handle has the same header, the same record bytes in the
  same order and the same signature. Either call fails only for lack of memory.\<close>
theorem segment_roundtrip:
  assumes "alloc_rel A ok rel" and "ok h" and "hdr_wf hdr" and "\<forall>r \<in> set recs. slice_wf r" and "sig_wf sig"
    and "count_ok hdr recs" and "length (segment_wire hdr (map slice_bytes recs) sig) + 10 < 2 ^ 60"
  shows "outcome (bindr (vicarl_segment_encode A (Some hdr) (Some recs) (length recs) sig True)
      (\<lambda>b. vicarl_segment_decode A (bytes_slice b) True))
    (\<lambda>s h'. segment_header_of (Some s) = Some hdr \<and> map slice_bytes (seg_records s) = map slice_bytes recs \<and>
       (\<forall>i < length recs. \<exists>r. vicarl_segment_get_record (Some s) i True = Inr r \<and> slice_bytes r = slice_bytes (recs ! i)) \<and>
       vicarl_segment_signature (Some s) = sig)
    (\<lambda>e h'. e = err_oom \<and> \<not> rel) h"
proof -
  let ?bss = "map slice_bytes recs"
  let ?w = "segment_wire hdr ?bss sig"
  have len: "length ?w + 10 < size_mod" "length ?w < size_mod" using assms(7) by (simp_all add: size_mod_def)
  have n: "count_ok hdr ?bss" using assms(6) by (simp add: count_ok_def)
  have "\<forall>b \<in> set ?bss. length b < size_mod" using assms(4) slice_wf_length by (auto simp: slice_wf_def)
  from segment_spec_wire [OF assms(3) this assms(5) n] obtain rs where
    spec: "segment_spec ?w = Inr (hdr, rs, sig \<noteq> None, case sig of None \<Rightarrow> replicate 64 0 | Some s \<Rightarrow> s)"
    and rs: "map slice_bytes rs = ?bss" by blast
  have lrs: "length rs = length recs" using rs by (metis length_map)
  then have nth: "slice_bytes (rs ! i) = slice_bytes (recs ! i)" if "i < length recs" for i
    using rs that by (metis nth_map)
  have cnt: "unat (record_count hdr) = length recs" using assms(6) by (simp add: count_ok_def unat_of_nat_u64)
  have "length recs \<le> length ?w" using segment_spec_records [OF spec len(2)] lrs by simp
  then have nothuge: "\<not> huge_count ?w"
    using spec cnt assms(7)
    by (auto simp: huge_count_def segment_spec_def sizeof_slice_def size_mod_def split: if_splits prod.splits sum.splits)
  show ?thesis
  proof (rule outcome_bindr, rule outcome_mono [OF segment_encode_outcome [OF assms(1-6) len(1)]])
    fix b h1
    assume b: "holds_bytes b ?w \<and> own_bytes b \<inter> hp_live h = {} \<and> heap_to ok h (hp_live h \<union> own_bytes b) h1"
    then have b': "ok h1" "slice_wf (bytes_slice b)" "slice_bytes (bytes_slice b) = ?w"
      using len by (auto simp: heap_to_def bytes_slice_of)
    from segment_decode_outcome [OF assms(1) b'(1,2), unfolded b'(3)]
    show "outcome (vicarl_segment_decode A (bytes_slice b) True)
      (\<lambda>s h'. segment_header_of (Some s) = Some hdr \<and> map slice_bytes (seg_records s) = ?bss \<and>
         (\<forall>i < length recs. \<exists>r. vicarl_segment_get_record (Some s) i True = Inr r \<and> slice_bytes r = slice_bytes (recs ! i)) \<and>
         vicarl_segment_signature (Some s) = sig)
      (\<lambda>e h'. e = err_oom \<and> \<not> rel) h1"
      by (rule outcome_mono)
         (use spec rs lrs nth cnt nothuge in
           \<open>auto simp: seg_fields_def segment_header_of_def vicarl_segment_get_record_def vicarl_segment_signature_def
             split: option.splits\<close>)
  qed (use assms(7) in auto)
qed

theorem segment_roundtrip_witness:
  "outcome (bindr (vicarl_segment_encode default_allocator
        (Some \<lparr>segment_no = 5, prev_segment_hash = replicate 32 1, record_count = 2,
               records_merkle_root = zero_hash, hdr_timestamp_ms = 9\<rparr>)
        (Some [slice_of [1, 2], slice_of []]) 2 None True)
      (\<lambda>b. vicarl_segment_decode default_allocator (bytes_slice b) True))
    (\<lambda>s h'. segment_no (seg_hdr s) = 5 \<and> map slice_bytes (seg_records s) = [[1, 2], []])
    (\<lambda>e h'. False) heap_init"
proof -
  let ?h = "\<lparr>segment_no = 5, prev_segment_hash = replicate 32 1, record_count = 2,
               records_merkle_root = zero_hash, hdr_timestamp_ms = 9\<rparr>"
  let ?recs = "[slice_of [1, 2], slice_of []] :: vicarl_slice list"
  have n: "length ?recs = 2" by simp
  have wf: "hdr_wf ?h" "\<forall>r \<in> set ?recs. slice_wf r" "sig_wf None" "count_ok ?h ?recs"
    by (simp_all add: hdr_wf_def sig_wf_def count_ok_def size_mod_def)
  have len: "length (segment_wire ?h (map slice_bytes ?recs) None) + 10 < 2 ^ 60"
    by (simp add: segment_wire_def VICARL_SEG_MAGIC_def ldbytes_def leb128_small)
  show ?thesis
    using segment_roundtrip [OF libc_reliable heap_plenty_init wf len, unfolded n]
    by (rule outcome_mono) (auto simp: segment_header_of_def)
qed

text \<open>C27. Decoding a segment is safe on every readable input: it never reads outside the input; it returns
  a handle for exactly the inputs the parser accepts and rejects the others with a format error; OOM
  is the only other error, when an allocation fails or when the header announces so many records
  that their array has no size; every error path releases everything, and destroying the handle
  releases all its blocks.\<close>
theorem segment_decode_safe:
  assumes "alloc_rel A ok rel" and "ok h" and "slice_wf enc"
  shows "outcome (vicarl_segment_decode A enc True)
    (\<lambda>s h'. segment_spec (slice_bytes enc) = Inr (seg_fields s) \<and>
       heap_to ok h (hp_live h) (vicarl_segment_destroy A (Some s) h'))
    (\<lambda>e h'. heap_to ok h (hp_live h) h' \<and>
       (segment_spec (slice_bytes enc) = Inl e \<and> (\<exists>msg. e = VErr VICARL_ERR_FORMAT (Some msg)) \<or>
        e = err_oom \<and> (\<not> rel \<or> huge_count (slice_bytes enc)))) h"
  using segment_decode_outcome [OF assms]
  by (rule outcome_mono) (auto intro: segment_destroy_heap [OF assms(1)] dest: segment_spec_error)

theorem segment_decode_safe_witness:
  "outcome (vicarl_segment_decode default_allocator (slice_of [1, 2, 3, 4, 5, 6]) True)
    (\<lambda>s h'. segment_spec [1, 2, 3, 4, 5, 6] = Inr (seg_fields s))
    (\<lambda>e h'. hp_live h' = {}) heap_init"
proof -
  have "slice_wf (slice_of [1, 2, 3, 4, 5, 6])" by (simp add: size_mod_def)
  from segment_decode_safe [OF libc_reliable heap_plenty_init this] show ?thesis
    by (rule outcome_mono) (auto simp: heap_to_def heap_init_def)
qed

text \<open>C21. Verification decides validity: \<^verbatim>\<open>vicarl_segment_verify\<close> accepts an input only if it is an unsigned
  segment in which every record decodes and the header's Merkle root, unless zero, is the root of
  the records; with a reliable allocator it accepts every such input; it leaves no block behind on any path.\<close>
theorem segment_verify_correct:
  assumes "alloc_rel A ok rel" and "ok h" and "slice_wf enc" and "sl_len enc < 2 ^ 59"
  shows "outcome (vicarl_segment_verify A enc)
    (\<lambda>_ h'. heap_to ok h (hp_live h) h' \<and> segment_valid (slice_bytes enc))
    (\<lambda>e h'. heap_to ok h (hp_live h) h' \<and> (\<not> segment_valid (slice_bytes enc) \<or> e = err_oom \<and> \<not> rel)) h"
  using assms by (rule segment_verify_outcome)

theorem segment_verify_correct_witness:
  "fst (vicarl_segment_verify default_allocator
     (slice_of (segment_wire \<lparr>segment_no = 0, prev_segment_hash = zero_hash, record_count = 0,
        records_merkle_root = zero_hash, hdr_timestamp_ms = 0\<rparr> [] None)) heap_init) = Inr ()"
proof -
  let ?h = "\<lparr>segment_no = 0, prev_segment_hash = zero_hash, record_count = 0,
        records_merkle_root = zero_hash, hdr_timestamp_ms = 0\<rparr>"
  let ?w = "segment_wire ?h [] None"
  have "\<exists>rs. segment_spec ?w = Inr (?h, rs, False, replicate 64 0) \<and> map slice_bytes rs = []"
    using segment_spec_wire [of ?h "[]" None] by (simp add: hdr_wf_def sig_wf_def count_ok_def)
  then have valid: "segment_valid ?w" by (auto simp: segment_valid_def)
  have "slice_wf (slice_of ?w)" "sl_len (slice_of ?w) < 2 ^ 59"
    by (simp_all add: segment_wire_def VICARL_SEG_MAGIC_def leb128_small size_mod_def)
  from segment_verify_correct [OF libc_reliable heap_plenty_init this] valid show ?thesis
    by (auto simp: outcome_def split: prod.splits sum.splits)
qed

text \<open>What a decoded record consists of has the widths of the C types.\<close>

definition record_typed :: "vicarl_record_meta \<times> vicarl_slice \<times> bool \<times> vicarl_sig64 \<Rightarrow> bool" where
  "record_typed f \<longleftrightarrow> (case f of (meta, payload, has_sig, sig) \<Rightarrow> meta_wf meta \<and> slice_wf payload \<and> length sig = 64)"

lemma reader_gives_signature: "reader_gives (get_signature msg has) (\<lambda>s. length s = 64)"
  unfolding get_signature_def
  by (auto intro!: reader_gives_retr reader_gives_bindr [OF _ reader_gives_rethrow [OF reader_gives_get_bytes]] reader_safe_intros)

lemma record_parse_typed: "reader_gives record_parse record_typed"
  unfolding record_parse_def
proof (rule reader_gives_bindr)
  show "reader_gives record_fields record_typed"
    unfolding record_fields_def Let_def
    by (intro reader_gives_skip [of "rethrow _ get_magic"] reader_gives_skip [of "guardr _ _"] reader_gives_skip [of "rethrow _ vicarl_rbuf_get_u8"]
        reader_gives_bindr [OF _ reader_gives_get_ldbytes] reader_gives_bindr [OF _ reader_gives_rethrow [OF reader_gives_get_bytes]]
        reader_gives_skip [of vicarl_rbuf_get_varu64] reader_gives_bindr [OF _ reader_gives_signature] reader_gives_retr reader_safe_intros)
       (simp add: record_typed_def meta_wf_def)
  show "reader_safe record_fields" unfolding record_fields_def Let_def by (intro reader_safe_intros)
qed (intro reader_gives_skip reader_gives_retr reader_safe_intros)

lemma record_spec_typed:
  assumes "record_spec bs = Inr f" "length bs < size_mod"
  shows "record_typed f"
proof -
  let ?r = "vicarl_rbuf_init bs (length bs)"
  have "record_parse ?r = (Inr f, snd (record_parse ?r))"
    using assms(1) by (auto simp: record_spec_def prod_eq_iff split: if_splits)
  from reader_givesD [OF record_parse_typed rbuf_wf_init _ this] assms(2) show ?thesis by (simp add: vicarl_rbuf_init_def)
qed

lemma segment_head_typed: "reader_gives segment_head (\<lambda>x. hdr_wf (snd x))"
  unfolding segment_head_def
  by (intro reader_gives_skip [of "rethrow _ get_magic"] reader_gives_skip [of "guardr _ _"] reader_gives_skip [of "rethrow _ vicarl_rbuf_get_u8"]
      reader_gives_bindr [OF _ reader_gives_rethrow [OF reader_gives_get_bytes]]
      reader_gives_skip [of vicarl_rbuf_get_varu64] reader_gives_retr reader_safe_intros)
     (simp add: hdr_wf_def)

lemma segment_tail_typed: "reader_gives (segment_tail flags n) (\<lambda>x. length (snd (snd x)) = 64)"
  unfolding segment_tail_def Let_def
  by (auto intro!: reader_gives_bindr [where P = "\<lambda>x. length (snd (snd x)) = 64"] reader_gives_skip [of "get_records _"]
      reader_gives_bindr [OF _ reader_gives_signature] reader_gives_skip [of "no_trailing _"] reader_gives_retr reader_safe_intros)

lemma segment_spec_typed:
  assumes "segment_spec bs = Inr (hdr, rs, hs, sig)" "length bs < size_mod"
  shows "hdr_wf hdr \<and> length sig = 64"
proof -
  let ?r = "vicarl_rbuf_init bs (length bs)"
  obtain flags r1 r2 where h: "segment_head ?r = (Inr (flags, hdr), r1)" and
    t: "segment_tail flags (unat (record_count hdr)) r1 = (Inr (rs, hs, sig), r2)"
    using assms(1) by (auto simp: segment_spec_def split: if_splits prod.splits sum.splits)
  obtain k where k: "k \<le> length bs" "r1 = rbuf_skip k ?r"
    using reader_safeD_Inr [OF reader_safe_segment_head rbuf_wf_init h] by auto
  have r1: "rbuf_wf r1" "length (rb_data r1) < size_mod" using k assms(2) by (simp_all add: rbuf_skip_wf) (simp add: rbuf_skip_def vicarl_rbuf_init_def)
  have "hdr_wf hdr" using reader_givesD [OF segment_head_typed rbuf_wf_init _ h] assms(2) by (simp add: vicarl_rbuf_init_def)
  with reader_givesD [OF segment_tail_typed r1 t] show ?thesis by simp
qed



end
