(* ===== verification/Vicarl_Store.thy ===== *)
theory Vicarl_Store
  imports Vicarl_Segment
begin

text \<open>
  \<^verbatim>\<open>src/store/store_common.h\<close>, the dispatch functions at the head of \<^verbatim>\<open>src/store/store_log.c\<close> and
  \<^verbatim>\<open>include/vicarl/store.h\<close>: a store is a table of functions with backend state behind it. The state of a
  running program is a \<^verbatim>\<open>world\<close>, the heap and an environment \<open>'e\<close> in which a backend keeps its state and
  the outside (files, database). The locale \<^verbatim>\<open>segment_store\<close> is the contract the ledger and the
  synchronisation rely on: a store is a growing list of encoded segments.
\<close>

section \<open>Worlds\<close>

record 'e world =
  w_heap :: heap
  w_env :: 'e

text \<open>A heap computation inside a world.\<close>

definition on_heap :: "(heap, 'a) vm \<Rightarrow> ('e world, 'a) vm" where
  "on_heap m w = (case m (w_heap w) of (r, h) \<Rightarrow> (r, w\<lparr>w_heap := h\<rparr>))"

definition upd_heap :: "(heap \<Rightarrow> heap) \<Rightarrow> 'e world \<Rightarrow> 'e world" where
  "upd_heap f w = w\<lparr>w_heap := f (w_heap w)\<rparr>"

text \<open>Memory for the caller: a failing request is reported as OOM.\<close>

definition malloc_or_oom :: "vicarl_allocator \<Rightarrow> nat \<Rightarrow> (heap, addr) vm" where
  "malloc_or_oom A n h = (case vicarl__malloc A n h of (None, h') \<Rightarrow> (Inl err_oom, h') | (Some p, h') \<Rightarrow> (Inr p, h'))"

definition calloc_or_oom :: "vicarl_allocator \<Rightarrow> nat \<Rightarrow> nat \<Rightarrow> (heap, addr) vm" where
  "calloc_or_oom A c n h = (case vicarl__calloc A c n h of (None, h') \<Rightarrow> (Inl err_oom, h') | (Some p, h') \<Rightarrow> (Inr p, h'))"

lemma upd_heap_simps [simp]: "w_heap (upd_heap g w) = g (w_heap w)" "w_env (upd_heap g w) = w_env w"
  by (simp_all add: upd_heap_def)

lemma malloc_or_oom_outcome:
  assumes "alloc_rel A ok rel" "heap_to ok h0 L h"
  shows "outcome (malloc_or_oom A n) (\<lambda>p h'. p \<notin> L \<and> heap_to ok h0 (insert p L) h')
    (\<lambda>e h'. e = err_oom \<and> \<not> rel \<and> heap_to ok h0 L h') h"
  using assms by (cases rule: malloc_stepE [where n = n]) (auto simp: outcome_def malloc_or_oom_def)

lemma calloc_or_oom_outcome:
  assumes "alloc_rel A ok rel" "heap_to ok h0 L h" "c * n < size_mod"
  shows "outcome (calloc_or_oom A c n) (\<lambda>p h'. p \<notin> L \<and> heap_to ok h0 (insert p L) h')
    (\<lambda>e h'. e = err_oom \<and> \<not> rel \<and> heap_to ok h0 L h') h"
  using assms(1,2) by (cases rule: calloc_stepE [where c = c and s = n]) (use assms(3) in \<open>auto simp: outcome_def calloc_or_oom_def\<close>)

lemma outcome_on_heap:
  "outcome m (\<lambda>x h. Q x (w\<lparr>w_heap := h\<rparr>)) (\<lambda>e h. E e (w\<lparr>w_heap := h\<rparr>)) (w_heap w) \<Longrightarrow> outcome (on_heap m) Q E w"
  by (auto simp: outcome_def on_heap_def split: prod.splits sum.splits)

section \<open>The store object\<close>

datatype vicarl_store_kind = VICARL_STORE_NONE | VICARL_STORE_LOG | VICARL_STORE_SQLITE

record vicarl_store_options =
  fsync_on_commit :: u32
  enable_record_index :: u32
  sqlite_wal :: u32
  sqlite_synchronous :: u32

record vicarl_record_filter =
  flt_namespace :: vicarl_slice
  flt_schema :: vicarl_slice
  flt_author :: vicarl_pubkey32
  time_from_ms :: u64
  time_to_ms :: u64
  flt_limit :: u32

text \<open>A callback is the caller's code: it runs on the caller's own state \<open>'u\<close>.\<close>

type_synonym 'u segment_iter_fn = "u64 \<Rightarrow> vicarl_hash32 \<Rightarrow> ('u, unit) vm"
type_synonym 'u record_iter_fn = "vicarl_hash32 \<Rightarrow> u64 \<Rightarrow> u32 \<Rightarrow> ('u, unit) vm"

text \<open>
  The function table. The state of the backend is in the environment of the world; the option fields
  of the store object come as an argument; \<open>bool\<close> arguments tell whether out-pointers are non-NULL.
  Iterating and querying may not end, which is the result \<^const>\<open>None\<close>.
\<close>

record ('e, 'u) store_vtable =
  vt_kind :: vicarl_store_kind
  vt_close :: "('e world \<Rightarrow> 'e world) option"
  vt_append_segment :: "(vicarl_store_options \<Rightarrow> vicarl_slice \<Rightarrow> bool \<Rightarrow> ('e world, u64 \<times> vicarl_hash32) vm) option"
  vt_read_segment :: "(u64 \<Rightarrow> bool \<Rightarrow> ('e world, vicarl_bytes) vm) option"
  vt_tip :: "(bool \<Rightarrow> ('e world, u64 \<times> vicarl_hash32) vm) option"
  vt_iter_segments ::
    "(u64 \<Rightarrow> 'u segment_iter_fn option \<Rightarrow> 'e world \<times> 'u \<Rightarrow> (unit res \<times> 'e world \<times> 'u) option) option"
  vt_get_record :: "(vicarl_hash32 option \<Rightarrow> bool \<Rightarrow> ('e world, vicarl_bytes) vm) option"
  vt_query_records ::
    "(vicarl_record_filter option \<Rightarrow> 'u record_iter_fn option \<Rightarrow> 'e world \<times> 'u \<Rightarrow> (unit res \<times> 'e world \<times> 'u) option) option"

record ('e, 'u) vicarl_store =
  st_ptr :: addr
  st_vt :: "('e, 'u) store_vtable option"
  st_opt :: vicarl_store_options

definition zero_options :: vicarl_store_options where
  "zero_options = \<lparr>fsync_on_commit = 0, enable_record_index = 0, sqlite_wal = 0, sqlite_synchronous = 0\<rparr>"

definition sizeof_store :: nat where
  "sizeof_store = 32"

definition vicarl__store_new ::
  "vicarl_allocator \<Rightarrow> ('e, 'u) store_vtable option \<Rightarrow> vicarl_store_options option \<Rightarrow> heap \<Rightarrow>
     ('e, 'u) vicarl_store option \<times> heap" where
  "vicarl__store_new A vt opt h =
     (case vt of
        None \<Rightarrow> (None, h)
      | Some _ \<Rightarrow>
          (case vicarl__calloc A 1 sizeof_store h of
             (None, h') \<Rightarrow> (None, h')
           | (Some p, h') \<Rightarrow>
               (Some \<lparr>st_ptr = p, st_vt = vt, st_opt = (case opt of None \<Rightarrow> zero_options | Some o' \<Rightarrow> o')\<rparr>, h')))"

section \<open>Dispatch\<close>

definition vicarl_store_kind_of :: "('e, 'u) vicarl_store option \<Rightarrow> vicarl_store_kind" where
  "vicarl_store_kind_of s =
     (case s of
        None \<Rightarrow> VICARL_STORE_NONE
      | Some x \<Rightarrow> (case st_vt x of None \<Rightarrow> VICARL_STORE_NONE | Some vt \<Rightarrow> vt_kind vt))"

definition vicarl_store_close :: "vicarl_allocator \<Rightarrow> ('e, 'u) vicarl_store option \<Rightarrow> 'e world \<Rightarrow> 'e world" where
  "vicarl_store_close A s w =
     (case s of
        None \<Rightarrow> w
      | Some x \<Rightarrow>
          upd_heap (vicarl__free A (Some (st_ptr x)))
            (case st_vt x of
               None \<Rightarrow> w
             | Some vt \<Rightarrow> (case vt_close vt of None \<Rightarrow> w | Some close \<Rightarrow> close w)))"

text \<open>\<^verbatim>\<open>if (!s || !s->vt || !s->vt->f)\<close>: the function, if there is one.\<close>

definition vt_fun :: "(('e, 'u) store_vtable \<Rightarrow> 'f option) \<Rightarrow> ('e, 'u) vicarl_store option \<Rightarrow> 'f option" where
  "vt_fun sel s =
     (case s of None \<Rightarrow> None | Some x \<Rightarrow> (case st_vt x of None \<Rightarrow> None | Some vt \<Rightarrow> sel vt))"

definition vicarl_store_append_segment ::
  "('e, 'u) vicarl_store option \<Rightarrow> vicarl_slice \<Rightarrow> bool \<Rightarrow> ('e world, u64 \<times> vicarl_hash32) vm" where
  "vicarl_store_append_segment s encoded_segment out w =
     (case vt_fun vt_append_segment s of
        None \<Rightarrow> (Inl (badarg ''store_append_segment: invalid store''), w)
      | Some f \<Rightarrow> f (st_opt (the s)) encoded_segment out w)"

definition vicarl_store_read_segment ::
  "('e, 'u) vicarl_store option \<Rightarrow> u64 \<Rightarrow> bool \<Rightarrow> ('e world, vicarl_bytes) vm" where
  "vicarl_store_read_segment s no out w =
     (case vt_fun vt_read_segment s of
        None \<Rightarrow> (Inl (badarg ''store_read_segment: invalid store''), w)
      | Some f \<Rightarrow> f no out w)"

definition vicarl_store_tip :: "('e, 'u) vicarl_store option \<Rightarrow> bool \<Rightarrow> ('e world, u64 \<times> vicarl_hash32) vm" where
  "vicarl_store_tip s out w =
     (case vt_fun vt_tip s of
        None \<Rightarrow> (Inl (badarg ''store_tip: invalid store''), w)
      | Some f \<Rightarrow> f out w)"

definition vicarl_store_iter_segments ::
  "('e, 'u) vicarl_store option \<Rightarrow> u64 \<Rightarrow> 'u segment_iter_fn option \<Rightarrow> 'e world \<times> 'u \<Rightarrow>
     (unit res \<times> 'e world \<times> 'u) option" where
  "vicarl_store_iter_segments s from cb w =
     (case vt_fun vt_iter_segments s of
        None \<Rightarrow> Some (Inl (badarg ''store_iter_segments: invalid store''), w)
      | Some f \<Rightarrow> f from cb w)"

definition vicarl_store_get_record ::
  "('e, 'u) vicarl_store option \<Rightarrow> vicarl_hash32 option \<Rightarrow> bool \<Rightarrow> ('e world, vicarl_bytes) vm" where
  "vicarl_store_get_record s rid out w =
     (case vt_fun vt_get_record s of
        None \<Rightarrow> (Inl (badarg ''store_get_record: invalid store''), w)
      | Some f \<Rightarrow> f rid out w)"

definition vicarl_store_query_records ::
  "('e, 'u) vicarl_store option \<Rightarrow> vicarl_record_filter option \<Rightarrow> 'u record_iter_fn option \<Rightarrow> 'e world \<times> 'u \<Rightarrow>
     (unit res \<times> 'e world \<times> 'u) option" where
  "vicarl_store_query_records s flt cb w =
     (case vt_fun vt_query_records s of
        None \<Rightarrow> Some (Inl (badarg ''store_query_records: invalid store''), w)
      | Some f \<Rightarrow> f flt cb w)"

text \<open>\<^verbatim>\<open>vicarl_store_open_sqlite\<close> of a build without SQLite.\<close>

definition vicarl_store_open_sqlite_stub ::
  "string option \<Rightarrow> vicarl_store_options option \<Rightarrow> bool \<Rightarrow> ('e world, ('e, 'u) vicarl_store) vm" where
  "vicarl_store_open_sqlite_stub db_path opt out =
     failr (fail_with VICARL_ERR_UNSUPPORTED ''SQLite backend not enabled (build with -DVICARL_ENABLE_SQLITE=ON)'')"

section \<open>The contract of a store\<close>

text \<open>
  The hash the next segment must refer to; the segments that continue a chain: they decode, and their
  number and previous hash are those expected.
\<close>

definition tip_hash_of :: "bytes list \<Rightarrow> vicarl_hash32" where
  "tip_hash_of segs = (if segs = [] then zero_hash else sha256 (last segs))"

definition next_segment :: "bytes list \<Rightarrow> bytes \<Rightarrow> bool" where
  "next_segment segs bs \<longleftrightarrow>
     (\<exists>hdr rs hs sig. segment_spec bs = Inr (hdr, rs, hs, sig) \<and> segment_no hdr = of_nat (length segs + 1) \<and>
        prev_segment_hash hdr = tip_hash_of segs)"

text \<open>Sizes the model admits: segments below half an exabyte, fewer than \<open>2 ^ 64 - 1\<close> of them.\<close>

definition seg_limit :: nat where
  "seg_limit = 2 ^ 59"

definition chain_ok :: "bytes list \<Rightarrow> bool" where
  "chain_ok segs \<longleftrightarrow> length segs + 1 < size_mod \<and> (\<forall>bs \<in> set segs. length bs < seg_limit)"

text \<open>A step that keeps the store's invariant and its own blocks; the live blocks are \<open>L\<close> afterwards.\<close>

definition kept :: "(heap \<Rightarrow> bool) \<Rightarrow> ('e world \<Rightarrow> bool) \<Rightarrow> ('e world \<Rightarrow> addr set) \<Rightarrow> ('e world \<Rightarrow> bool) \<Rightarrow>
    'e world \<Rightarrow> addr set \<Rightarrow> 'e world \<Rightarrow> bool" where
  "kept ok Inv own good w L w' \<longleftrightarrow>
     Inv w' \<and> own w' = own w \<and> (good w \<longrightarrow> good w') \<and> heap_to ok (w_heap w) L (w_heap w')"

text \<open>
  The parameters of a store: the condition \<open>ok\<close> on the heap, the store object, its invariant, the blocks it owns, when
  its environment does not fail, the segments it holds, a length above which it cannot be handed a
  segment, and which segments it has room for after those it holds.
\<close>

locale segment_store =
  fixes ok :: "heap \<Rightarrow> bool"
    and s :: "('e, 'u) vicarl_store option"
    and Inv :: "'e world \<Rightarrow> bool"
    and own :: "'e world \<Rightarrow> addr set"
    and good :: "'e world \<Rightarrow> bool"
    and chain :: "'e world \<Rightarrow> bytes list"
    and lim :: nat
    and fits :: "bytes list \<Rightarrow> bytes \<Rightarrow> bool"
  assumes lim_le: "lim \<le> seg_limit"
    and inv_ok: "Inv w \<Longrightarrow> ok (w_heap w) \<and> own w \<subseteq> hp_live (w_heap w) \<and> chain_ok (chain w)"
    and heap_change: "Inv w \<Longrightarrow> ok h \<Longrightarrow> own w \<subseteq> hp_live h \<Longrightarrow>
      Inv (w\<lparr>w_heap := h\<rparr>) \<and> own (w\<lparr>w_heap := h\<rparr>) = own w \<and> good (w\<lparr>w_heap := h\<rparr>) = good w \<and>
      chain (w\<lparr>w_heap := h\<rparr>) = chain w"
    and tip_law: "Inv w \<Longrightarrow> vicarl_store_tip s True w =
      (if chain w = [] then (Inl (VErr VICARL_ERR_NOT_FOUND None), w)
       else (Inr (of_nat (length (chain w)), sha256 (last (chain w))), w))"
    and read_law: "Inv w \<Longrightarrow> 0 < no \<Longrightarrow> no \<le> length (chain w) \<Longrightarrow>
      outcome (vicarl_store_read_segment s (of_nat no) True)
        (\<lambda>b w'. holds_bytes b (chain w ! (no - 1)) \<and> own_bytes b \<inter> hp_live (w_heap w) = {} \<and>
           chain w' = chain w \<and> kept ok Inv own good w (hp_live (w_heap w) \<union> own_bytes b) w')
        (\<lambda>e w'. \<not> good w \<and> status_of (Inl e :: unit res) \<notin> {None, Some VICARL_ERR_NOT_FOUND} \<and> chain w' = chain w \<and>
           kept ok Inv own good w (hp_live (w_heap w)) w') w"
    and append_law: "Inv w \<Longrightarrow> slice_wf enc \<Longrightarrow> sl_len enc < lim \<Longrightarrow> length (chain w) + 2 < size_mod \<Longrightarrow>
      outcome (vicarl_store_append_segment s enc True)
        (\<lambda>r w'. r = (of_nat (length (chain w) + 1), sha256 (slice_bytes enc)) \<and>
           chain w' = chain w @ [slice_bytes enc] \<and> kept ok Inv own good w (hp_live (w_heap w)) w')
        (\<lambda>e w'. \<not> (good w \<and> fits (chain w) (slice_bytes enc) \<and> next_segment (chain w) (slice_bytes enc)) \<and> chain w' = chain w \<and>
           kept ok Inv own good w (hp_live (w_heap w)) w') w"
begin

lemma kept_refl: "Inv w \<Longrightarrow> kept ok Inv own good w (hp_live (w_heap w)) w"
  using inv_ok by (simp add: kept_def heap_to_refl)

lemma kept_trans: "kept ok Inv own good w L w' \<Longrightarrow> kept ok Inv own good w' L' w'' \<Longrightarrow> kept ok Inv own good w L' w''"
  by (auto simp: kept_def heap_to_def)

lemma kept_inv: "kept ok Inv own good w L w' \<Longrightarrow> Inv w'"
  by (simp add: kept_def)

lemma kept_live: "kept ok Inv own good w L w' \<Longrightarrow> hp_live (w_heap w') = L"
  by (simp add: kept_def heap_to_def)

text \<open>A change of the heap alone that spares the store's blocks.\<close>

lemma kept_heap:
  assumes "kept ok Inv own good w L w'" "heap_to ok (w_heap w') L' h" "own w \<subseteq> L'"
  shows "kept ok Inv own good w L' (w'\<lparr>w_heap := h\<rparr>) \<and> chain (w'\<lparr>w_heap := h\<rparr>) = chain w'"
proof -
  have "Inv (w'\<lparr>w_heap := h\<rparr>) \<and> own (w'\<lparr>w_heap := h\<rparr>) = own w' \<and> good (w'\<lparr>w_heap := h\<rparr>) = good w' \<and>
      chain (w'\<lparr>w_heap := h\<rparr>) = chain w'"
    using assms by (intro heap_change) (auto simp: kept_def heap_to_def)
  with assms show ?thesis by (auto simp: kept_def heap_to_def)
qed

lemma kept_upd_heap:
  assumes "kept ok Inv own good w L w'" "heap_to ok (w_heap w') L' (f (w_heap w'))" "own w \<subseteq> L'"
  shows "kept ok Inv own good w L' (upd_heap f w') \<and> chain (upd_heap f w') = chain w'"
  using kept_heap [OF assms] by (simp add: upd_heap_def)

text \<open>A heap computation between two store operations.\<close>

lemma outcome_heap_step:
  assumes k: "kept ok Inv own good w L w'"
    and m: "outcome m (\<lambda>x h. Q x h \<and> heap_to ok (w_heap w') (L1 x) h) (\<lambda>e h. E e h \<and> heap_to ok (w_heap w') (L2 e) h) (w_heap w')"
    and L: "\<And>x. own w \<subseteq> L1 x" "\<And>e. own w \<subseteq> L2 e"
  shows "outcome (on_heap m)
    (\<lambda>x v. Q x (w_heap v) \<and> kept ok Inv own good w (L1 x) v \<and> chain v = chain w')
    (\<lambda>e v. E e (w_heap v) \<and> kept ok Inv own good w (L2 e) v \<and> chain v = chain w') w'"
  by (rule outcome_on_heap, rule outcome_mono [OF m]) (use kept_heap [OF k] L in auto)

lemma kept_free:
  assumes A: "alloc_rel A ok rel" and k: "kept ok Inv own good w (L \<union> set_option q) w'" and q: "set_option q \<inter> L = {}" "own w \<subseteq> L"
  shows "kept ok Inv own good w L (upd_heap (vicarl__free A q) w') \<and> chain (upd_heap (vicarl__free A q) w') = chain w'"
proof (rule kept_upd_heap [OF k])
  have "heap_to ok (w_heap w') (L \<union> set_option q) (w_heap w')" using k by (simp add: kept_def heap_to_def)
  then show "heap_to ok (w_heap w') L (vicarl__free A q (w_heap w'))" using free_step_option [OF A _ q(1)] by blast
qed (rule q)

end

end
