(* ===== verification/Vicarl_Wire.thy ===== *)
theory Vicarl_Wire
  imports Vicarl_Record
begin

text \<open>
  \<^verbatim>\<open>src/p2p/wire.c\<close>: the frames the peers exchange, \<^verbatim>\<open>VCP1\<close>, type, flags, payload length, payload.
  A message, in C a type tag and a union, is a datatype with one constructor per message type;
  \<^verbatim>\<open>MSG_OTHER\<close> stands for a tag outside the enumeration.
\<close>

section \<open>Messages\<close>

record vicarl_p2p_hello =
  proto_major :: u16
  proto_minor :: u16
  node_id :: vicarl_pubkey32

record vicarl_p2p_tip =
  tip_no :: u64
  tip_hash :: vicarl_hash32

record vicarl_p2p_get_segments =
  from_no :: u64
  max_count :: u64

record vicarl_p2p_segment =
  msg_segment_no :: u64
  msg_segment_hash :: vicarl_hash32
  segment_bytes :: vicarl_slice

record vicarl_p2p_error =
  err_code :: u64
  message_utf8 :: vicarl_slice

datatype vicarl_p2p_msg =
    MSG_HELLO vicarl_p2p_hello
  | MSG_TIP vicarl_p2p_tip
  | MSG_GET_SEGMENTS vicarl_p2p_get_segments
  | MSG_SEGMENT vicarl_p2p_segment
  | MSG_ERROR vicarl_p2p_error
  | MSG_OTHER int

text \<open>The enumeration \<^verbatim>\<open>vicarl_p2p_msg_type\<close>.\<close>

fun msg_type :: "vicarl_p2p_msg \<Rightarrow> int" where
  "msg_type (MSG_HELLO _) = 1"
| "msg_type (MSG_TIP _) = 2"
| "msg_type (MSG_GET_SEGMENTS _) = 3"
| "msg_type (MSG_SEGMENT _) = 4"
| "msg_type (MSG_ERROR _) = 5"
| "msg_type (MSG_OTHER t) = t"

definition VICARL_P2P_MAGIC :: bytes where
  "VICARL_P2P_MAGIC = [0x56, 0x43, 0x50, 0x31]"

section \<open>Encoding\<close>

definition frame_head_write :: "vicarl_allocator \<Rightarrow> vicarl_p2p_msg \<Rightarrow> unit writer" where
  "frame_head_write A m =
     bindr (put_magic A VICARL_P2P_MAGIC) (\<lambda>_.
     bindr (vicarl_wbuf_put_u8 A (of_int (msg_type m))) (\<lambda>_.
     vicarl_wbuf_put_u8 A 0))"

text \<open>The \<^verbatim>\<open>switch\<close> that writes the payload; \<^const>\<open>None\<close> is its default.\<close>

fun payload_write :: "vicarl_allocator \<Rightarrow> vicarl_p2p_msg \<Rightarrow> unit writer option" where
  "payload_write A (MSG_HELLO m) = Some
     (bindr (vicarl_wbuf_put_u16le A (proto_major m)) (\<lambda>_.
      bindr (vicarl_wbuf_put_u16le A (proto_minor m)) (\<lambda>_.
      vicarl_wbuf_put_bytes A (slice_of (node_id m)))))"
| "payload_write A (MSG_TIP m) = Some
     (bindr (vicarl_wbuf_put_varu64 A (tip_no m)) (\<lambda>_.
      vicarl_wbuf_put_bytes A (slice_of (tip_hash m))))"
| "payload_write A (MSG_GET_SEGMENTS m) = Some
     (bindr (vicarl_wbuf_put_varu64 A (from_no m)) (\<lambda>_.
      vicarl_wbuf_put_varu64 A (max_count m)))"
| "payload_write A (MSG_SEGMENT m) = Some
     (bindr (vicarl_wbuf_put_varu64 A (msg_segment_no m)) (\<lambda>_.
      bindr (vicarl_wbuf_put_bytes A (slice_of (msg_segment_hash m))) (\<lambda>_.
      vicarl_wbuf_put_ldbytes A (segment_bytes m))))"
| "payload_write A (MSG_ERROR m) = Some
     (bindr (vicarl_wbuf_put_varu64 A (err_code m)) (\<lambda>_.
      vicarl_wbuf_put_ldbytes A (message_utf8 m)))"
| "payload_write A (MSG_OTHER _) = None"

definition vicarl_p2p_wire_encode ::
  "vicarl_allocator \<Rightarrow> vicarl_p2p_msg option \<Rightarrow> bool \<Rightarrow> (heap, vicarl_bytes) vm" where
  "vicarl_p2p_wire_encode A msg out h =
     (if \<not> out then (Inl (badarg ''p2p_wire_encode: out_frame is NULL''), h)
      else case msg of
        None \<Rightarrow> (Inl (badarg ''p2p_wire_encode: msg is NULL''), h)
      | Some m \<Rightarrow>
          (case frame_head_write A m (vicarl_wbuf_init, h) of
             (Inl e, s) \<Rightarrow> (Inl e, snd (vicarl_wbuf_dispose A s))
           | (Inr _, (w, h1)) \<Rightarrow>
               (case payload_write A m of
                  None \<Rightarrow>
                    (Inl (badarg ''p2p_wire_encode: unknown message type''),
                     snd (vicarl_wbuf_dispose A (w, snd (vicarl_wbuf_dispose A (vicarl_wbuf_init, h1)))))
                | Some pw \<Rightarrow>
                    (case pw (vicarl_wbuf_init, h1) of
                       (Inl e, s) \<Rightarrow>
                         (Inl e, snd (vicarl_wbuf_dispose A (w, snd (vicarl_wbuf_dispose A s))))
                     | (Inr _, (p, h2)) \<Rightarrow>
                         (case vicarl_wbuf_detach p of
                            (payload, p') \<Rightarrow>
                              (case vicarl_wbuf_put_varu64 A (of_nat (by_len payload))
                                      (w, snd (vicarl_wbuf_dispose A (p', h2))) of
                                 (Inl e, (w', h3)) \<Rightarrow>
                                   (Inl e, snd (vicarl_wbuf_dispose A (w', vicarl_free A (by_ptr payload) h3)))
                               | (Inr _, s) \<Rightarrow>
                                   (case vicarl_wbuf_put_bytes A (bytes_slice payload) s of
                                      (res, (w', h3)) \<Rightarrow>
                                        let h4 = vicarl_free A (by_ptr payload) h3 in
                                        (case res of
                                           Inl e \<Rightarrow> (Inl e, snd (vicarl_wbuf_dispose A (w', h4)))
                                         | Inr _ \<Rightarrow>
                                             (case vicarl_wbuf_detach w' of
                                                (frame, w'') \<Rightarrow>
                                                  (Inr frame, snd (vicarl_wbuf_dispose A (w'', h4))))))))))))"

section \<open>Decoding\<close>

text \<open>\<^verbatim>\<open>vicarl_rbuf_init(&r, s.ptr, s.len)\<close>.\<close>

definition rbuf_of_slice :: "vicarl_slice \<Rightarrow> vicarl_rbuf" where
  "rbuf_of_slice s = vicarl_rbuf_init (slice_bytes s) (sl_len s)"

definition fits_frame :: "u64 \<Rightarrow> unit reader" where
  "fits_frame n r =
     (if unat n > vicarl_rbuf_remaining r
      then (Inl (badfmt ''p2p_wire_decode: payload_len exceeds frame''), r) else (Inr (), r))"

definition frame_parse :: "(u8 \<times> vicarl_slice) reader" where
  "frame_parse =
     bindr (rethrow (replace_err (badfmt ''p2p_wire_decode: truncated magic'')) get_magic) (\<lambda>magic.
     bindr (guardr (magic = VICARL_P2P_MAGIC) (badfmt ''p2p_wire_decode: bad magic'')) (\<lambda>_.
     bindr (rethrow (replace_err (badfmt ''p2p_wire_decode: missing type'')) vicarl_rbuf_get_u8) (\<lambda>type.
     bindr (rethrow (replace_err (badfmt ''p2p_wire_decode: missing flags'')) vicarl_rbuf_get_u8) (\<lambda>flags.
     bindr vicarl_rbuf_get_varu64 (\<lambda>payload_len.
     bindr (fits_frame payload_len) (\<lambda>_.
     bindr (vicarl_rbuf_get_bytes (unat payload_len)) (\<lambda>payload.
     bindr (no_trailing ''p2p_wire_decode: trailing bytes'') (\<lambda>_.
     retr (type, payload)))))))))"

definition payload_fields :: "u8 \<Rightarrow> vicarl_p2p_msg reader" where
  "payload_fields type =
     (if type = 1 then
        bindr vicarl_rbuf_get_u16le (\<lambda>maj.
        bindr vicarl_rbuf_get_u16le (\<lambda>min.
        bindr (rethrow (replace_err (badfmt ''p2p_wire_decode: hello node_id missing'')) (vicarl_rbuf_get_bytes 32)) (\<lambda>nid.
        retr (MSG_HELLO \<lparr>proto_major = maj, proto_minor = min, node_id = slice_bytes nid\<rparr>))))
      else if type = 2 then
        bindr vicarl_rbuf_get_varu64 (\<lambda>no.
        bindr (rethrow (replace_err (badfmt ''p2p_wire_decode: tip hash missing'')) (vicarl_rbuf_get_bytes 32)) (\<lambda>hb.
        retr (MSG_TIP \<lparr>tip_no = no, tip_hash = slice_bytes hb\<rparr>)))
      else if type = 3 then
        bindr vicarl_rbuf_get_varu64 (\<lambda>from.
        bindr vicarl_rbuf_get_varu64 (\<lambda>cnt.
        retr (MSG_GET_SEGMENTS \<lparr>from_no = from, max_count = cnt\<rparr>)))
      else if type = 4 then
        bindr vicarl_rbuf_get_varu64 (\<lambda>seg_no.
        bindr (rethrow (replace_err (badfmt ''p2p_wire_decode: segment hash missing'')) (vicarl_rbuf_get_bytes 32)) (\<lambda>hb.
        bindr vicarl_rbuf_get_ldbytes (\<lambda>seg_bytes.
        retr (MSG_SEGMENT \<lparr>msg_segment_no = seg_no, msg_segment_hash = slice_bytes hb, segment_bytes = seg_bytes\<rparr>))))
      else if type = 5 then
        bindr vicarl_rbuf_get_varu64 (\<lambda>code.
        bindr vicarl_rbuf_get_ldbytes (\<lambda>msg.
        retr (MSG_ERROR \<lparr>err_code = code, message_utf8 = msg\<rparr>)))
      else failr (badfmt ''p2p_wire_decode: unknown message type''))"

definition payload_parse :: "u8 \<Rightarrow> vicarl_p2p_msg reader" where
  "payload_parse type =
     bindr (payload_fields type) (\<lambda>m.
     bindr (no_trailing ''p2p_wire_decode: trailing payload bytes'') (\<lambda>_. retr m))"

definition vicarl_p2p_wire_decode :: "vicarl_slice \<Rightarrow> bool \<Rightarrow> vicarl_p2p_msg res" where
  "vicarl_p2p_wire_decode frame out =
     (if \<not> out then Inl (badarg ''p2p_wire_decode: out_msg is NULL'')
      else if sl_len frame < 6 \<or> sl_ptr frame = None then Inl (badfmt ''p2p_wire_decode: frame too short'')
      else
        (case frame_parse (rbuf_of_slice frame) of
           (Inl e, _) \<Rightarrow> Inl e
         | (Inr (type, payload), _) \<Rightarrow> fst (payload_parse type (rbuf_of_slice payload))))"

section \<open>The wire format\<close>

fun payload_wire :: "vicarl_p2p_msg \<Rightarrow> bytes" where
  "payload_wire (MSG_HELLO m) =
     [ucast (proto_major m AND 0xff), ucast (drop_bit 8 (proto_major m) AND 0xff)] @
     [ucast (proto_minor m AND 0xff), ucast (drop_bit 8 (proto_minor m) AND 0xff)] @ node_id m"
| "payload_wire (MSG_TIP m) = leb128 (unat (tip_no m)) @ tip_hash m"
| "payload_wire (MSG_GET_SEGMENTS m) = leb128 (unat (from_no m)) @ leb128 (unat (max_count m))"
| "payload_wire (MSG_SEGMENT m) =
     leb128 (unat (msg_segment_no m)) @ msg_segment_hash m @ ldbytes (slice_bytes (segment_bytes m))"
| "payload_wire (MSG_ERROR m) = leb128 (unat (err_code m)) @ ldbytes (slice_bytes (message_utf8 m))"
| "payload_wire (MSG_OTHER _) = []"

definition frame_wire :: "vicarl_p2p_msg \<Rightarrow> bytes" where
  "frame_wire m =
     VICARL_P2P_MAGIC @ [of_int (msg_type m)] @ [0] @ leb128 (length (payload_wire m)) @ payload_wire m"

text \<open>Messages of the enumeration whose slices are readable and whose hashes have 32 bytes.\<close>

fun msg_wf :: "vicarl_p2p_msg \<Rightarrow> bool" where
  "msg_wf (MSG_HELLO m) \<longleftrightarrow> length (node_id m) = 32"
| "msg_wf (MSG_TIP m) \<longleftrightarrow> length (tip_hash m) = 32"
| "msg_wf (MSG_GET_SEGMENTS m) \<longleftrightarrow> True"
| "msg_wf (MSG_SEGMENT m) \<longleftrightarrow> length (msg_segment_hash m) = 32 \<and> slice_wf (segment_bytes m)"
| "msg_wf (MSG_ERROR m) \<longleftrightarrow> slice_wf (message_utf8 m)"
| "msg_wf (MSG_OTHER t) \<longleftrightarrow> False"

text \<open>The same message up to where the bytes of its slices lie.\<close>

fun same_msg :: "vicarl_p2p_msg \<Rightarrow> vicarl_p2p_msg \<Rightarrow> bool" where
  "same_msg (MSG_SEGMENT a) (MSG_SEGMENT b) \<longleftrightarrow>
     msg_segment_no a = msg_segment_no b \<and> msg_segment_hash a = msg_segment_hash b \<and>
     slice_bytes (segment_bytes a) = slice_bytes (segment_bytes b)"
| "same_msg (MSG_ERROR a) (MSG_ERROR b) \<longleftrightarrow>
     err_code a = err_code b \<and> slice_bytes (message_utf8 a) = slice_bytes (message_utf8 b)"
| "same_msg a b \<longleftrightarrow> a = b"

lemma appends_frame_head:
  "alloc_rel A ok rel \<Longrightarrow> appends ok rel (frame_head_write A m) (VICARL_P2P_MAGIC @ [of_int (msg_type m)] @ [0])"
  unfolding frame_head_write_def
  by (intro appends_bindr appends_intros) (auto simp: VICARL_P2P_MAGIC_def intro: appends_put_u8)

lemma appends_payload:
  assumes A: "alloc_rel A ok rel" and "msg_wf m"
  shows "\<exists>pw. payload_write A m = Some pw \<and> appends ok rel pw (payload_wire m)"
  using assms(2)
proof (cases m)
  case (MSG_HELLO x)
  with assms show ?thesis
    by (auto intro!: appends_bindr appends_put_raw appends_put_u16le simp: size_mod_def simp del: append.simps)
next
  case (MSG_TIP x)
  with assms show ?thesis by (auto intro!: appends_bindr appends_put_raw appends_put_varu64 simp: size_mod_def)
next
  case (MSG_GET_SEGMENTS x)
  with assms show ?thesis by (auto intro!: appends_bindr appends_put_varu64)
next
  case (MSG_SEGMENT x)
  with assms show ?thesis
    by (auto intro!: appends_bindr appends_put_raw appends_put_varu64 appends_put_ldbytes simp: size_mod_def)
next
  case (MSG_ERROR x)
  with assms show ?thesis by (auto intro!: appends_bindr appends_put_varu64 appends_put_ldbytes)
qed simp

lemma payload_wire_nonempty: "msg_wf m \<Longrightarrow> payload_wire m \<noteq> []"
  using leb128_length_pos by (cases m) (auto simp: ldbytes_def)

text \<open>A second buffer lives while the first one waits; releasing it leaves the first one alone.\<close>

lemma wbuf_inv_second:
  "wbuf_inv ok L b (w, h1) \<Longrightarrow> wbuf_inv ok (hp_live h1) b (p, h2) \<Longrightarrow>
     wbuf_inv ok (L \<union> set_option (wb_ptr p)) b (w, h2)"
  by (auto simp: wbuf_inv_def)

lemma wbuf_inv_free_other:
  "alloc_rel A ok rel \<Longrightarrow> wbuf_inv ok (L \<union> set_option q) b (w, h) \<Longrightarrow> set_option q \<inter> L = {} \<Longrightarrow>
     wbuf_inv ok L b (w, vicarl__free A q h)"
  using free_step_insert [of A ok rel h _ "L \<union> set_option (wb_ptr w)" h]
  by (cases q) (auto simp: wbuf_inv_def heap_to_def)

lemma frame_tail_outcome:
  assumes A: "alloc_rel A ok rel" and wf: "msg_wf m" and len: "length (frame_wire m) + 10 < size_mod"
    and w: "wbuf_inv ok L b (w, h1)" "wb_data w = VICARL_P2P_MAGIC @ [of_int (msg_type m)] @ [0]"
    and p: "wbuf_inv ok (hp_live h1) b (p, h2)" "wb_data p = payload_wire m"
    and run: "bindr (vicarl_wbuf_put_varu64 A (of_nat (wb_len p)))
      (\<lambda>_. vicarl_wbuf_put_bytes A (bytes_slice \<lparr>by_ptr = wb_ptr p, by_data = payload_wire m, by_len = wb_len p\<rparr>)) (w, h2) = (r, (w3, h3))"
  shows "wbuf_inv ok L b (w3, vicarl__free A (wb_ptr p) h3)"
    and "case r of Inl e \<Rightarrow> e = err_oom \<and> \<not> (rel \<and> length (frame_wire m) + 10 \<le> 2 ^ 63) | Inr _ \<Rightarrow> wb_data w3 = frame_wire m"
proof -
  let ?p = "payload_wire m" and ?pay = "\<lparr>by_ptr = wb_ptr p, by_data = payload_wire m, by_len = wb_len p\<rparr>"
  have pl: "length ?p < size_mod" using len by (auto simp: frame_wire_def)
  have pay: "holds_bytes ?pay ?p" "wb_len p = length ?p"
    using p payload_wire_nonempty [OF wf] by (auto simp: holds_bytes_def wbuf_inv_def wbuf_wf_def)
  have "appends ok rel (vicarl_wbuf_put_varu64 A (of_nat (wb_len p))) (leb128 (length ?p))"
    using appends_put_varu64 [OF A, of "of_nat (wb_len p)"] pay(2) pl by (simp add: unat_of_nat_u64)
  moreover have "appends ok rel (vicarl_wbuf_put_bytes A (bytes_slice ?pay)) ?p"
    using bytes_slice_of [OF pay(1)] appends_put_raw [OF A pl] by simp
  ultimately have tl: "appends ok rel (bindr (vicarl_wbuf_put_varu64 A (of_nat (wb_len p))) (\<lambda>_. vicarl_wbuf_put_bytes A (bytes_slice ?pay)))
      (leb128 (length ?p) @ ?p)" by (rule appends_bindr)
  have frame: "wb_data w @ leb128 (length ?p) @ ?p = frame_wire m" using w(2) by (simp add: frame_wire_def)
  then have flen: "length (wb_data w) + length (leb128 (length ?p) @ ?p) = length (frame_wire m)" by (metis length_append)
  note o3 = appendsD [OF tl wbuf_inv_second [OF w(1) p(1)], unfolded fst_conv flen frame outcome_def run prod.case, OF len]
  then have "wbuf_inv ok (L \<union> set_option (wb_ptr p)) b (w3, h3)" by (cases r) auto
  moreover have "set_option (wb_ptr p) \<inter> L = {}" using p(1) w(1) by (auto simp: wbuf_inv_def)
  ultimately show "wbuf_inv ok L b (w3, vicarl__free A (wb_ptr p) h3)" by (rule wbuf_inv_free_other [OF A])
  from o3 show "case r of Inl e \<Rightarrow> e = err_oom \<and> \<not> (rel \<and> length (frame_wire m) + 10 \<le> 2 ^ 63) | Inr _ \<Rightarrow> wb_data w3 = frame_wire m"
    by (cases r) auto
qed

lemma wire_encode_outcome:
  assumes A: "alloc_rel A ok rel" and h: "ok h" and wf: "msg_wf m" and len: "length (frame_wire m) + 10 < size_mod"
  shows "outcome (vicarl_p2p_wire_encode A (Some m) True)
    (\<lambda>b h'. holds_bytes b (frame_wire m) \<and> own_bytes b \<inter> hp_live h = {} \<and> heap_to ok h (hp_live h \<union> own_bytes b) h')
    (\<lambda>e h'. e = err_oom \<and> \<not> (rel \<and> length (frame_wire m) + 10 \<le> 2 ^ 63) \<and> heap_to ok h (hp_live h) h') h"
proof -
  let ?L = "hp_live h" and ?b = "hp_bad h" and ?fits = "rel \<and> length (frame_wire m) + 10 \<le> 2 ^ 63"
  obtain pw where pw: "payload_write A m = Some pw" "appends ok rel pw (payload_wire m)" using appends_payload [OF A wf] by blast
  have lens: "length (payload_wire m) + 10 < size_mod" "length (payload_wire m) \<le> length (frame_wire m)" "6 \<le> length (frame_wire m)" "frame_wire m \<noteq> []"
    using len by (auto simp: frame_wire_def VICARL_P2P_MAGIC_def)
  note run = vicarl_p2p_wire_encode_def
  note o1 = appendsD [OF appends_frame_head [OF A, of m] wbuf_inv_init [of ok, OF h]]
  obtain r1 w h1 where s1: "frame_head_write A m (vicarl_wbuf_init, h) = (r1, (w, h1))" by (metis prod.exhaust)
  show ?thesis
  proof (cases r1)
    case (Inl e)
    with s1 o1 lens len have "wbuf_inv ok ?L ?b (w, h1)" "e = err_oom" "\<not> ?fits"
      by (auto simp: outcome_def vicarl_wbuf_init_def VICARL_P2P_MAGIC_def size_mod_def)
    with Inl s1 wbuf_dispose_heap [OF A] show ?thesis by (simp add: outcome_def run)
  next
    case r1: (Inr u1)
    from r1 s1 o1 lens have w: "wbuf_inv ok ?L ?b (w, h1)" "wb_data w = VICARL_P2P_MAGIC @ [of_int (msg_type m)] @ [0]"
      by (auto simp: outcome_def vicarl_wbuf_init_def VICARL_P2P_MAGIC_def size_mod_def)
    then have h1: "ok h1" "hp_bad h1 = ?b" by (auto simp: wbuf_inv_def)
    note o2 = appendsD [OF pw(2) wbuf_inv_init [of ok, OF h1(1)]]
    obtain r2 p h2 where s2: "pw (vicarl_wbuf_init, h1) = (r2, (p, h2))" by (metis prod.exhaust)
    show ?thesis
    proof (cases r2)
      case (Inl e)
      with s2 o2 lens have i2: "wbuf_inv ok (hp_live h1) (hp_bad h1) (p, h2)" "e = err_oom" "\<not> ?fits"
        by (auto simp: outcome_def vicarl_wbuf_init_def)
      have "heap_to ok h1 (hp_live h1) (snd (vicarl_wbuf_dispose A (p, h2)))" by (rule wbuf_dispose_heap [OF A i2(1)])
      then have "wbuf_inv ok ?L ?b (w, snd (vicarl_wbuf_dispose A (p, h2)))" using w(1) by (auto simp: wbuf_inv_def heap_to_def)
      from wbuf_dispose_heap [OF A this] Inl i2 s1 r1 pw(1) s2 show ?thesis by (simp add: outcome_def run)
    next
      case r2: (Inr u2)
      from r2 s2 o2 lens have p: "wbuf_inv ok (hp_live h1) ?b (p, h2)" "wb_data p = payload_wire m"
        by (auto simp: outcome_def vicarl_wbuf_init_def h1)
      obtain r3 w3 h3 where s3: "bindr (vicarl_wbuf_put_varu64 A (of_nat (wb_len p)))
          (\<lambda>_. vicarl_wbuf_put_bytes A (bytes_slice \<lparr>by_ptr = wb_ptr p, by_data = payload_wire m, by_len = wb_len p\<rparr>)) (w, h2) = (r3, (w3, h3))"
        by (metis prod.exhaust)
      have "vicarl_p2p_wire_encode A (Some m) True h =
          (case r3 of Inl e \<Rightarrow> (Inl e, snd (vicarl_wbuf_dispose A (w3, vicarl__free A (wb_ptr p) h3)))
           | Inr _ \<Rightarrow> (Inr \<lparr>by_ptr = wb_ptr w3, by_data = wb_data w3, by_len = wb_len w3\<rparr>, vicarl__free A (wb_ptr p) h3))"
        using s1 r1 pw(1) s2 r2 s3 p(2)
        by (auto simp: run vicarl_wbuf_detach_def vicarl_wbuf_dispose_def vicarl_wbuf_init_def bindr_def Let_def split: prod.splits sum.splits)
      with frame_tail_outcome [OF A wf len w p s3] wbuf_dispose_heap [OF A] lens(4) show ?thesis
        by (cases r3) (auto simp: outcome_def holds_bytes_def own_bytes_def wbuf_inv_def wbuf_wf_def heap_to_def)
    qed
  qed
qed

section \<open>Decoding\<close>

lemma rbuf_of_slice_wf: "length (slice_bytes s) = sl_len s \<Longrightarrow> rbuf_wf (rbuf_of_slice s)"
  using rbuf_wf_init [of "slice_bytes s"] by (simp add: rbuf_of_slice_def)

lemma reader_safe_fits_frame [reader_safe_intros]: "reader_safe (fits_frame n)"
  by (auto simp: reader_safe_def outcome_def fits_frame_def badfmt_def fail_with_def intro: exI [of _ 0])

lemma reader_safe_frame_parse: "reader_safe frame_parse"
  unfolding frame_parse_def by (intro reader_safe_intros)

lemma reader_safe_payload_parse: "reader_safe (payload_parse type)"
  unfolding payload_parse_def payload_fields_def by (auto intro!: reader_safe_intros)

lemma frame_parse_gives: "reader_gives frame_parse (\<lambda>x. slice_wf (snd x))"
  unfolding frame_parse_def
  by (intro reader_gives_skip [of "rethrow _ _"] reader_gives_skip [of "guardr _ _"]
      reader_gives_skip [of vicarl_rbuf_get_varu64] reader_gives_skip [of "fits_frame _"]
      reader_gives_bindr [OF _ reader_gives_get_bytes] reader_gives_skip [of "no_trailing _"]
      reader_gives_retr reader_safe_intros) simp

lemma payload_parse_gives: "reader_gives (payload_parse type) msg_wf"
  unfolding payload_parse_def
proof (rule reader_gives_bindr)
  show "reader_gives (payload_fields type) msg_wf"
    unfolding payload_fields_def
    by (auto intro!: reader_gives_failr reader_gives_retr
        reader_gives_bindr [OF _ reader_gives_rethrow [OF reader_gives_get_bytes]]
        reader_gives_bindr [OF _ reader_gives_get_ldbytes] reader_gives_skip [of vicarl_rbuf_get_varu64]
        reader_gives_skip [of vicarl_rbuf_get_u16le] reader_safe_intros)
  show "reader_safe (payload_fields type)"
    unfolding payload_fields_def by (auto intro!: reader_safe_intros)
qed (intro reader_gives_skip reader_gives_retr reader_safe_intros)

lemma wire_decode_outcome:
  assumes "slice_wf frame"
  shows "case vicarl_p2p_wire_decode frame True of
    Inl e \<Rightarrow> \<exists>msg. e = VErr VICARL_ERR_FORMAT (Some msg) | Inr m \<Rightarrow> msg_wf m"
proof (cases "sl_len frame < 6 \<or> sl_ptr frame = None")
  case True
  then show ?thesis by (auto simp: vicarl_p2p_wire_decode_def badfmt_def fail_with_def)
next
  case False
  then obtain mem where big: "\<not> sl_len frame < 6" "sl_ptr frame = Some mem" by auto
  let ?r = "rbuf_of_slice frame"
  have data: "length (rb_data (rbuf_of_slice s)) < size_mod" "rbuf_wf (rbuf_of_slice s)" if "slice_wf s" for s
    using that by (simp_all add: slice_wf_length rbuf_of_slice_wf) (simp add: rbuf_of_slice_def vicarl_rbuf_init_def slice_wf_length slice_wf_def)
  obtain out r1 where f: "frame_parse ?r = (out, r1)" by (metis prod.exhaust)
  show ?thesis
  proof (cases out)
    case (Inl e)
    with big f reader_safeD_Inl [OF reader_safe_frame_parse data(2) [OF assms]] show ?thesis
      by (auto simp: vicarl_p2p_wire_decode_def)
  next
    case (Inr x)
    obtain type payload where x: "x = (type, payload)" by (cases x)
    have wf: "slice_wf payload"
      using reader_givesD [OF frame_parse_gives data(2,1) [OF assms]] f Inr x by fastforce
    obtain out2 r2 where p: "payload_parse type (rbuf_of_slice payload) = (out2, r2)" by (metis prod.exhaust)
    have "vicarl_p2p_wire_decode frame True = out2"
      using big f Inr x p by (simp add: vicarl_p2p_wire_decode_def)
    with p data [OF wf] reader_safeD_Inl [OF reader_safe_payload_parse] reader_givesD [OF payload_parse_gives]
    show ?thesis by (cases out2) auto
  qed
qed

section \<open>Round trip\<close>

lemma reads_payload_fields:
  assumes "msg_wf m"
  shows "reads (payload_fields (of_int (msg_type m))) (payload_wire m) (same_msg m)"
  using assms
proof (cases m)
  case (MSG_HELLO x)
  have "reads (payload_fields 1)
    ([ucast (proto_major x AND 0xff), ucast (drop_bit 8 (proto_major x) AND 0xff)] @
     [ucast (proto_minor x AND 0xff), ucast (drop_bit 8 (proto_minor x) AND 0xff)] @ node_id x @ [])
    (same_msg m)"
    unfolding payload_fields_def if_P [OF refl]
    using assms MSG_HELLO
    by (intro reads_bindr [OF reads_get_u16le] reads_bindr [OF reads_rethrow [OF reads_get_bytes]] reads_retr) auto
  with MSG_HELLO show ?thesis by simp
next
  case (MSG_TIP x)
  have "reads (payload_fields 2) (leb128 (unat (tip_no x)) @ tip_hash x @ []) (same_msg m)"
    using assms MSG_TIP
    by (simp add: payload_fields_def del: append_Nil2)
       (intro reads_bindr [OF reads_get_varu64] reads_bindr [OF reads_rethrow [OF reads_get_bytes]] reads_retr, auto)
  with MSG_TIP show ?thesis by simp
next
  case (MSG_GET_SEGMENTS x)
  have "reads (payload_fields 3) (leb128 (unat (from_no x)) @ leb128 (unat (max_count x)) @ []) (same_msg m)"
    using assms MSG_GET_SEGMENTS
    by (simp add: payload_fields_def del: append_Nil2)
       (intro reads_bindr [OF reads_get_varu64] reads_retr, auto)
  with MSG_GET_SEGMENTS show ?thesis by simp
next
  case (MSG_SEGMENT x)
  then have "length (slice_bytes (segment_bytes x)) < size_mod" using assms by (auto simp: slice_wf_length) (simp add: slice_wf_def)
  then have "reads (payload_fields 4) (leb128 (unat (msg_segment_no x)) @ msg_segment_hash x @ ldbytes (slice_bytes (segment_bytes x)) @ [])
      (same_msg m)"
    using assms MSG_SEGMENT
    by (simp add: payload_fields_def del: append_Nil2)
       (intro reads_bindr [OF reads_get_varu64] reads_bindr [OF reads_rethrow [OF reads_get_bytes]]
         reads_bindr [OF reads_get_ldbytes] reads_retr, auto)
  with MSG_SEGMENT show ?thesis by simp
next
  case (MSG_ERROR x)
  then have "length (slice_bytes (message_utf8 x)) < size_mod" using assms by (auto simp: slice_wf_length) (simp add: slice_wf_def)
  then have "reads (payload_fields 5) (leb128 (unat (err_code x)) @ ldbytes (slice_bytes (message_utf8 x)) @ [])
      (same_msg m)"
    using assms MSG_ERROR
    by (simp add: payload_fields_def del: append_Nil2)
       (intro reads_bindr [OF reads_get_varu64] reads_bindr [OF reads_get_ldbytes] reads_retr, auto)
  with MSG_ERROR show ?thesis by simp
qed simp

text \<open>The frame up to the payload length.\<close>

definition frame_pre :: "(u8 \<times> u64) reader" where
  "frame_pre =
     bindr (rethrow (replace_err (badfmt ''p2p_wire_decode: truncated magic'')) get_magic) (\<lambda>magic.
     bindr (guardr (magic = VICARL_P2P_MAGIC) (badfmt ''p2p_wire_decode: bad magic'')) (\<lambda>_.
     bindr (rethrow (replace_err (badfmt ''p2p_wire_decode: missing type'')) vicarl_rbuf_get_u8) (\<lambda>type.
     bindr (rethrow (replace_err (badfmt ''p2p_wire_decode: missing flags'')) vicarl_rbuf_get_u8) (\<lambda>flags.
     bindr vicarl_rbuf_get_varu64 (\<lambda>payload_len. retr (type, payload_len))))))"

lemma frame_parse_pre:
  "frame_parse = bindr frame_pre (\<lambda>(type, n).
     bindr (fits_frame n) (\<lambda>_.
     bindr (vicarl_rbuf_get_bytes (unat n)) (\<lambda>payload.
     bindr (no_trailing ''p2p_wire_decode: trailing bytes'') (\<lambda>_. retr (type, payload)))))"
  by (simp add: frame_parse_def frame_pre_def bindr_assoc fun_eq_iff bindr_def retr_def split: prod.split sum.split)

lemma reads_frame_pre:
  "reads frame_pre (VICARL_P2P_MAGIC @ [] @ [ty] @ [fl] @ leb128 (unat n) @ []) (\<lambda>x. x = (ty, n))"
  unfolding frame_pre_def
  by (intro reads_bindr [OF reads_rethrow [OF reads_get_magic]] reads_bindr [OF reads_guardr]
      reads_bindr [OF reads_rethrow [OF reads_get_u8]] reads_bindr [OF reads_get_varu64] reads_retr)
     (simp_all add: VICARL_P2P_MAGIC_def)

lemma frame_parse_wire:
  assumes len: "length (payload_wire m) < size_mod"
  shows "\<exists>payload r'. frame_parse (vicarl_rbuf_init (frame_wire m) (length (frame_wire m))) =
      (Inr (of_int (msg_type m), payload), r') \<and> slice_bytes payload = payload_wire m \<and> sl_len payload = length (payload_wire m)"
proof -
  let ?w = "frame_wire m" and ?p = "payload_wire m" and ?n = "of_nat (length (payload_wire m)) :: u64"
  let ?pre = "VICARL_P2P_MAGIC @ [] @ [of_int (msg_type m)] @ [0] @ leb128 (unat ?n) @ []"
  let ?r = "vicarl_rbuf_init ?w (length ?w)"
  have n: "unat ?n = length ?p" using len by (rule unat_of_nat_u64)
  have w: "?w = ?pre @ ?p" by (simp add: frame_wire_def n)
  have "\<exists>x. frame_pre ?r = (Inr x, rbuf_skip (length ?pre) ?r) \<and> x = (of_int (msg_type m), ?n)"
    by (rule readsD [OF reads_frame_pre, where t = ?p]) (simp_all only: rbuf_wf_init unread_init w)
  then have pre: "frame_pre ?r = (Inr (of_int (msg_type m), ?n), rbuf_skip (length ?pre) ?r)" by blast
  have wf: "rbuf_wf (rbuf_skip (length ?pre) ?r)"
    by (rule rbuf_skip_wf [OF rbuf_wf_init]) (simp only: unread_init w length_append le_add1)
  have u: "unread (rbuf_skip (length ?pre) ?r) = ?p"
    unfolding unread_skip unread_init w by (rule append_eq_conv_conj [THEN iffD1, OF refl, THEN conjunct2, symmetric])
  define r1 where "r1 = rbuf_skip (length ?pre) ?r"
  have r1: "rbuf_wf r1" "unread r1 = ?p" "frame_pre ?r = (Inr (of_int (msg_type m), ?n), r1)"
    using wf u pre by (simp_all only: r1_def)
  have fits: "fits_frame ?n r1 = (Inr (), r1)" using r1 n by (simp add: fits_frame_def remaining_unread)
  obtain s where s: "vicarl_rbuf_get_bytes (length ?p) r1 = (Inr s, rbuf_skip (length ?p) r1)"
    "slice_bytes s = ?p" "sl_len s = length ?p"
    using readsD [OF reads_get_bytes [OF refl, of ?p] r1(1), of "[]"] r1(2) by auto
  have "vicarl_rbuf_remaining (rbuf_skip (length ?p) r1) = 0"
    using r1 rbuf_skip_wf [OF r1(1), of "length ?p"] by (simp add: remaining_unread)
  with s fits r1(3) n show ?thesis
    by (simp add: frame_parse_pre bindr_Inr no_trailing_def) (simp add: bindr_def no_trailing_def retr_def)
qed

lemma wire_decode_frame:
  assumes wf: "msg_wf m" and len: "length (frame_wire m) < size_mod"
  shows "\<exists>m'. vicarl_p2p_wire_decode (slice_of (frame_wire m)) True = Inr m' \<and> same_msg m m'"
proof -
  have lp: "length (payload_wire m) < size_mod" using len by (simp add: frame_wire_def)
  obtain payload r' where f: "frame_parse (vicarl_rbuf_init (frame_wire m) (length (frame_wire m))) =
      (Inr (of_int (msg_type m), payload), r')" and p: "slice_bytes payload = payload_wire m" "sl_len payload = length (payload_wire m)"
    using frame_parse_wire [OF lp] by blast
  obtain m' r2 where "payload_parse (of_int (msg_type m)) (rbuf_of_slice payload) = (Inr m', r2)" "same_msg m m'"
    using reads_whole [OF reads_payload_fields [OF wf], of "''p2p_wire_decode: trailing payload bytes''"] p
    by (auto simp: payload_parse_def rbuf_of_slice_def)
  moreover have "\<not> length (frame_wire m) < 6" by (simp add: frame_wire_def VICARL_P2P_MAGIC_def)
  ultimately show ?thesis using f by (simp add: vicarl_p2p_wire_decode_def rbuf_of_slice_def)
qed

section \<open>Properties\<close>

text \<open>C24. Frame round trip: a message of the protocol that is encoded by \<^verbatim>\<open>vicarl_p2p_wire_encode\<close> is
  decoded by \<^verbatim>\<open>vicarl_p2p_wire_decode\<close> to the same message (the bytes of its slices, not their
  addresses). Encoding fails only for lack of memory; on success the caller owns exactly the frame,
  on failure nothing.\<close>
theorem wire_roundtrip:
  assumes "alloc_rel A ok rel" and "ok h" and "msg_wf m" and "length (frame_wire m) + 10 \<le> 2 ^ 63"
  shows "outcome (vicarl_p2p_wire_encode A (Some m) True)
    (\<lambda>b h'. (\<exists>m'. vicarl_p2p_wire_decode (bytes_slice b) True = Inr m' \<and> same_msg m m') \<and>
       own_bytes b \<inter> hp_live h = {} \<and> heap_to ok h (hp_live h \<union> own_bytes b) h')
    (\<lambda>e h'. e = err_oom \<and> \<not> rel \<and> heap_to ok h (hp_live h) h') h"
proof -
  have len: "length (frame_wire m) + 10 < size_mod" using assms(4) by (simp add: size_mod_def)
  show ?thesis
    using wire_encode_outcome [OF assms(1-3) len]
    by (rule outcome_mono)
       (use wire_decode_frame [OF assms(3)] len assms(4) in \<open>auto simp: bytes_slice_of\<close>)
qed

theorem wire_roundtrip_witness:
  "outcome (vicarl_p2p_wire_encode default_allocator (Some (MSG_GET_SEGMENTS \<lparr>from_no = 7, max_count = 100\<rparr>)) True)
    (\<lambda>b h'. vicarl_p2p_wire_decode (bytes_slice b) True = Inr (MSG_GET_SEGMENTS \<lparr>from_no = 7, max_count = 100\<rparr>))
    (\<lambda>e h'. False) heap_init"
proof -
  let ?m = "MSG_GET_SEGMENTS \<lparr>from_no = 7, max_count = 100\<rparr>"
  have "msg_wf ?m" "length (frame_wire ?m) + 10 \<le> 2 ^ 63"
    by (simp_all add: frame_wire_def VICARL_P2P_MAGIC_def leb128_small)
  from wire_roundtrip [OF libc_reliable heap_plenty_init this] show ?thesis
    by (rule outcome_mono) auto
qed



end
