(* ===== verification/Vicarl_StoreLog.thy ===== *)
theory Vicarl_StoreLog
  imports Vicarl_Store Vicarl_Wire "HOL-Library.AList"
begin

text \<open>
  \<^verbatim>\<open>src/store/store_log.c\<close> (POSIX branch): the log backend, one file per segment in a directory, written to a
  temporary file and published by \<^verbatim>\<open>rename\<close>. The file system is a map from directories to their entries
  with scripted outcomes: every call that can fail takes the next outcome of \<^verbatim>\<open>fs_fail\<close>
  (\<^const>\<open>True\<close>: it fails), every \<^verbatim>\<open>fclose\<close> of a file with unwritten data the next one of \<^verbatim>\<open>fs_close_fail\<close>.
  A path is the pair of its directory and its last component, which the code joins with a slash;
  the names of segment files contain no slash.
\<close>

section \<open>The file system\<close>

type_synonym path = "string \<times> string"

record filesys =
  fs_dirs :: "string \<Rightarrow> (string \<times> bytes) list option"
  fs_fail :: "bool list"
  fs_close_fail :: "bool list"
  fs_strerror :: string

record log_store =
  ls_ptr :: addr
  ls_dir_ptr :: "addr option"
  ls_dir :: string
  ls_tip_no :: u64
  ls_tip_hash :: vicarl_hash32
  ls_has_tip :: bool

text \<open>The backend state \<^verbatim>\<open>s->impl\<close> and the file system.\<close>

record log_env =
  le_impl :: "log_store option"
  le_fs :: filesys

type_synonym log_world = "log_env world"

definition w_fs :: "log_world \<Rightarrow> filesys" where
  "w_fs w = le_fs (w_env w)"

definition upd_fs :: "(filesys \<Rightarrow> filesys) \<Rightarrow> log_world \<Rightarrow> log_world" where
  "upd_fs f w = w\<lparr>w_env := (w_env w)\<lparr>le_fs := f (le_fs (w_env w))\<rparr>\<rparr>"

definition set_impl :: "log_store option \<Rightarrow> log_world \<Rightarrow> log_world" where
  "set_impl ls w = w\<lparr>w_env := (w_env w)\<lparr>le_impl := ls\<rparr>\<rparr>"

definition fs_lookup :: "filesys \<Rightarrow> path \<Rightarrow> bytes option" where
  "fs_lookup fs p = (case fs_dirs fs (fst p) of None \<Rightarrow> None | Some es \<Rightarrow> map_of es (snd p))"

text \<open>Creating or replacing a file, and deleting one.\<close>

definition fs_write :: "path \<Rightarrow> bytes \<Rightarrow> filesys \<Rightarrow> filesys" where
  "fs_write p bs fs =
     (case fs_dirs fs (fst p) of
        None \<Rightarrow> fs
      | Some es \<Rightarrow> fs\<lparr>fs_dirs := (fs_dirs fs)(fst p \<mapsto> AList.update (snd p) bs es)\<rparr>)"

definition fs_remove :: "path \<Rightarrow> filesys \<Rightarrow> filesys" where
  "fs_remove p fs =
     (case fs_dirs fs (fst p) of
        None \<Rightarrow> fs
      | Some es \<Rightarrow> fs\<lparr>fs_dirs := (fs_dirs fs)(fst p \<mapsto> AList.delete (snd p) es)\<rparr>)"

definition ioerrf :: "string \<Rightarrow> (log_world, 'a) vm" where
  "ioerrf msg w = (Inl (VErr VICARL_ERR_IO (Some (msg @ '': '' @ fs_strerror (w_fs w)))), w)"

text \<open>A call with a scripted outcome; \<open>msg\<close> is what the code reports when it fails.\<close>

definition io_try :: "string \<Rightarrow> (log_world, unit) vm" where
  "io_try msg w =
     (let w' = upd_fs (\<lambda>fs. fs\<lparr>fs_fail := tl (fs_fail fs)\<rparr>) w in
      if fs_fail (w_fs w) \<noteq> [] \<and> hd (fs_fail (w_fs w)) then ioerrf msg w' else (Inr (), w'))"

section \<open>Helpers\<close>

definition path_join :: "vicarl_allocator \<Rightarrow> string \<Rightarrow> string \<Rightarrow> heap \<Rightarrow> (addr \<times> path) option \<times> heap" where
  "path_join A a b h =
     (case vicarl__malloc A ((length a + length b + 2) mod size_mod) h of
        (None, h') \<Rightarrow> (None, h')
      | (Some p, h') \<Rightarrow> (Some (p, (a, b)), h'))"

definition dup_cstr :: "vicarl_allocator \<Rightarrow> string \<Rightarrow> heap \<Rightarrow> (addr \<times> string) option \<times> heap" where
  "dup_cstr A s h =
     (case vicarl__malloc A (length s + 1) h of (None, h') \<Rightarrow> (None, h') | (Some p, h') \<Rightarrow> (Some (p, s), h'))"

text \<open>\<^verbatim>\<open>%020llu\<close>\<close>

definition pad20 :: "u64 \<Rightarrow> string" where
  "pad20 no = (let d = dec_u64 no in replicate (20 - length d) (CHR ''0'') @ d)"

definition seg_filename :: "u64 \<Rightarrow> string" where
  "seg_filename no = ''seg_'' @ pad20 no @ ''.vcs''"

definition seg_tmp_filename :: "u64 \<Rightarrow> string" where
  "seg_tmp_filename no = ''seg_'' @ pad20 no @ ''.tmp''"

definition mkdir_if_missing :: "string \<Rightarrow> (log_world, unit) vm" where
  "mkdir_if_missing dir w =
     (case fs_dirs (w_fs w) dir of
        Some _ \<Rightarrow> (Inr (), w)
      | None \<Rightarrow>
          bindr (io_try ''store_open_log mkdir failed'') (\<lambda>_ w'.
            (Inr (), upd_fs (\<lambda>fs. fs\<lparr>fs_dirs := (fs_dirs fs)(dir \<mapsto> [])\<rparr>) w')) w)"

definition fopen_rb :: "path \<Rightarrow> (log_world, bytes) vm" where
  "fopen_rb p =
     bindr (io_try ''read_file fopen failed'') (\<lambda>_ w.
       (case fs_lookup (w_fs w) p of
          None \<Rightarrow> ioerrf ''read_file fopen failed'' w
        | Some bs \<Rightarrow> (Inr bs, w)))"

text \<open>\<^verbatim>\<open>ftell\<close> returns a \<^verbatim>\<open>long\<close>; the size of a file is assumed to fit.\<close>

definition read_file :: "vicarl_allocator \<Rightarrow> path \<Rightarrow> (log_world, vicarl_bytes) vm" where
  "read_file A p =
     bindr (fopen_rb p) (\<lambda>bs.
     bindr (io_try ''read_file fseek end failed'') (\<lambda>_.
     bindr (io_try ''read_file ftell failed'') (\<lambda>_.
     bindr (io_try ''read_file fseek set failed'') (\<lambda>_.
     bindr (on_heap (malloc_or_oom A (if length bs \<noteq> 0 then length bs else 1))) (\<lambda>buf.
     bindr (on_error (upd_heap (vicarl__free A (Some buf))) (io_try ''read_file fread failed'')) (\<lambda>_.
     retr \<lparr>by_ptr = Some buf, by_data = bs, by_len = length bs\<rparr>))))))"

text \<open>\<^verbatim>\<open>fsync_file\<close> on the file at \<open>p\<close> with the unwritten data \<open>bs\<close>: \<^verbatim>\<open>fflush\<close> brings them to the file.\<close>

definition fsync_file :: "path \<Rightarrow> bytes \<Rightarrow> (log_world, unit) vm" where
  "fsync_file p bs =
     bindr (io_try ''fflush failed'') (\<lambda>_.
     bindr (\<lambda>w. (Inr (), upd_fs (fs_write p bs) w)) (\<lambda>_.
     bindr (io_try ''fileno failed'') (\<lambda>_.
     io_try ''fsync failed'')))"

text \<open>
  \<^verbatim>\<open>fclose\<close>, whose result the code ignores: unwritten data reach the file unless it fails.
\<close>

definition fclose_unwritten :: "path \<Rightarrow> bytes \<Rightarrow> log_world \<Rightarrow> log_world" where
  "fclose_unwritten p bs w =
     (let w' = upd_fs (\<lambda>fs. fs\<lparr>fs_close_fail := tl (fs_close_fail fs)\<rparr>) w in
      if fs_close_fail (w_fs w) \<noteq> [] \<and> hd (fs_close_fail (w_fs w)) then w' else upd_fs (fs_write p bs) w')"

definition peek_segment_no :: "vicarl_slice \<Rightarrow> u64 res" where
  "peek_segment_no encoded =
     (if sl_len encoded < 6 \<or> sl_ptr encoded = None
      then Inl (fail_with VICARL_ERR_FORMAT ''peek_segment_no: input too short'')
      else fst
        (bindr (rethrow (replace_err (fail_with VICARL_ERR_FORMAT ''peek_segment_no: truncated magic'')) get_magic) (\<lambda>magic.
         bindr (guardr (magic = [0x56, 0x43, 0x53, 0x31]) (fail_with VICARL_ERR_FORMAT ''peek_segment_no: bad magic'')) (\<lambda>_.
         bindr (rethrow (replace_err (fail_with VICARL_ERR_FORMAT ''peek_segment_no: missing flags'')) vicarl_rbuf_get_u8) (\<lambda>_.
         vicarl_rbuf_get_varu64))) (rbuf_of_slice encoded)))"

text \<open>
  \<^verbatim>\<open>strtoull(s, &end, 10)\<close> followed by the test \<^verbatim>\<open>*end == '\0'\<close>: white space, a sign, digits; the value is
  the greatest 64-bit number if they overflow, and negated if there is a minus. \<^const>\<open>None\<close> if something is left over or
  there is no digit.
\<close>

definition is_space :: "char \<Rightarrow> bool" where
  "is_space c \<longleftrightarrow> c = CHR '' '' \<or> (9 \<le> (of_char c :: nat) \<and> (of_char c :: nat) \<le> 13)"

definition is_digit :: "char \<Rightarrow> bool" where
  "is_digit c \<longleftrightarrow> 48 \<le> (of_char c :: nat) \<and> (of_char c :: nat) \<le> 57"

definition digits_value :: "string \<Rightarrow> nat" where
  "digits_value ds = foldl (\<lambda>v c. v * 10 + (of_char c - 48)) 0 ds"

definition strtoull_all :: "string \<Rightarrow> u64 option" where
  "strtoull_all s =
     (let t = dropWhile is_space s;
          neg = (t \<noteq> [] \<and> hd t = CHR ''-'');
          u = (if t \<noteq> [] \<and> (hd t = CHR ''-'' \<or> hd t = CHR ''+'') then tl t else t)
      in if u \<noteq> [] \<and> list_all is_digit u
         then Some (if digits_value u \<ge> size_mod then of_nat (size_mod - 1)
                    else if neg then - of_nat (digits_value u) else of_nat (digits_value u))
         else None)"

definition is_seg_name :: "string \<Rightarrow> u64 option" where
  "is_seg_name name =
     (if length name \<noteq> 4 + 20 + 4 then None
      else if take 4 name \<noteq> ''seg_'' then None
      else if drop (4 + 20) name \<noteq> ''.vcs'' then None
      else strtoull_all (take 20 (drop 4 name)))"

text \<open>The \<^verbatim>\<open>readdir\<close> loop.\<close>

definition max_seg_no :: "string list \<Rightarrow> u64" where
  "max_seg_no names =
     foldl (\<lambda>tip name. case is_seg_name name of None \<Rightarrow> tip | Some no \<Rightarrow> if no > tip then no else tip) 0 names"

definition scan_tip :: "string \<Rightarrow> (log_world, u64) vm" where
  "scan_tip dir w =
     (case fs_dirs (w_fs w) dir of
        None \<Rightarrow> (Inr 0, w)
      | Some es \<Rightarrow>
          bindr (io_try ''scan_tip opendir failed'') (\<lambda>_. retr (max_seg_no (map fst es))) w)"

section \<open>The functions of the table\<close>

definition sizeof_log_store :: nat where
  "sizeof_log_store = 56"

definition log_close :: "vicarl_allocator \<Rightarrow> log_world \<Rightarrow> log_world" where
  "log_close A w =
     (case le_impl (w_env w) of
        None \<Rightarrow> w
      | Some ls \<Rightarrow>
          set_impl None (upd_heap (\<lambda>h. vicarl__free A (Some (ls_ptr ls)) (vicarl__free A (ls_dir_ptr ls) h)) w))"

definition log_get_record :: "vicarl_hash32 option \<Rightarrow> bool \<Rightarrow> (log_world, vicarl_bytes) vm" where
  "log_get_record rid out =
     failr (fail_with VICARL_ERR_UNSUPPORTED ''log store: record index not supported'')"

definition log_query_records ::
  "vicarl_record_filter option \<Rightarrow> 'u record_iter_fn option \<Rightarrow> log_world \<times> 'u \<Rightarrow> (unit res \<times> log_world \<times> 'u) option" where
  "log_query_records flt cb s =
     Some (Inl (fail_with VICARL_ERR_UNSUPPORTED ''log store: record queries not supported''), s)"

definition log_tip :: "bool \<Rightarrow> (log_world, u64 \<times> vicarl_hash32) vm" where
  "log_tip out w =
     (if \<not> out then (Inl (badarg ''log_tip: invalid arguments''), w)
      else case le_impl (w_env w) of
        None \<Rightarrow> (Inl (VErr VICARL_ERR_NOT_FOUND None), w)
      | Some ls \<Rightarrow>
          if \<not> ls_has_tip ls then (Inl (VErr VICARL_ERR_NOT_FOUND None), w)
          else (Inr (ls_tip_no ls, ls_tip_hash ls), w))"

text \<open>\<^verbatim>\<open>log_read_segment\<close> on the backend state it finds in the store object.\<close>

definition log_read_impl :: "vicarl_allocator \<Rightarrow> log_store option \<Rightarrow> u64 \<Rightarrow> (log_world, vicarl_bytes) vm" where
  "log_read_impl A impl no w =
     (case impl of
        None \<Rightarrow> (Inl (fail_with VICARL_ERR_INTERNAL ''log_read_segment: store not initialized''), w)
      | Some ls \<Rightarrow>
          if ls_dir_ptr ls = None
          then (Inl (fail_with VICARL_ERR_INTERNAL ''log_read_segment: store not initialized''), w)
          else
            (case path_join A (ls_dir ls) (seg_filename no) (w_heap w) of
               (None, h) \<Rightarrow> (Inl err_oom, w\<lparr>w_heap := h\<rparr>)
             | (Some (pa, p), h) \<Rightarrow>
                 finally_do (upd_heap (vicarl__free A (Some pa))) (read_file A p) (w\<lparr>w_heap := h\<rparr>)))"

definition log_read_segment :: "vicarl_allocator \<Rightarrow> u64 \<Rightarrow> bool \<Rightarrow> (log_world, vicarl_bytes) vm" where
  "log_read_segment A no out w =
     (if \<not> out then (Inl (badarg ''log_read_segment: invalid arguments''), w)
      else log_read_impl A (le_impl (w_env w)) no w)"

definition fopen_wb :: "path \<Rightarrow> (log_world, unit) vm" where
  "fopen_wb p =
     bindr (io_try ''log_append_segment fopen(tmp) failed'') (\<lambda>_ w.
       if fs_dirs (w_fs w) (fst p) = None then ioerrf ''log_append_segment fopen(tmp) failed'' w
       else (Inr (), upd_fs (fs_write p []) w))"

definition rename_file :: "path \<Rightarrow> path \<Rightarrow> (log_world, unit) vm" where
  "rename_file old new =
     bindr (io_try ''log_append_segment rename failed'') (\<lambda>_ w.
       (case fs_lookup (w_fs w) old of
          None \<Rightarrow> ioerrf ''log_append_segment rename failed'' w
        | Some bs \<Rightarrow> (Inr (), upd_fs (\<lambda>fs. fs_write new bs (fs_remove old fs)) w)))"

text \<open>From the opening of the temporary file to the renaming.\<close>

definition log_publish :: "vicarl_store_options \<Rightarrow> path \<Rightarrow> path \<Rightarrow> bytes \<Rightarrow> (log_world, unit) vm" where
  "log_publish opt tmp final bs =
     bindr (fopen_wb tmp) (\<lambda>_.
     bindr (on_error (\<lambda>w. upd_fs (fs_remove tmp) (fclose_unwritten tmp [] w))
              (io_try ''log_append_segment fwrite failed'')) (\<lambda>_.
     bindr (if fsync_on_commit opt \<noteq> 0
            then on_error (\<lambda>w. upd_fs (fs_remove tmp) (fclose_unwritten tmp bs w)) (fsync_file tmp bs)
            else (\<lambda>w. (Inr (), fclose_unwritten tmp bs w))) (\<lambda>_.
     on_error (upd_fs (fs_remove tmp)) (rename_file tmp final))))"

definition log_append_segment ::
  "vicarl_allocator \<Rightarrow> vicarl_store_options \<Rightarrow> vicarl_slice \<Rightarrow> bool \<Rightarrow> (log_world, u64 \<times> vicarl_hash32) vm" where
  "log_append_segment A opt enc out w =
     (if \<not> out then (Inl (badarg ''log_append_segment: invalid arguments''), w)
      else if slice_bad enc then (Inl (badarg ''log_append_segment: encoded_segment.ptr is NULL''), w)
      else case le_impl (w_env w) of
        None \<Rightarrow> (Inl (fail_with VICARL_ERR_INTERNAL ''log_append_segment: store not initialized''), w)
      | Some ls \<Rightarrow>
          if ls_dir_ptr ls = None
          then (Inl (fail_with VICARL_ERR_INTERNAL ''log_append_segment: store not initialized''), w)
          else
            (case peek_segment_no enc of
               Inl e \<Rightarrow> (Inl e, w)
             | Inr seg_no \<Rightarrow>
                 let expected = (if ls_has_tip ls then ls_tip_no ls + 1 else 1) in
                 if seg_no \<noteq> expected
                 then (Inl (fail_with VICARL_ERR_INVALID_ARGUMENT
                         (''log_append_segment: segment_no '' @ dec_u64 seg_no @
                          '' does not match expected '' @ dec_u64 expected)), w)
                 else
                   (case vicarl__sha256 enc True of
                      Inl e \<Rightarrow> (Inl e, w)
                    | Inr hash \<Rightarrow>
                        (case path_join A (ls_dir ls) (seg_filename seg_no) (w_heap w) of
                           (fp, h1) \<Rightarrow>
                             (case path_join A (ls_dir ls) (seg_tmp_filename seg_no) h1 of
                                (tp, h2) \<Rightarrow>
                                  (case (fp, tp) of
                                     (Some (fa, final), Some (ta, tmp)) \<Rightarrow>
                                       finally_do
                                         (upd_heap (\<lambda>h. vicarl__free A (Some ta) (vicarl__free A (Some fa) h)))
                                         (bindr (log_publish opt tmp final (slice_bytes enc)) (\<lambda>_ w'.
                                            (Inr (seg_no, hash),
                                             set_impl (Some (ls\<lparr>ls_tip_no := seg_no, ls_tip_hash := hash,
                                                               ls_has_tip := True\<rparr>)) w')))
                                         (w\<lparr>w_heap := h2\<rparr>)
                                   | _ \<Rightarrow>
                                       (Inl err_oom,
                                        w\<lparr>w_heap := vicarl__free A (map_option fst tp)
                                            (vicarl__free A (map_option fst fp) h2)\<rparr>)))))))"

text \<open>The loop \<^verbatim>\<open>for (no = start; no <= tip_no; no++)\<close>, which does not end when the tip is the greatest number.\<close>

partial_function (option) log_iter_loop ::
  "vicarl_allocator \<Rightarrow> 'u segment_iter_fn \<Rightarrow> u64 \<Rightarrow> u64 \<Rightarrow> log_world \<times> 'u \<Rightarrow>
     (unit res \<times> log_world \<times> 'u) option" where
  "log_iter_loop A cb tip no s =
     (if no \<le> tip then
        (case log_read_segment A no True (fst s) of
           (Inl e, w1) \<Rightarrow> Some (Inl e, (w1, snd s))
         | (Inr seg, w1) \<Rightarrow>
             (case vicarl__sha256 (bytes_slice seg) True of
                Inl e \<Rightarrow> Some (Inl e, (upd_heap (vicarl_free A (by_ptr seg)) w1, snd s))
              | Inr h \<Rightarrow>
                  (case cb no h (snd s) of
                     (Inl e, u1) \<Rightarrow> Some (Inl e, (upd_heap (vicarl_free A (by_ptr seg)) w1, u1))
                   | (Inr _, u1) \<Rightarrow>
                       log_iter_loop A cb tip (no + 1) (upd_heap (vicarl_free A (by_ptr seg)) w1, u1))))
      else Some (Inr (), s))"

definition log_iter_segments ::
  "vicarl_allocator \<Rightarrow> u64 \<Rightarrow> 'u segment_iter_fn option \<Rightarrow> log_world \<times> 'u \<Rightarrow> (unit res \<times> log_world \<times> 'u) option" where
  "log_iter_segments A from cb s =
     (case cb of
        None \<Rightarrow> Some (Inl (badarg ''log_iter_segments: invalid arguments''), s)
      | Some f \<Rightarrow>
          (case le_impl (w_env (fst s)) of
             None \<Rightarrow> Some (Inr (), s)
           | Some ls \<Rightarrow>
               if \<not> ls_has_tip ls then Some (Inr (), s)
               else
                 let start = (if from = 0 then 1 else from) in
                 if start > ls_tip_no ls then Some (Inr (), s)
                 else log_iter_loop A f (ls_tip_no ls) start s))"

definition LOG_VT :: "vicarl_allocator \<Rightarrow> (log_env, 'u) store_vtable" where
  "LOG_VT A =
     \<lparr>vt_kind = VICARL_STORE_LOG, vt_close = Some (log_close A),
      vt_append_segment = Some (log_append_segment A), vt_read_segment = Some (log_read_segment A),
      vt_tip = Some log_tip, vt_iter_segments = Some (log_iter_segments A),
      vt_get_record = Some log_get_record, vt_query_records = Some log_query_records\<rparr>"

section \<open>Opening\<close>

definition log_load_tip :: "vicarl_allocator \<Rightarrow> log_store \<Rightarrow> (log_world, log_store) vm" where
  "log_load_tip A ls =
     bindr (scan_tip (ls_dir ls)) (\<lambda>tip_no.
     if tip_no \<noteq> 0 then
       bindr (log_read_impl A (Some ls) tip_no) (\<lambda>seg.
       bindr (finally_do (upd_heap (vicarl_free A (by_ptr seg))) (of_res (vicarl__sha256 (bytes_slice seg) True))) (\<lambda>h.
       retr (ls\<lparr>ls_tip_no := tip_no, ls_tip_hash := h, ls_has_tip := True\<rparr>)))
     else retr ls)"

definition vicarl_store_open_log ::
  "vicarl_allocator \<Rightarrow> string option \<Rightarrow> vicarl_store_options option \<Rightarrow> bool \<Rightarrow>
     (log_world, (log_env, 'u) vicarl_store) vm" where
  "vicarl_store_open_log A dir_path opt out =
     (if \<not> out then failr (badarg ''store_open_log: out is NULL'')
      else case dir_path of
        None \<Rightarrow> failr (badarg ''store_open_log: dir_path is empty'')
      | Some dir \<Rightarrow>
          if dir = [] then failr (badarg ''store_open_log: dir_path is empty'')
          else
            bindr (mkdir_if_missing dir) (\<lambda>_.
            bindr (on_heap (calloc_or_oom A 1 sizeof_log_store)) (\<lambda>lp.
            bindr (on_error (upd_heap (vicarl__free A (Some lp)))
                     (on_heap (\<lambda>h. case dup_cstr A dir h of
                        (None, h') \<Rightarrow> (Inl err_oom, h') | (Some d, h') \<Rightarrow> (Inr d, h')))) (\<lambda>(dp, d).
            on_error (upd_heap (\<lambda>h. vicarl__free A (Some lp) (vicarl__free A (Some dp) h)))
              (bindr (log_load_tip A \<lparr>ls_ptr = lp, ls_dir_ptr = Some dp, ls_dir = d, ls_tip_no = 0,
                                      ls_tip_hash = zero_hash, ls_has_tip = False\<rparr>) (\<lambda>ls w.
                 (case vicarl__store_new A (Some (LOG_VT A)) opt (w_heap w) of
                    (None, h) \<Rightarrow> (Inl err_oom, w\<lparr>w_heap := h\<rparr>)
                  | (Some st, h) \<Rightarrow> (Inr st, set_impl (Some ls) (w\<lparr>w_heap := h\<rparr>)))))))))"

section \<open>File names\<close>

lemma of_char_digit: "d < 10 \<Longrightarrow> (of_char (digit_char d) :: nat) = 48 + d"
  by (simp add: digit_char_def)

lemma digits_value_snoc: "digits_value (ds @ [c]) = digits_value ds * 10 + (of_char c - 48)"
  by (simp add: digits_value_def)

lemma dec_nat_digits: "list_all is_digit (dec_nat n) \<and> digits_value (dec_nat n) = n"
proof (induction n rule: dec_nat.induct)
  case (1 n)
  show ?case
  proof (cases "n < 10")
    case True
    then show ?thesis
      by (simp add: dec_nat.simps [of n] is_digit_def of_char_digit digits_value_def)
  next
    case False
    have d: "(of_char (digit_char (n mod 10)) :: nat) = 48 + n mod 10" by (simp add: of_char_digit)
    with False "1.IH" show ?thesis
      by (simp add: dec_nat.simps [of n] digits_value_snoc is_digit_def)
  qed
qed

lemma dec_nat_length: "n < 10 ^ Suc k \<Longrightarrow> length (dec_nat n) \<le> Suc k"
proof (induction k arbitrary: n)
  case 0
  then show ?case by (simp add: dec_nat.simps [of n])
next
  case (Suc k)
  show ?case
  proof (cases "n < 10")
    case False
    have "n div 10 < 10 ^ Suc k" using Suc.prems by (simp add: less_mult_imp_div_less mult.commute)
    with Suc.IH False show ?thesis by (simp add: dec_nat.simps [of n])
  qed (simp add: dec_nat.simps [of n])
qed

lemma dec_nat_nonempty: "dec_nat n \<noteq> []"
  by (simp add: dec_nat.simps [of n])

lemma digits_value_zeros: "digits_value (replicate k (CHR ''0'') @ ds) = digits_value ds"
  by (induction k) (simp_all add: digits_value_def)

lemma pad20_length [simp]: "length (pad20 no) = 20"
proof -
  have "unat no < 10 ^ Suc 19" using unat_u64_less [of no] by (simp add: size_mod_def)
  from dec_nat_length [OF this] show ?thesis by (simp add: pad20_def dec_u64_def Let_def)
qed

lemma pad20_digits: "list_all is_digit (pad20 no)" "digits_value (pad20 no) = unat no"
proof -
  have "is_digit (CHR ''0'')" by (simp add: is_digit_def)
  then show "list_all is_digit (pad20 no)"
    using dec_nat_digits [of "unat no"] by (auto simp: pad20_def dec_u64_def list_all_iff Let_def)
  show "digits_value (pad20 no) = unat no"
    using dec_nat_digits [of "unat no"] by (simp add: pad20_def dec_u64_def digits_value_zeros Let_def)
qed

lemma strtoull_pad20: "strtoull_all (pad20 no) = Some no"
proof -
  obtain c cs where p: "pad20 no = c # cs" using pad20_length [of no] by (cases "pad20 no") auto
  have "is_digit c" using pad20_digits(1) [of no] by (simp add: p)
  then have c: "\<not> is_space c" "c \<noteq> CHR ''-''" "c \<noteq> CHR ''+''"
    by (auto simp: is_digit_def is_space_def)
  have "strtoull_all (pad20 no) = Some (of_nat (unat no))"
    using c pad20_digits [of no] unat_u64_less [of no]
    by (simp add: strtoull_all_def p Let_def del: unat_u64_less)
  then show ?thesis by simp
qed

lemma is_seg_name_filename: "is_seg_name (seg_filename no) = Some no"
  by (simp add: is_seg_name_def seg_filename_def strtoull_pad20)

lemma seg_filename_inject: "seg_filename a = seg_filename b \<longleftrightarrow> a = b"
  using is_seg_name_filename by (metis option.inject)

lemma tmp_not_seg: "seg_tmp_filename a \<noteq> seg_filename b"
proof
  assume "seg_tmp_filename a = seg_filename b"
  then have "drop 24 (seg_tmp_filename a) = drop 24 (seg_filename b)" by simp
  then show False by (simp add: seg_tmp_filename_def seg_filename_def)
qed

lemma is_seg_name_tmp: "is_seg_name (seg_tmp_filename no) = None"
  by (simp add: is_seg_name_def seg_tmp_filename_def)

section \<open>Files\<close>

lemma fs_lookup_write:
  "fs_dirs fs (fst p) \<noteq> None \<Longrightarrow> fs_lookup (fs_write p bs fs) q = (if q = p then Some bs else fs_lookup fs q)"
  by (cases p; cases q) (auto simp: fs_lookup_def fs_write_def update_conv' split: option.splits)

lemma fs_lookup_remove: "fs_lookup (fs_remove p fs) q = (if q = p then None else fs_lookup fs q)"
  by (cases p; cases q) (auto simp: fs_lookup_def fs_remove_def delete_conv' split: option.splits)

lemma fs_dirs_write [simp]: "fs_dirs (fs_write p bs fs) d = None \<longleftrightarrow> fs_dirs fs d = None"
  by (auto simp: fs_write_def split: option.splits)

lemma fs_dirs_remove [simp]: "fs_dirs (fs_remove p fs) d = None \<longleftrightarrow> fs_dirs fs d = None"
  by (auto simp: fs_remove_def split: option.splits)

lemma fs_other_fields [simp]:
  "fs_fail (fs_write p bs fs) = fs_fail fs" "fs_fail (fs_remove p fs) = fs_fail fs"
  "fs_close_fail (fs_write p bs fs) = fs_close_fail fs" "fs_close_fail (fs_remove p fs) = fs_close_fail fs"
  "fs_strerror (fs_write p bs fs) = fs_strerror fs" "fs_strerror (fs_remove p fs) = fs_strerror fs"
  by (auto simp: fs_write_def fs_remove_def split: option.splits)

lemma fs_lookup_fail [simp]: "fs_lookup (fs\<lparr>fs_fail := x\<rparr>) = fs_lookup fs"
  and fs_lookup_close [simp]: "fs_lookup (fs\<lparr>fs_close_fail := x\<rparr>) = fs_lookup fs"
  by (simp_all add: fun_eq_iff fs_lookup_def)

lemma upd_fs_simps [simp]:
  "w_heap (upd_fs f w) = w_heap w" "w_fs (upd_fs f w) = f (w_fs w)" "le_impl (w_env (upd_fs f w)) = le_impl (w_env w)"
  "w_heap (set_impl x w) = w_heap w" "w_fs (set_impl x w) = w_fs w" "le_impl (w_env (set_impl x w)) = x"
  by (simp_all add: upd_fs_def w_fs_def set_impl_def upd_heap_def)

lemma w_fs_heap [simp]: "w_fs (w\<lparr>w_heap := h\<rparr>) = w_fs w" "w_fs (upd_heap g w) = w_fs w"
  by (simp_all add: w_fs_def upd_heap_def)

text \<open>What a step on the outside may change: the script of outcomes, and then only by taking from it.\<close>

definition env_kept :: "log_world \<Rightarrow> log_world \<Rightarrow> bool" where
  "env_kept w w' \<longleftrightarrow> le_impl (w_env w') = le_impl (w_env w) \<and> fs_dirs (w_fs w') = fs_dirs (w_fs w) \<and>
     fs_close_fail (w_fs w') = fs_close_fail (w_fs w) \<and> (fs_fail (w_fs w) = [] \<longrightarrow> fs_fail (w_fs w') = [])"

lemma env_kept_refl [simp]: "env_kept w w"
  by (simp add: env_kept_def)

lemma env_kept_trans: "env_kept w w' \<Longrightarrow> env_kept w' w'' \<Longrightarrow> env_kept w w''"
  by (simp add: env_kept_def)

lemma env_kept_lookup: "env_kept w w' \<Longrightarrow> fs_lookup (w_fs w') = fs_lookup (w_fs w)"
  by (simp add: env_kept_def fs_lookup_def fun_eq_iff)

lemma env_kept_heap [simp]: "env_kept w (w'\<lparr>w_heap := h\<rparr>) = env_kept w w'" "env_kept w (upd_heap g w') = env_kept w w'"
  "env_kept (w\<lparr>w_heap := h\<rparr>) w' = env_kept w w'"
  by (simp_all add: env_kept_def)

lemma io_try_outcome:
  "outcome (io_try msg) (\<lambda>_ w'. env_kept w w' \<and> w_heap w' = w_heap w)
     (\<lambda>e w'. env_kept w w' \<and> w_heap w' = w_heap w \<and> fs_fail (w_fs w) \<noteq> [] \<and> (\<exists>m. e = VErr VICARL_ERR_IO (Some m))) w"
  by (auto simp: outcome_def io_try_def ioerrf_def Let_def env_kept_def)

section \<open>Reading a file\<close>

text \<open>A quiet environment: no scripted failure and a reliable allocator.\<close>

definition quiet :: "bool \<Rightarrow> log_world \<Rightarrow> bool" where
  "quiet rel w \<longleftrightarrow> rel \<and> fs_fail (w_fs w) = []"

text \<open>An error of the environment: out of memory or an input/output error, only if it is not quiet.\<close>

definition env_error :: "bool \<Rightarrow> log_world \<Rightarrow> verror \<Rightarrow> bool" where
  "env_error rel w e \<longleftrightarrow> \<not> quiet rel w \<and> (e = err_oom \<or> (\<exists>m. e = VErr VICARL_ERR_IO (Some m)))"

lemma env_error_kept: "env_kept w w' \<Longrightarrow> env_error rel w' e \<Longrightarrow> env_error rel w e"
  by (auto simp: env_error_def quiet_def env_kept_def)

lemma io_try_step:
  assumes "env_kept w0 w" "heap_to ok h0 L (w_heap w)"
  shows "outcome (io_try msg) (\<lambda>_ w'. env_kept w0 w' \<and> heap_to ok h0 L (w_heap w'))
    (\<lambda>e w'. env_kept w0 w' \<and> heap_to ok h0 L (w_heap w') \<and> env_error rel w0 e) w"
  using io_try_outcome
proof (rule outcome_mono)
  fix e w' assume "env_kept w w' \<and> w_heap w' = w_heap w \<and> fs_fail (w_fs w) \<noteq> [] \<and> (\<exists>m. e = VErr VICARL_ERR_IO (Some m))"
  with assms show "env_kept w0 w' \<and> heap_to ok h0 L (w_heap w') \<and> env_error rel w0 e"
    by (auto simp: env_error_def quiet_def env_kept_def)
qed (use assms in \<open>auto intro: env_kept_trans\<close>)

lemma outcome_io:
  assumes "env_kept w0 w" "heap_to ok h0 L (w_heap w)"
    and "\<And>v. env_kept w0 v \<Longrightarrow> heap_to ok h0 L (w_heap v) \<Longrightarrow> outcome (f ()) Q E v"
    and "\<And>e v. env_kept w0 v \<Longrightarrow> heap_to ok h0 L (w_heap v) \<Longrightarrow> env_error rel w0 e \<Longrightarrow> E e v"
  shows "outcome (bindr (io_try msg) f) Q E w"
  by (rule outcome_bindr, rule outcome_mono [OF io_try_step [OF assms(1,2), where rel = rel]])
     (use assms(3,4) in auto)

lemma fopen_rb_outcome:
  assumes "heap_to ok h0 L (w_heap w)" "env_kept w0 w" "fs_lookup (w_fs w) p = Some bs"
  shows "outcome (fopen_rb p) (\<lambda>x w'. x = bs \<and> env_kept w0 w' \<and> heap_to ok h0 L (w_heap w'))
    (\<lambda>e w'. env_kept w0 w' \<and> heap_to ok h0 L (w_heap w') \<and> env_error rel w0 e) w"
  unfolding fopen_rb_def
proof (rule outcome_bindr, rule outcome_mono [OF io_try_step [OF assms(2,1)]])
  fix x w' assume w': "env_kept w0 w' \<and> heap_to ok h0 L (w_heap w')"
  have "fs_lookup (w_fs w') p = Some bs"
    using assms(2,3) w' env_kept_lookup by metis
  with w' show "outcome (\<lambda>w. case fs_lookup (w_fs w) p of None \<Rightarrow> ioerrf ''read_file fopen failed'' w
      | Some bs \<Rightarrow> (Inr bs, w)) (\<lambda>x w'. x = bs \<and> env_kept w0 w' \<and> heap_to ok h0 L (w_heap w'))
    (\<lambda>e w'. env_kept w0 w' \<and> heap_to ok h0 L (w_heap w') \<and> env_error rel w0 e) w'"
    by (simp add: outcome_def)
qed

text \<open>Errors that leave everything as it was; new bytes on success.\<close>

lemma read_file_outcome:
  assumes A: "alloc_rel A ok rel" and h: "heap_to ok h0 L (w_heap w)" and bs: "fs_lookup (w_fs w) p = Some bs"
  shows "outcome (read_file A p)
    (\<lambda>b w'. env_kept w w' \<and> holds_bytes b bs \<and> own_bytes b \<inter> L = {} \<and> heap_to ok h0 (L \<union> own_bytes b) (w_heap w'))
    (\<lambda>e w'. env_kept w w' \<and> heap_to ok h0 L (w_heap w') \<and> env_error rel w e) w"
    (is "outcome _ ?Q ?E w")
proof -
  have fread: "outcome (bindr (on_error (upd_heap (vicarl__free A (Some buf))) (io_try ''read_file fread failed''))
      (\<lambda>_. retr \<lparr>by_ptr = Some buf, by_data = bs, by_len = length bs\<rparr>)) ?Q ?E v"
    if "env_kept w v" "buf \<notin> L" "heap_to ok h0 (insert buf L) (w_heap v)" for buf v
    using that free_step_insert [OF A _ that(2)]
    by (intro outcome_bindr outcome_on_error outcome_mono [OF io_try_step [OF that(1,3), where rel = rel]] outcome_retr)
       (auto simp: holds_bytes_def own_bytes_def)
  have malloc: "outcome (bindr (on_heap (malloc_or_oom A n)) (\<lambda>buf.
      bindr (on_error (upd_heap (vicarl__free A (Some buf))) (io_try ''read_file fread failed''))
      (\<lambda>_. retr \<lparr>by_ptr = Some buf, by_data = bs, by_len = length bs\<rparr>))) ?Q ?E v"
    if "env_kept w v" "heap_to ok h0 L (w_heap v)" for n v
    by (intro outcome_bindr outcome_on_heap outcome_mono [OF malloc_or_oom_outcome [OF A that(2)]] fread)
       (use that in \<open>auto simp: env_error_def quiet_def\<close>)
  have open': "outcome (fopen_rb p) (\<lambda>x v. x = bs \<and> env_kept w v \<and> heap_to ok h0 L (w_heap v)) ?E w"
    by (rule fopen_rb_outcome [OF h env_kept_refl bs])
  show ?thesis
    unfolding read_file_def
    apply (rule outcome_bindr, rule outcome_mono [OF open'])
     apply (elim conjE, hypsubst)
     apply (rule outcome_io [where rel = rel], assumption, assumption)+
        apply (rule malloc)
         apply blast+
    done
qed

lemma path_join_stepE:
  assumes "alloc_rel A ok rel" "heap_to ok h0 L h"
  obtains (fail) h' where "path_join A a b h = (None, h')" "\<not> rel" "heap_to ok h0 L h'"
  | (new) pa h' where "path_join A a b h = (Some (pa, (a, b)), h')" "pa \<notin> L" "heap_to ok h0 (insert pa L) h'"
  using assms
proof (cases rule: malloc_stepE [where n = "(length a + length b + 2) mod size_mod"])
  case (fail h')
  then show ?thesis using that(1) by (simp add: path_join_def)
next
  case (new p h')
  then show ?thesis using that(2) by (simp add: path_join_def)
qed

lemma log_read_impl_outcome:
  assumes A: "alloc_rel A ok rel" and h: "ok (w_heap w)" and ls: "ls_dir_ptr ls = Some q"
    and bs: "fs_lookup (w_fs w) (ls_dir ls, seg_filename no) = Some bs"
  shows "outcome (log_read_impl A (Some ls) no)
    (\<lambda>b w'. env_kept w w' \<and> holds_bytes b bs \<and> own_bytes b \<inter> hp_live (w_heap w) = {} \<and>
       heap_to ok (w_heap w) (hp_live (w_heap w) \<union> own_bytes b) (w_heap w'))
    (\<lambda>e w'. env_kept w w' \<and> heap_to ok (w_heap w) (hp_live (w_heap w)) (w_heap w') \<and> env_error rel w e) w"
    (is "outcome _ ?Q ?E w")
proof -
  let ?L = "hp_live (w_heap w)" and ?p = "(ls_dir ls, seg_filename no)"
  have start: "heap_to ok (w_heap w) ?L (w_heap w)" using h by (rule heap_to_refl)
  from A start show ?thesis
  proof (cases rule: path_join_stepE [where a = "ls_dir ls" and b = "seg_filename no"])
    case (fail h')
    with ls show ?thesis by (simp add: outcome_def log_read_impl_def env_error_def quiet_def)
  next
    case (new pa h')
    have h1: "heap_to ok (w_heap w) (insert pa ?L) (w_heap (w\<lparr>w_heap := h'\<rparr>))" using new(3) by simp
    have b1: "fs_lookup (w_fs (w\<lparr>w_heap := h'\<rparr>)) ?p = Some bs" using bs by simp
    have rd: "outcome (read_file A ?p)
      (\<lambda>b w'. env_kept w w' \<and> holds_bytes b bs \<and> own_bytes b \<inter> insert pa ?L = {} \<and>
         heap_to ok (w_heap w) (insert pa ?L \<union> own_bytes b) (w_heap w'))
      (\<lambda>e w'. env_kept w w' \<and> heap_to ok (w_heap w) (insert pa ?L) (w_heap w') \<and> env_error rel w e) (w\<lparr>w_heap := h'\<rparr>)"
      by (rule outcome_mono [OF read_file_outcome [OF A h1 b1]]) (simp_all add: env_error_def quiet_def)
    have "outcome (finally_do (upd_heap (vicarl__free A (Some pa))) (read_file A ?p)) ?Q ?E (w\<lparr>w_heap := h'\<rparr>)"
      by (rule outcome_finally, rule outcome_mono [OF rd])
         (use new(2) in \<open>auto intro: free_step_insert [OF A]\<close>)
    with new ls show ?thesis by (simp add: outcome_def log_read_impl_def)
  qed
qed

section \<open>Publishing a file\<close>

text \<open>The files are now \<open>f\<close>; heap, backend state and directories are as they were; closing files works.\<close>

definition env_files :: "log_world \<Rightarrow> (path \<Rightarrow> bytes option) \<Rightarrow> log_world \<Rightarrow> bool" where
  "env_files w f w' \<longleftrightarrow> w_heap w' = w_heap w \<and> le_impl (w_env w') = le_impl (w_env w) \<and>
     (\<forall>d. fs_dirs (w_fs w') d = None \<longleftrightarrow> fs_dirs (w_fs w) d = None) \<and> fs_lookup (w_fs w') = f \<and>
     fs_close_fail (w_fs w') = [] \<and> (fs_fail (w_fs w) = [] \<longrightarrow> fs_fail (w_fs w') = [])"

lemma env_files_refl: "fs_close_fail (w_fs w) = [] \<Longrightarrow> env_files w (fs_lookup (w_fs w)) w"
  by (simp add: env_files_def)

lemma env_files_write:
  "env_files w f v \<Longrightarrow> fs_dirs (w_fs w) (fst p) \<noteq> None \<Longrightarrow> env_files w (f(p \<mapsto> bs)) (upd_fs (fs_write p bs) v)"
  by (auto simp: env_files_def fs_lookup_write fun_eq_iff)

lemma env_files_remove: "env_files w f v \<Longrightarrow> env_files w (f(p := None)) (upd_fs (fs_remove p) v)"
  by (auto simp: env_files_def fs_lookup_remove fun_eq_iff)

lemma env_files_close:
  "env_files w f v \<Longrightarrow> fs_dirs (w_fs w) (fst p) \<noteq> None \<Longrightarrow> env_files w (f(p \<mapsto> bs)) (fclose_unwritten p bs v)"
  by (auto simp: env_files_def fclose_unwritten_def Let_def fs_lookup_write fun_eq_iff)

lemma env_files_io:
  assumes "env_files w f v"
  shows "outcome (io_try msg) (\<lambda>_ v'. env_files w f v') (\<lambda>e v'. env_files w f v' \<and> env_error rel w e) v"
  using io_try_outcome
proof (rule outcome_mono)
  fix u v' assume k: "env_kept v v' \<and> w_heap v' = w_heap v"
  with assms env_kept_lookup show "env_files w f v'" by (auto simp: env_files_def env_kept_def)
next
  fix e v' assume k: "env_kept v v' \<and> w_heap v' = w_heap v \<and> fs_fail (w_fs v) \<noteq> [] \<and> (\<exists>m. e = VErr VICARL_ERR_IO (Some m))"
  with assms env_kept_lookup show "env_files w f v' \<and> env_error rel w e"
    by (auto simp: env_files_def env_kept_def env_error_def quiet_def)
qed

lemma outcome_files_io:
  assumes "env_files w f v" "\<And>v'. env_files w f v' \<Longrightarrow> outcome (g ()) Q E v'"
    and "\<And>e v'. env_files w f v' \<Longrightarrow> env_error rel w e \<Longrightarrow> E e v'"
  shows "outcome (bindr (io_try msg) g) Q E v"
  by (rule outcome_bindr, rule outcome_mono [OF env_files_io [OF assms(1), where rel = rel]]) (use assms(2,3) in auto)

lemma fopen_wb_outcome:
  assumes "env_files w f v" "fs_dirs (w_fs w) (fst p) \<noteq> None"
  shows "outcome (fopen_wb p) (\<lambda>_ v'. env_files w (f(p \<mapsto> [])) v') (\<lambda>e v'. env_files w f v' \<and> env_error rel w e) v"
  unfolding fopen_wb_def
proof (rule outcome_files_io [OF assms(1), where rel = rel])
  fix v' assume v': "env_files w f v'"
  then have "fs_dirs (w_fs v') (fst p) \<noteq> None" using assms(2) by (simp add: env_files_def)
  with env_files_write [OF v' assms(2)] show "outcome (\<lambda>w. if fs_dirs (w_fs w) (fst p) = None then ioerrf ''log_append_segment fopen(tmp) failed'' w
       else (Inr (), upd_fs (fs_write p []) w)) (\<lambda>_ v'. env_files w (f(p \<mapsto> [])) v')
     (\<lambda>e v'. env_files w f v' \<and> env_error rel w e) v'"
    by (auto simp: outcome_def)
qed simp

lemma rename_outcome:
  assumes "env_files w f v" "f old = Some bs" "fs_dirs (w_fs w) (fst new) \<noteq> None" "old \<noteq> new"
  shows "outcome (rename_file old new) (\<lambda>_ v'. env_files w (f(old := None, new \<mapsto> bs)) v')
    (\<lambda>e v'. env_files w f v' \<and> env_error rel w e) v"
  unfolding rename_file_def
proof (rule outcome_files_io [OF assms(1), where rel = rel])
  fix v' assume v': "env_files w f v'"
  have "upd_fs (\<lambda>fs. fs_write new bs (fs_remove old fs)) v' = upd_fs (fs_write new bs) (upd_fs (fs_remove old) v')"
    by (simp add: upd_fs_def)
  moreover have "fs_lookup (w_fs v') old = Some bs" using v' assms(2) by (simp add: env_files_def)
  ultimately show "outcome (\<lambda>w. case fs_lookup (w_fs w) old of
          None \<Rightarrow> ioerrf ''log_append_segment rename failed'' w
        | Some bs \<Rightarrow> (Inr (), upd_fs (\<lambda>fs. fs_write new bs (fs_remove old fs)) w))
      (\<lambda>_ v'. env_files w (f(old := None, new \<mapsto> bs)) v') (\<lambda>e v'. env_files w f v' \<and> env_error rel w e) v'"
    using env_files_write [OF env_files_remove [OF v', of old] assms(3), of bs] by (simp add: outcome_def)
qed simp

lemma fsync_outcome:
  assumes v: "env_files w f v" and d: "fs_dirs (w_fs w) (fst p) \<noteq> None" and fp: "f = f0(p \<mapsto> [])"
  shows "outcome (fsync_file p bs) (\<lambda>_ v'. env_files w (f0(p \<mapsto> bs)) v')
    (\<lambda>e v'. (\<exists>c. env_files w (f0(p \<mapsto> c)) v') \<and> env_error rel w e) v"
proof -
  have step: "env_files w (f0(p \<mapsto> bs)) (upd_fs (fs_write p bs) v')" if "env_files w f v'" for v'
    using env_files_write [OF that d, of bs] by (simp add: fp)
  show ?thesis
    unfolding fsync_file_def
    apply (rule outcome_files_io [OF v, where rel = rel])
     apply (rule outcome_bindr, simp add: outcome_def [of "\<lambda>w. (Inr (), upd_fs _ w)"])
     apply (drule step)
     apply (rule outcome_files_io [where rel = rel], assumption)
      apply (rule outcome_mono [OF env_files_io [where rel = rel]], assumption, assumption, blast)
     apply blast
    apply (use fp in blast)
    done
qed

lemma log_publish_outcome:
  assumes c: "fs_close_fail (w_fs w) = []" and d: "fs_dirs (w_fs w) (fst tmp) \<noteq> None" "fst final = fst tmp"
    and ne: "tmp \<noteq> final"
  shows "outcome (log_publish opt tmp final bs)
    (\<lambda>_ w'. env_files w ((fs_lookup (w_fs w))(tmp := None, final \<mapsto> bs)) w')
    (\<lambda>e w'. (\<exists>c. env_files w ((fs_lookup (w_fs w))(tmp := c)) w') \<and> env_error rel w e) w"
    (is "outcome _ ?Q ?E w")
proof -
  let ?f = "fs_lookup (w_fs w)"
  have kept: "env_files w (?f(tmp := ?f tmp)) v" if "env_files w ?f v" for v using that by simp
  have gone: "?E e (upd_fs (fs_remove tmp) v)" if "env_files w (?f(tmp := c)) v" "env_error rel w e" for e v c
    using env_files_remove [OF that(1), of tmp] that(2) by auto
  have closed: "?E e (upd_fs (fs_remove tmp) (fclose_unwritten tmp b v))"
    if "env_files w (?f(tmp := c)) v" "env_error rel w e" for e v c b
    using gone [OF _ that(2), of "Some b" "fclose_unwritten tmp b v"] env_files_close [OF that(1) d(1), of b] by simp
  have ren: "outcome (on_error (upd_fs (fs_remove tmp)) (rename_file tmp final)) ?Q ?E v"
    if v: "env_files w (?f(tmp \<mapsto> bs)) v" for v
    by (rule outcome_on_error, rule outcome_mono [OF rename_outcome [OF v, where rel = rel and bs = bs]])
       (use d ne gone in auto)
  have sync: "outcome (if fsync_on_commit opt \<noteq> 0
         then on_error (\<lambda>w. upd_fs (fs_remove tmp) (fclose_unwritten tmp bs w)) (fsync_file tmp bs)
         else (\<lambda>w. (Inr (), fclose_unwritten tmp bs w))) (\<lambda>_ v. env_files w (?f(tmp \<mapsto> bs)) v) ?E v"
    if v: "env_files w (?f(tmp \<mapsto> [])) v" for v
  proof (cases "fsync_on_commit opt \<noteq> 0")
    case True
    have "outcome (on_error (\<lambda>w. upd_fs (fs_remove tmp) (fclose_unwritten tmp bs w)) (fsync_file tmp bs))
        (\<lambda>_ v. env_files w (?f(tmp \<mapsto> bs)) v) ?E v"
      by (rule outcome_on_error, rule outcome_mono [OF fsync_outcome [OF v d(1) refl, where rel = rel]])
         (use closed in blast)+
    with True show ?thesis by simp
  next
    case False
    with env_files_close [OF v d(1), of bs] show ?thesis by (simp add: outcome_def)
  qed
  have wr: "outcome (on_error (\<lambda>w. upd_fs (fs_remove tmp) (fclose_unwritten tmp [] w)) (io_try msg))
      (\<lambda>_ v. env_files w (?f(tmp \<mapsto> [])) v) ?E v" if v: "env_files w (?f(tmp \<mapsto> [])) v" for v msg
    by (rule outcome_on_error, rule outcome_mono [OF env_files_io [OF v, where rel = rel]]) (use closed in blast)+
  show ?thesis
    unfolding log_publish_def
    apply (rule outcome_bindr, rule outcome_mono [OF fopen_wb_outcome [OF env_files_refl [OF c] d(1), where rel = rel]])
     apply (rule outcome_bindr, rule outcome_mono [OF wr], assumption)
      apply (rule outcome_bindr, rule outcome_mono [OF sync], assumption)
       apply (erule ren)
      apply assumption+
    apply (use kept in blast)
    done
qed

section \<open>The log store is a segment store\<close>

text \<open>The first reads of a segment that decodes.\<close>

lemma segment_spec_reads:
  assumes wf: "slice_wf enc" and spec: "segment_spec (slice_bytes enc) = Inr (hdr, rs, hs, sig)"
  obtains r2 fl r3 r4 ps r5 where "\<not> sl_len enc < 6" "sl_ptr enc \<noteq> None" "get_magic (rbuf_of_slice enc) = (Inr VICARL_SEG_MAGIC, r2)"
    "vicarl_rbuf_get_u8 r2 = (Inr fl, r3)" "vicarl_rbuf_get_varu64 r3 = (Inr (segment_no hdr), r4)"
    "vicarl_rbuf_get_bytes 32 r4 = (Inr ps, r5)" "slice_bytes ps = prev_segment_hash hdr"
proof -
  let ?bs = "slice_bytes enc"
  let ?r = "vicarl_rbuf_init ?bs (length ?bs)"
  have len: "sl_len enc = length ?bs" using wf by (simp add: slice_wf_length)
  obtain flags r1 where h: "segment_head ?r = (Inr (flags, hdr), r1)"
    using spec by (auto simp: segment_spec_def split: if_splits prod.splits sum.splits)
  then obtain m r2 fl r3 no r4 ps r5 where
    steps: "get_magic ?r = (Inr m, r2)" "m = VICARL_SEG_MAGIC" "vicarl_rbuf_get_u8 r2 = (Inr fl, r3)"
      "vicarl_rbuf_get_varu64 r3 = (Inr no, r4)" "vicarl_rbuf_get_bytes 32 r4 = (Inr ps, r5)"
    and no: "segment_no hdr = no" "prev_segment_hash hdr = slice_bytes ps"
    unfolding segment_head_def
    by (auto simp: vm_Inr_iff guardr_run retr_def split: if_splits)
  have r2: "rbuf_wf r2 \<and> length (unread r2) \<le> length ?bs"
    using reader_safeD_Inr [OF reader_safe_get_magic rbuf_wf_init steps(1)] rbuf_skip_wf [OF rbuf_wf_init [of ?bs]] by auto
  have r3: "rbuf_wf r3 \<and> length (unread r3) \<le> length ?bs"
    using reader_safeD_Inr [OF reader_safe_get_u8 _ steps(3)] r2 rbuf_skip_wf [of r2] by force
  have r4: "rbuf_wf r4 \<and> length (unread r4) \<le> length ?bs"
    using reader_safeD_Inr [OF reader_safe_get_varu64 _ steps(4)] r3 rbuf_skip_wf [of r3] by force
  have "32 \<le> length (unread r4)" using outcome_Inr [OF get_bytes_cases steps(5)] r4 by simp
  with r4 have big: "\<not> sl_len enc < 6" "\<not> length ?bs < 6" using len by auto
  have ptr: "sl_ptr enc \<noteq> None"
  proof
    assume "sl_ptr enc = None"
    then have "?bs = []" by (simp add: slice_bytes_def)
    with big(2) show False by simp
  qed
  have "rbuf_of_slice enc = ?r" by (simp add: rbuf_of_slice_def len)
  with big ptr steps no show ?thesis by (intro that) simp_all
qed

lemma peek_of_segment:
  assumes "slice_wf enc" "segment_spec (slice_bytes enc) = Inr (hdr, rs, hs, sig)"
  shows "peek_segment_no enc = Inr (segment_no hdr)"
  using assms
  by (rule segment_spec_reads) (auto simp: peek_segment_no_def bindr_Inr rethrow_Inr VICARL_SEG_MAGIC_def bindr_retr)

definition log_own :: "log_world \<Rightarrow> addr set" where
  "log_own w = (case le_impl (w_env w) of None \<Rightarrow> {} | Some ls \<Rightarrow> insert (ls_ptr ls) (set_option (ls_dir_ptr ls)))"

definition seg_file :: "log_world \<Rightarrow> log_store \<Rightarrow> nat \<Rightarrow> bytes option" where
  "seg_file w ls i = fs_lookup (w_fs w) (ls_dir ls, seg_filename (of_nat i))"

text \<open>The segments the store has: the contents of the files numbered one to the tip.\<close>

definition log_chain :: "log_world \<Rightarrow> bytes list" where
  "log_chain w =
     (case le_impl (w_env w) of
        None \<Rightarrow> []
      | Some ls \<Rightarrow> map (\<lambda>i. the (seg_file w ls (Suc i))) [0..<unat (ls_tip_no ls)])"

definition log_state_ok :: "log_world \<Rightarrow> log_store \<Rightarrow> bool" where
  "log_state_ok w ls \<longleftrightarrow>
     (\<exists>q. ls_dir_ptr ls = Some q \<and> q \<noteq> ls_ptr ls) \<and>
     fs_dirs (w_fs w) (ls_dir ls) \<noteq> None \<and> unat (ls_tip_no ls) + 1 < size_mod \<and>
     (ls_has_tip ls \<longleftrightarrow> ls_tip_no ls \<noteq> 0) \<and>
     (\<forall>i < unat (ls_tip_no ls). \<exists>bs. seg_file w ls (Suc i) = Some bs \<and> length bs < seg_limit) \<and>
     (ls_has_tip ls \<longrightarrow> seg_file w ls (unat (ls_tip_no ls)) \<noteq> None \<and>
        ls_tip_hash ls = sha256 (the (seg_file w ls (unat (ls_tip_no ls))))) \<and>
     (\<forall>name k. fs_lookup (w_fs w) (ls_dir ls, name) \<noteq> None \<longrightarrow> is_seg_name name = Some k \<longrightarrow> k \<le> ls_tip_no ls)"

definition log_inv :: "(heap \<Rightarrow> bool) \<Rightarrow> log_world \<Rightarrow> bool" where
  "log_inv ok w \<longleftrightarrow> ok (w_heap w) \<and> fs_close_fail (w_fs w) = [] \<and> log_own w \<subseteq> hp_live (w_heap w) \<and>
     (\<exists>ls. le_impl (w_env w) = Some ls \<and> log_state_ok w ls)"

definition log_handle :: "vicarl_allocator \<Rightarrow> addr \<Rightarrow> vicarl_store_options \<Rightarrow> (log_env, 'u) vicarl_store option" where
  "log_handle A p opt = Some \<lparr>st_ptr = p, st_vt = Some (LOG_VT A), st_opt = opt\<rparr>"

lemma log_handle_ops [simp]:
  "vicarl_store_tip (log_handle A p opt) out w = log_tip out w"
  "vicarl_store_read_segment (log_handle A p opt) no out w = log_read_segment A no out w"
  "vicarl_store_append_segment (log_handle A p opt) enc out w = log_append_segment A opt enc out w"
  by (simp_all add: log_handle_def vicarl_store_tip_def vicarl_store_read_segment_def
      vicarl_store_append_segment_def vt_fun_def LOG_VT_def)

lemma log_invE:
  assumes "log_inv ok w"
  obtains ls where "ok (w_heap w)" "fs_close_fail (w_fs w) = []" "log_own w \<subseteq> hp_live (w_heap w)"
    "le_impl (w_env w) = Some ls" "log_state_ok w ls"
  using assms by (auto simp: log_inv_def)

lemma seg_file_kept: "env_kept w w' \<Longrightarrow> seg_file w' ls = seg_file w ls"
  by (simp add: seg_file_def fun_eq_iff env_kept_lookup)

lemma log_kept:
  assumes "log_inv ok w" "env_kept w w'" "ok (w_heap w')" "log_own w \<subseteq> hp_live (w_heap w')"
  shows "log_inv ok w' \<and> log_own w' = log_own w \<and> log_chain w' = log_chain w \<and> (quiet rel w \<longrightarrow> quiet rel w')"
proof -
  have i: "le_impl (w_env w') = le_impl (w_env w)" "fs_dirs (w_fs w') = fs_dirs (w_fs w)"
    "fs_close_fail (w_fs w') = fs_close_fail (w_fs w)" "fs_fail (w_fs w) = [] \<longrightarrow> fs_fail (w_fs w') = []"
    using assms(2) by (auto simp: env_kept_def)
  note sf = seg_file_kept [OF assms(2)]
  from i(1) have "log_own w' = log_own w" "log_chain w' = log_chain w"
    by (simp_all add: log_own_def log_chain_def sf split: option.split)
  with assms i sf env_kept_lookup [OF assms(2)] show ?thesis by (auto simp: log_inv_def log_state_ok_def quiet_def)
qed

lemma log_chain_nth:
  "le_impl (w_env w) = Some ls \<Longrightarrow> 0 < no \<Longrightarrow> no \<le> length (log_chain w) \<Longrightarrow>
     log_chain w ! (no - 1) = the (seg_file w ls no)"
  by (cases no) (simp_all add: log_chain_def)

lemma log_chain_length: "le_impl (w_env w) = Some ls \<Longrightarrow> length (log_chain w) = unat (ls_tip_no ls)"
  by (simp add: log_chain_def)

lemma log_chain_last:
  assumes "le_impl (w_env w) = Some ls" "log_state_ok w ls" "ls_has_tip ls"
  shows "log_chain w \<noteq> [] \<and> last (log_chain w) = the (seg_file w ls (unat (ls_tip_no ls)))"
proof -
  have pos: "0 < unat (ls_tip_no ls)" using assms(2,3) by (simp add: log_state_ok_def unat_gt_0)
  with log_chain_length [OF assms(1)] have "log_chain w \<noteq> []" by auto
  with log_chain_nth [OF assms(1) pos] log_chain_length [OF assms(1)] show ?thesis by (simp add: last_conv_nth)
qed

lemma log_chain_ok: "le_impl (w_env w) = Some ls \<Longrightarrow> log_state_ok w ls \<Longrightarrow> chain_ok (log_chain w)"
  by (fastforce simp: chain_ok_def log_state_ok_def log_chain_def)

lemma log_tip_law:
  assumes "log_inv ok w"
  shows "log_tip True w = (if log_chain w = [] then (Inl (VErr VICARL_ERR_NOT_FOUND None), w)
    else (Inr (of_nat (length (log_chain w)), sha256 (last (log_chain w))), w))"
proof -
  obtain ls where ls: "le_impl (w_env w) = Some ls" "log_state_ok w ls" using assms by (rule log_invE)
  show ?thesis
  proof (cases "ls_has_tip ls")
    case True
    with log_chain_last [OF ls True] ls log_chain_length [OF ls(1)] show ?thesis
      by (auto simp: log_tip_def log_state_ok_def)
  next
    case False
    with ls log_chain_length [OF ls(1)] show ?thesis by (auto simp: log_tip_def log_state_ok_def)
  qed
qed

lemma log_read_law:
  assumes A: "alloc_rel A ok rel" and w: "log_inv ok w" and no: "0 < no" "no \<le> length (log_chain w)"
  shows "outcome (log_read_segment A (of_nat no) True)
    (\<lambda>b w'. holds_bytes b (log_chain w ! (no - 1)) \<and> own_bytes b \<inter> hp_live (w_heap w) = {} \<and>
       log_chain w' = log_chain w \<and> kept ok (log_inv ok) log_own (quiet rel) w (hp_live (w_heap w) \<union> own_bytes b) w')
    (\<lambda>e w'. \<not> quiet rel w \<and> status_of (Inl e :: unit res) \<notin> {None, Some VICARL_ERR_NOT_FOUND} \<and> log_chain w' = log_chain w \<and>
       kept ok (log_inv ok) log_own (quiet rel) w (hp_live (w_heap w)) w') w"
proof -
  obtain ls where inv: "ok (w_heap w)" "log_own w \<subseteq> hp_live (w_heap w)" "le_impl (w_env w) = Some ls" "log_state_ok w ls"
    using w by (rule log_invE)
  obtain q where q: "ls_dir_ptr ls = Some q" using inv(4) by (auto simp: log_state_ok_def)
  obtain i where i: "no = Suc i" "i < unat (ls_tip_no ls)"
    using no log_chain_length [OF inv(3)] by (cases no) auto
  then obtain bs where bs: "seg_file w ls no = Some bs" using inv(4) by (auto simp: log_state_ok_def)
  then have nth: "log_chain w ! (no - 1) = bs" using log_chain_nth [OF inv(3) no] by simp
  note rd = log_read_impl_outcome [OF A inv(1) q bs [unfolded seg_file_def]]
  have "outcome (log_read_impl A (Some ls) (of_nat no))
    (\<lambda>b w'. holds_bytes b bs \<and> own_bytes b \<inter> hp_live (w_heap w) = {} \<and>
       log_chain w' = log_chain w \<and> kept ok (log_inv ok) log_own (quiet rel) w (hp_live (w_heap w) \<union> own_bytes b) w')
    (\<lambda>e w'. \<not> quiet rel w \<and> status_of (Inl e :: unit res) \<notin> {None, Some VICARL_ERR_NOT_FOUND} \<and> log_chain w' = log_chain w \<and>
       kept ok (log_inv ok) log_own (quiet rel) w (hp_live (w_heap w)) w') w"
  proof (rule outcome_mono [OF rd])
    fix b w' assume "env_kept w w' \<and> holds_bytes b bs \<and> own_bytes b \<inter> hp_live (w_heap w) = {} \<and>
       heap_to ok (w_heap w) (hp_live (w_heap w) \<union> own_bytes b) (w_heap w')"
    then show "holds_bytes b bs \<and> own_bytes b \<inter> hp_live (w_heap w) = {} \<and>
       log_chain w' = log_chain w \<and> kept ok (log_inv ok) log_own (quiet rel) w (hp_live (w_heap w) \<union> own_bytes b) w'"
      using log_kept [OF w, of w' rel] inv(2) by (auto simp: kept_def heap_to_def)
  next
    fix e w' assume "env_kept w w' \<and> heap_to ok (w_heap w) (hp_live (w_heap w)) (w_heap w') \<and> env_error rel w e"
    then show "\<not> quiet rel w \<and> status_of (Inl e :: unit res) \<notin> {None, Some VICARL_ERR_NOT_FOUND} \<and> log_chain w' = log_chain w \<and>
       kept ok (log_inv ok) log_own (quiet rel) w (hp_live (w_heap w)) w'"
      using log_kept [OF w, of w' rel] inv(2) by (auto simp: kept_def heap_to_def env_error_def fail_with_def)
  qed
  then show ?thesis unfolding nth by (simp add: outcome_def log_read_segment_def inv(3))
qed

text \<open>Publishing the file of the next number extends the chain.\<close>

lemma log_published:
  assumes ls: "le_impl (w_env w) = Some ls" "log_state_ok w ls" and own: "log_own w \<subseteq> hp_live h"
    and no: "no = of_nat (Suc (unat (ls_tip_no ls)))" "unat (ls_tip_no ls) + 2 < size_mod"
    and bs: "length bs < seg_limit" and okh: "ok h"
    and v: "env_files w1 ((fs_lookup (w_fs w))((ls_dir ls, seg_tmp_filename no) := None, (ls_dir ls, seg_filename no) \<mapsto> bs)) v"
    and w1: "w_env w1 = w_env w" and fin: "w_env w' = w_env (set_impl (Some (ls\<lparr>ls_tip_no := no, ls_tip_hash := sha256 bs, ls_has_tip := True\<rparr>)) v)"
    "w_heap w' = h"
  shows "log_inv ok w' \<and> log_own w' = log_own w \<and> log_chain w' = log_chain w @ [bs] \<and> (quiet rel w \<longrightarrow> quiet rel w')"
proof -
  let ?ls = "ls\<lparr>ls_tip_no := no, ls_tip_hash := sha256 bs, ls_has_tip := True\<rparr>" and ?n = "unat (ls_tip_no ls)"
  have un: "unat no = Suc ?n" using no by (metis unat_of_nat_u64 add_2_eq_Suc' Suc_lessD)
  have fs: "w_fs w1 = w_fs w" using w1 by (simp add: w_fs_def)
  have impl: "le_impl (w_env w') = Some ?ls" and fsw: "w_fs w' = w_fs v" using fin(1) by (simp_all add: w_fs_def set_impl_def)
  have old: "seg_file w' ?ls (Suc i) = seg_file w ls (Suc i)" if "i < ?n" for i
  proof -
    have "of_nat (Suc i) \<noteq> no" using un that no(2) by (metis unat_of_nat_u64 Suc_inject less_irrefl Suc_lessD add_2_eq_Suc' less_trans_Suc)
    then show ?thesis
      using v by (auto simp: seg_file_def fsw env_files_def seg_filename_inject tmp_not_seg [symmetric])
  qed
  have new: "seg_file w' ?ls (Suc ?n) = Some bs"
    using v no(1) by (simp add: seg_file_def fsw env_files_def)
  have "log_chain w' = log_chain w @ [bs]"
    using old new by (simp add: log_chain_def impl ls(1) un)
  moreover have "log_own w' = log_own w" by (simp add: log_own_def impl ls(1))
  moreover have names: "k \<le> no" if "fs_lookup (w_fs w') (ls_dir ls, name) \<noteq> None" "is_seg_name name = Some k" for name k
  proof (cases "name = seg_filename no")
    case True
    with that(2) show ?thesis by (simp add: is_seg_name_filename)
  next
    case False
    with that v have "fs_lookup (w_fs w) (ls_dir ls, name) \<noteq> None"
      by (auto simp: fsw env_files_def split: if_splits)
    with that(2) ls(2) have "k \<le> ls_tip_no ls" by (auto simp: log_state_ok_def)
    with un show ?thesis by (simp add: word_le_nat_alt)
  qed
  moreover have "log_state_ok w' ?ls"
    using ls(2) no(2) old new bs un v fs names
    by (auto simp: log_state_ok_def fsw env_files_def less_Suc_eq unat_gt_0 [symmetric])
  ultimately show ?thesis
    using own okh v fin(2) impl fs by (auto simp: log_inv_def quiet_def fsw env_files_def)
qed

lemma log_not_published:
  assumes w: "log_inv ok w" and ls: "le_impl (w_env w) = Some ls" and okh: "ok h" and own: "log_own w \<subseteq> hp_live h"
    and v: "env_files w1 ((fs_lookup (w_fs w))((ls_dir ls, seg_tmp_filename no) := c)) v" and w1: "w_env w1 = w_env w"
    and fin: "w_env w' = w_env v" "w_heap w' = h"
  shows "log_inv ok w' \<and> log_own w' = log_own w \<and> log_chain w' = log_chain w \<and> (quiet rel w \<longrightarrow> quiet rel w')"
proof -
  have fs: "w_fs w1 = w_fs w" "w_fs w' = w_fs v" using w1 fin by (simp_all add: w_fs_def)
  have impl: "le_impl (w_env w') = Some ls" using v w1 fin ls by (simp add: env_files_def)
  have st: "log_state_ok w ls" using w ls by (auto simp: log_inv_def)
  have same: "seg_file w' ls i = seg_file w ls i" for i
    using v tmp_not_seg [of no "of_nat i"] by (auto simp: seg_file_def fs env_files_def)
  have "log_chain w' = log_chain w" "log_own w' = log_own w" by (simp_all add: log_chain_def log_own_def impl ls same)
  moreover have names: "k \<le> ls_tip_no ls" if "fs_lookup (w_fs w') (ls_dir ls, name) \<noteq> None" "is_seg_name name = Some k" for name k
  proof -
    have "name \<noteq> seg_tmp_filename no" using that(2) by (auto simp: is_seg_name_tmp)
    with that v have "fs_lookup (w_fs w) (ls_dir ls, name) \<noteq> None" by (auto simp: fs env_files_def split: if_splits)
    with that(2) st show ?thesis by (auto simp: log_state_ok_def)
  qed
  moreover have "log_state_ok w' ls" using st v names by (auto simp: log_state_ok_def same fs env_files_def)
  ultimately show ?thesis using own okh v fin(2) impl by (auto simp: log_inv_def quiet_def fs env_files_def)
qed

lemma log_store_outcome:
  assumes w: "log_inv ok w" and ls: "le_impl (w_env w) = Some ls" and bs: "length bs < seg_limit"
    and room: "length (log_chain w) + 2 < size_mod" and no: "no = of_nat (Suc (length (log_chain w)))"
    and fr: "heap_to ok (w_heap w) (hp_live (w_heap w)) (frees h)"
  shows "outcome (finally_do (upd_heap frees) (bindr (log_publish opt (ls_dir ls, seg_tmp_filename no) (ls_dir ls, seg_filename no) bs)
      (\<lambda>_ w'. (Inr (no, sha256 bs), set_impl (Some (ls\<lparr>ls_tip_no := no, ls_tip_hash := sha256 bs, ls_has_tip := True\<rparr>)) w'))))
    (\<lambda>r w'. r = (no, sha256 bs) \<and> log_chain w' = log_chain w @ [bs] \<and> kept ok (log_inv ok) log_own (quiet rel) w (hp_live (w_heap w)) w')
    (\<lambda>e w'. \<not> quiet rel w \<and> log_chain w' = log_chain w \<and> kept ok (log_inv ok) log_own (quiet rel) w (hp_live (w_heap w)) w') (w\<lparr>w_heap := h\<rparr>)"
    (is "outcome (finally_do _ (bindr _ ?tip)) ?Q ?E ?w1")
proof -
  let ?fin = "(ls_dir ls, seg_filename no)" and ?tmp = "(ls_dir ls, seg_tmp_filename no)"
  have st: "log_state_ok w ls" and own: "log_own w \<subseteq> hp_live (w_heap w)" and n: "length (log_chain w) = unat (ls_tip_no ls)"
    using w ls log_chain_length [OF ls] by (auto simp: log_inv_def)
  have pub: "outcome (log_publish opt ?tmp ?fin bs)
    (\<lambda>_ w'. env_files ?w1 ((fs_lookup (w_fs w))(?tmp := None, ?fin \<mapsto> bs)) w')
    (\<lambda>e w'. (\<exists>c. env_files ?w1 ((fs_lookup (w_fs w))(?tmp := c)) w') \<and> \<not> quiet rel w) ?w1"
    by (rule outcome_mono [OF log_publish_outcome [where w = ?w1 and rel = rel]])
       (use w st tmp_not_seg in \<open>auto simp: log_inv_def log_state_ok_def env_error_def quiet_def\<close>)
  show ?thesis
  proof (rule outcome_finally, rule outcome_bindr, rule outcome_mono [OF pub])
    fix u :: unit and v assume v: "env_files ?w1 ((fs_lookup (w_fs w))(?tmp := None, ?fin \<mapsto> bs)) v"
    let ?w' = "upd_heap frees (snd (?tip u v))"
    have hv: "w_heap v = h" using v by (simp add: env_files_def)
    have "log_inv ok ?w' \<and> log_own ?w' = log_own w \<and> log_chain ?w' = log_chain w @ [bs] \<and> (quiet rel w \<longrightarrow> quiet rel ?w')"
      by (rule log_published [OF ls st _ _ _ bs _ v, where h = "frees h"]) (use fr own no n room hv in \<open>auto simp: heap_to_def\<close>)
    with fr hv show "outcome (?tip u) (\<lambda>x s. ?Q x (upd_heap frees s)) (\<lambda>e s. ?E e (upd_heap frees s)) v"
      by (simp add: outcome_def kept_def)
  next
    fix e v assume "(\<exists>c. env_files ?w1 ((fs_lookup (w_fs w))(?tmp := c)) v) \<and> \<not> quiet rel w"
    then obtain c where v: "env_files ?w1 ((fs_lookup (w_fs w))(?tmp := c)) v" and e: "\<not> quiet rel w" by blast
    have hv: "w_heap v = h" using v by (simp add: env_files_def)
    have "log_inv ok (upd_heap frees v) \<and> log_own (upd_heap frees v) = log_own w \<and>
        log_chain (upd_heap frees v) = log_chain w \<and> (quiet rel w \<longrightarrow> quiet rel (upd_heap frees v))"
      by (rule log_not_published [OF w ls _ _ v, where h = "frees h"]) (use fr own hv in \<open>auto simp: heap_to_def\<close>)
    with fr hv e show "?E e (upd_heap frees v)" by (simp add: kept_def)
  qed
qed

lemma two_path_joinsE:
  assumes A: "alloc_rel A ok rel" and h: "ok h"
  obtains (fail) fp h1 tp h2 where "path_join A d f h = (fp, h1)" "path_join A d t h1 = (tp, h2)" "fp = None \<or> tp = None" "\<not> rel"
      "heap_to ok h (hp_live h) (vicarl__free A (map_option fst tp) (vicarl__free A (map_option fst fp) h2))"
  | (new) fa h1 ta h2 where "path_join A d f h = (Some (fa, (d, f)), h1)" "path_join A d t h1 = (Some (ta, (d, t)), h2)"
      "heap_to ok h (hp_live h) (vicarl__free A (Some ta) (vicarl__free A (Some fa) h2))"
  using A heap_to_refl [of ok h, OF h]
proof (cases rule: path_join_stepE [where a = d and b = f])
  case f: (fail h1)
  from A f(3) show ?thesis
  proof (cases rule: path_join_stepE [where a = d and b = t])
    case (fail h2)
    with f show ?thesis by (intro that(1)) auto
  next
    case (new ta h2)
    with f free_step_insert [OF A new(3,2)] show ?thesis by (intro that(1)) auto
  qed
next
  case f: (new fa h1)
  from A f(3) show ?thesis
  proof (cases rule: path_join_stepE [where a = d and b = t])
    case (fail h2)
    with f free_step_insert [OF A fail(3) f(2)] show ?thesis by (intro that(1)) auto
  next
    case (new ta h2)
    with f free_step_insert [OF A free_step_insert2 [OF A new(3) f(2)]] show ?thesis by (intro that(2)) auto
  qed
qed

lemma log_append_law:
  assumes A: "alloc_rel A ok rel" and w: "log_inv ok w" and enc: "slice_wf enc" "sl_len enc < seg_limit"
    and room: "length (log_chain w) + 2 < size_mod"
  shows "outcome (log_append_segment A opt enc True)
    (\<lambda>r w'. r = (of_nat (length (log_chain w) + 1), sha256 (slice_bytes enc)) \<and>
       log_chain w' = log_chain w @ [slice_bytes enc] \<and>
       kept ok (log_inv ok) log_own (quiet rel) w (hp_live (w_heap w)) w')
    (\<lambda>e w'. \<not> (quiet rel w \<and> next_segment (log_chain w) (slice_bytes enc)) \<and> log_chain w' = log_chain w \<and>
       kept ok (log_inv ok) log_own (quiet rel) w (hp_live (w_heap w)) w') w"
    (is "outcome _ ?Q ?E w")
proof -
  let ?bs = "slice_bytes enc" and ?n = "length (log_chain w)"
  obtain ls where inv: "ok (w_heap w)" "log_own w \<subseteq> hp_live (w_heap w)" "le_impl (w_env w) = Some ls" "log_state_ok w ls"
    using w by (rule log_invE)
  obtain q where q: "ls_dir_ptr ls = Some q" using inv(4) by (auto simp: log_state_ok_def)
  have exp: "(if ls_has_tip ls then ls_tip_no ls + 1 else 1) = of_nat (Suc ?n)"
    using inv(4) by (auto simp: log_state_ok_def log_chain_length [OF inv(3)])
  have sha: "vicarl__sha256 enc True = Inr (sha256 ?bs)" using enc(1) by (rule vicarl__sha256_wf)
  have lbs: "length ?bs < seg_limit" using enc by (simp add: slice_wf_length)
  note run = log_append_segment_def inv(3) q slice_wf_not_bad [OF enc(1)] exp sha
  show ?thesis
  proof (cases "peek_segment_no enc = Inr (of_nat (Suc ?n))")
    case False
    then have "\<not> next_segment (log_chain w) ?bs" using peek_of_segment [OF enc(1)] by (auto simp: next_segment_def)
    then have "?E e w" for e using inv w by (simp add: kept_def heap_to_refl)
    with False show ?thesis by (cases "peek_segment_no enc") (simp_all add: outcome_def run Let_def del: of_nat_Suc)
  next
    case no: True
    from A inv(1) show ?thesis
    proof (cases rule: two_path_joinsE [where d = "ls_dir ls" and f = "seg_filename (of_nat (Suc ?n))" and t = "seg_tmp_filename (of_nat (Suc ?n))"])
      case (fail fp h1 tp h2)
      let ?h = "vicarl__free A (map_option fst tp) (vicarl__free A (map_option fst fp) h2)"
      have "?E err_oom (w\<lparr>w_heap := ?h\<rparr>)"
        using fail(4,5) log_kept [OF w, of "w\<lparr>w_heap := ?h\<rparr>" rel] inv(2) by (auto simp: kept_def quiet_def heap_to_def)
      with fail(1-3) no show ?thesis by (auto simp: outcome_def run Let_def simp del: of_nat_Suc split: option.splits)
    next
      case (new fa h1 ta h2)
      note store = log_store_outcome
        [where h = h2 and frees = "\<lambda>h. vicarl__free A (Some ta) (vicarl__free A (Some fa) h)", OF w inv(3) lbs room refl new(3), of opt rel]
      show ?thesis
        by (rule outcome_run [OF _ outcome_mono [OF store]]) (use new(1,2) no in \<open>simp_all add: run Let_def del: of_nat_Suc\<close>)
    qed
  qed
qed

text \<open>The log store has room for every segment.\<close>

definition fits_any :: "bytes list \<Rightarrow> bytes \<Rightarrow> bool" where
  "fits_any segs bs \<longleftrightarrow> True"

lemma fits_any [simp]: "fits_any segs bs"
  by (simp add: fits_any_def)

lemma log_segment_store:
  assumes A: "alloc_rel A ok rel"
  shows "segment_store ok (log_handle A p opt) (log_inv ok) log_own (quiet rel) log_chain seg_limit fits_any"
proof
  show "seg_limit \<le> seg_limit" by simp
next
  fix w assume "log_inv ok w"
  then show "ok (w_heap w) \<and> log_own w \<subseteq> hp_live (w_heap w) \<and> chain_ok (log_chain w)"
    by (rule log_invE) (simp add: log_chain_ok)
next
  fix w h assume "log_inv ok w" "ok h" "log_own w \<subseteq> hp_live h"
  then show "log_inv ok (w\<lparr>w_heap := h\<rparr>) \<and> log_own (w\<lparr>w_heap := h\<rparr>) = log_own w \<and>
      quiet rel (w\<lparr>w_heap := h\<rparr>) = quiet rel w \<and> log_chain (w\<lparr>w_heap := h\<rparr>) = log_chain w"
    using log_kept [of ok w "w\<lparr>w_heap := h\<rparr>" rel] by (simp add: quiet_def)
next
  fix w assume "log_inv ok w"
  then show "vicarl_store_tip (log_handle A p opt) True w =
      (if log_chain w = [] then (Inl (VErr VICARL_ERR_NOT_FOUND None), w)
       else (Inr (of_nat (length (log_chain w)), sha256 (last (log_chain w))), w))"
    by (simp add: log_tip_law)
next
  fix w no assume "log_inv ok w" "0 < no" "no \<le> length (log_chain w)"
  from log_read_law [OF A this] show "outcome (vicarl_store_read_segment (log_handle A p opt) (of_nat no) True)
        (\<lambda>b w'. holds_bytes b (log_chain w ! (no - 1)) \<and> own_bytes b \<inter> hp_live (w_heap w) = {} \<and>
           log_chain w' = log_chain w \<and> kept ok (log_inv ok) log_own (quiet rel) w (hp_live (w_heap w) \<union> own_bytes b) w')
        (\<lambda>e w'. \<not> quiet rel w \<and> status_of (Inl e :: unit res) \<notin> {None, Some VICARL_ERR_NOT_FOUND} \<and> log_chain w' = log_chain w \<and>
           kept ok (log_inv ok) log_own (quiet rel) w (hp_live (w_heap w)) w') w"
    unfolding outcome_def log_handle_ops .
next
  fix w enc assume "log_inv ok w" "slice_wf enc" "sl_len enc < seg_limit" "length (log_chain w) + 2 < size_mod"
  from log_append_law [OF A this] show "outcome (vicarl_store_append_segment (log_handle A p opt) enc True)
        (\<lambda>r w'. r = (of_nat (length (log_chain w) + 1), sha256 (slice_bytes enc)) \<and>
           log_chain w' = log_chain w @ [slice_bytes enc] \<and>
           kept ok (log_inv ok) log_own (quiet rel) w (hp_live (w_heap w)) w')
        (\<lambda>e w'. \<not> (quiet rel w \<and> fits_any (log_chain w) (slice_bytes enc) \<and> next_segment (log_chain w) (slice_bytes enc)) \<and> log_chain w' = log_chain w \<and>
           kept ok (log_inv ok) log_own (quiet rel) w (hp_live (w_heap w)) w') w"
    unfolding outcome_def log_handle_ops fits_any_def simp_thms .
qed

interpretation log_libc: segment_store heap_wf "log_handle default_allocator p opt" "log_inv heap_wf" log_own "quiet False" log_chain seg_limit fits_any
  for p opt
  by (rule log_segment_store [OF libc_contract])

interpretation log_plenty: segment_store heap_plenty "log_handle default_allocator p opt" "log_inv heap_plenty" log_own "quiet True" log_chain seg_limit fits_any
  for p opt
  by (rule log_segment_store [OF libc_reliable])

section \<open>Opening finds the chain\<close>

text \<open>A directory that holds the chain \<open>segs\<close>: the files one to the number of segments have its
  contents and no file has the name of a later segment. Other files, such as temporary ones left
  behind by a crash, do not matter.\<close>

definition dir_chain :: "filesys \<Rightarrow> string \<Rightarrow> bytes list \<Rightarrow> bool" where
  "dir_chain fs dir segs \<longleftrightarrow> chain_ok segs \<and>
     (\<forall>i < length segs. fs_lookup fs (dir, seg_filename (of_nat (Suc i))) = Some (segs ! i)) \<and>
     (\<forall>name k. fs_lookup fs (dir, name) \<noteq> None \<longrightarrow> is_seg_name name = Some k \<longrightarrow> k \<le> of_nat (length segs))"

lemma max_seg_no_foldl:
  "t \<le> m \<Longrightarrow> \<forall>n \<in> set names. \<forall>k. is_seg_name n = Some k \<longrightarrow> k \<le> m \<Longrightarrow>
   t = m \<or> (\<exists>n \<in> set names. is_seg_name n = Some m) \<Longrightarrow>
   foldl (\<lambda>tip name. case is_seg_name name of None \<Rightarrow> tip | Some no \<Rightarrow> if no > tip then no else tip) t names = m"
proof (induction names arbitrary: t)
  case (Cons n ns)
  let ?t = "case is_seg_name n of None \<Rightarrow> t | Some no \<Rightarrow> if no > t then no else t"
  have "?t \<le> m" using Cons.prems by (auto split: option.split)
  moreover have "?t = m \<or> (\<exists>n \<in> set ns. is_seg_name n = Some m)"
    using Cons.prems by (auto split: option.split)
  ultimately show ?case using Cons.IH [of ?t] Cons.prems(2) by simp
qed simp

lemma max_seg_no_dir:
  assumes "dir_chain fs dir segs" "fs_dirs fs dir = Some es"
  shows "max_seg_no (map fst es) = of_nat (length segs)"
  unfolding max_seg_no_def
proof (rule max_seg_no_foldl)
  have look: "fs_lookup fs (dir, n) = map_of es n" for n using assms(2) by (simp add: fs_lookup_def)
  show "\<forall>n \<in> set (map fst es). \<forall>k. is_seg_name n = Some k \<longrightarrow> k \<le> of_nat (length segs)"
    using assms(1) look by (auto simp: dir_chain_def map_of_eq_None_iff)
  show "0 = of_nat (length segs) \<or> (\<exists>n \<in> set (map fst es). is_seg_name n = Some (of_nat (length segs)))"
  proof (cases segs rule: rev_cases)
    case (snoc ys y)
    let ?n = "seg_filename (of_nat (length segs))"
    have "map_of es ?n = Some y" using assms(1) look snoc by (auto simp: dir_chain_def nth_append)
    then have "?n \<in> set (map fst es)" by (auto dest: map_of_SomeD intro: rev_image_eqI)
    then show ?thesis using is_seg_name_filename by blast
  qed simp
qed simp

lemma scan_tip_outcome:
  assumes "env_kept w0 w" "heap_to ok h0 L (w_heap w)" "dir_chain (w_fs w) dir segs" "fs_dirs (w_fs w) dir \<noteq> None"
  shows "outcome (scan_tip dir) (\<lambda>no v. no = of_nat (length segs) \<and> env_kept w0 v \<and> heap_to ok h0 L (w_heap v))
    (\<lambda>e v. env_kept w0 v \<and> heap_to ok h0 L (w_heap v) \<and> env_error rel w0 e) w"
proof -
  obtain es where es: "fs_dirs (w_fs w) dir = Some es" using assms(4) by auto
  have "outcome (bindr (io_try ''scan_tip opendir failed'') (\<lambda>_. retr (max_seg_no (map fst es))))
    (\<lambda>no v. no = of_nat (length segs) \<and> env_kept w0 v \<and> heap_to ok h0 L (w_heap v))
    (\<lambda>e v. env_kept w0 v \<and> heap_to ok h0 L (w_heap v) \<and> env_error rel w0 e) w"
    by (rule outcome_io [OF assms(1,2), where rel = rel]) (auto intro: outcome_retr simp: max_seg_no_dir [OF assms(3) es])
  then show ?thesis by (simp add: scan_tip_def es outcome_def)
qed

text \<open>The backend state that stands for the chain \<open>segs\<close>.\<close>

definition with_tip :: "bytes list \<Rightarrow> log_store \<Rightarrow> log_store" where
  "with_tip segs ls = (if segs = [] then ls
     else ls\<lparr>ls_tip_no := of_nat (length segs), ls_tip_hash := sha256 (last segs), ls_has_tip := True\<rparr>)"

lemma dir_chain_kept: "env_kept w w' \<Longrightarrow> dir_chain (w_fs w') = dir_chain (w_fs w)"
  by (simp add: fun_eq_iff dir_chain_def env_kept_lookup)

lemma dir_chain_last:
  "dir_chain fs dir segs \<Longrightarrow> segs \<noteq> [] \<Longrightarrow> fs_lookup fs (dir, seg_filename (of_nat (length segs))) = Some (last segs)"
  by (cases segs rule: rev_cases) (auto simp: dir_chain_def)

lemma log_load_tip_outcome:
  assumes A: "alloc_rel A ok rel" and w: "env_kept w0 w" "heap_to ok h0 L (w_heap w)"
    and dir: "dir_chain (w_fs w) (ls_dir ls) segs" "fs_dirs (w_fs w) (ls_dir ls) \<noteq> None"
    and ls: "ls_dir_ptr ls = Some q"
  shows "outcome (log_load_tip A ls) (\<lambda>ls' v. ls' = with_tip segs ls \<and> env_kept w0 v \<and> heap_to ok h0 L (w_heap v))
    (\<lambda>e v. env_kept w0 v \<and> heap_to ok h0 L (w_heap v) \<and> env_error rel w0 e) w" (is "outcome _ ?Q ?E w")
  unfolding log_load_tip_def
proof (rule outcome_bindr, rule outcome_mono [OF scan_tip_outcome [OF w dir, where rel = rel]])
  fix no :: u64 and v assume v: "no = of_nat (length segs) \<and> env_kept w0 v \<and> heap_to ok h0 L (w_heap v)"
  have ck: "length segs + 1 < size_mod" "\<forall>bs \<in> set segs. length bs < seg_limit" using dir(1) by (simp_all add: dir_chain_def chain_ok_def)
  have un: "unat no = length segs" using v ck by (simp add: unat_of_nat_u64)
  let ?rest = "bindr (log_read_impl A (Some ls) no) (\<lambda>seg.
       bindr (finally_do (upd_heap (vicarl_free A (by_ptr seg))) (of_res (vicarl__sha256 (bytes_slice seg) True))) (\<lambda>h.
       retr (ls\<lparr>ls_tip_no := no, ls_tip_hash := h, ls_has_tip := True\<rparr>)))"
  show "outcome (if no \<noteq> 0 then ?rest else retr ls) ?Q ?E v"
  proof (cases "no = 0")
    case True
    with un v show ?thesis by (simp add: outcome_retr with_tip_def)
  next
    case False
    then have ne: "segs \<noteq> []" using un by (auto simp: unat_eq_zero)
    have fsv: "fs_lookup (w_fs v) = fs_lookup (w_fs w)" using v w(1) env_kept_lookup by metis
    have "fs_lookup (w_fs v) (ls_dir ls, seg_filename no) = Some (last segs)"
      using dir_chain_last [OF dir(1) ne] v by (simp add: fsv)
    note rd = log_read_impl_outcome [OF A heap_to_ok [OF conjunct2 [OF conjunct2 [OF v]]] ls this]
    have "seg_limit < size_mod" by (simp add: seg_limit_def size_mod_def)
    then have "length (last segs) < size_mod" using bspec [OF ck(2) last_in_set [OF ne]] by (rule less_trans [rotated])
    then have sha: "vicarl__sha256 (bytes_slice b) True = Inr (sha256 (last segs))" if "holds_bytes b (last segs)" for b
      using bytes_slice_of [OF that] by (simp add: vicarl__sha256_wf)
    have "outcome ?rest ?Q ?E v"
    proof (rule outcome_bindr, rule outcome_mono [OF rd])
      fix b v' assume b: "env_kept v v' \<and> holds_bytes b (last segs) \<and> own_bytes b \<inter> hp_live (w_heap v) = {} \<and>
         heap_to ok (w_heap v) (hp_live (w_heap v) \<union> own_bytes b) (w_heap v')"
      have L: "hp_live (w_heap v) = L" using v by (simp add: heap_to_def)
      have "heap_to ok h0 L (vicarl_free A (by_ptr b) (w_heap v'))"
        using free_step_option [OF A, of h0 L "by_ptr b" "w_heap v'"] b v L by (auto simp: own_bytes_def heap_to_def)
      moreover have "env_kept w0 v'" using v b env_kept_trans by blast
      ultimately show "outcome (bindr (finally_do (upd_heap (vicarl_free A (by_ptr b))) (of_res (vicarl__sha256 (bytes_slice b) True))) (\<lambda>h.
         retr (ls\<lparr>ls_tip_no := no, ls_tip_hash := h, ls_has_tip := True\<rparr>))) ?Q ?E v'"
        using sha b v ne by (auto simp: outcome_def bindr_def finally_do_def of_res_def retr_def with_tip_def)
    next
      fix e v' assume "env_kept v v' \<and> heap_to ok (w_heap v) (hp_live (w_heap v)) (w_heap v') \<and> env_error rel v e"
      with v show "?E e v'" using env_error_kept env_kept_trans by (auto simp: heap_to_def)
    qed
    with False show ?thesis by simp
  qed
qed

definition log_opened :: "(heap \<Rightarrow> bool) \<Rightarrow> vicarl_allocator \<Rightarrow> vicarl_store_options \<Rightarrow> log_world \<Rightarrow> bytes list \<Rightarrow>
    (log_env, 'u) vicarl_store \<Rightarrow> log_world \<Rightarrow> bool" where
  "log_opened ok A opt w segs st w' \<longleftrightarrow>
     Some st = log_handle A (st_ptr st) opt \<and> log_inv ok w' \<and> log_chain w' = segs \<and>
     insert (st_ptr st) (log_own w') \<inter> hp_live (w_heap w) = {} \<and> st_ptr st \<notin> log_own w' \<and>
     heap_to ok (w_heap w) (hp_live (w_heap w) \<union> insert (st_ptr st) (log_own w')) (w_heap w')"

lemma log_state_opened:
  assumes dir: "dir_chain (w_fs w) dir segs" "fs_dirs (w_fs w) dir \<noteq> None" and ne: "dp \<noteq> lp"
    and w: "le_impl (w_env w) = Some (with_tip segs \<lparr>ls_ptr = lp, ls_dir_ptr = Some dp, ls_dir = dir, ls_tip_no = 0,
                                      ls_tip_hash = zero_hash, ls_has_tip = False\<rparr>)" (is "_ = Some ?ls")
  shows "log_state_ok w ?ls \<and> log_chain w = segs \<and> log_own w = {lp, dp}"
proof -
  have ck: "length segs + 1 < size_mod" "\<forall>bs \<in> set segs. length bs < seg_limit" using dir(1) by (simp_all add: dir_chain_def chain_ok_def)
  have un: "unat (ls_tip_no ?ls) = length segs" using ck(1) by (simp add: with_tip_def unat_of_nat_u64)
  have f: "ls_dir ?ls = dir" "ls_ptr ?ls = lp" "ls_dir_ptr ?ls = Some dp" "ls_tip_no ?ls = of_nat (length segs)"
    by (simp_all add: with_tip_def)
  have sf: "seg_file w ?ls (Suc i) = Some (segs ! i)" if "i < length segs" for i
    using that dir(1) by (simp add: seg_file_def f dir_chain_def)
  have "log_chain w = segs" using sf by (intro nth_equalityI) (simp_all add: log_chain_def w un)
  moreover have last: "seg_file w ?ls (length segs) = Some (last segs)" if "segs \<noteq> []"
    using sf [of "length segs - 1"] that by (simp add: last_conv_nth)
  moreover have has: "ls_has_tip ?ls \<longleftrightarrow> segs \<noteq> []" "segs \<noteq> [] \<Longrightarrow> ls_tip_hash ?ls = sha256 (last segs)"
    by (simp_all add: with_tip_def)
  moreover have z: "ls_tip_no ?ls \<noteq> 0 \<longleftrightarrow> segs \<noteq> []" using un by (metis length_0_conv unat_eq_zero)
  moreover have "log_state_ok w ?ls"
    unfolding log_state_ok_def un has(1) z
    using dir ne sf ck last has(2) by (auto simp: f dir_chain_def)
  ultimately show ?thesis by (auto simp: log_own_def w f)
qed

lemma mkdir_outcome:
  assumes "dir_chain (w_fs w) dir segs"
  shows "outcome (mkdir_if_missing dir)
    (\<lambda>_ v. w_heap v = w_heap w \<and> fs_close_fail (w_fs v) = fs_close_fail (w_fs w) \<and> (quiet rel w \<longrightarrow> quiet rel v) \<and>
       dir_chain (w_fs v) dir segs \<and> fs_dirs (w_fs v) dir \<noteq> None)
    (\<lambda>e v. w_heap v = w_heap w \<and> env_error rel w e) w"
proof (cases "fs_dirs (w_fs w) dir")
  case None
  then have "segs = []" using assms by (cases segs) (auto simp: dir_chain_def fs_lookup_def)
  moreover have "outcome (io_try m) (\<lambda>_ v. env_kept w v \<and> w_heap v = w_heap w)
      (\<lambda>e v. w_heap v = w_heap w \<and> env_error rel w e) w" for m
    by (rule outcome_mono [OF io_try_outcome]) (auto simp: env_error_def quiet_def)
  note io = this [of "''store_open_log mkdir failed''"]
  ultimately show ?thesis using None io
    by (auto simp: outcome_def mkdir_if_missing_def bindr_def quiet_def env_kept_def dir_chain_def chain_ok_def fs_lookup_def
        size_mod_def split: prod.splits sum.splits)
next
  case (Some es)
  with assms show ?thesis by (simp add: outcome_def mkdir_if_missing_def)
qed

abbreviation fresh_log :: "string \<Rightarrow> addr \<Rightarrow> addr \<Rightarrow> log_store" where
  "fresh_log dir lp dp \<equiv> \<lparr>ls_ptr = lp, ls_dir_ptr = Some dp, ls_dir = dir, ls_tip_no = 0, ls_tip_hash = zero_hash, ls_has_tip = False\<rparr>"

lemma free_two:
  "alloc_rel A ok rel \<Longrightarrow> heap_to ok h0 (insert q (insert p L)) h \<Longrightarrow> p \<notin> L \<Longrightarrow> q \<notin> insert p L \<Longrightarrow>
   heap_to ok h0 L (vicarl__free A (Some p) (vicarl__free A (Some q) h))"
  by (simp add: free_step_insert)

lemma log_store_new_outcome:
  assumes A: "alloc_rel A ok rel" and v: "env_kept w1 v" "heap_to ok (w_heap w) (insert dp (insert lp (hp_live (w_heap w)))) (w_heap v)"
    and fresh: "lp \<notin> hp_live (w_heap w)" "dp \<notin> insert lp (hp_live (w_heap w))"
    and w1: "fs_close_fail (w_fs w1) = []" "dir_chain (w_fs w1) dir segs" "fs_dirs (w_fs w1) dir \<noteq> None"
  shows "outcome (\<lambda>v. case vicarl__store_new A (Some (LOG_VT A)) opt (w_heap v) of
        (None, h) \<Rightarrow> (Inl err_oom, v\<lparr>w_heap := h\<rparr>)
      | (Some st, h) \<Rightarrow> (Inr st, set_impl (Some (with_tip segs (fresh_log dir lp dp))) (v\<lparr>w_heap := h\<rparr>)))
    (log_opened ok A (case opt of None \<Rightarrow> zero_options | Some o' \<Rightarrow> o') w segs)
    (\<lambda>e v. e = err_oom \<and> \<not> rel \<and> heap_to ok (w_heap w) (insert dp (insert lp (hp_live (w_heap w)))) (w_heap v)) v"
  using A v(2)
proof (cases rule: calloc_stepE [where c = 1 and s = sizeof_store])
  case (fail h)
  then show ?thesis by (simp add: outcome_def vicarl__store_new_def sizeof_store_def size_mod_def)
next
  case (new p h)
  let ?L = "hp_live (w_heap w)" and ?v = "set_impl (Some (with_tip segs (fresh_log dir lp dp))) (v\<lparr>w_heap := h\<rparr>)"
  have d: "dir_chain (w_fs ?v) dir segs" "fs_dirs (w_fs ?v) dir \<noteq> None" "fs_close_fail (w_fs ?v) = []"
    using w1 v(1) dir_chain_kept [OF v(1)] by (simp_all add: env_kept_def)
  have "log_state_ok ?v (with_tip segs (fresh_log dir lp dp)) \<and> log_chain ?v = segs \<and> log_own ?v = {lp, dp}"
    by (rule log_state_opened [OF d(1,2)]) (use fresh in auto)
  moreover have "insert p (insert dp (insert lp ?L)) = ?L \<union> insert p {lp, dp}" by auto
  ultimately have "log_opened ok A (case opt of None \<Rightarrow> zero_options | Some o' \<Rightarrow> o') w segs
      \<lparr>st_ptr = p, st_vt = Some (LOG_VT A), st_opt = (case opt of None \<Rightarrow> zero_options | Some o' \<Rightarrow> o')\<rparr> ?v"
    using new(2,3) fresh d(3) by (auto simp: log_opened_def log_inv_def log_handle_def heap_to_def)
  with new(1) show ?thesis by (simp add: outcome_def vicarl__store_new_def)
qed

lemma log_loaded_outcome:
  assumes A: "alloc_rel A ok rel" and h: "heap_to ok (w_heap w) (insert dp (insert lp (hp_live (w_heap w)))) (w_heap w1)"
    and fresh: "lp \<notin> hp_live (w_heap w)" "dp \<notin> insert lp (hp_live (w_heap w))"
    and w1: "fs_close_fail (w_fs w1) = []" "quiet rel w \<longrightarrow> quiet rel w1" "dir_chain (w_fs w1) dir segs" "fs_dirs (w_fs w1) dir \<noteq> None"
  shows "outcome (on_error (upd_heap (\<lambda>h. vicarl__free A (Some lp) (vicarl__free A (Some dp) h)))
      (bindr (log_load_tip A (fresh_log dir lp dp)) (\<lambda>ls v. case vicarl__store_new A (Some (LOG_VT A)) opt (w_heap v) of
        (None, h) \<Rightarrow> (Inl err_oom, v\<lparr>w_heap := h\<rparr>) | (Some st, h) \<Rightarrow> (Inr st, set_impl (Some ls) (v\<lparr>w_heap := h\<rparr>)))))
    (log_opened ok A (case opt of None \<Rightarrow> zero_options | Some o' \<Rightarrow> o') w segs)
    (\<lambda>e w'. heap_to ok (w_heap w) (hp_live (w_heap w)) (w_heap w') \<and> env_error rel w e) w1" (is "outcome (on_error ?free (bindr _ ?new)) ?Q ?E w1")
proof (rule outcome_on_error, rule outcome_bindr, rule outcome_mono [OF log_load_tip_outcome [OF A env_kept_refl h, where ls = "fresh_log dir lp dp"]])
  let ?L = "hp_live (w_heap w)"
  have err: "?E e (?free v)" if "heap_to ok (w_heap w) (insert dp (insert lp ?L)) (w_heap v)" "env_error rel w e" for e v
    using free_two [OF A that(1) fresh] that(2) by simp
  fix ls v assume "ls = with_tip segs (fresh_log dir lp dp) \<and> env_kept w1 v \<and> heap_to ok (w_heap w) (insert dp (insert lp ?L)) (w_heap v)"
  then have ls: "ls = with_tip segs (fresh_log dir lp dp)" and v: "env_kept w1 v" "heap_to ok (w_heap w) (insert dp (insert lp ?L)) (w_heap v)" by auto
  show "outcome (?new ls) ?Q (\<lambda>e v. ?E e (?free v)) v"
    unfolding ls by (rule outcome_mono [OF log_store_new_outcome [OF A v fresh w1(1,3,4)]])
      (assumption, rule err, auto simp: env_error_def quiet_def)
next
  fix e v assume "env_kept w1 v \<and> heap_to ok (w_heap w) (insert dp (insert lp (hp_live (w_heap w)))) (w_heap v) \<and> env_error rel w1 e"
  then show "?E e (?free v)" using free_two [OF A _ fresh] w1(2) by (auto simp: env_error_def)
qed (use w1 in simp_all)

lemma dup_dir_outcome:
  assumes A: "alloc_rel A ok rel" and h: "heap_to ok (w_heap w) (insert lp (hp_live (w_heap w))) (w_heap w1)" "lp \<notin> hp_live (w_heap w)"
  shows "outcome (on_error (upd_heap (vicarl__free A (Some lp)))
      (on_heap (\<lambda>h. case dup_cstr A dir h of (None, h') \<Rightarrow> (Inl err_oom, h') | (Some d, h') \<Rightarrow> (Inr d, h'))))
    (\<lambda>r v. \<exists>dp. r = (dp, dir) \<and> dp \<notin> insert lp (hp_live (w_heap w)) \<and>
       heap_to ok (w_heap w) (insert dp (insert lp (hp_live (w_heap w)))) (w_heap v) \<and> w_env v = w_env w1)
    (\<lambda>e w'. heap_to ok (w_heap w) (hp_live (w_heap w)) (w_heap w') \<and> e = err_oom \<and> \<not> rel) w1"
  using A h(1)
  by (cases rule: malloc_stepE [where n = "length dir + 1"])
     (use free_step_insert [OF A _ h(2)] in \<open>auto simp: outcome_def on_error_def on_heap_def dup_cstr_def\<close>)

lemma log_open_outcome:
  assumes A: "alloc_rel A ok rel" and w: "ok (w_heap w)" "fs_close_fail (w_fs w) = []" and dir: "dir \<noteq> []" "dir_chain (w_fs w) dir segs"
  shows "outcome (vicarl_store_open_log A (Some dir) opt True)
    (log_opened ok A (case opt of None \<Rightarrow> zero_options | Some o' \<Rightarrow> o') w segs)
    (\<lambda>e w'. heap_to ok (w_heap w) (hp_live (w_heap w)) (w_heap w') \<and> env_error rel w e) w" (is "outcome _ ?Q ?E w")
proof -
  let ?h0 = "w_heap w"
  have mk: "outcome (mkdir_if_missing dir) (\<lambda>_ v. w_heap v = ?h0 \<and> fs_close_fail (w_fs v) = [] \<and> (quiet rel w \<longrightarrow> quiet rel v) \<and>
       dir_chain (w_fs v) dir segs \<and> fs_dirs (w_fs v) dir \<noteq> None) ?E w"
    by (rule outcome_mono [OF mkdir_outcome [OF dir(2), where rel = rel]]) (use w in \<open>simp_all add: heap_to_refl\<close>)
  show ?thesis
    unfolding vicarl_store_open_log_def using dir(1)
    apply (simp del: vicarl__free_Some)
    apply (rule outcome_bindr, rule outcome_mono [OF mk]; (elim conjE)?)
     apply (rule outcome_bindr, rule outcome_on_heap, rule outcome_mono [OF calloc_or_oom_outcome [OF A, where ?h0.0 = ?h0 and L = "hp_live ?h0"]])
        apply (simp_all add: heap_to_refl w sizeof_log_store_def size_mod_def env_error_def quiet_def del: vicarl__free_Some)
    apply (elim conjE, rule outcome_bindr, rule outcome_mono [OF dup_dir_outcome [OF A]]; (elim exE conjE)?)
       apply (simp_all add: env_error_def quiet_def del: vicarl__free_Some)
    apply (rule outcome_mono [OF log_loaded_outcome [OF A]])
             apply (simp_all add: w_fs_def quiet_def env_error_def)
    done
qed

section \<open>Iterating\<close>

text \<open>What iterating over the segments means: the callback sees each number and hash in turn until it fails.\<close>

fun iter_spec :: "'u segment_iter_fn \<Rightarrow> u64 \<Rightarrow> bytes list \<Rightarrow> ('u, unit) vm" where
  "iter_spec cb no [] = retr ()"
| "iter_spec cb no (bs # rest) = bindr (cb no (sha256 bs)) (\<lambda>_. iter_spec cb (no + 1) rest)"

lemma log_iter_loop_quiet:
  assumes A: "alloc_rel A ok True"
  shows "log_inv ok w \<Longrightarrow> quiet True w \<Longrightarrow> 0 < i \<Longrightarrow> i + n = length (log_chain w) + 1 \<Longrightarrow>
   \<exists>w'. log_iter_loop A cb (of_nat (length (log_chain w))) (of_nat i) (w, u) =
        Some (fst (iter_spec cb (of_nat i) (drop (i - 1) (log_chain w)) u), w',
              snd (iter_spec cb (of_nat i) (drop (i - 1) (log_chain w)) u)) \<and>
      log_chain w' = log_chain w \<and> kept ok (log_inv ok) log_own (quiet True) w (hp_live (w_heap w)) w'"
proof (induction n arbitrary: i w u)
  case 0
  have ok: "ok (w_heap w)" "chain_ok (log_chain w)" using 0(1) by (auto elim!: log_invE simp: log_chain_ok)
  then have "unat (of_nat (length (log_chain w)) :: u64) = length (log_chain w)" "unat (of_nat i :: u64) = i"
    using 0(4) unat_of_nat_u64 [of i] by (simp_all add: chain_ok_def unat_of_nat_u64)
  then have "\<not> (of_nat i :: u64) \<le> of_nat (length (log_chain w))" using 0(4) by (simp add: word_le_nat_alt)
  with 0 ok show ?case by (simp add: log_iter_loop.simps retr_def kept_def heap_to_refl)
next
  case (Suc n)
  let ?ch = "log_chain w"
  have ok: "ok (w_heap w)" "chain_ok ?ch" "log_own w \<subseteq> hp_live (w_heap w)" using Suc.prems(1) by (auto elim!: log_invE simp: log_chain_ok)
  have i: "i \<le> length ?ch" "i - 1 < length ?ch" using Suc.prems by auto
  have "unat (of_nat (length ?ch) :: u64) = length ?ch" "unat (of_nat i :: u64) = i"
    using i ok(2) by (simp_all add: chain_ok_def unat_of_nat_u64)
  then have le: "(of_nat i :: u64) \<le> of_nat (length ?ch)" using i by (simp add: word_le_nat_alt)
  have dr: "drop (i - 1) ?ch = ?ch ! (i - 1) # drop i ?ch" using i Suc.prems(3) take_drop_Cons [of "i - 1" ?ch] by simp
  have lim: "length (?ch ! (i - 1)) < size_mod"
    using ok(2) i(2) by (auto simp: chain_ok_def seg_limit_def size_mod_def dest!: bspec [OF _ nth_mem])
  obtain b w1 where rd: "log_read_segment A (of_nat i) True w = (Inr b, w1)" "holds_bytes b (?ch ! (i - 1))"
      "own_bytes b \<inter> hp_live (w_heap w) = {}" "log_chain w1 = ?ch"
      "kept ok (log_inv ok) log_own (quiet True) w (hp_live (w_heap w) \<union> own_bytes b) w1"
    using log_read_law [OF A Suc.prems(1,3) i(1)] Suc.prems(2)
    by (auto simp: outcome_def split: prod.splits sum.splits)
  let ?w2 = "upd_heap (vicarl_free A (by_ptr b)) w1"
  have sha: "vicarl__sha256 (bytes_slice b) True = Inr (sha256 (?ch ! (i - 1)))"
    using bytes_slice_of [OF rd(2)] lim by (simp add: vicarl__sha256_wf)
  have k: "kept ok (log_inv ok) log_own (quiet True) w (hp_live (w_heap w)) ?w2 \<and> log_chain ?w2 = ?ch"
    using segment_store.kept_free [OF log_segment_store [OF A] A, of w _ "by_ptr b" w1] rd(3-5) ok(3)
    by (simp add: own_bytes_def)
  then have w2: "log_inv ok ?w2" "quiet True ?w2" "log_chain ?w2 = ?ch" using Suc.prems(2) by (auto simp: kept_def)
  obtain c u1 where cb: "cb (of_nat i) (sha256 (?ch ! (i - 1))) u = (c, u1)" by (cases "cb (of_nat i) (sha256 (?ch ! (i - 1))) u")
  show ?case
  proof (cases c)
    case (Inl e)
    with cb dr rd(1) sha le k show ?thesis by (simp add: log_iter_loop.simps bindr_def)
  next
    case (Inr y)
    obtain w' where "log_iter_loop A cb (of_nat (length ?ch)) (of_nat (Suc i)) (?w2, u1) =
        Some (fst (iter_spec cb (of_nat (Suc i)) (drop i ?ch) u1), w', snd (iter_spec cb (of_nat (Suc i)) (drop i ?ch) u1))"
      "log_chain w' = ?ch" "kept ok (log_inv ok) log_own (quiet True) ?w2 (hp_live (w_heap ?w2)) w'"
      using Suc.IH [OF w2(1,2), of "Suc i" u1] w2(3) Suc.prems(4) by auto
    moreover have "kept ok (log_inv ok) log_own (quiet True) w (hp_live (w_heap w)) w'"
      using k calculation(3) by (auto simp: kept_def heap_to_def)
    ultimately show ?thesis using cb Inr dr rd(1) sha le
      by (simp add: log_iter_loop.simps [of A cb _ "of_nat i"] bindr_def add.commute)
  qed
qed

section \<open>Restarting\<close>

text \<open>The directory of a running store holds its chain.\<close>

lemma log_dir_chain:
  assumes "log_inv ok w" "le_impl (w_env w) = Some ls"
  shows "dir_chain (w_fs w) (ls_dir ls) (log_chain w)"
proof -
  have st: "log_state_ok w ls" using assms by (auto simp: log_inv_def)
  have len: "length (log_chain w) = unat (ls_tip_no ls)" using assms(2) by (rule log_chain_length)
  have "fs_lookup (w_fs w) (ls_dir ls, seg_filename (of_nat (Suc i))) = Some (log_chain w ! i)" if i: "i < length (log_chain w)" for i
  proof -
    obtain bs where "seg_file w ls (Suc i) = Some bs" using st i len by (auto simp: log_state_ok_def)
    with log_chain_nth [OF assms(2), of "Suc i"] i show ?thesis by (simp add: seg_file_def)
  qed
  moreover have "k \<le> of_nat (length (log_chain w))" if "fs_lookup (w_fs w) (ls_dir ls, name) \<noteq> None" "is_seg_name name = Some k" for name k
    using st that by (auto simp: len log_state_ok_def)
  ultimately show ?thesis using log_chain_ok [OF assms(2) st] by (simp add: dir_chain_def)
qed

text \<open>A new process: another heap and no store object, the same files.\<close>

definition restarted :: "heap \<Rightarrow> log_world \<Rightarrow> log_world" where
  "restarted h w = set_impl None (w\<lparr>w_heap := h\<rparr>)"

lemma log_reopen_outcome:
  assumes A: "alloc_rel A ok rel" and w: "log_inv ok w" "le_impl (w_env w) = Some ls" "ls_dir ls \<noteq> []" and h: "ok h"
  shows "outcome (vicarl_store_open_log A (Some (ls_dir ls)) (Some opt) True)
    (log_opened ok A opt (restarted h w) (log_chain w))
    (\<lambda>e w'. heap_to ok h (hp_live h) (w_heap w') \<and> env_error rel (restarted h w) e) (restarted h w)"
  using log_open_outcome [OF A _ _ w(3), of "restarted h w" "log_chain w" "Some opt"] w h log_dir_chain [OF w(1,2)]
  by (simp add: restarted_def log_inv_def)

section \<open>Worlds for examples\<close>

text \<open>An empty store in the directory \<open>d\<close>, and the first segment of a chain, without records.\<close>

definition empty_log :: log_world where
  "empty_log =
     \<lparr>w_heap = \<lparr>hp_next = 3, hp_live = {1, 2}, hp_bad = False, hp_oom = []\<rparr>,
      w_env = \<lparr>le_impl = Some \<lparr>ls_ptr = 1, ls_dir_ptr = Some 2, ls_dir = ''d'', ls_tip_no = 0, ls_tip_hash = zero_hash,
                 ls_has_tip = False\<rparr>,
               le_fs = \<lparr>fs_dirs = [''d'' \<mapsto> []], fs_fail = [], fs_close_fail = [], fs_strerror = ''e''\<rparr>\<rparr>\<rparr>"

definition genesis :: bytes where
  "genesis = segment_wire \<lparr>segment_no = 1, prev_segment_hash = zero_hash, record_count = 0,
     records_merkle_root = zero_hash, hdr_timestamp_ms = 0\<rparr> [] None"

lemma empty_log_inv: "log_inv heap_plenty empty_log" and empty_log_chain: "log_chain empty_log = []"
  and empty_log_quiet: "quiet True empty_log"
  by (simp_all add: log_inv_def empty_log_def heap_plenty_def heap_wf_def log_own_def log_state_ok_def w_fs_def
      fs_lookup_def size_mod_def log_chain_def quiet_def)

lemma genesis_spec:
  "\<exists>rs. segment_spec genesis = Inr (\<lparr>segment_no = 1, prev_segment_hash = zero_hash, record_count = 0,
     records_merkle_root = zero_hash, hdr_timestamp_ms = 0\<rparr>, rs, False, replicate 64 0) \<and> map slice_bytes rs = []"
  (is "\<exists>rs. segment_spec genesis = Inr (?h, rs, _, _) \<and> _")
  using segment_spec_wire [of ?h "[]" None] by (simp add: hdr_wf_def sig_wf_def count_ok_def genesis_def)

lemma genesis_next: "next_segment [] genesis"
  using genesis_spec by (auto simp: next_segment_def tip_hash_of_def)

lemma genesis_size: "length genesis < 100"
  by (simp add: genesis_def segment_wire_def VICARL_SEG_MAGIC_def leb128_small)

text \<open>A record without a signature.\<close>

definition sample_record :: bytes where
  "sample_record = meta_wire \<lparr>namespace_utf8 = slice_of [], schema_utf8 = slice_of [], author = replicate 32 0, seq = 1, timestamp_ms = 2\<rparr>
     (slice_of [7]) None"

lemma sample_record_ok: "\<exists>m p g. record_spec sample_record = Inr (m, p, False, g)"
  using record_spec_wire [of "\<lparr>namespace_utf8 = slice_of [], schema_utf8 = slice_of [], author = replicate 32 0, seq = 1, timestamp_ms = 2\<rparr>"
      "slice_of [7]" None]
  by (auto simp: sample_record_def meta_wf_def sig_wf_def size_mod_def fields_match_def)

lemma sample_record_size: "length sample_record < 100"
  by (simp add: sample_record_def meta_wire_def record_wire_def VICARL_REC_MAGIC_def ldbytes_def leb128_small)

section \<open>Properties of the log store\<close>







text \<open>File names are decoded as they were encoded: the name of segment \<open>no\<close> is recognised with exactly
  that number, for all 64-bit numbers, and the name of a temporary file is never taken for a segment.\<close>
theorem seg_filename_roundtrip:
  "is_seg_name (seg_filename no) = Some no \<and> is_seg_name (seg_tmp_filename no) = None"
  by (simp add: is_seg_name_filename is_seg_name_tmp)



end
