(* ===== verification/Vicarl_Ledger.thy ===== *)
theory Vicarl_Ledger
  imports Vicarl_StoreLog "HOL-Library.Sublist"
begin

text \<open>
  \<^verbatim>\<open>src/ledger/ledger.c\<close>: the ledger collects encoded records in a buffer and writes them to its store as
  segments, each linked to the one before by its hash; verification walks the chain. The ledger is
  generic in its store: the lemmas on its operations are proved in the context of the store's contract
  \<^verbatim>\<open>segment_store\<close> and hold for the log backend by its interpretation.
\<close>

section \<open>State\<close>

record vicarl_bufrec =
  br_ptr :: addr
  br_bytes :: bytes
  br_len :: nat
  br_id :: vicarl_hash32
  br_has_sig :: bool

record vicarl_ledger_options =
  segment_target_records :: u32
  segment_target_bytes :: u32
  enable_merkle :: u32
  require_signed_records :: u32
  lo_store_options :: vicarl_store_options
  lo_store_kind :: vicarl_store_kind

text \<open>\<^verbatim>\<open>lg_buf\<close> is the used part of the array at \<^verbatim>\<open>buf\<close>, so its length is \<^verbatim>\<open>buf_len\<close>.\<close>

record ('e, 'u) vicarl_ledger =
  lg_ptr :: addr
  lg_store :: "('e, 'u) vicarl_store option"
  lg_opt :: vicarl_ledger_options
  lg_buf_ptr :: "addr option"
  lg_buf :: "vicarl_bufrec list"
  lg_buf_cap :: nat
  lg_buf_bytes :: nat

text \<open>A ledger pointer is \<^const>\<open>None\<close> when it is \<^verbatim>\<open>NULL\<close>; the functions run on the world and the object behind it.\<close>

type_synonym ('e, 'u) ledger_state = "'e world \<times> ('e, 'u) vicarl_ledger option"

text \<open>What the clock functions answer: \<^verbatim>\<open>timespec_get\<close> (seconds and nanoseconds, \<^const>\<open>None\<close> if it fails) and \<^verbatim>\<open>time\<close>.\<close>

record clock =
  ck_timespec :: "(int \<times> int) option"
  ck_time :: int

definition now_ms :: "clock \<Rightarrow> u64" where
  "now_ms c =
     (case ck_timespec c of
        Some (sec, nsec) \<Rightarrow> of_int sec * 1000 + of_int nsec div 1000000
      | None \<Rightarrow> of_int (if ck_time c < 0 then 0 else ck_time c) * 1000)"

section \<open>The buffer\<close>

definition sizeof_bufrec :: nat where
  "sizeof_bufrec = 56"

definition sizeof_ledger :: nat where
  "sizeof_ledger = 80"

definition clear_buffer :: "vicarl_allocator \<Rightarrow> ('e, 'u) vicarl_ledger \<Rightarrow> heap \<Rightarrow> ('e, 'u) vicarl_ledger \<times> heap" where
  "clear_buffer A l h =
     (l\<lparr>lg_buf := [], lg_buf_bytes := 0\<rparr>, foldl (\<lambda>h b. vicarl__free A (Some (br_ptr b)) h) h (lg_buf l))"

definition ensure_bufcap :: "vicarl_allocator \<Rightarrow> ('e, 'u) vicarl_ledger \<Rightarrow> nat \<Rightarrow> (heap, ('e, 'u) vicarl_ledger) vm" where
  "ensure_bufcap A l want h =
     (if want \<le> lg_buf_cap l then (Inr l, h)
      else
        (case grow_cap (if lg_buf_cap l = 0 then 64 else lg_buf_cap l) want of
           None \<Rightarrow> (Inl err_oom, h)
         | Some newcap \<Rightarrow>
             (case vicarl__realloc A (lg_buf_ptr l) (newcap * sizeof_bufrec mod size_mod) h of
                (None, h') \<Rightarrow> (Inl err_oom, h')
              | (Some p, h') \<Rightarrow> (Inr (l\<lparr>lg_buf_ptr := Some p, lg_buf_cap := newcap\<rparr>), h'))))"

definition defaults :: vicarl_ledger_options where
  "defaults =
     \<lparr>segment_target_records = 256, segment_target_bytes = 512 * 1024, enable_merkle = 1, require_signed_records = 0,
      lo_store_options = \<lparr>fsync_on_commit = 0, enable_record_index = 0, sqlite_wal = 1, sqlite_synchronous = 1\<rparr>,
      lo_store_kind = VICARL_STORE_LOG\<rparr>"

section \<open>Opening and closing\<close>

text \<open>The options a ledger works with.\<close>

definition effective_options :: "vicarl_ledger_options option \<Rightarrow> vicarl_ledger_options" where
  "effective_options opt =
     (let o1 = (case opt of None \<Rightarrow> defaults | Some x \<Rightarrow> x);
          o2 = (if segment_target_records o1 = 0 then o1\<lparr>segment_target_records := 256\<rparr> else o1)
      in if segment_target_bytes o2 = 0 then o2\<lparr>segment_target_bytes := 512 * 1024\<rparr> else o2)"

text \<open>The two functions that open a store are arguments: which of them the program has depends on how it is built.\<close>

definition vicarl_ledger_open ::
  "vicarl_allocator \<Rightarrow> (string option \<Rightarrow> vicarl_store_options option \<Rightarrow> bool \<Rightarrow> ('e world, ('e, 'u) vicarl_store) vm) \<Rightarrow>
     (string option \<Rightarrow> vicarl_store_options option \<Rightarrow> bool \<Rightarrow> ('e world, ('e, 'u) vicarl_store) vm) \<Rightarrow>
     string option \<Rightarrow> vicarl_ledger_options option \<Rightarrow> bool \<Rightarrow> ('e world, ('e, 'u) vicarl_ledger) vm" where
  "vicarl_ledger_open A open_sqlite open_log path opt out =
     (if \<not> out then failr (badarg ''ledger_open: out is NULL'')
      else if path = None \<or> path = Some [] then failr (badarg ''ledger_open: path is empty'')
      else
        bindr (on_heap (calloc_or_oom A 1 sizeof_ledger)) (\<lambda>lp.
        let o' = effective_options opt in
        bindr (on_error (upd_heap (vicarl__free A (Some lp)))
          ((if lo_store_kind o' = VICARL_STORE_SQLITE then open_sqlite else open_log) path (Some (lo_store_options o')) True)) (\<lambda>st.
        retr \<lparr>lg_ptr = lp, lg_store = Some st, lg_opt = o', lg_buf_ptr = None, lg_buf = [], lg_buf_cap = 0, lg_buf_bytes = 0\<rparr>)))"

definition vicarl_ledger_close :: "vicarl_allocator \<Rightarrow> ('e, 'u) vicarl_ledger option \<Rightarrow> 'e world \<Rightarrow> 'e world" where
  "vicarl_ledger_close A l w =
     (case l of
        None \<Rightarrow> w
      | Some x \<Rightarrow>
          upd_heap (vicarl__free A (Some (lg_ptr x)))
            (vicarl_store_close A (lg_store x)
              (upd_heap (\<lambda>h. vicarl__free A (lg_buf_ptr x) (snd (clear_buffer A x h))) w)))"

definition vicarl_ledger_store :: "('e, 'u) vicarl_ledger option \<Rightarrow> ('e, 'u) vicarl_store option" where
  "vicarl_ledger_store l = (case l of None \<Rightarrow> None | Some x \<Rightarrow> lg_store x)"

section \<open>Flushing\<close>

definition buf_slices :: "('e, 'u) vicarl_ledger \<Rightarrow> vicarl_slice list" where
  "buf_slices l = map (\<lambda>b. \<lparr>sl_ptr = Some (br_bytes b), sl_len = br_len b\<rparr>) (lg_buf l)"

text \<open>Number and previous hash of the segment to write.\<close>

definition flush_tip :: "('e, 'u) vicarl_store option \<Rightarrow> ('e world, u64 \<times> vicarl_hash32) vm" where
  "flush_tip s w =
     (case vicarl_store_tip s True w of
        (Inr (tno, thash), w') \<Rightarrow> (Inr (tno + 1, thash), w')
      | (Inl e, w') \<Rightarrow>
          if status_of (Inl e :: unit res) = Some VICARL_ERR_NOT_FOUND then (Inr (1, zero_hash), w') else (Inl e, w'))"

definition flush_header ::
  "vicarl_allocator \<Rightarrow> u64 \<Rightarrow> u64 \<Rightarrow> vicarl_hash32 \<Rightarrow> ('e, 'u) vicarl_ledger \<Rightarrow> (heap, vicarl_segment_header) vm" where
  "flush_header A ts new_no prev l =
     (let n = length (lg_buf l);
          hdr = \<lparr>segment_no = new_no, prev_segment_hash = prev, record_count = of_nat n, records_merkle_root = zero_hash,
                 hdr_timestamp_ms = ts\<rparr>
      in if enable_merkle (lg_opt l) \<noteq> 0
         then bindr (vicarl__merkle_root A (Some (buf_slices l)) n True) (\<lambda>root. retr (hdr\<lparr>records_merkle_root := root\<rparr>))
         else retr hdr)"

text \<open>\<^verbatim>\<open>vicarl_ledger_flush\<close> on a ledger object: the object afterwards, or an error, which leaves the object as it was.\<close>

definition ledger_flush ::
  "vicarl_allocator \<Rightarrow> clock \<Rightarrow> ('e, 'u) vicarl_ledger \<Rightarrow> ('e world, ('e, 'u) vicarl_ledger) vm" where
  "ledger_flush A clk l =
     (if lg_buf l = [] then retr l
      else
        let n = length (lg_buf l); recs = buf_slices l in
        bindr (flush_tip (lg_store l)) (\<lambda>(new_no, prev).
        bindr (on_heap (calloc_or_oom A n sizeof_slice)) (\<lambda>rp.
        bindr (on_error (upd_heap (vicarl__free A (Some rp))) (on_heap (flush_header A (now_ms clk) new_no prev l))) (\<lambda>hdr.
        bindr (finally_do (upd_heap (vicarl__free A (Some rp)))
                 (on_heap (vicarl_segment_encode A (Some hdr) (Some recs) n None True))) (\<lambda>seg.
        bindr (finally_do (upd_heap (vicarl_free A (by_ptr seg)))
                 (vicarl_store_append_segment (lg_store l) (bytes_slice seg) True)) (\<lambda>_.
        on_heap (\<lambda>h. case clear_buffer A l h of (l', h') \<Rightarrow> (Inr l', h'))))))))"

definition vicarl_ledger_flush :: "vicarl_allocator \<Rightarrow> clock \<Rightarrow> (('e, 'u) ledger_state, unit) vm" where
  "vicarl_ledger_flush A clk s =
     (case s of
        (w, None) \<Rightarrow> (Inl (badarg ''ledger_flush: ledger is NULL''), (w, None))
      | (w, Some l) \<Rightarrow>
          (case ledger_flush A clk l w of
             (Inl e, w') \<Rightarrow> (Inl e, (w', Some l))
           | (Inr l', w') \<Rightarrow> (Inr (), (w', Some l'))))"

section \<open>Appending\<close>

text \<open>\<^verbatim>\<open>vicarl_ledger_append_record\<close> up to the automatic flush: the identifier and the ledger with the record buffered.\<close>

definition ledger_buffer ::
  "vicarl_allocator \<Rightarrow> ('e, 'u) vicarl_ledger \<Rightarrow> vicarl_slice \<Rightarrow> bool \<Rightarrow> (heap, vicarl_hash32 \<times> ('e, 'u) vicarl_ledger) vm" where
  "ledger_buffer A l rec out =
     (if \<not> out then failr (badarg ''ledger_append_record: out_record_id is NULL'')
      else if slice_bad rec then failr (badarg ''ledger_append_record: record ptr is NULL'')
      else
        bindr (vicarl_record_decode A rec True) (\<lambda>r.
        let has_sig = (vicarl_record_signature (Some r) \<noteq> None) in
        finally_do (vicarl_record_destroy A (Some r))
          (bindr (guardr (\<not> (require_signed_records (lg_opt l) \<noteq> 0 \<and> \<not> has_sig))
             (fail_with VICARL_ERR_CRYPTO ''ledger requires signed records but record has no signature'')) (\<lambda>_.
           bindr (of_res (vicarl_record_id rec True)) (\<lambda>rid.
           bindr (malloc_or_oom A (if sl_len rec \<noteq> 0 then sl_len rec else 1)) (\<lambda>copy.
           bindr (of_res (slice_read rec)) (\<lambda>bs.
           bindr (on_error (vicarl__free A (Some copy)) (ensure_bufcap A l ((length (lg_buf l) + 1) mod size_mod))) (\<lambda>l1.
           retr (rid, l1\<lparr>lg_buf := lg_buf l1 @ [\<lparr>br_ptr = copy, br_bytes = bs, br_len = sl_len rec, br_id = rid, br_has_sig = has_sig\<rparr>],
                         lg_buf_bytes := (lg_buf_bytes l1 + sl_len rec) mod size_mod\<rparr>)))))))))"

definition flush_due :: "('e, 'u) vicarl_ledger \<Rightarrow> bool" where
  "flush_due l \<longleftrightarrow> length (lg_buf l) \<ge> unat (segment_target_records (lg_opt l)) \<or>
     lg_buf_bytes l \<ge> unat (segment_target_bytes (lg_opt l))"

definition vicarl_ledger_append_record ::
  "vicarl_allocator \<Rightarrow> clock \<Rightarrow> vicarl_slice \<Rightarrow> bool \<Rightarrow> (('e, 'u) ledger_state, vicarl_hash32) vm" where
  "vicarl_ledger_append_record A clk rec out s =
     (case s of
        (w, None) \<Rightarrow> (Inl (badarg ''ledger_append_record: ledger is NULL''), (w, None))
      | (w, Some l) \<Rightarrow>
          (case on_heap (ledger_buffer A l rec out) w of
             (Inl e, w1) \<Rightarrow> (Inl e, (w1, Some l))
           | (Inr (rid, l1), w1) \<Rightarrow>
               if flush_due l1
               then (case vicarl_ledger_flush A clk (w1, Some l1) of (Inl e, s2) \<Rightarrow> (Inl e, s2) | (Inr _, s2) \<Rightarrow> (Inr rid, s2))
               else (Inr rid, (w1, Some l1))))"

section \<open>Reading and verifying\<close>

definition vicarl_ledger_read_segment :: "u64 \<Rightarrow> bool \<Rightarrow> (('e, 'u) ledger_state, vicarl_bytes) vm" where
  "vicarl_ledger_read_segment no out s =
     (case s of
        (w, None) \<Rightarrow> (Inl (badarg ''ledger_read_segment: ledger is NULL''), (w, None))
      | (w, Some l) \<Rightarrow> (case vicarl_store_read_segment (lg_store l) no out w of (r, w') \<Rightarrow> (r, (w', Some l))))"

definition vicarl_ledger_tip :: "bool \<Rightarrow> (('e, 'u) ledger_state, u64 \<times> vicarl_hash32) vm" where
  "vicarl_ledger_tip out s =
     (case s of
        (w, None) \<Rightarrow> (Inl (badarg ''ledger_tip: ledger is NULL''), (w, None))
      | (w, Some l) \<Rightarrow> (case vicarl_store_tip (lg_store l) out w of (r, w') \<Rightarrow> (r, (w', Some l))))"

text \<open>The loop over the records that enforces the presence of signatures.\<close>

fun check_signed :: "vicarl_allocator \<Rightarrow> vicarl_segment \<Rightarrow> nat list \<Rightarrow> (heap, unit) vm" where
  "check_signed A s [] = retr ()"
| "check_signed A s (i # is) =
     bindr (of_res (vicarl_segment_get_record (Some s) i True)) (\<lambda>rb.
     bindr (vicarl_record_decode A rb True) (\<lambda>rr.
     bindr (finally_do (vicarl_record_destroy A (Some rr))
       (guardr (vicarl_record_signature (Some rr) \<noteq> None)
         (fail_with VICARL_ERR_CRYPTO ''ledger_verify: found unsigned record but ledger requires signed records''))) (\<lambda>_.
     check_signed A s is)))"

text \<open>The checks on one segment: what the loop body does between reading the bytes and freeing them.\<close>

definition verify_segment ::
  "vicarl_allocator \<Rightarrow> bool \<Rightarrow> u64 \<Rightarrow> vicarl_hash32 \<Rightarrow> vicarl_slice \<Rightarrow> (heap, vicarl_hash32) vm" where
  "verify_segment A strict no prev_hash seg =
     bindr (of_res (vicarl__sha256 seg True)) (\<lambda>seg_hash.
     bindr (vicarl_segment_verify A seg) (\<lambda>_.
     bindr (vicarl_segment_decode A seg True) (\<lambda>s.
     finally_do (vicarl_segment_destroy A (Some s))
       (case segment_header_of (Some s) of
          None \<Rightarrow> failr (fail_with VICARL_ERR_INTERNAL ''ledger_verify: segment header missing'')
        | Some hdr \<Rightarrow>
            bindr (guardr (segment_no hdr = no)
              (fail_with VICARL_ERR_FORMAT (''ledger_verify: segment_no mismatch (expected '' @ dec_u64 no @ '' got '' @
                 dec_u64 (segment_no hdr) @ '')''))) (\<lambda>_.
            bindr (if no = 1
                   then guardr (hash_is_zero32 (prev_segment_hash hdr))
                     (fail_with VICARL_ERR_FORMAT ''ledger_verify: genesis prev_segment_hash must be zero'')
                   else guardr (prev_segment_hash hdr = prev_hash)
                     (fail_with VICARL_ERR_FORMAT ''ledger_verify: prev_segment_hash linkage mismatch'')) (\<lambda>_.
            bindr (if strict then check_signed A s [0..<unat (record_count hdr)] else retr ()) (\<lambda>_.
            retr seg_hash)))))))"

text \<open>The loop \<^verbatim>\<open>for (no = 1; no <= tip_no; no++)\<close>, which does not end when the tip is the greatest number.\<close>

partial_function (option) ledger_verify_loop ::
  "vicarl_allocator \<Rightarrow> ('e, 'u) vicarl_ledger \<Rightarrow> u64 \<Rightarrow> vicarl_hash32 \<Rightarrow> u64 \<Rightarrow> vicarl_hash32 \<Rightarrow> 'e world \<Rightarrow> (unit res \<times> 'e world) option" where
  "ledger_verify_loop A l tno stip no prev_hash w =
     (if no \<le> tno then
        (case vicarl_store_read_segment (lg_store l) no True w of
           (Inl e, w1) \<Rightarrow> Some (Inl e, w1)
         | (Inr seg, w1) \<Rightarrow>
             (case finally_do (upd_heap (vicarl_free A (by_ptr seg)))
                     (on_heap (verify_segment A (require_signed_records (lg_opt l) \<noteq> 0) no prev_hash (bytes_slice seg))) w1 of
                (Inl e, w2) \<Rightarrow> Some (Inl e, w2)
              | (Inr seg_hash, w2) \<Rightarrow>
                  if no = tno \<and> stip \<noteq> seg_hash
                  then Some (Inl (fail_with VICARL_ERR_FORMAT ''ledger_verify: store tip hash mismatch''), w2)
                  else ledger_verify_loop A l tno stip (no + 1) seg_hash w2))
      else Some (Inr (), w))"

definition vicarl_ledger_verify :: "vicarl_allocator \<Rightarrow> ('e, 'u) ledger_state \<Rightarrow> (unit res \<times> ('e, 'u) ledger_state) option" where
  "vicarl_ledger_verify A s =
     (case s of
        (w, None) \<Rightarrow> Some (Inl (badarg ''ledger_verify: ledger is NULL''), (w, None))
      | (w, Some l) \<Rightarrow>
          (case vicarl_store_tip (lg_store l) True w of
             (Inl e, w1) \<Rightarrow>
               if status_of (Inl e :: unit res) = Some VICARL_ERR_NOT_FOUND then Some (Inr (), (w1, Some l))
               else Some (Inl e, (w1, Some l))
           | (Inr (tno, thash), w1) \<Rightarrow>
               map_option (\<lambda>(r, w2). (r, (w2, Some l))) (ledger_verify_loop A l tno thash 1 zero_hash w1)))"

section \<open>Valid chains\<close>

definition all_signed :: "bytes \<Rightarrow> bool" where
  "all_signed bs \<longleftrightarrow>
     (\<forall>hdr rs hs sig. segment_spec bs = Inr (hdr, rs, hs, sig) \<longrightarrow>
        (\<forall>r \<in> set rs. \<exists>m p s. record_spec (slice_bytes r) = Inr (m, p, True, s)))"

text \<open>A segment that may follow the segments \<open>segs\<close>; \<open>strict\<close> demands signatures on its records.\<close>

definition seg_ok :: "bool \<Rightarrow> bytes list \<Rightarrow> bytes \<Rightarrow> bool" where
  "seg_ok strict segs bs \<longleftrightarrow> segment_valid bs \<and> next_segment segs bs \<and> (strict \<longrightarrow> all_signed bs)"

definition chain_valid :: "bool \<Rightarrow> bytes list \<Rightarrow> bool" where
  "chain_valid strict segs \<longleftrightarrow> (\<forall>i < length segs. seg_ok strict (take i segs) (segs ! i))"

lemma chain_valid_Nil [simp]: "chain_valid strict []"
  by (simp add: chain_valid_def)

lemma chain_valid_snoc: "chain_valid strict (segs @ [bs]) \<longleftrightarrow> chain_valid strict segs \<and> seg_ok strict segs bs"
  by (auto simp: chain_valid_def nth_append less_Suc_eq)

lemma tip_hash_of_snoc [simp]: "tip_hash_of (segs @ [bs]) = sha256 bs" "tip_hash_of [] = zero_hash"
  by (simp_all add: tip_hash_of_def)

section \<open>Checking one segment\<close>

lemma check_signed_outcome:
  assumes A: "alloc_rel A ok rel" and n: "seg_record_count s = length (seg_records s)" and wf: "\<forall>r \<in> set (seg_records s). slice_wf r"
  shows "ok h \<Longrightarrow> \<forall>i \<in> set is. i < length (seg_records s) \<Longrightarrow>
    outcome (check_signed A s is)
      (\<lambda>_ h'. heap_to ok h (hp_live h) h' \<and> (\<forall>i \<in> set is. \<exists>m p g. record_spec (slice_bytes (seg_records s ! i)) = Inr (m, p, True, g)))
      (\<lambda>e h'. heap_to ok h (hp_live h) h' \<and>
         ((\<exists>i \<in> set is. \<not> (\<exists>m p g. record_spec (slice_bytes (seg_records s ! i)) = Inr (m, p, True, g))) \<or> \<not> rel)) h"
proof (induction "is" arbitrary: h)
  case Nil
  then show ?case by (simp add: outcome_def retr_def heap_to_refl)
next
  case (Cons i "is")
  let ?r = "seg_records s ! i" and ?ok = "\<lambda>i. \<exists>m p g. record_spec (slice_bytes (seg_records s ! i)) = Inr (m, p, True, g)"
  let ?Q = "\<lambda>_ h'. heap_to ok h (hp_live h) h' \<and> (\<forall>i \<in> set (i # is). ?ok i)"
  let ?E = "\<lambda>e h'. heap_to ok h (hp_live h) h' \<and> ((\<exists>i \<in> set (i # is). \<not> ?ok i) \<or> \<not> rel)"
  have get: "vicarl_segment_get_record (Some s) i True = Inr ?r" using Cons.prems(2) n by (simp add: vicarl_segment_get_record_def)
  have wfr: "slice_wf ?r" using Cons.prems(2) wf by simp
  let ?rest = "\<lambda>rr. bindr (finally_do (vicarl_record_destroy A (Some rr))
       (guardr (vicarl_record_signature (Some rr) \<noteq> None)
         (fail_with VICARL_ERR_CRYPTO ''ledger_verify: found unsigned record but ledger requires signed records''))) (\<lambda>_. check_signed A s is)"
  have "outcome (bindr (vicarl_record_decode A ?r True) ?rest) ?Q ?E h"
  proof (rule outcome_bindr, rule outcome_mono [OF record_decode_outcome [OF A Cons.prems(1) wfr]])
    fix rr h1 assume rr: "record_spec (slice_bytes ?r) = Inr (handle_fields rr) \<and> rec_owned_bytes rr = slice_bytes ?r \<and>
       record_owned (hp_live h) rr \<and> heap_to ok h (hp_live h \<union> own_record rr) h1"
    let ?h2 = "vicarl_record_destroy A (Some rr) h1"
    have h2: "heap_to ok h (hp_live h) ?h2" using rr by (auto simp: record_owned_def intro: record_destroy_heap [OF A])
    then have live: "ok ?h2" "hp_live ?h2 = hp_live h" by (simp_all add: heap_to_def)
    show "outcome (?rest rr) ?Q ?E h1"
    proof (cases "rec_has_sig rr")
      case True
      have "outcome (check_signed A s is) ?Q ?E ?h2"
        using Cons.IH [OF live(1)] Cons.prems(2) True rr h2 live(2)
        by (auto simp: handle_fields_def heap_to_def elim!: outcome_mono)
      with True show ?thesis by (simp add: outcome_def bindr_def finally_do_def vicarl_record_signature_def retr_def)
    next
      case False
      with rr h2 show ?thesis by (simp add: outcome_def bindr_def finally_do_def vicarl_record_signature_def failr_def handle_fields_def)
    qed
  next
    fix e h1 assume "heap_to ok h (hp_live h) h1 \<and> (record_spec (slice_bytes ?r) = Inl e \<or> e = err_oom \<and> \<not> rel)"
    then show "?E e h1" by auto
  qed
  with get show ?case by (simp add: outcome_def bindr_def of_res_def)
qed

lemma all_signed_iff:
  "segment_spec bs = Inr (hdr, rs, hs, sig) \<Longrightarrow>
   all_signed bs \<longleftrightarrow> (\<forall>i < length rs. \<exists>m p s. record_spec (slice_bytes (rs ! i)) = Inr (m, p, True, s))"
  by (auto simp: all_signed_def all_set_conv_all_nth)

lemma signed_outcome:
  assumes A: "alloc_rel A ok rel" and h: "ok h" and spec: "segment_spec bs = Inr (seg_fields s)" and len: "length bs < 2 ^ 59"
    and cnt: "seg_record_count s = unat (record_count (seg_hdr s))"
  shows "outcome (if strict then check_signed A s [0..<unat (record_count (seg_hdr s))] else retr ())
    (\<lambda>_ h'. heap_to ok h (hp_live h) h' \<and> (strict \<longrightarrow> all_signed bs))
    (\<lambda>e h'. heap_to ok h (hp_live h) h' \<and> (strict \<and> \<not> all_signed bs \<or> \<not> rel)) h"
proof (cases strict)
  case True
  have rs: "length (seg_records s) = unat (record_count (seg_hdr s))" "\<forall>r \<in> set (seg_records s). slice_wf r"
    using segment_spec_records spec len by (auto simp: seg_fields_def size_mod_def)
  have "outcome (check_signed A s [0..<unat (record_count (seg_hdr s))])
    (\<lambda>_ h'. heap_to ok h (hp_live h) h' \<and> all_signed bs) (\<lambda>e h'. heap_to ok h (hp_live h) h' \<and> (\<not> all_signed bs \<or> \<not> rel)) h"
    by (rule outcome_mono [OF check_signed_outcome [OF A _ rs(2) h]])
       (use rs(1) cnt all_signed_iff spec in \<open>auto simp: seg_fields_def\<close>)
  with True show ?thesis by simp
next
  case False
  with h show ?thesis by (simp add: outcome_def retr_def heap_to_refl)
qed

lemma linked_outcome:
  assumes A: "alloc_rel A ok rel" and valid: "segment_valid bs" and len: "length bs < 2 ^ 59"
    and no: "no = of_nat (length segs + 1)" "length segs + 1 < size_mod" and prev: "prev = tip_hash_of segs"
    and spec: "segment_spec bs = Inr (seg_fields s)" and cnt: "seg_record_count s = unat (record_count (seg_hdr s))"
    and own: "segment_owned L s" and h: "heap_to ok h0 (L \<union> own_segment s) h"
  shows "outcome (finally_do (vicarl_segment_destroy A (Some s)) (case segment_header_of (Some s) of
        None \<Rightarrow> failr e0
      | Some hdr \<Rightarrow> bindr (guardr (segment_no hdr = no) (e1 hdr)) (\<lambda>_.
          bindr (if no = 1 then guardr (hash_is_zero32 (prev_segment_hash hdr)) e2 else guardr (prev_segment_hash hdr = prev) e3) (\<lambda>_.
          bindr (if strict then check_signed A s [0..<unat (record_count hdr)] else retr ()) (\<lambda>_. retr g)))))
    (\<lambda>x h'. x = g \<and> seg_ok strict segs bs \<and> heap_to ok h0 L h')
    (\<lambda>e h'. heap_to ok h0 L h' \<and> (\<not> seg_ok strict segs bs \<or> \<not> rel)) h" (is "outcome _ ?Q ?E h")
proof -
  have one: "no = 1 \<longleftrightarrow> segs = []" using no unat_of_nat_u64 [OF no(2)] by (metis add_0 length_0_conv of_nat_1 add_right_cancel unat_1)
  have free: "heap_to ok h0 L (vicarl_segment_destroy A (Some s) h3)" if "heap_to ok h (hp_live h) h3" for h3
    using segment_destroy_heap [OF A _ own] heap_to_trans [OF h that] h by (simp add: heap_to_live)
  have link: "next_segment segs bs \<longleftrightarrow> segment_no (seg_hdr s) = no \<and> prev_segment_hash (seg_hdr s) = prev"
    using spec no(1) prev by (auto simp: next_segment_def seg_fields_def)
  have z: "hash_is_zero32 (prev_segment_hash (seg_hdr s)) \<longleftrightarrow> prev_segment_hash (seg_hdr s) = prev" if "no = 1"
    using that one prev by (simp add: hash_is_zero32_def)
  show ?thesis
  proof (cases "next_segment segs bs")
    case True
    have "outcome (finally_do (vicarl_segment_destroy A (Some s)) (bindr (if strict then check_signed A s [0..<unat (record_count (seg_hdr s))] else retr ())
        (\<lambda>_. retr g))) ?Q ?E h"
      by (rule outcome_finally, rule outcome_bindr, rule outcome_mono [OF signed_outcome [OF A heap_to_ok [OF h] spec len cnt]])
         (use free valid True in \<open>auto simp: seg_ok_def intro: outcome_retr\<close>)
    with True link z show ?thesis
      by (auto simp: outcome_def finally_do_def segment_header_of_def vm_simps)
  next
    case False
    with link z free [OF heap_to_refl [of ok h, OF heap_to_ok [OF h]]] show ?thesis
      by (auto simp: outcome_def finally_do_def segment_header_of_def vm_simps seg_ok_def)
  qed
qed

lemma verified_decode_outcome:
  assumes A: "alloc_rel A ok rel" and h: "ok h" and wf: "slice_wf enc" and len: "sl_len enc < 2 ^ 59"
  shows "outcome (bindr (vicarl_segment_verify A enc) (\<lambda>_. vicarl_segment_decode A enc True))
    (\<lambda>s h'. segment_valid (slice_bytes enc) \<and> segment_spec (slice_bytes enc) = Inr (seg_fields s) \<and>
       seg_record_count s = unat (record_count (seg_hdr s)) \<and> segment_owned (hp_live h) s \<and> heap_to ok h (hp_live h \<union> own_segment s) h')
    (\<lambda>e h'. heap_to ok h (hp_live h) h' \<and> (\<not> segment_valid (slice_bytes enc) \<or> \<not> rel)) h" (is "outcome _ ?Q ?E h")
proof (rule outcome_bindr, rule outcome_mono [OF segment_verify_outcome [OF A h wf len]])
  let ?bs = "slice_bytes enc"
  fix u h1
  assume "heap_to ok h (hp_live h) h1 \<and> segment_valid ?bs"
  then have h1: "heap_to ok h (hp_live h) h1" and valid: "segment_valid ?bs" by auto
  then obtain x where "segment_spec ?bs = Inr x" unfolding segment_valid_def by blast
  moreover from not_huge [OF this] have "\<not> huge_count ?bs" using len wf by (simp add: slice_wf_length)
  ultimately show "outcome (vicarl_segment_decode A enc True) ?Q ?E h1"
    using h1 valid by (intro outcome_mono [OF segment_decode_outcome [OF A heap_to_ok [OF h1] wf]]) (auto simp: heap_to_def)
qed auto

lemma verify_segment_outcome:
  assumes A: "alloc_rel A ok rel" and h: "ok h" and wf: "slice_wf enc" and len: "sl_len enc < 2 ^ 59"
    and no: "no = of_nat (length segs + 1)" "length segs + 1 < size_mod" and prev: "prev = tip_hash_of segs"
  shows "outcome (verify_segment A strict no prev enc)
    (\<lambda>g h'. g = sha256 (slice_bytes enc) \<and> seg_ok strict segs (slice_bytes enc) \<and> heap_to ok h (hp_live h) h')
    (\<lambda>e h'. heap_to ok h (hp_live h) h' \<and> (\<not> seg_ok strict segs (slice_bytes enc) \<or> \<not> rel)) h"
proof -
  have lbs: "length (slice_bytes enc) < 2 ^ 59" using len wf by (simp add: slice_wf_length)
  show ?thesis
    unfolding verify_segment_def vicarl__sha256_wf [OF wf]
    by (rule outcome_bindr, rule outcome_of_res, rule outcome_bindr_twice, rule outcome_mono [OF verified_decode_outcome [OF A h wf len]])
       (elim conjE, rule linked_outcome [OF A _ lbs no prev], assumption+, auto simp: seg_ok_def)
qed

section \<open>Verification decides validity of the chain\<close>

lemma chain_valid_take: "chain_valid strict segs \<Longrightarrow> chain_valid strict (take k segs)"
  by (auto simp: chain_valid_def min_def)

lemma chain_valid_nth: "chain_valid strict segs \<Longrightarrow> k < length segs \<Longrightarrow> seg_ok strict (take k segs) (segs ! k)"
  by (simp add: chain_valid_def)

context segment_store
begin

text \<open>Reading segment number \<open>Suc k\<close> and checking it, as one step of the loop does.\<close>

lemma verify_step:
  assumes A: "alloc_rel A ok rel" and w: "Inv w" and k: "k < length (chain w)" and prev: "prev = tip_hash_of (take k (chain w))"
  shows "outcome (bindr (vicarl_store_read_segment s (of_nat (Suc k)) True) (\<lambda>seg. finally_do (upd_heap (vicarl_free A (by_ptr seg)))
      (on_heap (verify_segment A strict (of_nat (Suc k)) prev (bytes_slice seg)))))
    (\<lambda>g w'. g = sha256 (chain w ! k) \<and> seg_ok strict (take k (chain w)) (chain w ! k) \<and> chain w' = chain w \<and>
       kept ok Inv own good w (hp_live (w_heap w)) w')
    (\<lambda>e w'. (\<not> seg_ok strict (take k (chain w)) (chain w ! k) \<or> \<not> (rel \<and> good w)) \<and> chain w' = chain w \<and>
       kept ok Inv own good w (hp_live (w_heap w)) w') w" (is "outcome _ ?Q ?E w")
proof -
  let ?bs = "chain w ! k" and ?L = "hp_live (w_heap w)"
  have ck: "chain_ok (chain w)" and own: "own w \<subseteq> ?L" using inv_ok [OF w] by auto
  have lim: "length ?bs < 2 ^ 59" "length ?bs < size_mod" using ck k by (auto simp: chain_ok_def seg_limit_def size_mod_def dest!: bspec [OF _ nth_mem])
  have sm: "length (take k (chain w)) + 1 < size_mod" using ck k by (simp add: chain_ok_def)
  show ?thesis
  proof (rule outcome_bindr, rule outcome_mono [OF read_law [OF w, of "Suc k"]])
    show "0 < Suc k" "Suc k \<le> length (chain w)" using k by auto
  next
    fix b w1
    assume "holds_bytes b (chain w ! (Suc k - 1)) \<and> own_bytes b \<inter> ?L = {} \<and> chain w1 = chain w \<and> kept ok Inv own good w (?L \<union> own_bytes b) w1"
    then have b: "holds_bytes b ?bs" "own_bytes b \<inter> ?L = {}" "chain w1 = chain w" "kept ok Inv own good w (?L \<union> own_bytes b) w1" by auto
    have sl: "bytes_slice b = slice_of ?bs" using b(1) by (rule bytes_slice_of)
    have live: "hp_live (w_heap w1) = ?L \<union> own_bytes b" using b(4) by (rule kept_live)
    have "outcome (on_heap (verify_segment A strict (of_nat (Suc k)) prev (bytes_slice b)))
      (\<lambda>g v. (g = sha256 ?bs \<and> seg_ok strict (take k (chain w)) ?bs) \<and> kept ok Inv own good w (?L \<union> own_bytes b) v \<and> chain v = chain w1)
      (\<lambda>e v. (\<not> seg_ok strict (take k (chain w)) ?bs \<or> \<not> rel) \<and> kept ok Inv own good w (?L \<union> own_bytes b) v \<and> chain v = chain w1) w1"
    proof (rule outcome_heap_step [OF b(4)])
      show "outcome (verify_segment A strict (of_nat (Suc k)) prev (bytes_slice b))
        (\<lambda>g h. (g = sha256 ?bs \<and> seg_ok strict (take k (chain w)) ?bs) \<and> heap_to ok (w_heap w1) (?L \<union> own_bytes b) h)
        (\<lambda>e h. (\<not> seg_ok strict (take k (chain w)) ?bs \<or> \<not> rel) \<and> heap_to ok (w_heap w1) (?L \<union> own_bytes b) h) (w_heap w1)"
        unfolding sl
        by (rule outcome_mono [OF verify_segment_outcome [OF A _ _ _ _ sm prev]])
           (use b(4) lim k live in \<open>auto simp: kept_def heap_to_def\<close>)
    qed (use own in auto)
    then show "outcome (finally_do (upd_heap (vicarl_free A (by_ptr b))) (on_heap (verify_segment A strict (of_nat (Suc k)) prev (bytes_slice b)))) ?Q ?E w1"
      by (intro outcome_finally, elim outcome_mono)
         (use kept_free [OF A, of w ?L "by_ptr b"] b(2,3) own in \<open>auto simp: own_bytes_def\<close>)
  next
    fix e w1
    assume "\<not> good w \<and> status_of (Inl e :: unit res) \<notin> {None, Some VICARL_ERR_NOT_FOUND} \<and> chain w1 = chain w \<and> kept ok Inv own good w ?L w1"
    then show "?E e w1" by simp
  qed
qed

lemma verify_loop:
  assumes A: "alloc_rel A ok rel" and l: "lg_store l = s" "strict \<longleftrightarrow> require_signed_records (lg_opt l) \<noteq> 0"
  shows "Inv w \<Longrightarrow> chain w \<noteq> [] \<Longrightarrow> k + n = length (chain w) \<Longrightarrow> chain_valid strict (take k (chain w)) \<Longrightarrow>
    prev = tip_hash_of (take k (chain w)) \<Longrightarrow>
    \<exists>r w'. ledger_verify_loop A l (of_nat (length (chain w))) (sha256 (last (chain w))) (of_nat (Suc k)) prev w = Some (r, w') \<and>
      chain w' = chain w \<and> kept ok Inv own good w (hp_live (w_heap w)) w' \<and>
      (case r of Inr _ \<Rightarrow> chain_valid strict (chain w) | Inl e \<Rightarrow> \<not> chain_valid strict (chain w) \<or> \<not> (rel \<and> good w))"
proof (induction n arbitrary: k w prev)
  case 0
  have "length (chain w) + 1 < size_mod" using inv_ok [OF 0(1)] by (simp add: chain_ok_def)
  then have "\<not> of_nat (Suc k) \<le> (of_nat (length (chain w)) :: u64)"
    using 0(3) unat_of_nat_u64 [of "Suc k"] unat_of_nat_u64 [of k] by (simp add: word_le_nat_alt)
  with 0 kept_refl [OF 0(1)] show ?case by (simp add: ledger_verify_loop.simps)
next
  case (Suc n)
  let ?no = "of_nat (Suc k) :: u64" and ?tip = "of_nat (length (chain w)) :: u64"
  have k: "k < length (chain w)" using Suc.prems(3) by simp
  have sm: "length (chain w) + 1 < size_mod" using inv_ok [OF Suc.prems(1)] by (simp add: chain_ok_def)
  have un: "unat ?no = Suc k" "unat ?tip = length (chain w)" using sm k unat_of_nat_u64 [of "Suc k"] by (simp_all add: unat_of_nat_u64)
  have le: "?no \<le> ?tip" using un k by (simp add: word_le_nat_alt)
  have eq: "?no = ?tip \<longleftrightarrow> Suc k = length (chain w)" using un by metis
  let ?m = "bindr (vicarl_store_read_segment s ?no True) (\<lambda>seg. finally_do (upd_heap (vicarl_free A (by_ptr seg)))
      (on_heap (verify_segment A strict ?no prev (bytes_slice seg))))"
  note step = verify_step [OF A Suc.prems(1) k Suc.prems(5), of strict]
  have unf: "ledger_verify_loop A l ?tip t ?no prev w =
      (case ?m w of (Inl e, w2) \<Rightarrow> Some (Inl e, w2)
       | (Inr g, w2) \<Rightarrow> if ?no = ?tip \<and> t \<noteq> g then Some (Inl (fail_with VICARL_ERR_FORMAT ''ledger_verify: store tip hash mismatch''), w2)
                       else ledger_verify_loop A l ?tip t (?no + 1) g w2)" for t
    using le l by (subst ledger_verify_loop.simps) (simp add: bindr_def split: prod.split sum.split)
  obtain r w2 where m: "?m w = (r, w2)" by (cases "?m w")
  show ?case
  proof (cases r)
    case (Inl e)
    with outcome_Inl [OF step] m chain_valid_nth [OF _ k] show ?thesis unfolding unf by auto
  next
    case (Inr g)
    from outcome_Inr [OF step m [unfolded Inr]] have g: "g = sha256 (chain w ! k)" "seg_ok strict (take k (chain w)) (chain w ! k)"
      "chain w2 = chain w" "kept ok Inv own good w (hp_live (w_heap w)) w2" by auto
    have tk: "take (Suc k) (chain w) = take k (chain w) @ [chain w ! k]" using k by (rule take_Suc_conv_app_nth)
    have "sha256 (last (chain w)) = g" if "?no = ?tip"
      using that eq g(1) last_conv_nth [OF Suc.prems(2)] by (metis diff_Suc_1)
    moreover have "\<exists>r w'. ledger_verify_loop A l ?tip (sha256 (last (chain w))) (of_nat (Suc (Suc k))) g w2 = Some (r, w') \<and>
        chain w' = chain w2 \<and> kept ok Inv own good w2 (hp_live (w_heap w2)) w' \<and>
        (case r of Inr _ \<Rightarrow> chain_valid strict (chain w2) | Inl e \<Rightarrow> \<not> chain_valid strict (chain w2) \<or> \<not> (rel \<and> good w2))"
      using Suc.IH [of w2 "Suc k" g] Suc.prems(2-4) g tk by (simp add: chain_valid_snoc kept_inv)
    moreover have "of_nat (Suc (Suc k)) = ?no + 1" by (simp add: add.commute)
    ultimately show ?thesis
      using m Inr g(3,4) kept_trans [OF g(4)] kept_live [OF g(4)] unfolding unf
      by (auto simp: kept_def split: sum.splits)
  qed
qed

end

section \<open>The state of a ledger\<close>

definition bufrec_ok :: "bool \<Rightarrow> vicarl_bufrec \<Rightarrow> bool" where
  "bufrec_ok strict b \<longleftrightarrow> br_len b = length (br_bytes b) \<and> br_id b = sha256 (br_bytes b) \<and>
     (\<exists>m p s. record_spec (br_bytes b) = Inr (m, p, br_has_sig b, s)) \<and> (strict \<longrightarrow> br_has_sig b)"

definition strict_of :: "('e, 'u) vicarl_ledger \<Rightarrow> bool" where
  "strict_of l \<longleftrightarrow> require_signed_records (lg_opt l) \<noteq> 0"

definition buf_ptrs :: "('e, 'u) vicarl_ledger \<Rightarrow> addr set" where
  "buf_ptrs l = br_ptr ` set (lg_buf l)"

definition own_ledger :: "('e, 'u) vicarl_ledger \<Rightarrow> addr set" where
  "own_ledger l = insert (lg_ptr l) (set_option (lg_buf_ptr l) \<union> buf_ptrs l)"

definition ledger_ok :: "('e, 'u) vicarl_ledger \<Rightarrow> bool" where
  "ledger_ok l \<longleftrightarrow>
     distinct (map br_ptr (lg_buf l)) \<and> lg_ptr l \<notin> set_option (lg_buf_ptr l) \<union> buf_ptrs l \<and>
     set_option (lg_buf_ptr l) \<inter> buf_ptrs l = {} \<and> (lg_buf_ptr l = None \<longrightarrow> lg_buf_cap l = 0) \<and>
     length (lg_buf l) \<le> lg_buf_cap l \<and> lg_buf_cap l < size_mod \<and> (\<forall>b \<in> set (lg_buf l). bufrec_ok (strict_of l) b)"

text \<open>Bytes a buffer takes in a segment, at most; buffers are assumed to stay below a quarter exabyte.\<close>

definition buf_size :: "('e, 'u) vicarl_ledger \<Rightarrow> nat" where
  "buf_size l = sum_list (map (\<lambda>b. length (br_bytes b) + 16) (lg_buf l))"

definition buf_limit :: nat where
  "buf_limit = 2 ^ 58"

definition ledger_inv :: "('e world \<Rightarrow> bool) \<Rightarrow> ('e world \<Rightarrow> addr set) \<Rightarrow> ('e, 'u) vicarl_ledger \<Rightarrow> 'e world \<Rightarrow> bool" where
  "ledger_inv Inv own l w \<longleftrightarrow> Inv w \<and> ledger_ok l \<and> own_ledger l \<subseteq> hp_live (w_heap w) \<and> own_ledger l \<inter> own w = {}"

text \<open>The segment a flush writes.\<close>

definition flush_hdr :: "clock \<Rightarrow> ('e, 'u) vicarl_ledger \<Rightarrow> bytes list \<Rightarrow> vicarl_segment_header" where
  "flush_hdr clk l segs =
     \<lparr>segment_no = of_nat (length segs + 1), prev_segment_hash = tip_hash_of segs, record_count = of_nat (length (lg_buf l)),
      records_merkle_root = (if enable_merkle (lg_opt l) \<noteq> 0 then mroot (map (\<lambda>b. sha256 (br_bytes b)) (lg_buf l)) else zero_hash),
      hdr_timestamp_ms = now_ms clk\<rparr>"

definition flush_bytes :: "clock \<Rightarrow> ('e, 'u) vicarl_ledger \<Rightarrow> bytes list \<Rightarrow> bytes" where
  "flush_bytes clk l segs = segment_wire (flush_hdr clk l segs) (map br_bytes (lg_buf l)) None"

lemma mroot_length: "\<forall>h \<in> set hs. length h = 32 \<Longrightarrow> length (mroot hs) = 32"
proof (induction hs rule: mroot.induct)
  case (1 hs)
  show ?case
  proof (cases "length hs > 1")
    case True
    with 1 show ?thesis by (simp add: mroot_step pairup_32)
  next
    case False
    with "1.prems" show ?thesis by (cases hs) (auto simp: mroot.simps)
  qed
qed

lemma tip_hash_length: "length (tip_hash_of segs) = 32"
  by (simp add: tip_hash_of_def sha256_length)

lemma flush_hdr_wf: "hdr_wf (flush_hdr clk l segs)"
  by (simp add: hdr_wf_def flush_hdr_def tip_hash_length mroot_length sha256_length)

lemma buf_length_size: "length (lg_buf l) * 16 \<le> buf_size l"
proof -
  have "length bs * 16 \<le> sum_list (map (\<lambda>b. length (br_bytes b) + 16) bs)" for bs by (induction bs) auto
  then show ?thesis by (simp add: buf_size_def)
qed

lemma bufrec_size: "b \<in> set (lg_buf l) \<Longrightarrow> length (br_bytes b) + 16 \<le> buf_size l"
proof -
  have "b \<in> set bs \<Longrightarrow> length (br_bytes b) + 16 \<le> sum_list (map (\<lambda>b. length (br_bytes b) + 16) bs)" for bs
    by (induction bs) auto
  then show "b \<in> set (lg_buf l) \<Longrightarrow> ?thesis" by (simp add: buf_size_def)
qed

lemma flush_bytes_length: "length (flush_bytes clk l segs) \<le> 100 + buf_size l" if "buf_size l < buf_limit"
proof -
  have leb: "length (leb128 (unat (v :: u64))) \<le> 10" for v using leb128_u64_length by simp
  have ld: "length (ldbytes b) \<le> length b + 16" if "length b < size_mod" for b
  proof -
    have "length (leb128 (length b)) \<le> 10" using leb [of "of_nat (length b)"] that by (simp add: unat_of_nat_u64)
    then show ?thesis by (simp add: ldbytes_def)
  qed
  have "length (concat (map ldbytes bs)) \<le> sum_list (map (\<lambda>b. length b + 16) bs)" if "\<forall>b \<in> set bs. length b < size_mod" for bs
    using that
  proof (induction bs)
    case (Cons b bs)
    with ld [of b] show ?case by simp
  qed simp
  moreover have "\<forall>b \<in> set (map br_bytes (lg_buf l)). length b < size_mod"
  proof
    fix b assume "b \<in> set (map br_bytes (lg_buf l))"
    then have "length b \<le> buf_size l" using bufrec_size [of _ l] by fastforce
    with that show "length b < size_mod" by (simp add: buf_limit_def size_mod_def)
  qed
  ultimately have "length (concat (map ldbytes (map br_bytes (lg_buf l)))) \<le> buf_size l"
    by (fastforce simp: buf_size_def comp_def)
  moreover have "length (prev_segment_hash (flush_hdr clk l segs)) = 32" "length (records_merkle_root (flush_hdr clk l segs)) = 32"
    using flush_hdr_wf [of clk l segs] by (simp_all add: hdr_wf_def)
  ultimately show ?thesis
    using leb [of "segment_no (flush_hdr clk l segs)"] leb [of "record_count (flush_hdr clk l segs)"] leb [of "hdr_timestamp_ms (flush_hdr clk l segs)"]
    by (simp add: flush_bytes_def segment_wire_def VICARL_SEG_MAGIC_def)
qed


lemma buf_slices_bytes: "\<forall>b \<in> set (lg_buf l). br_len b = length (br_bytes b) \<Longrightarrow> buf_slices l = map slice_of (map br_bytes (lg_buf l))"
  by (simp add: buf_slices_def slice_of_def)

lemma map_slice_bytes_of: "map slice_bytes (map slice_of bss) = bss"
  by (simp add: comp_def)

text \<open>What a flush writes is a valid next segment.\<close>

lemma flush_bytes_spec:
  assumes "buf_size l < buf_limit"
  shows "\<exists>rs. segment_spec (flush_bytes clk l segs) = Inr (flush_hdr clk l segs, rs, False, replicate 64 0) \<and>
    map slice_bytes rs = map br_bytes (lg_buf l)"
proof -
  have n: "length (lg_buf l) < size_mod" using assms buf_length_size [of l] by (simp add: buf_limit_def size_mod_def)
  have "\<forall>b \<in> set (map br_bytes (lg_buf l)). length b < size_mod"
    using assms bufrec_size [of _ l] by (fastforce simp: buf_limit_def size_mod_def)
  from segment_spec_wire [OF flush_hdr_wf this, of None clk l segs] n show ?thesis
    by (simp add: flush_bytes_def sig_wf_def count_ok_def flush_hdr_def)
qed

lemma flush_bytes_ok:
  assumes "buf_size l < buf_limit" "\<forall>b \<in> set (lg_buf l). bufrec_ok (strict_of l) b"
  shows "seg_ok (strict_of l) segs (flush_bytes clk l segs)"
proof -
  let ?h = "flush_hdr clk l segs"
  obtain rs where spec: "segment_spec (flush_bytes clk l segs) = Inr (?h, rs, False, replicate 64 0)"
    and rs: "map slice_bytes rs = map br_bytes (lg_buf l)"
    using flush_bytes_spec [OF assms(1)] by blast
  have mem: "\<exists>b \<in> set (lg_buf l). slice_bytes r = br_bytes b" if "r \<in> set rs" for r
  proof -
    from that have "slice_bytes r \<in> set (map slice_bytes rs)" by simp
    then show ?thesis unfolding rs by auto
  qed
  have "leaves rs = map sha256 (map slice_bytes rs)" by (simp add: leaves_def)
  then have "records_merkle_root ?h = zero_hash \<or> records_merkle_root ?h = mroot (leaves rs)"
    by (simp add: rs flush_hdr_def comp_def)
  moreover have rec: "\<exists>m p hs s. record_spec (slice_bytes r) = Inr (m, p, hs, s) \<and> (strict_of l \<longrightarrow> hs)" if "r \<in> set rs" for r
    using mem [OF that] assms(2) unfolding bufrec_ok_def by metis
  moreover have "next_segment segs (flush_bytes clk l segs)"
    using spec by (auto simp: next_segment_def flush_hdr_def)
  moreover have "strict_of l \<longrightarrow> all_signed (flush_bytes clk l segs)" using spec rec by (fastforce simp: all_signed_def)
  moreover have "segment_valid (flush_bytes clk l segs)"
    unfolding segment_valid_def using spec rec calculation(1) by blast
  ultimately show ?thesis by (simp add: seg_ok_def)
qed

section \<open>Flushing\<close>

lemma clear_buffer_heap:
  assumes A: "alloc_rel A ok rel"
  shows "heap_to ok h0 (L \<union> br_ptr ` set bs) h \<Longrightarrow> distinct (map br_ptr bs) \<Longrightarrow> L \<inter> br_ptr ` set bs = {} \<Longrightarrow>
    heap_to ok h0 L (foldl (\<lambda>h b. vicarl__free A (Some (br_ptr b)) h) h bs)"
proof (induction bs arbitrary: h)
  case (Cons b bs)
  have "heap_to ok h0 (L \<union> br_ptr ` set bs) (vicarl__free A (Some (br_ptr b)) h)"
    using free_step_option [OF A, of h0 "L \<union> br_ptr ` set bs" "Some (br_ptr b)" h] Cons.prems by auto
  with Cons show ?case by simp
qed simp

lemma flush_header_outcome:
  assumes A: "alloc_rel A ok rel" and h: "ok h" and sz: "buf_size l < buf_limit" and b: "\<forall>b \<in> set (lg_buf l). br_len b = length (br_bytes b)"
  shows "outcome (flush_header A (now_ms clk) (of_nat (length segs + 1)) (tip_hash_of segs) l)
    (\<lambda>hdr h'. hdr = flush_hdr clk l segs \<and> heap_to ok h (hp_live h) h')
    (\<lambda>e h'. \<not> rel \<and> heap_to ok h (hp_live h) h') h"
proof (cases "enable_merkle (lg_opt l) = 0")
  case True
  with h show ?thesis by (simp add: outcome_def flush_header_def Let_def retr_def flush_hdr_def heap_to_refl)
next
  case False
  have sl: "buf_slices l = map slice_of (map br_bytes (lg_buf l))" using b by (rule buf_slices_bytes)
  have "\<forall>b \<in> set (lg_buf l). length (br_bytes b) < size_mod" using sz bufrec_size [of _ l] by (fastforce simp: buf_limit_def size_mod_def)
  moreover have "length (lg_buf l) \<le> size_max div 32" using sz buf_length_size [of l] by (simp add: buf_limit_def size_max_def)
  ultimately have "records_ok (buf_slices l)" by (simp add: records_ok_def sl)
  note root = merkle_root_outcome [OF A h this]
  have lv: "leaves (buf_slices l) = map (\<lambda>b. sha256 (br_bytes b)) (lg_buf l)" by (simp add: sl leaves_def)
  have len: "length (buf_slices l) = length (lg_buf l)" by (simp add: buf_slices_def)
  have "outcome (bindr (vicarl__merkle_root A (Some (buf_slices l)) (length (lg_buf l)) True) (\<lambda>root.
      retr \<lparr>segment_no = of_nat (length segs + 1), prev_segment_hash = tip_hash_of segs, record_count = of_nat (length (lg_buf l)),
        records_merkle_root = root, hdr_timestamp_ms = now_ms clk\<rparr>))
    (\<lambda>hdr h'. hdr = flush_hdr clk l segs \<and> heap_to ok h (hp_live h) h') (\<lambda>e h'. \<not> rel \<and> heap_to ok h (hp_live h) h') h"
    by (rule outcome_bindr, rule outcome_mono [OF root [unfolded len lv]])
       (use False in \<open>auto intro!: outcome_retr simp: flush_hdr_def\<close>)
  with False show ?thesis by (simp add: flush_header_def Let_def)
qed

context segment_store
begin

lemma flush_tip_run: "Inv w \<Longrightarrow> flush_tip s w = (Inr (of_nat (length (chain w) + 1), tip_hash_of (chain w)), w)"
  by (simp add: flush_tip_def tip_law tip_hash_of_def)

text \<open>The state after a change of the heap that leaves \<open>L\<close> live.\<close>

lemma step_calloc:
  assumes A: "alloc_rel A ok rel" and k: "kept ok Inv own good w L v" and n: "c * n < size_mod" and own: "own w \<subseteq> L"
  shows "outcome (on_heap (calloc_or_oom A c n)) (\<lambda>p v'. p \<notin> L \<and> kept ok Inv own good w (insert p L) v' \<and> chain v' = chain v)
    (\<lambda>e v'. \<not> rel \<and> kept ok Inv own good w L v' \<and> chain v' = chain v) v"
proof (rule outcome_mono [OF outcome_heap_step [OF k, where Q = "\<lambda>p h. p \<notin> L" and E = "\<lambda>e h. \<not> rel"]])
  show "outcome (calloc_or_oom A c n) (\<lambda>p h. p \<notin> L \<and> heap_to ok (w_heap v) (insert p L) h) (\<lambda>e h. \<not> rel \<and> heap_to ok (w_heap v) L h) (w_heap v)"
    by (rule outcome_mono [OF calloc_or_oom_outcome [OF A _ n, of _ L]]) (use k in \<open>auto simp: kept_def heap_to_def\<close>)
qed (use own in auto)

lemma kept_free_insert:
  "alloc_rel A ok rel \<Longrightarrow> kept ok Inv own good w (insert p L) v \<Longrightarrow> p \<notin> L \<Longrightarrow> own w \<subseteq> L \<Longrightarrow>
   kept ok Inv own good w L (upd_heap (vicarl__free A (Some p)) v) \<and> chain (upd_heap (vicarl__free A (Some p)) v) = chain v"
  using kept_free [of A rel w L "Some p" v] by simp

lemma step_header:
  assumes A: "alloc_rel A ok rel" and k: "kept ok Inv own good w (insert rp L) v" "rp \<notin> L" "own w \<subseteq> L" "chain v = segs"
    and sz: "buf_size l < buf_limit" "\<forall>b \<in> set (lg_buf l). br_len b = length (br_bytes b)"
  shows "outcome (on_error (upd_heap (vicarl__free A (Some rp)))
      (on_heap (flush_header A (now_ms clk) (of_nat (length segs + 1)) (tip_hash_of segs) l)))
    (\<lambda>hdr v'. hdr = flush_hdr clk l segs \<and> kept ok Inv own good w (insert rp L) v' \<and> chain v' = segs)
    (\<lambda>e v'. \<not> rel \<and> kept ok Inv own good w L v' \<and> chain v' = segs) v"
proof -
  have "outcome (on_heap (flush_header A (now_ms clk) (of_nat (length segs + 1)) (tip_hash_of segs) l))
    (\<lambda>hdr v'. hdr = flush_hdr clk l segs \<and> kept ok Inv own good w (insert rp L) v' \<and> chain v' = chain v)
    (\<lambda>e v'. \<not> rel \<and> kept ok Inv own good w (insert rp L) v' \<and> chain v' = chain v) v"
  proof (rule outcome_mono [OF outcome_heap_step [OF k(1), where Q = "\<lambda>hdr h. hdr = flush_hdr clk l segs" and E = "\<lambda>e h. \<not> rel"]])
    show "outcome (flush_header A (now_ms clk) (of_nat (length segs + 1)) (tip_hash_of segs) l)
      (\<lambda>hdr h. hdr = flush_hdr clk l segs \<and> heap_to ok (w_heap v) (insert rp L) h) (\<lambda>e h. \<not> rel \<and> heap_to ok (w_heap v) (insert rp L) h) (w_heap v)"
      by (rule outcome_mono [OF flush_header_outcome [OF A _ sz]]) (use k(1) in \<open>auto simp: kept_def heap_to_def\<close>)
  qed (use k(3) in auto)
  then show ?thesis
    by (intro outcome_on_error, elim outcome_mono) (use kept_free_insert [OF A _ k(2,3)] k(4) in auto)
qed

lemma step_encode:
  assumes A: "alloc_rel A ok rel" and k: "kept ok Inv own good w (insert rp L) v" "rp \<notin> L" "own w \<subseteq> L" "chain v = segs"
    and sz: "buf_size l < buf_limit" "\<forall>b \<in> set (lg_buf l). br_len b = length (br_bytes b)"
  shows "outcome (finally_do (upd_heap (vicarl__free A (Some rp)))
      (on_heap (vicarl_segment_encode A (Some (flush_hdr clk l segs)) (Some (buf_slices l)) (length (lg_buf l)) None True)))
    (\<lambda>b v'. holds_bytes b (flush_bytes clk l segs) \<and> own_bytes b \<inter> L = {} \<and> kept ok Inv own good w (L \<union> own_bytes b) v' \<and> chain v' = segs)
    (\<lambda>e v'. \<not> rel \<and> kept ok Inv own good w L v' \<and> chain v' = segs) v"
proof -
  have sl: "buf_slices l = map slice_of (map br_bytes (lg_buf l))" using sz(2) by (rule buf_slices_bytes)
  have big: "\<forall>b \<in> set (lg_buf l). length (br_bytes b) < size_mod" "length (lg_buf l) < size_mod"
    using sz(1) bufrec_size [of _ l] buf_length_size [of l] by (fastforce simp: buf_limit_def size_mod_def)+
  have len: "length (flush_bytes clk l segs) + 10 < 2 ^ 60" using flush_bytes_length [OF sz(1), of clk segs] sz(1) by (simp add: buf_limit_def)
  have wire: "segment_wire (flush_hdr clk l segs) (map slice_bytes (buf_slices l)) None = flush_bytes clk l segs"
    by (simp add: sl flush_bytes_def comp_def)
  have n: "length (buf_slices l) = length (lg_buf l)" by (simp add: sl)
  have enc: "outcome (vicarl_segment_encode A (Some (flush_hdr clk l segs)) (Some (buf_slices l)) (length (lg_buf l)) None True)
     (\<lambda>b h'. (holds_bytes b (flush_bytes clk l segs) \<and> own_bytes b \<inter> insert rp L = {}) \<and> heap_to ok (w_heap v) (insert rp L \<union> own_bytes b) h')
     (\<lambda>e h'. \<not> rel \<and> heap_to ok (w_heap v) (insert rp L) h') (w_heap v)"
    by (rule outcome_mono [OF segment_encode_outcome [OF A _ flush_hdr_wf, of "w_heap v" "buf_slices l" None clk l segs, unfolded wire n]])
       (use k(1) big len in \<open>auto simp: kept_def heap_to_def sl sig_wf_def count_ok_def flush_hdr_def size_mod_def\<close>)
  have "outcome (on_heap (vicarl_segment_encode A (Some (flush_hdr clk l segs)) (Some (buf_slices l)) (length (lg_buf l)) None True))
    (\<lambda>b v'. (holds_bytes b (flush_bytes clk l segs) \<and> own_bytes b \<inter> insert rp L = {}) \<and> kept ok Inv own good w (insert rp L \<union> own_bytes b) v' \<and> chain v' = chain v)
    (\<lambda>e v'. \<not> rel \<and> kept ok Inv own good w (insert rp L) v' \<and> chain v' = chain v) v"
    by (rule outcome_heap_step [OF k(1) enc]) (use k(3) in auto)
  then show ?thesis
  proof (intro outcome_finally, elim outcome_mono)
    fix b v' assume "(holds_bytes b (flush_bytes clk l segs) \<and> own_bytes b \<inter> insert rp L = {}) \<and> kept ok Inv own good w (insert rp L \<union> own_bytes b) v' \<and> chain v' = chain v"
    then show "holds_bytes b (flush_bytes clk l segs) \<and> own_bytes b \<inter> L = {} \<and>
        kept ok Inv own good w (L \<union> own_bytes b) (upd_heap (vicarl__free A (Some rp)) v') \<and> chain (upd_heap (vicarl__free A (Some rp)) v') = segs"
      using kept_free_insert [OF A, of w rp "L \<union> own_bytes b" v'] k(2-4) by auto
  qed (use kept_free_insert [OF A _ k(2,3)] k(4) in auto)
qed

lemma step_append:
  assumes A: "alloc_rel A ok rel" and k: "kept ok Inv own good w (L \<union> own_bytes b) v" "own_bytes b \<inter> L = {}" "own w \<subseteq> L"
    and b: "holds_bytes b bs" "length bs < lim" and c: "length (chain v) + 2 < size_mod" and nx: "next_segment (chain v) bs"
  shows "outcome (finally_do (upd_heap (vicarl_free A (by_ptr b))) (vicarl_store_append_segment s (bytes_slice b) True))
    (\<lambda>_ v'. kept ok Inv own good w L v' \<and> chain v' = chain v @ [bs])
    (\<lambda>e v'. \<not> (good w \<and> fits (chain v) bs) \<and> kept ok Inv own good w L v' \<and> chain v' = chain v) v"
proof -
  have sl: "bytes_slice b = slice_of bs" using b(1) by (rule bytes_slice_of)
  have wf: "slice_wf (slice_of bs)" using b(2) lim_le by (simp add: seg_limit_def size_mod_def)
  have live: "hp_live (w_heap v) = L \<union> own_bytes b" using k(1) by (rule kept_live)
  note fr = kept_free [OF A _ k(2) [unfolded own_bytes_def] k(3)]
  show ?thesis
    unfolding sl
  proof (rule outcome_finally, rule outcome_mono [OF append_law [OF kept_inv [OF k(1)] wf _ c]])
    fix r v' assume "r = (of_nat (length (chain v) + 1), sha256 (slice_bytes (slice_of bs))) \<and>
       chain v' = chain v @ [slice_bytes (slice_of bs)] \<and> kept ok Inv own good v (hp_live (w_heap v)) v'"
    then show "kept ok Inv own good w L (upd_heap (vicarl_free A (by_ptr b)) v') \<and> chain (upd_heap (vicarl_free A (by_ptr b)) v') = chain v @ [bs]"
      using fr kept_trans [OF k(1)] by (simp add: live own_bytes_def)
  next
    fix e v' assume e: "\<not> (good v \<and> fits (chain v) (slice_bytes (slice_of bs)) \<and> next_segment (chain v) (slice_bytes (slice_of bs))) \<and> chain v' = chain v \<and> kept ok Inv own good v (hp_live (w_heap v)) v'"
    with nx k(1) have "\<not> (good w \<and> fits (chain v) bs)" by (auto simp: kept_def)
    with e show "\<not> (good w \<and> fits (chain v) bs) \<and> kept ok Inv own good w L (upd_heap (vicarl_free A (by_ptr b)) v') \<and> chain (upd_heap (vicarl_free A (by_ptr b)) v') = chain v"
      using fr kept_trans [OF k(1)] by (simp add: live own_bytes_def)
  qed (use b(2) in simp)
qed


lemma ledger_flush_outcome:
  assumes A: "alloc_rel A ok rel" and l: "lg_store l = s" "ledger_inv Inv own l w" "buf_size l < buf_limit" "lg_buf l \<noteq> []"
    and c: "length (chain w) + 2 < size_mod" and room: "buf_size l + 100 < lim"
  shows "outcome (ledger_flush A clk l)
    (\<lambda>l' w'. l' = l\<lparr>lg_buf := [], lg_buf_bytes := 0\<rparr> \<and> chain w' = chain w @ [flush_bytes clk l (chain w)] \<and>
       kept ok Inv own good w (hp_live (w_heap w) - buf_ptrs l) w')
    (\<lambda>e w'. \<not> (rel \<and> good w \<and> fits (chain w) (flush_bytes clk l (chain w))) \<and> chain w' = chain w \<and> kept ok Inv own good w (hp_live (w_heap w)) w') w" (is "outcome _ ?Q ?E w")
proof -
  let ?L = "hp_live (w_heap w)" and ?n = "length (lg_buf l)" and ?bs = "flush_bytes clk l (chain w)"
  have inv: "Inv w" "ledger_ok l" "own_ledger l \<subseteq> ?L" "own_ledger l \<inter> own w = {}" using l(2) by (auto simp: ledger_inv_def)
  have own: "own w \<subseteq> ?L" using inv_ok [OF inv(1)] by simp
  have bl: "\<forall>b \<in> set (lg_buf l). br_len b = length (br_bytes b)" and bok: "\<forall>b \<in> set (lg_buf l). bufrec_ok (strict_of l) b"
    using inv(2) by (auto simp: ledger_ok_def bufrec_ok_def)
  have n: "?n * sizeof_slice < size_mod" using l(3) buf_length_size [of l] by (simp add: buf_limit_def size_mod_def sizeof_slice_def)
  have len: "length ?bs < lim" using flush_bytes_length [OF l(3), of clk "chain w"] room by simp
  have nx: "next_segment (chain w) ?bs" using flush_bytes_ok [OF l(3) bok] by (simp add: seg_ok_def)
  have clear: "outcome (on_heap (\<lambda>h. case clear_buffer A l h of (l', h') \<Rightarrow> (Inr l', h'))) ?Q ?E v"
    if v: "kept ok Inv own good w ?L v" "chain v = chain w @ [?bs]" for v
  proof -
    have ptrs: "buf_ptrs l \<subseteq> ?L" "own w \<subseteq> ?L - buf_ptrs l" using inv(3,4) own by (auto simp: own_ledger_def)
    have dp: "distinct (map br_ptr (lg_buf l))" using inv(2) by (simp add: ledger_ok_def)
    have "heap_to ok (w_heap v) ((?L - buf_ptrs l) \<union> br_ptr ` set (lg_buf l)) (w_heap v)"
      using v(1) ptrs(1) by (auto simp: kept_def heap_to_def buf_ptrs_def)
    from clear_buffer_heap [OF A this dp] have h: "heap_to ok (w_heap v) (?L - buf_ptrs l) (snd (clear_buffer A l (w_heap v)))"
      by (auto simp: clear_buffer_def buf_ptrs_def)
    from kept_heap [OF v(1) h ptrs(2)] v(2) show ?thesis
      by (simp add: outcome_def on_heap_def clear_buffer_def)
  qed
  have app: "outcome (bindr (finally_do (upd_heap (vicarl_free A (by_ptr b))) (vicarl_store_append_segment (lg_store l) (bytes_slice b) True))
      (\<lambda>_. on_heap (\<lambda>h. case clear_buffer A l h of (l', h') \<Rightarrow> (Inr l', h')))) ?Q ?E v"
    if v: "holds_bytes b ?bs \<and> own_bytes b \<inter> ?L = {} \<and> kept ok Inv own good w (?L \<union> own_bytes b) v \<and> chain v = chain w" for b v
    unfolding l(1)
    by (rule outcome_bindr, rule outcome_mono [OF step_append [OF A _ _ own _ len, of b v]])
       (use v c nx clear in auto)
  have enc: "outcome (bindr (finally_do (upd_heap (vicarl__free A (Some rp)))
        (on_heap (vicarl_segment_encode A (Some hdr) (Some (buf_slices l)) ?n None True))) (\<lambda>b.
      bindr (finally_do (upd_heap (vicarl_free A (by_ptr b))) (vicarl_store_append_segment (lg_store l) (bytes_slice b) True))
      (\<lambda>_. on_heap (\<lambda>h. case clear_buffer A l h of (l', h') \<Rightarrow> (Inr l', h'))))) ?Q ?E v"
    if v: "hdr = flush_hdr clk l (chain w) \<and> kept ok Inv own good w (insert rp ?L) v \<and> chain v = chain w" "rp \<notin> ?L" for hdr rp v
    using v(1) by (elim conjE, hypsubst)
      (rule outcome_bindr, rule outcome_mono [OF step_encode [OF A _ v(2) own _ l(3) bl, where clk = clk]], assumption, assumption, rule app, auto)
  have hdr: "outcome (bindr (on_error (upd_heap (vicarl__free A (Some rp))) (on_heap (flush_header A (now_ms clk) (of_nat (length (chain w) + 1)) (tip_hash_of (chain w)) l))) (\<lambda>hdr.
      bindr (finally_do (upd_heap (vicarl__free A (Some rp)))
        (on_heap (vicarl_segment_encode A (Some hdr) (Some (buf_slices l)) ?n None True))) (\<lambda>b.
      bindr (finally_do (upd_heap (vicarl_free A (by_ptr b))) (vicarl_store_append_segment (lg_store l) (bytes_slice b) True))
      (\<lambda>_. on_heap (\<lambda>h. case clear_buffer A l h of (l', h') \<Rightarrow> (Inr l', h')))))) ?Q ?E v"
    if v: "rp \<notin> ?L \<and> kept ok Inv own good w (insert rp ?L) v \<and> chain v = chain w" for rp v
    using v by (elim conjE)
      (rule outcome_bindr, rule outcome_mono [OF step_header [OF A _ _ own _ l(3) bl, where clk = clk]], assumption, assumption, assumption, rule enc, auto)
  have "outcome (bindr (on_heap (calloc_or_oom A ?n sizeof_slice)) (\<lambda>rp.
      bindr (on_error (upd_heap (vicarl__free A (Some rp))) (on_heap (flush_header A (now_ms clk) (of_nat (length (chain w) + 1)) (tip_hash_of (chain w)) l))) (\<lambda>hdr.
      bindr (finally_do (upd_heap (vicarl__free A (Some rp)))
        (on_heap (vicarl_segment_encode A (Some hdr) (Some (buf_slices l)) ?n None True))) (\<lambda>b.
      bindr (finally_do (upd_heap (vicarl_free A (by_ptr b))) (vicarl_store_append_segment (lg_store l) (bytes_slice b) True))
      (\<lambda>_. on_heap (\<lambda>h. case clear_buffer A l h of (l', h') \<Rightarrow> (Inr l', h'))))))) ?Q ?E w"
    by (rule outcome_bindr, rule outcome_mono [OF step_calloc [OF A kept_refl [OF inv(1)] n own]], rule hdr) auto
  then show ?thesis
    using l(4) flush_tip_run [OF inv(1)] by (simp add: ledger_flush_def Let_def l(1) bindr_Inr outcome_def)
qed

end

section \<open>Buffering a record\<close>

lemma ensure_bufcap_outcome:
  assumes A: "alloc_rel A ok rel" and h: "heap_to ok h0 L h" and l: "set_option (lg_buf_ptr l) \<subseteq> L" "lg_buf_cap l < size_mod"
    "lg_buf_ptr l = None \<longrightarrow> lg_buf_cap l = 0" and want: "0 < want" "want \<le> 2 ^ 63"
  shows "outcome (ensure_bufcap A l want)
    (\<lambda>l1 h'. \<exists>p c. l1 = l\<lparr>lg_buf_ptr := Some p, lg_buf_cap := c\<rparr> \<and> want \<le> c \<and> c < size_mod \<and>
       p \<notin> L - set_option (lg_buf_ptr l) \<and> heap_to ok h0 (insert p (L - set_option (lg_buf_ptr l))) h')
    (\<lambda>e h'. \<not> rel \<and> heap_to ok h0 L h') h"
proof (cases "want \<le> lg_buf_cap l")
  case True
  then obtain p where p: "lg_buf_ptr l = Some p" using l(3) want(1) by (cases "lg_buf_ptr l") auto
  then have "l = l\<lparr>lg_buf_ptr := Some p, lg_buf_cap := lg_buf_cap l\<rparr>" "insert p (L - {p}) = L" using l(1) by auto
  then have "\<exists>p' c. l = l\<lparr>lg_buf_ptr := Some p', lg_buf_cap := c\<rparr> \<and> want \<le> c \<and> c < size_mod \<and> p' \<notin> L - {p} \<and> heap_to ok h0 (insert p' (L - {p})) h"
    using True l(2) h by (intro exI [of _ p] exI [of _ "lg_buf_cap l"]) simp
  with True p show ?thesis by (simp add: outcome_def ensure_bufcap_def)
next
  case False
  let ?c = "if lg_buf_cap l = 0 then 64 else lg_buf_cap l"
  have c: "0 < ?c" "?c < size_mod" using l(2) by (simp_all add: size_mod_def)
  obtain c' where g: "grow_cap ?c want = Some c'" using grow_cap_succeeds [OF c(1) want(2)] by blast
  have c': "want \<le> c'" "c' < size_mod" using grow_cap_Some [OF g c] by auto
  from A h l(1) show ?thesis
    by (cases rule: realloc_stepE [where n = "c' * sizeof_bufrec mod size_mod"])
       (use False g c' in \<open>auto simp: outcome_def ensure_bufcap_def\<close>)
qed

text \<open>The records a ledger admits.\<close>

definition admissible :: "('e, 'u) vicarl_ledger \<Rightarrow> bytes \<Rightarrow> bool" where
  "admissible l bs \<longleftrightarrow> (\<exists>m p hs s. record_spec bs = Inr (m, p, hs, s) \<and> (strict_of l \<longrightarrow> hs))"

text \<open>The ledger \<open>l1\<close> is \<open>l\<close> with one more record, \<open>bs\<close>, in its buffer.\<close>

definition buffered :: "('e, 'u) vicarl_ledger \<Rightarrow> bytes \<Rightarrow> ('e, 'u) vicarl_ledger \<Rightarrow> bool" where
  "buffered l bs l1 \<longleftrightarrow> lg_ptr l1 = lg_ptr l \<and> lg_store l1 = lg_store l \<and> lg_opt l1 = lg_opt l \<and> ledger_ok l1 \<and>
     map br_bytes (lg_buf l1) = map br_bytes (lg_buf l) @ [bs] \<and> lg_buf_bytes l1 = (lg_buf_bytes l + length bs) mod size_mod"

text \<open>The store has room for the segment an automatic flush writes after the record \<open>bs\<close> was buffered.\<close>

definition next_fits :: "(bytes list \<Rightarrow> bytes \<Rightarrow> bool) \<Rightarrow> clock \<Rightarrow> ('e, 'u) vicarl_ledger \<Rightarrow> bytes list \<Rightarrow> bytes \<Rightarrow> bool" where
  "next_fits fits clk l segs bs \<longleftrightarrow> (\<forall>l1. buffered l bs l1 \<and> flush_due l1 \<longrightarrow> fits segs (flush_bytes clk l1 segs))"

lemma next_fits_any [simp]: "next_fits fits_any clk l segs bs"
  by (simp add: next_fits_def)

lemma buffered_size: "buffered l bs l1 \<Longrightarrow> buf_size l1 = buf_size l + length bs + 16"
proof -
  assume "buffered l bs l1"
  then have "map (\<lambda>b. length b + 16) (map br_bytes (lg_buf l1)) = map (\<lambda>b. length b + 16) (map br_bytes (lg_buf l) @ [bs])"
    by (simp add: buffered_def)
  then have "sum_list (map (\<lambda>b. length (br_bytes b) + 16) (lg_buf l1)) = sum_list (map (\<lambda>b. length (br_bytes b) + 16) (lg_buf l) @ [length bs + 16])"
    by (simp add: comp_def)
  then show ?thesis by (simp add: buf_size_def)
qed

lemma ledger_buffer_rest:
  assumes A: "alloc_rel A ok rel" and h: "ok h" "ledger_ok l" "own_ledger l \<subseteq> hp_live h" and wf: "slice_wf rec"
    and sz: "buf_size l + sl_len rec + 16 < buf_limit" and r: "record_owned (hp_live h) r" "heap_to ok h (hp_live h \<union> own_record r) h1"
    and spec: "record_spec (slice_bytes rec) = Inr (m, p, hs, g)" "strict_of l \<longrightarrow> hs"
  shows "outcome (finally_do (vicarl_record_destroy A (Some r))
     (bindr (malloc_or_oom A (if sl_len rec \<noteq> 0 then sl_len rec else 1)) (\<lambda>copy.
      bindr (of_res (slice_read rec)) (\<lambda>bs.
      bindr (on_error (vicarl__free A (Some copy)) (ensure_bufcap A l ((length (lg_buf l) + 1) mod size_mod))) (\<lambda>l1.
      retr (sha256 (slice_bytes rec),
            l1\<lparr>lg_buf := lg_buf l1 @ [\<lparr>br_ptr = copy, br_bytes = bs, br_len = sl_len rec, br_id = sha256 (slice_bytes rec), br_has_sig = hs\<rparr>],
               lg_buf_bytes := (lg_buf_bytes l1 + sl_len rec) mod size_mod\<rparr>)))))
    )
    (\<lambda>x h'. fst x = sha256 (slice_bytes rec) \<and> buffered l (slice_bytes rec) (snd x) \<and>
       own_ledger (snd x) \<inter> (hp_live h - own_ledger l) = {} \<and> heap_to ok h ((hp_live h - own_ledger l) \<union> own_ledger (snd x)) h')
    (\<lambda>e h'. \<not> rel \<and> heap_to ok h (hp_live h) h') h1" (is "outcome _ ?Q ?E h1")
proof -
  let ?L = "hp_live h" and ?R = "own_record r" and ?bs = "slice_bytes rec" and ?old = "set_option (lg_buf_ptr l)"
  obtain q where q: "rec_owned r = Some q" "q \<noteq> rec_ptr r" and dis: "?R \<inter> ?L = {}" using r(1) by (auto simp: record_owned_def)
  have destroy: "heap_to ok h M (vicarl_record_destroy A (Some r) h')" if "heap_to ok h (M \<union> ?R) h'" "?R \<inter> M = {}" for M h'
    using record_destroy_heap [OF A that q] .
  have lok: "?old \<subseteq> ?L" "lg_buf_cap l < size_mod" "lg_buf_ptr l = None \<longrightarrow> lg_buf_cap l = 0"
    using h(2,3) by (auto simp: ledger_ok_def own_ledger_def)
  have n: "(length (lg_buf l) + 1) mod size_mod = length (lg_buf l) + 1" "length (lg_buf l) + 1 \<le> 2 ^ 63"
    using buf_length_size [of l] sz by (simp_all add: buf_limit_def size_mod_def)
  have rd: "slice_read rec = Inr ?bs" "length ?bs = sl_len rec" using wf by (simp_all add: slice_read_wf slice_wf_length)
  note run = outcome_def finally_do_def bindr_def malloc_or_oom_def of_res_def on_error_def retr_def
  from A r(2) show ?thesis
  proof (cases rule: malloc_stepE [where n = "if sl_len rec \<noteq> 0 then sl_len rec else 1"])
    case (fail h2)
    with destroy [OF fail(3) dis] show ?thesis by (simp add: run)
  next
    case (new copy h2)
    have old: "?old \<subseteq> insert copy (?L \<union> ?R)" using lok(1) by auto
    note ens = ensure_bufcap_outcome [OF A new(3) old lok(2,3) _ n(2)]
    obtain x h3 where e: "ensure_bufcap A l (length (lg_buf l) + 1) h2 = (x, h3)" by fastforce
    show ?thesis
    proof (cases x)
      case (Inl er)
      from outcome_Inl [OF ens] e Inl have f: "\<not> rel" "heap_to ok h (insert copy (?L \<union> ?R)) h3" by auto
      with destroy [OF free_step_insert [OF A f(2) new(2)] dis] Inl e new rd n show ?thesis by (simp add: run)
    next
      case (Inr l1)
      from outcome_Inr [OF ens] e Inr obtain p' c where l1: "l1 = l\<lparr>lg_buf_ptr := Some p', lg_buf_cap := c\<rparr>" "length (lg_buf l) + 1 \<le> c" "c < size_mod"
        "p' \<notin> insert copy (?L \<union> ?R) - ?old" "heap_to ok h (insert p' (insert copy (?L \<union> ?R) - ?old)) h3" by auto
      let ?b = "\<lparr>br_ptr = copy, br_bytes = ?bs, br_len = sl_len rec, br_id = sha256 ?bs, br_has_sig = hs\<rparr>"
      let ?l1 = "l\<lparr>lg_buf_ptr := Some p', lg_buf_cap := c, lg_buf := lg_buf l @ [?b], lg_buf_bytes := (lg_buf_bytes l + sl_len rec) mod size_mod\<rparr>"
      let ?h4 = "vicarl_record_destroy A (Some r) h3"
      have nc: "copy \<notin> ?L" "copy \<notin> ?R" using new(2) by auto
      have np: "p' \<noteq> copy" "p' \<notin> ?L - ?old" "p' \<notin> ?R" using l1(4) nc lok(1) dis by auto
      have eq: "insert p' (insert copy (?L \<union> ?R) - ?old) = insert p' (insert copy (?L - ?old)) \<union> ?R"
        using nc lok(1) dis by auto
      have hd: "heap_to ok h (insert p' (insert copy (?L - ?old))) ?h4"
        using l1(5) nc np dis by (intro destroy) (auto simp: eq)
      have sub: "lg_ptr l \<in> ?L" "buf_ptrs l \<subseteq> ?L" and lo: "lg_ptr l \<notin> ?old \<union> buf_ptrs l" "?old \<inter> buf_ptrs l = {}"
        using h(2,3) by (auto simp: ledger_ok_def own_ledger_def)
      have bp: "buf_ptrs ?l1 = insert copy (buf_ptrs l)" by (simp add: buf_ptrs_def)
      have own1: "own_ledger ?l1 = insert (lg_ptr l) (insert p' (insert copy (buf_ptrs l)))" by (auto simp: own_ledger_def bp)
      have live: "(?L - own_ledger l) \<union> own_ledger ?l1 = insert p' (insert copy (?L - ?old))"
        unfolding own1 using sub lo by (auto simp: own_ledger_def)
      have sep: "own_ledger ?l1 \<inter> (?L - own_ledger l) = {}" unfolding own1 using nc np by (auto simp: own_ledger_def)
      have "strict_of ?l1 = strict_of l" by (simp add: strict_of_def)
      then have "ledger_ok ?l1"
        unfolding ledger_ok_def bp using h(2) nc np l1 sub lo spec rd
        by (auto simp: ledger_ok_def bufrec_ok_def buf_ptrs_def)
      then have "buffered l ?bs ?l1" using rd by (simp add: buffered_def)
      with hd live sep l1(1) Inr e new rd n show ?thesis by (simp add: run)
    qed
  qed
qed

lemma guard_then: "bindr (guardr b e) (\<lambda>_. bindr (of_res (Inr y)) k) = (if b then k y else failr e)"
  by (rule ext) (simp add: bindr_def of_res_def vm_simps)

lemma ledger_buffer_outcome:
  assumes A: "alloc_rel A ok rel" and h: "ok h" "ledger_ok l" "own_ledger l \<subseteq> hp_live h" and wf: "slice_wf rec"
    and sz: "buf_size l + sl_len rec + 16 < buf_limit"
  shows "outcome (ledger_buffer A l rec True)
    (\<lambda>x h'. fst x = sha256 (slice_bytes rec) \<and> admissible l (slice_bytes rec) \<and> buffered l (slice_bytes rec) (snd x) \<and>
       own_ledger (snd x) \<inter> (hp_live h - own_ledger l) = {} \<and> heap_to ok h ((hp_live h - own_ledger l) \<union> own_ledger (snd x)) h')
    (\<lambda>e h'. (\<not> rel \<or> \<not> admissible l (slice_bytes rec)) \<and> heap_to ok h (hp_live h) h') h" (is "outcome _ ?Q ?E h")
proof -
  let ?bs = "slice_bytes rec"
  have rid: "vicarl_record_id rec True = Inr (sha256 ?bs)" using wf by (simp add: vicarl_record_id_def slice_wf_not_bad vicarl__sha256_wf)
  let ?rest = "\<lambda>r. let has_sig = (vicarl_record_signature (Some r) \<noteq> None) in
        finally_do (vicarl_record_destroy A (Some r))
          (bindr (guardr (\<not> (require_signed_records (lg_opt l) \<noteq> 0 \<and> \<not> has_sig))
             (fail_with VICARL_ERR_CRYPTO ''ledger requires signed records but record has no signature'')) (\<lambda>_.
           bindr (of_res (vicarl_record_id rec True)) (\<lambda>rid.
           bindr (malloc_or_oom A (if sl_len rec \<noteq> 0 then sl_len rec else 1)) (\<lambda>copy.
           bindr (of_res (slice_read rec)) (\<lambda>bs.
           bindr (on_error (vicarl__free A (Some copy)) (ensure_bufcap A l ((length (lg_buf l) + 1) mod size_mod))) (\<lambda>l1.
           retr (rid, l1\<lparr>lg_buf := lg_buf l1 @ [\<lparr>br_ptr = copy, br_bytes = bs, br_len = sl_len rec, br_id = rid, br_has_sig = has_sig\<rparr>],
                         lg_buf_bytes := (lg_buf_bytes l1 + sl_len rec) mod size_mod\<rparr>)))))))"
  have "outcome (bindr (vicarl_record_decode A rec True) ?rest) ?Q ?E h"
  proof (rule outcome_bindr, rule outcome_mono [OF record_decode_outcome [OF A h(1) wf]])
    fix r h1 assume r: "record_spec ?bs = Inr (handle_fields r) \<and> rec_owned_bytes r = ?bs \<and> record_owned (hp_live h) r \<and>
       heap_to ok h (hp_live h \<union> own_record r) h1"
    have hs: "(vicarl_record_signature (Some r) \<noteq> None) = rec_has_sig r" by (simp add: vicarl_record_signature_def)
    have spec: "record_spec ?bs = Inr (rec_meta r, rec_payload r, rec_has_sig r, rec_sig r)" using r by (simp add: handle_fields_def)
    have adm: "admissible l ?bs \<longleftrightarrow> (strict_of l \<longrightarrow> rec_has_sig r)" using spec by (simp add: admissible_def)
    show "outcome (?rest r) ?Q ?E h1"
    proof (cases "strict_of l \<longrightarrow> rec_has_sig r")
      case True
      then have g: "\<not> (require_signed_records (lg_opt l) \<noteq> 0 \<and> \<not> rec_has_sig r)" by (auto simp: strict_of_def)
      have "outcome (?rest r) (\<lambda>x h'. fst x = sha256 ?bs \<and> buffered l ?bs (snd x) \<and>
           own_ledger (snd x) \<inter> (hp_live h - own_ledger l) = {} \<and> heap_to ok h ((hp_live h - own_ledger l) \<union> own_ledger (snd x)) h')
         (\<lambda>e h'. \<not> rel \<and> heap_to ok h (hp_live h) h') h1"
        unfolding Let_def hs rid guard_then if_P [OF g]
        by (rule ledger_buffer_rest [OF A h wf sz _ _ spec True]) (use r in auto)
      then show ?thesis by (rule outcome_mono) (use adm True in auto)
    next
      case False
      then have g: "require_signed_records (lg_opt l) \<noteq> 0 \<and> \<not> rec_has_sig r" by (simp add: strict_of_def)
      have "heap_to ok h (hp_live h) (vicarl_record_destroy A (Some r) h1)"
        using r by (auto simp: record_owned_def intro: record_destroy_heap [OF A])
      with False g adm show ?thesis unfolding Let_def hs rid guard_then by (simp add: outcome_def finally_do_def failr_run)
    qed
  next
    fix e h1 assume "heap_to ok h (hp_live h) h1 \<and> (record_spec ?bs = Inl e \<or> e = err_oom \<and> \<not> rel)"
    then show "?E e h1" by (auto simp: admissible_def)
  qed
  then show ?thesis using slice_wf_not_bad [OF wf] by (simp add: ledger_buffer_def)
qed

section \<open>What a ledger contains\<close>

text \<open>All records, in the order they were appended: those in the segments, then those still buffered.\<close>

definition ledger_records :: "bytes list \<Rightarrow> ('e, 'u) vicarl_ledger \<Rightarrow> bytes list" where
  "ledger_records segs l = concat (map seg_records_of segs) @ map br_bytes (lg_buf l)"

text \<open>A step from \<open>l\<close> in \<open>w\<close> to \<open>l'\<close> in \<open>w'\<close>: the same ledger object with its invariant, and no block lost or leaked.\<close>

definition ledger_kept :: "('e world \<Rightarrow> bool) \<Rightarrow> ('e world \<Rightarrow> addr set) \<Rightarrow> ('e world \<Rightarrow> bool) \<Rightarrow>
    ('e, 'u) vicarl_ledger \<Rightarrow> 'e world \<Rightarrow> ('e, 'u) vicarl_ledger \<Rightarrow> 'e world \<Rightarrow> bool" where
  "ledger_kept Inv own good l w l' w' \<longleftrightarrow>
     ledger_inv Inv own l' w' \<and> lg_ptr l' = lg_ptr l \<and> lg_store l' = lg_store l \<and> lg_opt l' = lg_opt l \<and> (good w \<longrightarrow> good w') \<and>
     own w' = own w \<and> hp_live (w_heap w') = (hp_live (w_heap w) - own_ledger l) \<union> own_ledger l' \<and>
     own_ledger l' \<inter> (hp_live (w_heap w) - own_ledger l) = {} \<and> hp_bad (w_heap w') = hp_bad (w_heap w)"

lemma seg_records_flush:
  "buf_size l < buf_limit \<Longrightarrow> seg_records_of (flush_bytes clk l segs) = map br_bytes (lg_buf l)"
  using flush_bytes_spec [of l clk segs] by (auto simp: seg_records_of_def)

lemma strict_of_opt: "lg_opt l' = lg_opt l \<Longrightarrow> strict_of l' = strict_of l"
  by (simp add: strict_of_def)

context segment_store
begin

lemma flush_state:
  assumes A: "alloc_rel A ok rel" and l: "lg_store l = s" "ledger_inv Inv own l w" "buf_size l < buf_limit"
    and c: "length (chain w) + 2 < size_mod" and room: "buf_size l + 100 < lim"
  shows "outcome (vicarl_ledger_flush A clk)
    (\<lambda>_ t. \<exists>l'. snd t = Some l' \<and> ledger_kept Inv own good l w l' (fst t) \<and> lg_buf l' = [] \<and>
       chain (fst t) = chain w @ (if lg_buf l = [] then [] else [flush_bytes clk l (chain w)]))
    (\<lambda>e t. snd t = Some l \<and> ledger_kept Inv own good l w l (fst t) \<and> chain (fst t) = chain w \<and>
       \<not> (rel \<and> good w \<and> fits (chain w) (flush_bytes clk l (chain w)))) (w, Some l)"
proof (cases "lg_buf l = []")
  case True
  have "ledger_kept Inv own good l w l w" using l(2) by (auto simp: ledger_kept_def ledger_inv_def)
  with True show ?thesis by (simp add: outcome_def vicarl_ledger_flush_def ledger_flush_def retr_def)
next
  case False
  let ?l' = "l\<lparr>lg_buf := [], lg_buf_bytes := 0\<rparr>" and ?L = "hp_live (w_heap w)"
  have inv: "ledger_ok l" "own_ledger l \<subseteq> ?L" "own_ledger l \<inter> own w = {}" using l(2) by (auto simp: ledger_inv_def)
  note fl = ledger_flush_outcome [OF A l False c room, of clk]
  obtain r w' where run: "ledger_flush A clk l w = (r, w')" by fastforce
  show ?thesis
  proof (cases r)
    case (Inl e)
    with outcome_Inl [OF fl] run have "chain w' = chain w" "\<not> (rel \<and> good w \<and> fits (chain w) (flush_bytes clk l (chain w)))" "kept ok Inv own good w ?L w'" by auto
    moreover from this inv have "ledger_kept Inv own good l w l w'" by (auto simp: ledger_kept_def ledger_inv_def kept_def heap_to_def)
    ultimately show ?thesis using Inl run by (simp add: outcome_def vicarl_ledger_flush_def)
  next
    case (Inr l1)
    with outcome_Inr [OF fl] run have f: "l1 = ?l'" "chain w' = chain w @ [flush_bytes clk l (chain w)]"
      "kept ok Inv own good w (?L - buf_ptrs l) w'" by auto
    have ok': "ledger_ok ?l'" using inv(1) by (auto simp: ledger_ok_def buf_ptrs_def)
    have bp: "buf_ptrs l \<subseteq> own_ledger l" by (auto simp: own_ledger_def)
    have own': "own_ledger ?l' = own_ledger l - buf_ptrs l" using inv(1) by (auto simp: own_ledger_def buf_ptrs_def ledger_ok_def)
    have "ledger_kept Inv own good l w ?l' w'"
      using f(3) inv(2,3) ok' bp unfolding ledger_kept_def ledger_inv_def kept_def heap_to_def own' by auto
    with f Inr run False show ?thesis by (simp add: outcome_def vicarl_ledger_flush_def)
  qed
qed

text \<open>A flush preserves contents and validity.\<close>

lemma flush_contents:
  assumes "ledger_ok l" "buf_size l < buf_limit" "lg_buf l' = []" "lg_opt l' = lg_opt l"
    and "segs' = segs @ (if lg_buf l = [] then [] else [flush_bytes clk l segs])"
  shows "ledger_records segs' l' = ledger_records segs l \<and> (chain_valid (strict_of l) segs \<longrightarrow> chain_valid (strict_of l) segs')"
  using assms flush_bytes_ok [OF assms(2), of segs clk]
  by (auto simp: ledger_records_def seg_records_flush chain_valid_snoc ledger_ok_def)

text \<open>The flush that a record may set off, seen from the ledger before the record.\<close>

lemma flush_after_record:
  assumes A: "alloc_rel A ok rel" and l: "lg_store l = s" and lk: "ledger_kept Inv own good l w l1 w1" and ch: "chain w1 = chain w" and gd: "good w \<longrightarrow> good w1"
    and b: "buffered l bs l1" "own_ledger l1 \<inter> (hp_live (w_heap w) - own_ledger l) = {}" and sz: "buf_size l1 < buf_limit" "buf_size l1 + 100 < lim"
    and c: "length (chain w) + 2 < size_mod" and due: "flush_due l1"
  shows "outcome (vicarl_ledger_flush A clk)
    (\<lambda>_ t. \<exists>l'. snd t = Some l' \<and> ledger_kept Inv own good l w l' (fst t) \<and>
       ledger_records (chain (fst t)) l' = ledger_records (chain w) l @ [bs] \<and>
       (chain_valid (strict_of l) (chain w) \<longrightarrow> chain_valid (strict_of l) (chain (fst t))))
    (\<lambda>e t. \<not> (rel \<and> good w \<and> next_fits fits clk l (chain w) bs) \<and> chain (fst t) = chain w \<and>
       (\<exists>l'. snd t = Some l' \<and> ledger_kept Inv own good l w l' (fst t) \<and>
         ledger_records (chain w) l' = ledger_records (chain w) l @ [bs])) (w1, Some l1)"
proof -
  have l1: "lg_store l1 = s" "ledger_inv Inv own l1 w1" "strict_of l1 = strict_of l" "ledger_ok l1"
    using lk b(1) l by (auto simp: ledger_kept_def ledger_inv_def buffered_def strict_of_def)
  have rec: "ledger_records (chain w) l1 = ledger_records (chain w) l @ [bs]" using b(1) by (simp add: ledger_records_def buffered_def)
  have tr: "ledger_kept Inv own good l w l2 w2" if "ledger_kept Inv own good l1 w1 l2 w2" for l2 w2
    using that lk b(2) by (auto simp: ledger_kept_def)
  have c1: "length (chain w1) + 2 < size_mod" using ch c by simp
  have fin: "ledger_records segs l2 = ledger_records (chain w) l1 \<and> (chain_valid (strict_of l1) (chain w) \<longrightarrow> chain_valid (strict_of l1) segs)"
    if "ledger_kept Inv own good l1 w1 l2 w2" "lg_buf l2 = []" "segs = chain w @ (if lg_buf l1 = [] then [] else [flush_bytes clk l1 (chain w)])" for l2 w2 segs
    by (rule flush_contents [OF l1(4) sz(1) that(2) _ that(3)]) (use that(1) in \<open>simp add: ledger_kept_def\<close>)
  show ?thesis
    by (rule outcome_mono [OF flush_state [OF A l1(1,2) sz(1) c1 sz(2), of clk]], unfold ch)
       (use tr fin [unfolded l1(3) rec] rec gd b(1) due in \<open>auto simp: next_fits_def\<close>)
qed

lemma append_state:
  assumes A: "alloc_rel A ok rel" and l: "lg_store l = s" "ledger_inv Inv own l w" and rec: "slice_wf rec" "buf_size l + sl_len rec + 16 < buf_limit"
    and c: "length (chain w) + 2 < size_mod" and room: "buf_size l + sl_len rec + 116 < lim"
  shows "outcome (vicarl_ledger_append_record A clk rec True)
    (\<lambda>rid t. rid = sha256 (slice_bytes rec) \<and> admissible l (slice_bytes rec) \<and> (\<exists>l'. snd t = Some l' \<and> ledger_kept Inv own good l w l' (fst t) \<and>
       ledger_records (chain (fst t)) l' = ledger_records (chain w) l @ [slice_bytes rec] \<and>
       (chain_valid (strict_of l) (chain w) \<longrightarrow> chain_valid (strict_of l) (chain (fst t)))))
    (\<lambda>e t. \<not> (rel \<and> good w \<and> admissible l (slice_bytes rec) \<and> next_fits fits clk l (chain w) (slice_bytes rec)) \<and> chain (fst t) = chain w \<and>
       (\<exists>l'. snd t = Some l' \<and> ledger_kept Inv own good l w l' (fst t) \<and>
         (l' = l \<or> admissible l (slice_bytes rec) \<and> ledger_records (chain w) l' = ledger_records (chain w) l @ [slice_bytes rec]))) (w, Some l)"
  (is "outcome _ ?Q ?E _")
proof -
  let ?L = "hp_live (w_heap w)" and ?bs = "slice_bytes rec"
  have inv: "Inv w" "ledger_ok l" "own_ledger l \<subseteq> ?L" "own_ledger l \<inter> own w = {}" using l(2) by (auto simp: ledger_inv_def)
  have okw: "ok (w_heap w)" "own w \<subseteq> ?L" using inv_ok [OF inv(1)] by auto
  have len: "sl_len rec = length ?bs" using rec(1) by (simp add: slice_wf_length)
  note buf = ledger_buffer_outcome [OF A okw(1) inv(2,3) rec]
  obtain r h1 where run: "ledger_buffer A l rec True (w_heap w) = (r, h1)" by fastforce
  let ?w1 = "w\<lparr>w_heap := h1\<rparr>"
  show ?thesis
  proof (cases r)
    case (Inl e)
    with outcome_Inl [OF buf] run have e: "\<not> rel \<or> \<not> admissible l ?bs" "heap_to ok (w_heap w) ?L h1" by auto
    have "kept ok Inv own good w ?L ?w1 \<and> chain ?w1 = chain w" using kept_heap [OF kept_refl [OF inv(1)] e(2) okw(2)] .
    with inv have "ledger_kept Inv own good l w l ?w1" "chain ?w1 = chain w"
      by (auto simp: ledger_kept_def ledger_inv_def kept_def heap_to_def)
    with Inl run e show ?thesis by (auto simp: outcome_def vicarl_ledger_append_record_def on_heap_def)
  next
    case (Inr x)
    obtain rid l1 where x: "x = (rid, l1)" by (cases x)
    from outcome_Inr [OF buf] run Inr x have b: "rid = sha256 ?bs" "admissible l ?bs" "buffered l ?bs l1"
      "own_ledger l1 \<inter> (?L - own_ledger l) = {}" "heap_to ok (w_heap w) ((?L - own_ledger l) \<union> own_ledger l1) h1" by auto
    have own1: "own w \<subseteq> (?L - own_ledger l) \<union> own_ledger l1" "own_ledger l1 \<inter> own w = {}" using okw(2) inv(4) b(4) by auto
    have k1: "kept ok Inv own good w ((?L - own_ledger l) \<union> own_ledger l1) ?w1 \<and> chain ?w1 = chain w"
      using kept_heap [OF kept_refl [OF inv(1)] b(5) own1(1)] .
    have lk1: "ledger_kept Inv own good l w l1 ?w1"
      using k1 b(3,4) own1(2) by (auto simp: ledger_kept_def ledger_inv_def kept_def heap_to_def buffered_def)
    have rec1: "ledger_records (chain w) l1 = ledger_records (chain w) l @ [?bs]" using b(3) by (simp add: ledger_records_def buffered_def)
    show ?thesis
    proof (cases "flush_due l1")
      case False
      with lk1 k1 b rec1 run Inr x show ?thesis
        by (auto simp: outcome_def vicarl_ledger_append_record_def on_heap_def)
    next
      case True
      have "good w \<longrightarrow> good ?w1" "buf_size l1 < buf_limit" "buf_size l1 + 100 < lim"
        using k1 rec(2) room buffered_size [OF b(3)] len by (simp_all add: kept_def)
      note fl = flush_after_record [OF A l(1) lk1 conjunct2 [OF k1] this(1) b(3,4) this(2,3) c True, of clk]
      obtain r2 t where f: "vicarl_ledger_flush A clk (?w1, Some l1) = (r2, t)" by (cases "vicarl_ledger_flush A clk (?w1, Some l1)")
      with fl run Inr x True b(1,2) show ?thesis
        by (cases r2) (auto simp: outcome_def vicarl_ledger_append_record_def on_heap_def)
    qed
  qed
qed

lemma verify_state:
  assumes A: "alloc_rel A ok rel" and l: "lg_store l = s" "ledger_inv Inv own l w"
  shows "\<exists>r w'. vicarl_ledger_verify A (w, Some l) = Some (r, (w', Some l)) \<and> chain w' = chain w \<and> ledger_kept Inv own good l w l w' \<and>
    (case r of Inr _ \<Rightarrow> chain_valid (strict_of l) (chain w) | Inl e \<Rightarrow> \<not> chain_valid (strict_of l) (chain w) \<or> \<not> (rel \<and> good w))"
proof -
  have inv: "Inv w" "ledger_ok l" "own_ledger l \<subseteq> hp_live (w_heap w)" "own_ledger l \<inter> own w = {}" using l(2) by (auto simp: ledger_inv_def)
  have lk: "ledger_kept Inv own good l w l w'" if "kept ok Inv own good w (hp_live (w_heap w)) w'" for w'
    using that inv by (auto simp: ledger_kept_def ledger_inv_def kept_def heap_to_def)
  show ?thesis
  proof (cases "chain w = []")
    case True
    with tip_law [OF inv(1)] l(1) lk [OF kept_refl [OF inv(1)]] show ?thesis by (simp add: vicarl_ledger_verify_def)
  next
    case False
    obtain r w' where "ledger_verify_loop A l (of_nat (length (chain w))) (sha256 (last (chain w))) (of_nat (Suc 0)) zero_hash w = Some (r, w')"
      "chain w' = chain w" "kept ok Inv own good w (hp_live (w_heap w)) w'"
      "case r of Inr _ \<Rightarrow> chain_valid (strict_of l) (chain w) | Inl e \<Rightarrow> \<not> chain_valid (strict_of l) (chain w) \<or> \<not> (rel \<and> good w)"
      using verify_loop [OF A l(1), of "strict_of l" w 0 "length (chain w)" zero_hash] inv(1) False by (auto simp: strict_of_def)
    with tip_law [OF inv(1)] l(1) lk False show ?thesis by (auto simp: vicarl_ledger_verify_def)
  qed
qed

end

section \<open>Sequences of operations\<close>

text \<open>
  The operations a program runs on a ledger, and the room they need on a store that holds \<open>chain\<close> and takes segments below \<open>lim\<close> bytes:
  buffers below a quarter exabyte and fewer than \<open>2 ^ 64 - 2\<close> segments.
\<close>

datatype ledger_op = OpAppend clock vicarl_slice | OpFlush clock | OpVerify

fun room_for :: "('e world \<Rightarrow> bytes list) \<Rightarrow> nat \<Rightarrow> ledger_op \<Rightarrow> ('e, 'u) ledger_state \<Rightarrow> bool" where
  "room_for chain lim (OpAppend clk rec) (w, Some l) \<longleftrightarrow>
     slice_wf rec \<and> buf_size l + sl_len rec + 16 < buf_limit \<and> buf_size l + sl_len rec + 116 < lim \<and> length (chain w) + 2 < size_mod"
| "room_for chain lim (OpFlush clk) (w, Some l) \<longleftrightarrow> buf_size l < buf_limit \<and> buf_size l + 100 < lim \<and> length (chain w) + 2 < size_mod"
| "room_for _ _ _ _ \<longleftrightarrow> True"

inductive ledger_step :: "vicarl_allocator \<Rightarrow> ('e, 'u) ledger_state \<Rightarrow> ledger_op \<Rightarrow> ('e, 'u) ledger_state \<Rightarrow> bool" for A where
  step_append: "vicarl_ledger_append_record A clk rec True s = (r, s') \<Longrightarrow> ledger_step A s (OpAppend clk rec) s'"
| step_flush: "vicarl_ledger_flush A clk s = (r, s') \<Longrightarrow> ledger_step A s (OpFlush clk) s'"
| step_verify: "vicarl_ledger_verify A s = Some (r, s') \<Longrightarrow> ledger_step A s OpVerify s'"

text \<open>What every operation keeps: the ledger is consistent, a valid chain stays valid, and no record is lost.\<close>

definition ledger_grows :: "('e world \<Rightarrow> bytes list) \<Rightarrow> ('e, 'u) vicarl_ledger \<Rightarrow> 'e world \<Rightarrow> ('e, 'u) vicarl_ledger \<Rightarrow> 'e world \<Rightarrow> bool" where
  "ledger_grows chain l w l' w' \<longleftrightarrow> prefix (ledger_records (chain w) l) (ledger_records (chain w') l') \<and>
     (chain_valid (strict_of l) (chain w) \<longrightarrow> chain_valid (strict_of l) (chain w'))"

context segment_store
begin

lemma step_state:
  assumes A: "alloc_rel A ok rel" and l: "lg_store l = s" "ledger_inv Inv own l w" and room: "room_for chain lim op (w, Some l)"
    and step: "ledger_step A (w, Some l) op t"
  shows "\<exists>w' l'. t = (w', Some l') \<and> ledger_kept Inv own good l w l' w' \<and> ledger_grows chain l w l' w'"
  using step
proof (cases rule: ledger_step.cases)
  case (step_append clk rec r)
  then have rm: "slice_wf rec" "buf_size l + sl_len rec + 16 < buf_limit" "length (chain w) + 2 < size_mod" "buf_size l + sl_len rec + 116 < lim"
    using room by auto
  note out = append_state [OF A l rm, of clk]
  show ?thesis
  proof (cases r)
    case (Inl e)
    with outcome_Inl [OF out] step_append show ?thesis by (cases t) (auto simp: ledger_grows_def)
  next
    case (Inr rid)
    with outcome_Inr [OF out] step_append show ?thesis by (cases t) (auto simp: ledger_grows_def)
  qed
next
  case (step_flush clk r)
  then have rm: "buf_size l < buf_limit" "length (chain w) + 2 < size_mod" "buf_size l + 100 < lim" using room by auto
  note out = flush_state [OF A l rm, of clk]
  have lok: "ledger_ok l" using l(2) by (simp add: ledger_inv_def)
  show ?thesis
  proof (cases r)
    case (Inl e)
    with outcome_Inl [OF out] step_flush show ?thesis by (cases t) (auto simp: ledger_grows_def)
  next
    case (Inr u)
    with outcome_Inr [OF out] step_flush obtain w' l' where l': "t = (w', Some l')" "ledger_kept Inv own good l w l' w'" "lg_buf l' = []"
      "chain w' = chain w @ (if lg_buf l = [] then [] else [flush_bytes clk l (chain w)])" by (cases t) auto
    have "lg_opt l' = lg_opt l" using l'(2) by (simp add: ledger_kept_def)
    from flush_contents [OF lok rm(1) l'(3) this l'(4)] l' show ?thesis by (auto simp: ledger_grows_def)
  qed
next
  case (step_verify r)
  with verify_state [OF A l] show ?thesis by (auto simp: ledger_grows_def)
qed

end

section \<open>Opening and closing\<close>

text \<open>A new ledger on a store.\<close>

definition new_ledger :: "addr \<Rightarrow> vicarl_ledger_options \<Rightarrow> ('e, 'u) vicarl_store \<Rightarrow> ('e, 'u) vicarl_ledger" where
  "new_ledger lp opt st = \<lparr>lg_ptr = lp, lg_store = Some st, lg_opt = opt, lg_buf_ptr = None, lg_buf = [], lg_buf_cap = 0, lg_buf_bytes = 0\<rparr>"

lemma new_ledger_ok [simp]: "own_ledger (new_ledger lp opt st) = {lp}" "ledger_ok (new_ledger lp opt st)" "lg_store (new_ledger lp opt st) = Some st"
  "lg_opt (new_ledger lp opt st) = opt" "lg_buf (new_ledger lp opt st) = []"
  by (simp_all add: new_ledger_def own_ledger_def buf_ptrs_def ledger_ok_def size_mod_def)

text \<open>
  Opening: the block of the ledger, then the store in the world with this block; when the store cannot be opened, the block is freed again.
\<close>

lemma ledger_open_on:
  fixes open_sqlite open_log :: "string option \<Rightarrow> vicarl_store_options option \<Rightarrow> bool \<Rightarrow> ('e world, ('e, 'u) vicarl_store) vm"
  assumes A: "alloc_rel A ok rel" and okw: "ok (w_heap w)" and path: "path \<noteq> []" and o: "o' = effective_options opt"
    and store: "\<And>lp h1. lp \<notin> hp_live (w_heap w) \<Longrightarrow> heap_to ok (w_heap w) (insert lp (hp_live (w_heap w))) h1 \<Longrightarrow>
      outcome ((if lo_store_kind o' = VICARL_STORE_SQLITE then open_sqlite else open_log) (Some path) (Some (lo_store_options o')) True)
        (Opened h1) (\<lambda>e w'. heap_to ok h1 (hp_live h1) (w_heap w') \<and> F e) (w\<lparr>w_heap := h1\<rparr>)"
    and oom: "\<not> rel \<Longrightarrow> F err_oom"
  shows "outcome (vicarl_ledger_open A open_sqlite open_log (Some path) opt True)
    (\<lambda>l w'. \<exists>lp h1 st. lp \<notin> hp_live (w_heap w) \<and> heap_to ok (w_heap w) (insert lp (hp_live (w_heap w))) h1 \<and> l = new_ledger lp o' st \<and> Opened h1 st w')
    (\<lambda>e w'. heap_to ok (w_heap w) (hp_live (w_heap w)) (w_heap w') \<and> F e) w"
    (is "outcome _ ?Q ?E w")
proof -
  let ?L = "hp_live (w_heap w)" and ?op = "if lo_store_kind o' = VICARL_STORE_SQLITE then open_sqlite else open_log"
  have rest: "outcome (bindr (on_error (upd_heap (vicarl__free A (Some lp))) (?op (Some path) (Some (lo_store_options o')) True)) (\<lambda>st. retr (new_ledger lp o' st)))
      ?Q ?E (w\<lparr>w_heap := h1\<rparr>)"
    if lp: "lp \<notin> ?L" "heap_to ok (w_heap w) (insert lp ?L) h1" for lp h1
  proof (rule outcome_bindr, rule outcome_on_error, rule outcome_mono [OF store [OF lp]])
    fix st w' assume "Opened h1 st w'"
    with lp show "outcome (retr (new_ledger lp o' st)) ?Q ?E w'" unfolding outcome_def retr_def prod.case sum.case by blast
  next
    fix e and w' :: "'e world" assume "heap_to ok h1 (hp_live h1) (w_heap w') \<and> F e"
    moreover from this have "heap_to ok (w_heap w) (insert lp ?L) (w_heap w')" using lp(2) by (auto simp: heap_to_def)
    ultimately show "?E e (upd_heap (vicarl__free A (Some lp)) w')" using free_step_insert [OF A _ lp(1)] by simp
  qed
  have "outcome (bindr (on_heap (calloc_or_oom A 1 sizeof_ledger)) (\<lambda>lp.
      bindr (on_error (upd_heap (vicarl__free A (Some lp))) (?op (Some path) (Some (lo_store_options o')) True)) (\<lambda>st. retr (new_ledger lp o' st)))) ?Q ?E w"
    by (rule outcome_bindr, rule outcome_on_heap, rule outcome_mono [OF calloc_or_oom_outcome [OF A heap_to_refl [where ok = ok and h = "w_heap w", OF okw]]])
       (use rest oom in \<open>auto simp: sizeof_ledger_def size_mod_def\<close>)
  with path o show ?thesis by (simp add: vicarl_ledger_open_def Let_def new_ledger_def)
qed

text \<open>Closing: the records, their array, the store, the ledger itself.\<close>

lemma ledger_close_on:
  assumes A: "alloc_rel A ok rel" and okw: "ok (w_heap w)" and l: "ledger_ok l" "own_ledger l \<subseteq> hp_live (w_heap w)" "S \<inter> own_ledger l = {}"
    and store: "\<And>h. heap_to ok (w_heap w) (insert (lg_ptr l) (hp_live (w_heap w) - own_ledger l)) h \<Longrightarrow>
      heap_to ok h (hp_live h - S) (w_heap (vicarl_store_close A (lg_store l) (w\<lparr>w_heap := h\<rparr>)))"
  shows "\<exists>h. heap_to ok (w_heap w) (insert (lg_ptr l) (hp_live (w_heap w) - own_ledger l)) h \<and>
    vicarl_ledger_close A (Some l) w = upd_heap (free_fn A (lg_ptr l)) (vicarl_store_close A (lg_store l) (w\<lparr>w_heap := h\<rparr>)) \<and>
    heap_to ok (w_heap w) (hp_live (w_heap w) - own_ledger l - S) (w_heap (vicarl_ledger_close A (Some l) w))"
proof -
  let ?M = "insert (lg_ptr l) (hp_live (w_heap w) - own_ledger l)" and ?b = "set_option (lg_buf_ptr l)"
  have sep: "lg_ptr l \<notin> ?b \<union> buf_ptrs l" "?b \<inter> buf_ptrs l = {}" "distinct (map br_ptr (lg_buf l))" using l(1) by (auto simp: ledger_ok_def)
  have "hp_live (w_heap w) = (?M \<union> ?b) \<union> br_ptr ` set (lg_buf l)" using l(2) by (auto simp: own_ledger_def buf_ptrs_def)
  then have "heap_to ok (w_heap w) ((?M \<union> ?b) \<union> br_ptr ` set (lg_buf l)) (w_heap w)" using okw by (simp add: heap_to_def)
  then have h1: "heap_to ok (w_heap w) (?M \<union> ?b) (snd (clear_buffer A l (w_heap w)))"
    unfolding clear_buffer_def snd_conv by (rule clear_buffer_heap [OF A]) (use sep in \<open>auto simp: buf_ptrs_def own_ledger_def\<close>)
  let ?h = "vicarl__free A (lg_buf_ptr l) (snd (clear_buffer A l (w_heap w)))"
  have h: "heap_to ok (w_heap w) ?M ?h" by (rule free_step_option [OF A h1]) (use sep in \<open>auto simp: own_ledger_def\<close>)
  have run: "vicarl_ledger_close A (Some l) w = upd_heap (free_fn A (lg_ptr l)) (vicarl_store_close A (lg_store l) (w\<lparr>w_heap := ?h\<rparr>))"
    by (simp add: vicarl_ledger_close_def upd_heap_def)
  have live: "hp_live ?h = ?M" using h by (simp add: heap_to_def)
  have "heap_to ok (w_heap w) (insert (lg_ptr l) (hp_live (w_heap w) - own_ledger l - S)) (w_heap (vicarl_store_close A (lg_store l) (w\<lparr>w_heap := ?h\<rparr>)))"
  proof -
    have "insert (lg_ptr l) (hp_live (w_heap w) - own_ledger l - S) = hp_live ?h - S" unfolding live using l(3) by (auto simp: own_ledger_def)
    with heap_to_trans [OF h store [OF h]] show ?thesis by simp
  qed
  then have "heap_to ok (w_heap w) (hp_live (w_heap w) - own_ledger l - S) (w_heap (vicarl_ledger_close A (Some l) w))"
    unfolding run by (simp add: upd_heap_def) (rule free_step_insert [OF A], auto simp: own_ledger_def)
  with h run show ?thesis by blast
qed

end
