(* ===== verification/Vicarl_LedgerLog.thy ===== *)
theory Vicarl_LedgerLog
  imports Vicarl_Ledger
begin

text \<open>
  The ledger of \<^verbatim>\<open>src/ledger/ledger.c\<close> on the log store of \<^verbatim>\<open>src/store/store_log.c\<close>: sequences of operations, the
  life of a ledger from opening to closing, and the properties of the ledger.
\<close>

section \<open>The tip hash binds the chain\<close>

lemma next_segment_prev: "next_segment a bs \<Longrightarrow> next_segment b bs \<Longrightarrow> tip_hash_of a = tip_hash_of b"
  by (auto simp: next_segment_def)

lemma collision_snoc: "collision a b \<Longrightarrow> collision (a @ [x]) (b @ [y])"
  by (auto simp: collision_def)

lemma chain_binding:
  "length a = length b \<Longrightarrow> chain_valid s1 a \<Longrightarrow> chain_valid s2 b \<Longrightarrow> tip_hash_of a = tip_hash_of b \<Longrightarrow> a = b \<or> collision a b"
proof (induction a arbitrary: b rule: rev_induct)
  case (snoc x a)
  then obtain b' y where b: "b = b' @ [y]" by (cases b rule: rev_cases) auto
  show ?case
  proof (cases "x = y")
    case True
    have "next_segment a x" "next_segment b' x" using snoc.prems b True by (auto simp: chain_valid_snoc seg_ok_def)
    then have "a = b' \<or> collision a b'" using snoc b by (intro snoc.IH) (auto simp: chain_valid_snoc dest: next_segment_prev)
    then show ?thesis using b True collision_snoc by blast
  next
    case False
    then show ?thesis using snoc.prems(4) b by (auto simp: collision_def)
  qed
qed simp

section \<open>Ledgers on the log store\<close>

text \<open>A consistent ledger on the log store in a world.\<close>

definition on_log :: "vicarl_allocator \<Rightarrow> (heap \<Rightarrow> bool) \<Rightarrow> (log_env, 'u) vicarl_ledger \<Rightarrow> log_world \<Rightarrow> bool" where
  "on_log A ok l w \<longleftrightarrow> (\<exists>p opt. lg_store l = log_handle A p opt) \<and> ledger_inv (log_inv ok) log_own l w"

lemma on_logE:
  assumes "on_log A ok l w"
  obtains p opt where "lg_store l = log_handle A p opt" "ledger_inv (log_inv ok) log_own l w"
  using assms by (auto simp: on_log_def)

lemma on_log_kept: "on_log A ok l w \<Longrightarrow> ledger_kept (log_inv ok) log_own good l w l' w' \<Longrightarrow> on_log A ok l' w'"
  by (auto simp: on_log_def ledger_kept_def)

text \<open>Sequences of operations on the log store.\<close>

abbreviation op_room :: "ledger_op \<Rightarrow> (log_env, 'u) ledger_state \<Rightarrow> bool" where
  "op_room \<equiv> room_for log_chain seg_limit"

inductive ledger_run :: "vicarl_allocator \<Rightarrow> (log_env, 'u) ledger_state \<Rightarrow> (log_env, 'u) ledger_state \<Rightarrow> bool" for A where
  run_refl: "ledger_run A s s"
| run_step: "ledger_run A s t \<Longrightarrow> op_room op t \<Longrightarrow> ledger_step A t op u \<Longrightarrow> ledger_run A s u"

text \<open>What every operation leaves alone: the blocks of others, the store and its blocks, the options.\<close>

definition frame_of :: "(log_env, 'u) vicarl_ledger \<Rightarrow> log_world \<Rightarrow>
    (addr set \<times> bool) \<times> addr set \<times> (log_env, 'u) vicarl_store option \<times> vicarl_ledger_options" where
  "frame_of l w = ((hp_live (w_heap w) - own_ledger l, hp_bad (w_heap w)), log_own w, lg_store l, lg_opt l)"

definition ledger_good :: "vicarl_allocator \<Rightarrow> (heap \<Rightarrow> bool) \<Rightarrow>
    (addr set \<times> bool) \<times> addr set \<times> (log_env, 'u) vicarl_store option \<times> vicarl_ledger_options \<Rightarrow> bytes list \<Rightarrow>
    (log_env, 'u) ledger_state \<Rightarrow> bool" where
  "ledger_good A ok fr recs s \<longleftrightarrow>
     (\<exists>l. snd s = Some l \<and> on_log A ok l (fst s) \<and> frame_of l (fst s) = fr \<and> chain_valid (strict_of l) (log_chain (fst s)) \<and>
        prefix recs (ledger_records (log_chain (fst s)) l))"

lemma ledger_good_step:
  assumes A: "alloc_rel A ok rel" and good: "ledger_good A ok fr recs s" and room: "op_room op s" and step: "ledger_step A s op s'"
  shows "ledger_good A ok fr recs s'"
proof -
  obtain w l where s: "s = (w, Some l)" and on: "on_log A ok l w" and l: "frame_of l w = fr" "chain_valid (strict_of l) (log_chain w)"
    "prefix recs (ledger_records (log_chain w) l)" using good by (cases s) (auto simp: ledger_good_def)
  obtain p opt where st: "lg_store l = log_handle A p opt" "ledger_inv (log_inv ok) log_own l w" using on by (rule on_logE)
  obtain w' l' where s': "s' = (w', Some l')" "ledger_kept (log_inv ok) log_own (quiet rel) l w l' w'" "ledger_grows log_chain l w l' w'"
    using segment_store.step_state [OF log_segment_store [OF A] A st] room step s by blast
  have "lg_opt l' = lg_opt l" "frame_of l' w' = frame_of l w" using s'(2) by (auto simp: ledger_kept_def frame_of_def)
  with s' l on_log_kept [OF on s'(2)] show ?thesis
    by (auto simp: ledger_good_def ledger_grows_def strict_of_opt [of l' l] intro: prefix_order.trans)
qed

lemma ledger_good_run:
  assumes "ledger_run A s t" "alloc_rel A ok rel" "ledger_good A ok fr recs s"
  shows "ledger_good A ok fr recs t"
  using assms by (induction rule: ledger_run.induct) (auto intro: ledger_good_step)

section \<open>Opening and closing\<close>

text \<open>All blocks of an open ledger.\<close>

definition ledger_blocks :: "(log_env, 'u) vicarl_ledger \<Rightarrow> log_world \<Rightarrow> addr set" where
  "ledger_blocks l w = own_ledger l \<union> log_own w \<union> set_option (map_option st_ptr (lg_store l))"

lemma ledger_open_outcome:
  fixes open_sqlite :: "string option \<Rightarrow> vicarl_store_options option \<Rightarrow> bool \<Rightarrow> (log_world, (log_env, 'u) vicarl_store) vm"
  assumes A: "alloc_rel A ok rel" and w: "ok (w_heap w)" "fs_close_fail (w_fs w) = []" and dir: "dir \<noteq> []" "dir_chain (w_fs w) dir segs"
    and kind: "lo_store_kind (effective_options opt) \<noteq> VICARL_STORE_SQLITE"
  shows "outcome (vicarl_ledger_open A open_sqlite (vicarl_store_open_log A) (Some dir) opt True)
    (\<lambda>l w'. on_log A ok l w' \<and> lg_opt l = effective_options opt \<and> lg_buf l = [] \<and> log_chain w' = segs \<and>
       ledger_blocks l w' \<inter> hp_live (w_heap w) = {} \<and> frame_of l w' = ((hp_live (w_heap w) \<union> insert (st_ptr (the (lg_store l))) (log_own w'), hp_bad (w_heap w)), log_own w', lg_store l, lg_opt l) \<and>
       st_ptr (the (lg_store l)) \<notin> log_own w' \<and> st_ptr (the (lg_store l)) \<notin> own_ledger l)
    (\<lambda>e w'. heap_to ok (w_heap w) (hp_live (w_heap w)) (w_heap w') \<and> env_error rel w e) w" (is "outcome _ ?Q ?E w")
proof -
  let ?L = "hp_live (w_heap w)" and ?o = "effective_options opt"
  have store: "outcome ((if lo_store_kind ?o = VICARL_STORE_SQLITE then open_sqlite else vicarl_store_open_log A) (Some dir) (Some (lo_store_options ?o)) True)
      (\<lambda>st w'. log_opened ok A (lo_store_options ?o) (w\<lparr>w_heap := h1\<rparr>) segs st w') (\<lambda>e w'. heap_to ok h1 (hp_live h1) (w_heap w') \<and> env_error rel w e) (w\<lparr>w_heap := h1\<rparr>)"
    if h1: "heap_to ok (w_heap w) (insert lp ?L) h1" for lp h1
  proof -
    have pre: "ok (w_heap (w\<lparr>w_heap := h1\<rparr>))" "fs_close_fail (w_fs (w\<lparr>w_heap := h1\<rparr>)) = []" "dir_chain (w_fs (w\<lparr>w_heap := h1\<rparr>)) dir segs"
      using h1 w dir by (simp_all add: heap_to_def)
    show ?thesis
      by (simp only: kind if_False, rule outcome_mono [OF log_open_outcome [OF A pre(1,2) dir(1) pre(3)]]) (auto simp: env_error_def quiet_def)
  qed
  show ?thesis
  proof (rule outcome_mono [OF ledger_open_on [OF A w(1) dir(1) refl store]])
    fix l :: "(log_env, 'u) vicarl_ledger" and w' :: log_world
    assume "\<exists>lp h1 st. lp \<notin> ?L \<and> heap_to ok (w_heap w) (insert lp ?L) h1 \<and> l = new_ledger lp ?o st \<and> log_opened ok A (lo_store_options ?o) (w\<lparr>w_heap := h1\<rparr>) segs st w'"
    then obtain lp h1 st where lp: "lp \<notin> ?L" "heap_to ok (w_heap w) (insert lp ?L) h1" and l: "l = new_ledger lp ?o st"
      and "log_opened ok A (lo_store_options ?o) (w\<lparr>w_heap := h1\<rparr>) segs st w'" by blast
    then have st: "Some st = log_handle A (st_ptr st) (lo_store_options ?o)" "log_inv ok w'" "log_chain w' = segs"
      "insert (st_ptr st) (log_own w') \<inter> insert lp ?L = {}" "st_ptr st \<notin> log_own w'"
      "hp_live (w_heap w') = insert lp ?L \<union> insert (st_ptr st) (log_own w')" "hp_bad (w_heap w') = hp_bad (w_heap w)"
      by (auto simp: log_opened_def heap_to_def)
    then have "on_log A ok l w'" unfolding on_log_def ledger_inv_def l by auto
    moreover have "ledger_blocks l w' \<inter> ?L = {}" unfolding ledger_blocks_def l using st(4) lp(1) by auto
    moreover have "hp_live (w_heap w') - {lp} = ?L \<union> insert (st_ptr st) (log_own w')" unfolding st(6) using lp(1) st(4) by auto
    then have "frame_of l w' = ((?L \<union> insert (st_ptr st) (log_own w'), hp_bad (w_heap w)), log_own w', Some st, ?o)"
      unfolding frame_of_def l st(7) by simp
    ultimately show "?Q l w'" unfolding l using st(3-5) by (intro conjI) simp_all
  qed (simp_all add: env_error_def quiet_def)
qed

text \<open>Closing the log store frees its three blocks and leaves the files alone.\<close>

lemma log_close_store:
  assumes A: "alloc_rel A ok rel" and inv: "log_inv ok w" and st: "Some st = log_handle A p opt" "st_ptr st \<in> hp_live (w_heap w)" "st_ptr st \<notin> log_own w"
  shows "heap_to ok (w_heap w) (hp_live (w_heap w) - insert (st_ptr st) (log_own w)) (w_heap (vicarl_store_close A (Some st) w)) \<and>
    w_fs (vicarl_store_close A (Some st) w) = w_fs w \<and> le_impl (w_env (vicarl_store_close A (Some st) w)) = None"
proof -
  let ?L = "hp_live (w_heap w)"
  obtain ls where ls: "ok (w_heap w)" "log_own w \<subseteq> ?L" "le_impl (w_env w) = Some ls" "log_state_ok w ls" using inv by (rule log_invE)
  obtain q where q: "ls_dir_ptr ls = Some q" "q \<noteq> ls_ptr ls" using ls(4) by (auto simp: log_state_ok_def)
  have own: "log_own w = {ls_ptr ls, q}" using ls(3) q by (simp add: log_own_def)
  let ?M = "?L - insert (st_ptr st) (log_own w)"
  have "?L = insert q (insert (ls_ptr ls) (insert (st_ptr st) ?M))" using own ls(2) st(2) by auto
  then have "heap_to ok (w_heap w) (insert q (insert (ls_ptr ls) (insert (st_ptr st) ?M))) (w_heap w)" using ls(1) by (simp add: heap_to_def)
  then have "heap_to ok (w_heap w) ?M (free_fn A (st_ptr st) (free_fn A (ls_ptr ls) (free_fn A q (w_heap w))))"
    by (intro free_step_insert [OF A]) (use q own st(3) in auto)
  moreover have "vt_close (the (st_vt st)) = Some (log_close A)" "st_vt st \<noteq> None"
    using st(1) by (simp_all add: log_handle_def LOG_VT_def)
  ultimately show ?thesis using ls(3) q by (auto simp: vicarl_store_close_def log_close_def)
qed

lemma ledger_close_heap:
  assumes A: "alloc_rel A ok rel" and on: "on_log A ok l w"
    and st: "lg_store l = Some st" "st_ptr st \<in> hp_live (w_heap w)" "st_ptr st \<notin> log_own w" "st_ptr st \<notin> own_ledger l"
  shows "heap_to ok (w_heap w) (hp_live (w_heap w) - ledger_blocks l w) (w_heap (vicarl_ledger_close A (Some l) w)) \<and>
    w_fs (vicarl_ledger_close A (Some l) w) = w_fs w \<and> le_impl (w_env (vicarl_ledger_close A (Some l) w)) = None"
proof -
  let ?L = "hp_live (w_heap w)" and ?S = "insert (st_ptr st) (log_own w)"
  obtain p opt where h: "Some st = log_handle A p opt" and inv: "ledger_inv (log_inv ok) log_own l w" using on st(1) unfolding on_log_def by auto
  have inv: "log_inv ok w" "ledger_ok l" "own_ledger l \<subseteq> ?L" "own_ledger l \<inter> log_own w = {}" using inv by (auto simp: ledger_inv_def)
  have okw: "ok (w_heap w)" "log_own w \<subseteq> ?L" using inv(1) by (auto elim: log_invE)
  have close: "heap_to ok h' (hp_live h' - ?S) (w_heap (vicarl_store_close A (lg_store l) (w\<lparr>w_heap := h'\<rparr>))) \<and>
      w_fs (vicarl_store_close A (lg_store l) (w\<lparr>w_heap := h'\<rparr>)) = w_fs w \<and> le_impl (w_env (vicarl_store_close A (lg_store l) (w\<lparr>w_heap := h'\<rparr>))) = None"
    if "heap_to ok (w_heap w) (insert (lg_ptr l) (?L - own_ledger l)) h'" for h'
  proof -
    have live: "ok h'" "hp_live h' = insert (lg_ptr l) (?L - own_ledger l)" using that by (simp_all add: heap_to_def)
    have sub: "log_own w \<subseteq> hp_live h'" "st_ptr st \<in> hp_live h'" using live(2) okw(2) inv(4) st(2,4) by auto
    have w': "log_inv ok (w\<lparr>w_heap := h'\<rparr>) \<and> log_own (w\<lparr>w_heap := h'\<rparr>) = log_own w"
      using segment_store.heap_change [OF log_segment_store [OF A] inv(1) live(1) sub(1)] by simp
    have "st_ptr st \<in> hp_live (w_heap (w\<lparr>w_heap := h'\<rparr>))" "st_ptr st \<notin> log_own (w\<lparr>w_heap := h'\<rparr>)" using sub(2) st(3) w' by simp_all
    from log_close_store [OF A conjunct1 [OF w'] h this] w' show ?thesis by (simp add: st(1))
  qed
  have "?S \<inter> own_ledger l = {}" using inv(4) st(4) by auto
  from ledger_close_on [OF A okw(1) inv(2,3) this] close obtain h' where
    h': "heap_to ok (w_heap w) (insert (lg_ptr l) (?L - own_ledger l)) h'"
      "vicarl_ledger_close A (Some l) w = upd_heap (free_fn A (lg_ptr l)) (vicarl_store_close A (lg_store l) (w\<lparr>w_heap := h'\<rparr>))"
      "heap_to ok (w_heap w) (?L - own_ledger l - ?S) (w_heap (vicarl_ledger_close A (Some l) w))" by blast
  have "?L - own_ledger l - ?S = ?L - ledger_blocks l w" by (auto simp: ledger_blocks_def st(1))
  with h'(3) show ?thesis using close [OF h'(1)] unfolding h'(2) by simp
qed

text \<open>Closing a ledger around which the blocks \<open>M\<close> are live.\<close>

lemma close_leaves:
  assumes A: "alloc_rel A ok rel" and on: "on_log A ok l w" and st: "lg_store l = Some st" "st_ptr st \<notin> log_own w"
    and live: "hp_live (w_heap w) - own_ledger l = M \<union> insert (st_ptr st) (log_own w)" and dis: "insert (st_ptr st) (log_own w) \<inter> M = {}"
  shows "heap_to ok (w_heap w) M (w_heap (vicarl_ledger_close A (Some l) w)) \<and> w_fs (vicarl_ledger_close A (Some l) w) = w_fs w"
proof -
  have "st_ptr st \<in> hp_live (w_heap w) - own_ledger l" unfolding live by simp
  then have "heap_to ok (w_heap w) (hp_live (w_heap w) - ledger_blocks l w) (w_heap (vicarl_ledger_close A (Some l) w)) \<and>
    w_fs (vicarl_ledger_close A (Some l) w) = w_fs w"
    using ledger_close_heap [OF A on st(1)] st(2) by simp
  moreover have "hp_live (w_heap w) - ledger_blocks l w = (hp_live (w_heap w) - own_ledger l) - insert (st_ptr st) (log_own w)"
    by (auto simp: ledger_blocks_def st(1))
  moreover have "\<dots> = M" unfolding live using dis by auto
  ultimately show ?thesis by simp
qed

section \<open>Ledgers for examples\<close>

text \<open>A log store with the segment \<^const>\<open>genesis\<close>, and a ledger with default options on it.\<close>

definition genesis_log :: log_world where
  "genesis_log =
     \<lparr>w_heap = \<lparr>hp_next = 5, hp_live = {1, 2, 3, 4}, hp_bad = False, hp_oom = []\<rparr>,
      w_env = \<lparr>le_impl = Some \<lparr>ls_ptr = 1, ls_dir_ptr = Some 2, ls_dir = ''d'', ls_tip_no = 1, ls_tip_hash = sha256 genesis,
                 ls_has_tip = True\<rparr>,
               le_fs = \<lparr>fs_dirs = [''d'' \<mapsto> [(seg_filename 1, genesis)]], fs_fail = [], fs_close_fail = [], fs_strerror = ''e''\<rparr>\<rparr>\<rparr>"

definition example_ledger :: "(log_env, unit) vicarl_ledger" where
  "example_ledger = \<lparr>lg_ptr = 4, lg_store = log_handle default_allocator 3 zero_options, lg_opt = defaults, lg_buf_ptr = None,
     lg_buf = [], lg_buf_cap = 0, lg_buf_bytes = 0\<rparr>"

lemma genesis_valid: "segment_valid genesis"
proof -
  let ?h = "\<lparr>segment_no = 1, prev_segment_hash = zero_hash, record_count = 0, records_merkle_root = zero_hash, hdr_timestamp_ms = 0\<rparr>"
  have "\<exists>rs. segment_spec genesis = Inr (?h, rs, False, replicate 64 0) \<and> map slice_bytes rs = []"
    using segment_spec_wire [of ?h "[]" None] by (simp add: hdr_wf_def sig_wf_def count_ok_def genesis_def)
  then show ?thesis by (auto simp: segment_valid_def)
qed

lemma genesis_log_inv: "log_inv heap_plenty genesis_log"
  using genesis_size
  by (auto simp: log_inv_def genesis_log_def heap_plenty_def heap_wf_def log_own_def log_state_ok_def w_fs_def
      fs_lookup_def size_mod_def seg_file_def seg_limit_def is_seg_name_filename split: if_splits)

lemma genesis_log_chain: "log_chain genesis_log = [genesis]"
  by (simp add: log_chain_def genesis_log_def seg_file_def w_fs_def fs_lookup_def)

lemma genesis_log_quiet: "quiet True genesis_log"
  by (simp add: quiet_def genesis_log_def w_fs_def)

lemma genesis_chain_valid: "chain_valid (strict_of example_ledger) (log_chain genesis_log)"
  using genesis_valid genesis_next chain_valid_snoc [of False "[]" genesis]
  by (simp add: genesis_log_chain strict_of_def example_ledger_def defaults_def seg_ok_def)

lemma example_on_log: "on_log default_allocator heap_plenty example_ledger genesis_log"
proof -
  have "ledger_ok example_ledger" by (simp add: ledger_ok_def example_ledger_def buf_ptrs_def size_mod_def)
  moreover have "own_ledger example_ledger = {4}" by (simp add: own_ledger_def example_ledger_def buf_ptrs_def)
  moreover have "log_own genesis_log = {1, 2}" "hp_live (w_heap genesis_log) = {1, 2, 3, 4}"
    by (simp_all add: log_own_def genesis_log_def)
  ultimately show ?thesis
    using genesis_log_inv by (auto simp: on_log_def ledger_inv_def example_ledger_def)
qed

section \<open>Properties of the ledger\<close>



text \<open>C3. Verification decides validity: on a consistent ledger \<^verbatim>\<open>vicarl_ledger_verify\<close> returns, changes neither
  the chain nor the ledger and leaves no block behind; if it accepts, the chain is valid: every
  segment verifies, is numbered by its position, refers to the hash of the one before it, and its
  records are signed where the ledger requires it. In a quiet environment it accepts every such chain.\<close>
theorem ledger_verify_decides:
  assumes "alloc_rel A ok rel" and "on_log A ok l w"
  shows "\<exists>r w'. vicarl_ledger_verify A (w, Some l) = Some (r, (w', Some l)) \<and> log_chain w' = log_chain w \<and> on_log A ok l w' \<and>
    hp_live (w_heap w') = hp_live (w_heap w) \<and> (r = Inr () \<longrightarrow> chain_valid (strict_of l) (log_chain w)) \<and>
    (quiet rel w \<and> chain_valid (strict_of l) (log_chain w) \<longrightarrow> r = Inr ())"
proof -
  obtain p opt where l: "lg_store l = log_handle A p opt" "ledger_inv (log_inv ok) log_own l w" using assms(2) by (rule on_logE)
  have sub: "own_ledger l \<subseteq> hp_live (w_heap w)" using l(2) by (simp add: ledger_inv_def)
  obtain r w' where v: "vicarl_ledger_verify A (w, Some l) = Some (r, (w', Some l))" "log_chain w' = log_chain w"
    "ledger_kept (log_inv ok) log_own (quiet rel) l w l w'"
    "case r of Inr _ \<Rightarrow> chain_valid (strict_of l) (log_chain w) | Inl e \<Rightarrow> \<not> chain_valid (strict_of l) (log_chain w) \<or> \<not> (rel \<and> quiet rel w)"
    using segment_store.verify_state [OF log_segment_store [OF assms(1)] assms(1) l] by blast
  moreover have "hp_live (w_heap w') = hp_live (w_heap w)" using v(3) sub by (auto simp: ledger_kept_def)
  ultimately show ?thesis using on_log_kept [OF assms(2) v(3)] by (cases r) (auto simp: quiet_def)
qed

theorem ledger_verify_decides_witness:
  "\<exists>w'. vicarl_ledger_verify default_allocator (genesis_log, Some example_ledger) = Some (Inr (), (w', Some example_ledger))"
  using ledger_verify_decides [OF libc_reliable example_on_log] genesis_log_quiet genesis_chain_valid by blast

text \<open>C2. The tip hash is tamper-evident: if two ledgers both verify and report the same tip, then they
  hold the same segments, or two different segments with the same SHA-256 hash are among them.\<close>
theorem ledger_tamper_evident:
  assumes "alloc_rel A ok rel" and "on_log A ok l1 w1" and "on_log A ok l2 w2"
    and "vicarl_ledger_verify A (w1, Some l1) = Some (Inr (), s1)" and "vicarl_ledger_verify A (w2, Some l2) = Some (Inr (), s2)"
    and "fst (vicarl_ledger_tip True (w1, Some l1)) = Inr tip" and "fst (vicarl_ledger_tip True (w2, Some l2)) = Inr tip"
  shows "log_chain w1 = log_chain w2 \<or> collision (log_chain w1) (log_chain w2)"
proof -
  have one: "chain_valid (strict_of l) (log_chain w) \<and> length (log_chain w) + 1 < size_mod \<and>
      tip = (of_nat (length (log_chain w)), tip_hash_of (log_chain w))"
    if on: "on_log A ok l w" and v: "vicarl_ledger_verify A (w, Some l) = Some (Inr (), t)" and tip: "fst (vicarl_ledger_tip True (w, Some l)) = Inr tip" for l w t
  proof -
    obtain p opt where l: "lg_store l = log_handle A p opt" "ledger_inv (log_inv ok) log_own l w" using on by (rule on_logE)
    note store = log_segment_store [OF assms(1), of p opt]
    have inv: "log_inv ok w" using l(2) by (simp add: ledger_inv_def)
    have "chain_valid (strict_of l) (log_chain w)" using segment_store.verify_state [OF store assms(1) l] unfolding v by auto
    moreover have "length (log_chain w) + 1 < size_mod" using segment_store.inv_ok [OF store inv] by (simp add: chain_ok_def)
    moreover have "tip = (of_nat (length (log_chain w)), tip_hash_of (log_chain w))"
      using tip segment_store.tip_law [OF store inv] l(1) by (auto simp: vicarl_ledger_tip_def tip_hash_of_def split: if_splits)
    ultimately show ?thesis by blast
  qed
  note a = one [OF assms(2,4,6)] and b = one [OF assms(3,5,7)]
  then have lens: "length (log_chain w1) + 1 < size_mod" "length (log_chain w2) + 1 < size_mod" by auto
  from a b have eq: "of_nat (length (log_chain w1)) = (of_nat (length (log_chain w2)) :: u64)" "tip_hash_of (log_chain w1) = tip_hash_of (log_chain w2)" by auto
  have "length (log_chain w1) = length (log_chain w2)"
    using unat_of_nat_u64 [of "length (log_chain w1)"] unat_of_nat_u64 [of "length (log_chain w2)"] eq(1) lens by (metis add_lessD1)
  then show ?thesis using chain_binding eq(2) a b by blast
qed

theorem ledger_tamper_evident_witness:
  "\<exists>s1. vicarl_ledger_verify default_allocator (genesis_log, Some example_ledger) = Some (Inr (), s1) \<and>
     fst (vicarl_ledger_tip True (genesis_log, Some example_ledger)) = Inr (1, sha256 genesis) \<and>
     (log_chain genesis_log = [genesis] \<or> collision (log_chain genesis_log) (log_chain genesis_log))"
proof -
  obtain p opt where l: "lg_store example_ledger = log_handle default_allocator p opt" "ledger_inv (log_inv heap_plenty) log_own example_ledger genesis_log"
    using example_on_log by (rule on_logE)
  note store = log_segment_store [OF libc_reliable, of p opt]
  obtain s1 where v: "vicarl_ledger_verify default_allocator (genesis_log, Some example_ledger) = Some (Inr (), s1)"
    using segment_store.verify_state [OF store libc_reliable l] genesis_log_quiet genesis_chain_valid by (fastforce split: sum.splits)
  have t: "fst (vicarl_ledger_tip True (genesis_log, Some example_ledger)) = Inr (1, sha256 genesis)"
    using segment_store.tip_law [OF store genesis_log_inv] l(1) by (simp add: vicarl_ledger_tip_def genesis_log_chain)
  from ledger_tamper_evident [OF libc_reliable example_on_log example_on_log v v t t] v t genesis_log_chain show ?thesis by auto
qed




text \<open>A ledger with one buffered record, for the example.\<close>

definition buffered_ledger :: "(log_env, unit) vicarl_ledger" where
  "buffered_ledger = example_ledger\<lparr>lg_buf_ptr := Some 5, lg_buf_cap := 64, lg_buf_bytes := length sample_record,
     lg_buf := [\<lparr>br_ptr = 6, br_bytes = sample_record, br_len = length sample_record, br_id = sha256 sample_record, br_has_sig = False\<rparr>]\<rparr>"

definition buffered_world :: log_world where
  "buffered_world = genesis_log\<lparr>w_heap := \<lparr>hp_next = 7, hp_live = {1, 2, 3, 4, 5, 6}, hp_bad = False, hp_oom = []\<rparr>\<rparr>"

lemma buffered_on_log: "on_log default_allocator heap_plenty buffered_ledger buffered_world"
  and buffered_chain: "log_chain buffered_world = [genesis]" and buffered_quiet: "quiet True buffered_world"
proof -
  let ?h = "\<lparr>hp_next = 7, hp_live = {1, 2, 3, 4, 5, 6}, hp_bad = False, hp_oom = []\<rparr>"
  have lo: "log_own genesis_log = {1, 2}" by (simp add: log_own_def genesis_log_def)
  have "heap_plenty ?h" by (simp add: heap_plenty_def heap_wf_def)
  then have k: "log_inv heap_plenty buffered_world \<and> log_own buffered_world = {1, 2} \<and> log_chain buffered_world = [genesis] \<and> quiet True buffered_world"
    using log_kept [OF genesis_log_inv, of buffered_world True] genesis_log_quiet lo genesis_log_chain
    by (simp add: buffered_world_def)
  then show "log_chain buffered_world = [genesis]" "quiet True buffered_world" by simp_all
  have "ledger_ok buffered_ledger"
    using sample_record_ok
    by (auto simp: ledger_ok_def buffered_ledger_def example_ledger_def buf_ptrs_def size_mod_def bufrec_ok_def strict_of_def defaults_def)
  moreover have "own_ledger buffered_ledger = {4, 5, 6}" by (auto simp: own_ledger_def buffered_ledger_def example_ledger_def buf_ptrs_def)
  ultimately show "on_log default_allocator heap_plenty buffered_ledger buffered_world"
    using k by (auto simp: on_log_def ledger_inv_def buffered_world_def buffered_ledger_def example_ledger_def)
qed


text \<open>C12. A whole session leaks nothing: opening a ledger on a directory that holds a valid chain, any
  sequence of appends, flushes and verifications, and closing it leave exactly the blocks live that
  were live before, with no invalid free; closing does not touch the files, so records that were
  only buffered are gone while every flushed segment is kept.\<close>
theorem ledger_session_tidy:
  assumes "alloc_rel A ok rel" and "ok (w_heap w)" and "fs_close_fail (w_fs w) = []" and "dir \<noteq> []" and "dir_chain (w_fs w) dir segs"
    and "lo_store_kind (effective_options opt) \<noteq> VICARL_STORE_SQLITE" and "chain_valid (require_signed_records (effective_options opt) \<noteq> 0) segs"
    and "vicarl_ledger_open A open_sqlite (vicarl_store_open_log A) (Some dir) opt True w = (Inr l0, w0)"
    and "ledger_run A (w0, Some l0) (w1, Some l1)"
  shows "hp_live (w_heap (vicarl_ledger_close A (Some l1) w1)) = hp_live (w_heap w) \<and>
    hp_bad (w_heap (vicarl_ledger_close A (Some l1) w1)) = hp_bad (w_heap w) \<and>
    w_fs (vicarl_ledger_close A (Some l1) w1) = w_fs w1 \<and> chain_valid (strict_of l1) (log_chain w1) \<and> prefix (concat (map seg_records_of segs)) (ledger_records (log_chain w1) l1)"
proof -
  let ?L = "hp_live (w_heap w)" and ?st = "st_ptr (the (lg_store l0))"
  from outcome_Inr [OF ledger_open_outcome [OF assms(1-6), of open_sqlite] assms(8)]
  have o: "on_log A ok l0 w0" "lg_opt l0 = effective_options opt" "lg_buf l0 = []" "log_chain w0 = segs" "ledger_blocks l0 w0 \<inter> ?L = {}"
    "frame_of l0 w0 = ((?L \<union> insert ?st (log_own w0), hp_bad (w_heap w)), log_own w0, lg_store l0, lg_opt l0)"
    "?st \<notin> log_own w0" "?st \<notin> own_ledger l0" by auto
  have "strict_of l0 = (require_signed_records (effective_options opt) \<noteq> 0)" by (simp add: strict_of_def o(2))
  with assms(7) o have "ledger_good A ok (frame_of l0 w0) (concat (map seg_records_of segs)) (w0, Some l0)"
    by (simp add: ledger_good_def ledger_records_def)
  from ledger_good_run [OF assms(9,1) this] have g: "on_log A ok l1 w1" "frame_of l1 w1 = frame_of l0 w0"
    "chain_valid (strict_of l1) (log_chain w1)" "prefix (concat (map seg_records_of segs)) (ledger_records (log_chain w1) l1)"
    by (auto simp: ledger_good_def)
  obtain st where st: "lg_store l0 = Some st" using o(1) by (auto simp: on_log_def log_handle_def)
  have f: "hp_live (w_heap w1) - own_ledger l1 = ?L \<union> insert (st_ptr st) (log_own w0)" "hp_bad (w_heap w1) = hp_bad (w_heap w)"
    "log_own w1 = log_own w0" "lg_store l1 = Some st"
    using g(2) o(6) st by (auto simp: frame_of_def)
  have dis: "insert (st_ptr st) (log_own w0) \<inter> ?L = {}" using o(5) st by (auto simp: ledger_blocks_def)
  have "heap_to ok (w_heap w1) ?L (w_heap (vicarl_ledger_close A (Some l1) w1)) \<and> w_fs (vicarl_ledger_close A (Some l1) w1) = w_fs w1"
    by (rule close_leaves [OF assms(1) g(1) f(4)]) (use o(7) st f dis in auto)
  with f(2) g show ?thesis by (simp add: heap_to_def)
qed

theorem ledger_session_tidy_witness:
  "\<exists>(l0 :: (log_env, unit) vicarl_ledger) w0.
     vicarl_ledger_open default_allocator vicarl_store_open_sqlite_stub (vicarl_store_open_log default_allocator) (Some ''d'') None True
       (restarted heap_init empty_log) = (Inr l0, w0) \<and>
     hp_live (w_heap (vicarl_ledger_close default_allocator (Some l0) w0)) = {}"
proof -
  let ?w = "restarted heap_init empty_log"
  have w: "heap_plenty (w_heap ?w)" "fs_close_fail (w_fs ?w) = []" "''d'' \<noteq> []" "dir_chain (w_fs ?w) ''d'' []" "quiet True ?w"
    by (simp_all add: restarted_def w_fs_def empty_log_def dir_chain_def chain_ok_def size_mod_def fs_lookup_def quiet_def set_impl_def)
  have k: "lo_store_kind (effective_options None) \<noteq> VICARL_STORE_SQLITE"
    by (simp add: effective_options_def defaults_def)
  obtain l0 :: "(log_env, unit) vicarl_ledger" and w0 where op: "vicarl_ledger_open default_allocator vicarl_store_open_sqlite_stub (vicarl_store_open_log default_allocator) (Some ''d'') None True
       ?w = (Inr l0, w0)"
    using ledger_open_outcome [OF libc_reliable w(1-4) k, of vicarl_store_open_sqlite_stub] w(5)
    by (auto simp: outcome_def env_error_def split: prod.splits sum.splits)
  have "hp_live (w_heap ?w) = {}" by (simp add: restarted_def heap_init_def)
  with ledger_session_tidy [OF libc_reliable w(1-4) k _ op run_refl] op show ?thesis by auto
qed

end
