(* ===== verification/Vicarl_Sync.thy ===== *)
theory Vicarl_Sync
  imports Vicarl_Ledger Vicarl_Wire
begin

text \<open>
  \<^verbatim>\<open>src/p2p/sync.c\<close> and \<^verbatim>\<open>src/p2p/p2p_internal.h\<close>: the engine that replicates a store from a peer. It caches its own tip
  and the peer's, requests segments it lacks, serves segments to the peer and appends received segments
  after checking them. Like the ledger it is generic in its store: its lemmas are proved in the context of
  the contract \<^verbatim>\<open>segment_store\<close>.
\<close>

section \<open>State\<close>

text \<open>The callback that hands a frame to the transport is the caller's code and runs on the caller's state \<open>'u\<close>
  (\<^verbatim>\<open>send_user\<close> and what lies behind it).\<close>

type_synonym 'u p2p_send_fn = "vicarl_slice \<Rightarrow> ('u, unit) vm"

record ('e, 'u) vicarl_p2p_sync =
  sy_ptr :: addr
  sy_store :: "('e, 'u) vicarl_store option"
  sy_send :: "'u p2p_send_fn option"
  local_tip_no :: u64
  local_tip_hash :: vicarl_hash32
  local_has_tip :: bool
  peer_tip_no :: u64
  peer_tip_hash :: vicarl_hash32
  peer_has_tip :: bool
  next_wanted_no :: u64
  max_inflight :: u64
  awaiting_segments :: bool

record vicarl_p2p_sync_options =
  max_segments_per_request :: u64

text \<open>The functions run on the world, the caller's state and the object.\<close>

type_synonym ('e, 'u) sync_state = "'e world \<times> 'u \<times> ('e, 'u) vicarl_p2p_sync"

definition sizeof_sync :: nat where
  "sizeof_sync = 144"

text \<open>Parts of a handler: a result that is at hand, and a computation on the world alone.\<close>

definition on_world :: "('e world, 'a) vm \<Rightarrow> (('e, 'u) sync_state, 'a) vm" where
  "on_world m st = (case st of (w, u, s) \<Rightarrow> (case m w of (r, w') \<Rightarrow> (r, (w', u, s))))"

definition on_sync :: "(('e, 'u) vicarl_p2p_sync \<Rightarrow> ('e, 'u) vicarl_p2p_sync) \<Rightarrow> (('e, 'u) sync_state, unit) vm" where
  "on_sync f st = (case st of (w, u, s) \<Rightarrow> (Inr (), (w, u, f s)))"

section \<open>Internal functions\<close>

definition compute_hash :: "vicarl_slice \<Rightarrow> bool \<Rightarrow> vicarl_hash32 res" where
  "compute_hash bytes out = (if \<not> out then Inl (badarg ''compute_hash: out is NULL'') else vicarl__sha256 bytes True)"

definition send_msg :: "vicarl_allocator \<Rightarrow> vicarl_p2p_msg \<Rightarrow> (('e, 'u) sync_state, unit) vm" where
  "send_msg A msg st =
     (case st of (w, u, s) \<Rightarrow>
        (case sy_send s of
           None \<Rightarrow> (Inl (badarg ''p2p_sync: send callback missing''), st)
         | Some send \<Rightarrow>
             (case on_heap (vicarl_p2p_wire_encode A (Some msg) True) w of
                (Inl e, w1) \<Rightarrow> (Inl e, (w1, u, s))
              | (Inr frame, w1) \<Rightarrow>
                  (case send (bytes_slice frame) u of
                     (r, u') \<Rightarrow> (r, (upd_heap (vicarl_free A (by_ptr frame)) w1, u', s))))))"

definition refresh_local_tip :: "(('e, 'u) sync_state, unit) vm" where
  "refresh_local_tip st =
     (case st of (w, u, s) \<Rightarrow>
        let s0 = s\<lparr>local_has_tip := False, local_tip_no := 0, local_tip_hash := zero_hash\<rparr> in
        (case vicarl_store_tip (sy_store s) True w of
           (Inr (no, h), w1) \<Rightarrow> (Inr (), (w1, u, s0\<lparr>local_has_tip := True, local_tip_no := no, local_tip_hash := h\<rparr>))
         | (Inl e, w1) \<Rightarrow>
             if status_of (Inl e :: unit res) = Some VICARL_ERR_NOT_FOUND then (Inr (), (w1, u, s0)) else (Inl e, (w1, u, s0))))"

definition request_more_if_needed :: "vicarl_allocator \<Rightarrow> (('e, 'u) sync_state, unit) vm" where
  "request_more_if_needed A st =
     (case st of (w, u, s) \<Rightarrow>
        if \<not> peer_has_tip s then (Inr (), st)
        else if local_has_tip s \<and> local_tip_no s \<ge> peer_tip_no s then (Inr (), (w, u, s\<lparr>awaiting_segments := False\<rparr>))
        else if \<not> local_has_tip s \<and> peer_tip_no s = 0 then (Inr (), (w, u, s\<lparr>awaiting_segments := False\<rparr>))
        else
          let want_from = (if local_has_tip s then local_tip_no s + 1 else 1) in
          if awaiting_segments s then (Inr (), st)
          else
            bindr (on_sync (\<lambda>s. s\<lparr>next_wanted_no := want_from\<rparr>)) (\<lambda>_.
            bindr (send_msg A (MSG_GET_SEGMENTS \<lparr>from_no = want_from, max_count = max_inflight s\<rparr>)) (\<lambda>_.
            on_sync (\<lambda>s. s\<lparr>awaiting_segments := True\<rparr>))) st)"

text \<open>What \<^verbatim>\<open>apply_segment\<close> checks on the decoded segment.\<close>

definition check_linkage :: "('e, 'u) vicarl_p2p_sync \<Rightarrow> u64 \<Rightarrow> vicarl_segment \<Rightarrow> unit res" where
  "check_linkage s seg_no seg =
     (case segment_header_of (Some seg) of
        None \<Rightarrow> Inl (fail_with VICARL_ERR_INTERNAL ''p2p_sync: missing segment header'')
      | Some hdr \<Rightarrow>
          if segment_no hdr \<noteq> seg_no then Inl (fail_with VICARL_ERR_FORMAT ''p2p_sync: segment_no mismatch'')
          else
            let expected_no = (if local_has_tip s then local_tip_no s + 1 else 1) in
            if seg_no \<noteq> expected_no
            then Inl (fail_with VICARL_ERR_INVALID_ARGUMENT
                   (''p2p_sync: unexpected segment_no (got '' @ dec_u64 seg_no @ '' expected '' @ dec_u64 expected_no @ '')''))
            else if local_has_tip s
            then (if prev_segment_hash hdr \<noteq> local_tip_hash s
                  then Inl (fail_with VICARL_ERR_FORMAT ''p2p_sync: prev_segment_hash mismatch (fork or wrong peer)'')
                  else Inr ())
            else (if \<not> hash_is_zero32 (prev_segment_hash hdr)
                  then Inl (fail_with VICARL_ERR_FORMAT ''p2p_sync: genesis prev_segment_hash must be zero'')
                  else Inr ()))"

text \<open>\<^verbatim>\<open>apply_segment\<close> up to the append.\<close>

definition check_segment ::
  "vicarl_allocator \<Rightarrow> ('e, 'u) vicarl_p2p_sync \<Rightarrow> u64 \<Rightarrow> vicarl_hash32 \<Rightarrow> vicarl_slice \<Rightarrow> (heap, unit) vm" where
  "check_segment A s seg_no declared_hash seg_bytes =
     bindr (of_res (compute_hash seg_bytes True)) (\<lambda>actual.
     bindr (guardr (actual = declared_hash) (fail_with VICARL_ERR_FORMAT ''p2p_sync: segment hash mismatch'')) (\<lambda>_.
     bindr (vicarl_segment_verify A seg_bytes) (\<lambda>_.
     bindr (vicarl_segment_decode A seg_bytes True) (\<lambda>seg.
     finally_do (vicarl_segment_destroy A (Some seg)) (of_res (check_linkage s seg_no seg))))))"

definition apply_segment ::
  "vicarl_allocator \<Rightarrow> u64 \<Rightarrow> vicarl_hash32 \<Rightarrow> vicarl_slice \<Rightarrow> (('e, 'u) sync_state, unit) vm" where
  "apply_segment A seg_no declared_hash seg_bytes st =
     (case st of (w, u, s) \<Rightarrow>
        bindr (on_world (on_heap (check_segment A s seg_no declared_hash seg_bytes))) (\<lambda>_.
        bindr (on_world (vicarl_store_append_segment (sy_store s) seg_bytes True)) (\<lambda>(stored_no, stored_hash).
        bindr (on_sync (\<lambda>s. s\<lparr>local_has_tip := True, local_tip_no := stored_no, local_tip_hash := stored_hash\<rparr>)) (\<lambda>_.
        on_sync (\<lambda>s. if peer_has_tip s \<and> local_tip_no s \<ge> peer_tip_no s then s\<lparr>awaiting_segments := False\<rparr> else s)))) st)"

section \<open>The functions of the interface\<close>

definition vicarl_p2p_sync_init ::
  "vicarl_allocator \<Rightarrow> ('e, 'u) vicarl_store option \<Rightarrow> 'u p2p_send_fn option \<Rightarrow> vicarl_p2p_sync_options option \<Rightarrow> bool \<Rightarrow>
     'e world \<times> 'u \<Rightarrow> ('e, 'u) vicarl_p2p_sync res \<times> 'e world \<times> 'u" where
  "vicarl_p2p_sync_init A store send opt out wu =
     (case wu of (w, u) \<Rightarrow>
        if \<not> out then (Inl (badarg ''p2p_sync_init: out is NULL''), (w, u))
        else if store = None then (Inl (badarg ''p2p_sync_init: store is NULL''), (w, u))
        else if send = None then (Inl (badarg ''p2p_sync_init: send callback is NULL''), (w, u))
        else
          (case on_heap (calloc_or_oom A 1 sizeof_sync) w of
             (Inl e, w1) \<Rightarrow> (Inl e, (w1, u))
           | (Inr p, w1) \<Rightarrow>
               let s = \<lparr>sy_ptr = p, sy_store = store, sy_send = send, local_tip_no = 0, local_tip_hash = zero_hash,
                        local_has_tip = False, peer_tip_no = 0, peer_tip_hash = zero_hash, peer_has_tip = False,
                        next_wanted_no = 0,
                        max_inflight = (case opt of
                            None \<Rightarrow> 128
                          | Some o' \<Rightarrow> if max_segments_per_request o' \<noteq> 0 then max_segments_per_request o' else 128),
                        awaiting_segments = False\<rparr> in
               (case refresh_local_tip (w1, u, s) of
                  (Inl e, (w2, u2, _)) \<Rightarrow> (Inl e, (upd_heap (vicarl__free A (Some p)) w2, u2))
                | (Inr _, (w2, u2, s2)) \<Rightarrow> (Inr s2, (w2, u2)))))"

definition vicarl_p2p_sync_destroy :: "vicarl_allocator \<Rightarrow> ('e, 'u) vicarl_p2p_sync option \<Rightarrow> 'e world \<Rightarrow> 'e world" where
  "vicarl_p2p_sync_destroy A s w =
     (case s of None \<Rightarrow> w | Some x \<Rightarrow> upd_heap (vicarl__free A (Some (sy_ptr x))) w)"

text \<open>The functions that take a pointer to the object, which may be \<^verbatim>\<open>NULL\<close>.\<close>

definition with_sync :: "string \<Rightarrow> (('e, 'u) sync_state, unit) vm \<Rightarrow> ('e world \<times> 'u \<times> ('e, 'u) vicarl_p2p_sync option, unit) vm" where
  "with_sync msg m st =
     (case st of
        (w, u, None) \<Rightarrow> (Inl (badarg msg), st)
      | (w, u, Some s) \<Rightarrow> (case m (w, u, s) of (r, (w', u', s')) \<Rightarrow> (r, (w', u', Some s'))))"

definition vicarl_p2p_sync_send_hello ::
  "vicarl_allocator \<Rightarrow> vicarl_pubkey32 option \<Rightarrow> ('e world \<times> 'u \<times> ('e, 'u) vicarl_p2p_sync option, unit) vm" where
  "vicarl_p2p_sync_send_hello A nid =
     with_sync ''p2p_sync_send_hello: sync is NULL''
       (case nid of
          None \<Rightarrow> failr (badarg ''p2p_sync_send_hello: node_id is NULL'')
        | Some i \<Rightarrow> send_msg A (MSG_HELLO \<lparr>proto_major = 1, proto_minor = 0, node_id = i\<rparr>))"

definition sync_send_tip :: "vicarl_allocator \<Rightarrow> (('e, 'u) sync_state, unit) vm" where
  "sync_send_tip A =
     bindr refresh_local_tip (\<lambda>_ (w, u, s).
       send_msg A
         (if local_has_tip s then MSG_TIP \<lparr>tip_no = local_tip_no s, tip_hash = local_tip_hash s\<rparr>
          else MSG_TIP \<lparr>tip_no = 0, tip_hash = zero_hash\<rparr>) (w, u, s))"

definition vicarl_p2p_sync_send_tip :: "vicarl_allocator \<Rightarrow> ('e world \<times> 'u \<times> ('e, 'u) vicarl_p2p_sync option, unit) vm" where
  "vicarl_p2p_sync_send_tip A = with_sync ''p2p_sync_send_tip: sync is NULL'' (sync_send_tip A)"

text \<open>The case \<^verbatim>\<open>VICARL_P2P_MSG_TIP\<close>.\<close>

definition on_tip :: "vicarl_allocator \<Rightarrow> vicarl_p2p_tip \<Rightarrow> (('e, 'u) sync_state, unit) vm" where
  "on_tip A m =
     bindr (on_sync (\<lambda>s. s\<lparr>peer_tip_no := tip_no m, peer_tip_hash := tip_hash m,
       peer_has_tip := tip_no m \<noteq> 0 \<or> \<not> hash_is_zero32 (tip_hash m)\<rparr>)) (\<lambda>_.
     request_more_if_needed A)"

text \<open>One round of the loop that answers a request.\<close>

definition send_segment :: "vicarl_allocator \<Rightarrow> u64 \<Rightarrow> (('e, 'u) sync_state, unit) vm" where
  "send_segment A no st =
     (case st of (w, u, s) \<Rightarrow>
        bindr (on_world (vicarl_store_read_segment (sy_store s) no True)) (\<lambda>seg.
        finally_do (\<lambda>(w, u, s). (upd_heap (vicarl_free A (by_ptr seg)) w, u, s))
          (bindr (of_res (compute_hash (bytes_slice seg) True)) (\<lambda>h.
           send_msg A (MSG_SEGMENT \<lparr>msg_segment_no = no, msg_segment_hash = h, segment_bytes = bytes_slice seg\<rparr>)))) st)"

text \<open>The loop ends because \<^verbatim>\<open>sent\<close> grows towards \<^verbatim>\<open>max_count\<close>.\<close>

function serve_loop :: "vicarl_allocator \<Rightarrow> u64 \<Rightarrow> u64 \<Rightarrow> u64 \<Rightarrow> (('e, 'u) sync_state, unit) vm" where
  "serve_loop A cnt no sent st =
     (if no \<le> local_tip_no (snd (snd st)) \<and> sent < cnt
      then (case send_segment A no st of
              (Inl e, st') \<Rightarrow> (Inl e, st')
            | (Inr _, st') \<Rightarrow> serve_loop A cnt (no + 1) (sent + 1) st')
      else (Inr (), st))"
  by pat_completeness auto

termination serve_loop
proof (relation "measure (\<lambda>(A, cnt, no, sent, st). unat cnt - unat sent)", goal_cases)
  case (2 A cnt no sent st r y)
  then have "unat sent < unat cnt" by (simp add: word_less_nat_alt)
  moreover from this have "unat (sent + 1) = unat sent + 1"
    using unat_u64_less [of cnt] by (simp add: unat_word_ariths size_mod_def)
  ultimately show ?case by simp
qed simp

declare serve_loop.simps [simp del]

text \<open>The case \<^verbatim>\<open>VICARL_P2P_MSG_GET_SEGMENTS\<close>.\<close>

definition on_get_segments :: "vicarl_allocator \<Rightarrow> vicarl_p2p_get_segments \<Rightarrow> (('e, 'u) sync_state, unit) vm" where
  "on_get_segments A m =
     (let from = (if from_no m = 0 then 1 else from_no m);
          cnt = (if max_count m = 0 then 128 else max_count m)
      in bindr refresh_local_tip (\<lambda>_ (w, u, s).
           if \<not> local_has_tip s then (Inr (), (w, u, s))
           else if from > local_tip_no s then (Inr (), (w, u, s))
           else serve_loop A cnt from 0 (w, u, s)))"

text \<open>\<^verbatim>\<open>%.*s\<close> with the precision \<^verbatim>\<open>(int)len\<close>: at most that many bytes, up to a NUL; a negative precision is
  ignored, so the bytes are read up to a NUL, wherever that is.\<close>

definition fmt_slice :: "vicarl_slice \<Rightarrow> string res" where
  "fmt_slice m =
     (let prec = sint (of_nat (sl_len m) :: 32 word);
          mem = (case sl_ptr m of None \<Rightarrow> [] | Some bs \<Rightarrow> bs);
          text = map (\<lambda>b. char_of (unat b))
      in if prec < 0 \<and> 0 \<notin> set mem \<or> prec > int (length mem) \<and> 0 \<notin> set mem
         then Inl (UB ''read past the end of a slice'')
         else if prec < 0 then Inr (text (takeWhile (\<lambda>b. b \<noteq> 0) mem))
         else Inr (text (takeWhile (\<lambda>b. b \<noteq> 0) (take (nat prec) mem))))"

definition on_peer_error :: "vicarl_p2p_error \<Rightarrow> (('e, 'u) sync_state, unit) vm" where
  "on_peer_error m =
     bindr (of_res (fmt_slice (message_utf8 m))) (\<lambda>txt.
     failr (fail_with VICARL_ERR_IO (''p2p peer error '' @ dec_u64 (err_code m) @ '': '' @ txt)))"

fun sync_on_message :: "vicarl_allocator \<Rightarrow> vicarl_p2p_msg \<Rightarrow> (('e, 'u) sync_state, unit) vm" where
  "sync_on_message A (MSG_HELLO m) = retr ()"
| "sync_on_message A (MSG_TIP m) = on_tip A m"
| "sync_on_message A (MSG_GET_SEGMENTS m) = on_get_segments A m"
| "sync_on_message A (MSG_SEGMENT m) =
     bindr (apply_segment A (msg_segment_no m) (msg_segment_hash m) (segment_bytes m)) (\<lambda>_. request_more_if_needed A)"
| "sync_on_message A (MSG_ERROR m) = on_peer_error m"
| "sync_on_message A (MSG_OTHER t) = failr (fail_with VICARL_ERR_FORMAT ''p2p_sync: unknown message type'')"

definition vicarl_p2p_sync_on_message ::
  "vicarl_allocator \<Rightarrow> vicarl_p2p_msg option \<Rightarrow> ('e world \<times> 'u \<times> ('e, 'u) vicarl_p2p_sync option, unit) vm" where
  "vicarl_p2p_sync_on_message A msg =
     with_sync ''p2p_sync_on_message: sync is NULL''
       (case msg of None \<Rightarrow> failr (badarg ''p2p_sync_on_message: msg is NULL'') | Some m \<Rightarrow> sync_on_message A m)"

section \<open>What the engine knows\<close>

text \<open>The cached tip is the one of the chain \<open>segs\<close>.\<close>

definition tip_known :: "bytes list \<Rightarrow> ('e, 'u) vicarl_p2p_sync \<Rightarrow> bool" where
  "tip_known segs y \<longleftrightarrow> local_has_tip y = (segs \<noteq> []) \<and> local_tip_no y = of_nat (length segs) \<and> local_tip_hash y = tip_hash_of segs"

definition set_tip :: "bytes list \<Rightarrow> ('e, 'u) vicarl_p2p_sync \<Rightarrow> ('e, 'u) vicarl_p2p_sync" where
  "set_tip segs y = y\<lparr>local_has_tip := segs \<noteq> [], local_tip_no := of_nat (length segs), local_tip_hash := tip_hash_of segs\<rparr>"

lemma tip_known_set [simp]: "tip_known segs (set_tip segs y)"
  by (simp add: tip_known_def set_tip_def)

lemma set_tip_known [simp]: "tip_known segs y \<Longrightarrow> set_tip segs y = y"
  by (simp add: tip_known_def set_tip_def)

lemma set_tip_simps [simp]:
  "sy_ptr (set_tip segs y) = sy_ptr y" "sy_store (set_tip segs y) = sy_store y" "sy_send (set_tip segs y) = sy_send y"
  "peer_tip_no (set_tip segs y) = peer_tip_no y" "peer_has_tip (set_tip segs y) = peer_has_tip y"
  "max_inflight (set_tip segs y) = max_inflight y" "awaiting_segments (set_tip segs y) = awaiting_segments y"
  "local_has_tip (set_tip segs y) \<longleftrightarrow> segs \<noteq> []" "local_tip_no (set_tip segs y) = of_nat (length segs)"
  by (simp_all add: set_tip_def)

lemma tip_known_simps [simp]:
  "tip_known segs (y\<lparr>awaiting_segments := a\<rparr>) = tip_known segs y" "tip_known segs (y\<lparr>next_wanted_no := n\<rparr>) = tip_known segs y"
  "tip_known segs (y\<lparr>peer_tip_no := p, peer_tip_hash := q, peer_has_tip := t\<rparr>) = tip_known segs y"
  by (simp_all add: tip_known_def)

text \<open>A transport that takes every frame.\<close>

definition accepts_all :: "('e, 'u) vicarl_p2p_sync \<Rightarrow> bool" where
  "accepts_all y \<longleftrightarrow> (\<exists>f. sy_send y = Some f \<and> (\<forall>x u. fst (f x u) = Inr ()))"

text \<open>The caller's state after frames of the messages \<open>ms\<close> were sent.\<close>

definition sent_frames :: "('e, 'u) vicarl_p2p_sync \<Rightarrow> vicarl_p2p_msg list \<Rightarrow> 'u \<Rightarrow> 'u" where
  "sent_frames y ms u = foldl (\<lambda>u m. snd (the (sy_send y) (slice_of (frame_wire m)) u)) u ms"

text \<open>Messages small enough to be encoded.\<close>

fun msg_room :: "vicarl_p2p_msg \<Rightarrow> bool" where
  "msg_room (MSG_SEGMENT m) \<longleftrightarrow> sl_len (segment_bytes m) < seg_limit"
| "msg_room (MSG_ERROR m) \<longleftrightarrow> sl_len (message_utf8 m) < seg_limit"
| "msg_room _ \<longleftrightarrow> True"

lemma leb128_le: "n < size_mod \<Longrightarrow> length (leb128 n) \<le> 10"
  using leb128_u64_length [of "of_nat n"] by (simp add: unat_of_nat_u64)

lemma frame_wire_length: "length (payload_wire m) \<le> n \<Longrightarrow> n < size_mod \<Longrightarrow> length (frame_wire m) \<le> n + 16"
  using leb128_le [of "length (payload_wire m)"] by (simp add: frame_wire_def VICARL_P2P_MAGIC_def)

lemma frame_small:
  assumes "msg_wf m" "msg_room m"
  shows "length (frame_wire m) + 10 \<le> 2 ^ 63"
proof -
  have leb: "length (leb128 (unat (v :: u64))) \<le> 10" for v using leb128_u64_length by simp
  have ld: "length (ldbytes b) \<le> 2 ^ 59 + 10" if "length b < 2 ^ 59" for b
    using that leb128_le [of "length b"] by (simp add: ldbytes_def size_mod_def)
  have "length (payload_wire m) \<le> 2 ^ 59 + 100"
  proof (cases m)
    case (MSG_SEGMENT x)
    with assms leb [of "msg_segment_no x"] ld [of "slice_bytes (segment_bytes x)"] show ?thesis
      by (simp add: seg_limit_def slice_wf_length)
  next
    case (MSG_ERROR x)
    with assms leb [of "err_code x"] ld [of "slice_bytes (message_utf8 x)"] show ?thesis
      by (simp add: seg_limit_def slice_wf_length)
  next
    case (MSG_TIP x)
    with assms leb [of "tip_no x"] show ?thesis by simp
  next
    case (MSG_GET_SEGMENTS x)
    with leb [of "from_no x"] leb [of "max_count x"] show ?thesis by simp
  qed (use assms in simp_all)
  from frame_wire_length [OF this] show ?thesis by (simp add: size_mod_def)
qed

section \<open>Checking a segment\<close>

text \<open>Verifying and decoding a segment, then a check of the handle, then releasing it.\<close>

lemma verify_decode_outcome:
  assumes A: "alloc_rel A ok rel" and h: "ok h" and wf: "slice_wf enc" and len: "sl_len enc < 2 ^ 59"
  shows "outcome (bindr (vicarl_segment_verify A enc) (\<lambda>_. bindr (vicarl_segment_decode A enc True) (\<lambda>seg.
      finally_do (vicarl_segment_destroy A (Some seg)) (of_res (chk seg)))))
    (\<lambda>x h'. (\<exists>seg. segment_valid (slice_bytes enc) \<and> segment_spec (slice_bytes enc) = Inr (seg_fields seg) \<and> chk seg = Inr x) \<and>
       heap_to ok h (hp_live h) h')
    (\<lambda>e h'. (\<not> segment_valid (slice_bytes enc) \<or> \<not> rel \<or>
         (\<exists>seg. segment_spec (slice_bytes enc) = Inr (seg_fields seg) \<and> chk seg = Inl e)) \<and> heap_to ok h (hp_live h) h') h"
    (is "outcome _ ?Q ?E h")
proof (rule outcome_bindr, rule outcome_mono [OF segment_verify_outcome [OF A h wf len]])
  let ?bs = "slice_bytes enc"
  fix x h1 assume "heap_to ok h (hp_live h) h1 \<and> segment_valid ?bs"
  then have h1: "heap_to ok h (hp_live h) h1" and v: "segment_valid ?bs" by auto
  show "outcome (bindr (vicarl_segment_decode A enc True) (\<lambda>seg. finally_do (vicarl_segment_destroy A (Some seg)) (of_res (chk seg)))) ?Q ?E h1"
  proof (rule outcome_bindr, rule outcome_mono [OF segment_decode_outcome [OF A heap_to_ok [OF h1] wf]])
    fix seg h2
    assume d: "segment_spec ?bs = Inr (seg_fields seg) \<and> seg_owned_bytes seg = ?bs \<and> seg_record_count seg = unat (record_count (seg_hdr seg)) \<and>
       segment_owned (hp_live h1) seg \<and> heap_to ok h1 (hp_live h1 \<union> own_segment seg) h2"
    have "heap_to ok h (hp_live h) (vicarl_segment_destroy A (Some seg) h2)"
      using d h1 segment_destroy_heap [OF A, of h "hp_live h" seg h2] by (auto simp: heap_to_def)
    with v d show "outcome (finally_do (vicarl_segment_destroy A (Some seg)) (of_res (chk seg))) ?Q ?E h2"
      by (cases "chk seg") (auto simp: outcome_def finally_do_def of_res_def)
  next
    fix e h2
    assume e: "heap_to ok h1 (hp_live h1) h2 \<and> (segment_spec ?bs = Inl e \<or> e = err_oom \<and> (\<not> rel \<or> huge_count ?bs))"
    obtain x where "segment_spec ?bs = Inr x" using v unfolding segment_valid_def by blast
    moreover from not_huge [OF this] len wf have "\<not> huge_count ?bs" by (simp add: slice_wf_length)
    ultimately show "?E e h2" using h1 e by (auto simp: heap_to_def)
  qed
qed auto

text \<open>A segment a peer may send: it has the declared hash and number and continues the chain.\<close>

definition offer_ok :: "bytes list \<Rightarrow> u64 \<Rightarrow> vicarl_hash32 \<Rightarrow> bytes \<Rightarrow> bool" where
  "offer_ok segs no declared bs \<longleftrightarrow> no = of_nat (length segs + 1) \<and> declared = sha256 bs \<and> seg_ok False segs bs"

lemma check_linkage_iff:
  assumes known: "tip_known segs y" and spec: "segment_spec bs = Inr (seg_fields seg)"
  shows "check_linkage y no seg = Inr () \<longleftrightarrow> no = of_nat (length segs + 1) \<and> next_segment segs bs"
proof -
  have link: "next_segment segs bs \<longleftrightarrow> segment_no (seg_hdr seg) = of_nat (length segs + 1) \<and> prev_segment_hash (seg_hdr seg) = tip_hash_of segs"
    using spec by (auto simp: next_segment_def seg_fields_def)
  show ?thesis
    using known by (auto simp: link check_linkage_def segment_header_of_def tip_known_def hash_is_zero32_def tip_hash_of_def Let_def)
qed

lemma check_segment_outcome:
  assumes A: "alloc_rel A ok rel" and h: "ok h" and wf: "slice_wf enc" and len: "sl_len enc < 2 ^ 59" and known: "tip_known segs y"
  shows "outcome (check_segment A y no declared enc)
    (\<lambda>_ h'. offer_ok segs no declared (slice_bytes enc) \<and> heap_to ok h (hp_live h) h')
    (\<lambda>e h'. (\<not> offer_ok segs no declared (slice_bytes enc) \<or> \<not> rel) \<and> heap_to ok h (hp_live h) h') h"
proof -
  let ?bs = "slice_bytes enc"
  have run: "check_segment A y no declared enc h =
    (if sha256 ?bs = declared
     then bindr (vicarl_segment_verify A enc) (\<lambda>_. bindr (vicarl_segment_decode A enc True) (\<lambda>seg.
       finally_do (vicarl_segment_destroy A (Some seg)) (of_res (check_linkage y no seg)))) h
     else (Inl (fail_with VICARL_ERR_FORMAT ''p2p_sync: segment hash mismatch''), h))"
    by (simp add: check_segment_def compute_hash_def vicarl__sha256_wf [OF wf] of_res_def bindr_def vm_simps)
  show ?thesis
  proof (cases "sha256 ?bs = declared")
    case True
    note vd = verify_decode_outcome [OF A h wf len, where chk = "check_linkage y no"]
    have "outcome (bindr (vicarl_segment_verify A enc) (\<lambda>_. bindr (vicarl_segment_decode A enc True) (\<lambda>seg.
       finally_do (vicarl_segment_destroy A (Some seg)) (of_res (check_linkage y no seg)))))
       (\<lambda>_ h'. offer_ok segs no declared ?bs \<and> heap_to ok h (hp_live h) h')
       (\<lambda>e h'. (\<not> offer_ok segs no declared ?bs \<or> \<not> rel) \<and> heap_to ok h (hp_live h) h') h"
    proof (rule outcome_mono [OF vd])
      fix x :: unit and h'
      assume "(\<exists>seg. segment_valid ?bs \<and> segment_spec ?bs = Inr (seg_fields seg) \<and> check_linkage y no seg = Inr x) \<and> heap_to ok h (hp_live h) h'"
      then show "offer_ok segs no declared ?bs \<and> heap_to ok h (hp_live h) h'"
        using check_linkage_iff [OF known] True by (auto simp: offer_ok_def seg_ok_def)
    next
      fix e h'
      assume "(\<not> segment_valid ?bs \<or> \<not> rel \<or> (\<exists>seg. segment_spec ?bs = Inr (seg_fields seg) \<and> check_linkage y no seg = Inl e)) \<and> heap_to ok h (hp_live h) h'"
      moreover have "\<not> offer_ok segs no declared ?bs" if "segment_spec ?bs = Inr (seg_fields seg)" "check_linkage y no seg = Inl e" for seg
        using check_linkage_iff [OF known that(1), of no] that(2) by (auto simp: offer_ok_def seg_ok_def)
      ultimately show "(\<not> offer_ok segs no declared ?bs \<or> \<not> rel) \<and> heap_to ok h (hp_live h) h'"
        by (auto simp: offer_ok_def seg_ok_def)
    qed
    with True run show ?thesis by (simp add: outcome_def)
  next
    case False
    with run h show ?thesis by (auto simp: outcome_def offer_ok_def heap_to_refl)
  qed
qed

section \<open>The engine on a store\<close>

lemma on_world_outcome:
  "outcome m (\<lambda>x w'. Q x (w', u, y)) (\<lambda>e w'. E e (w', u, y)) w \<Longrightarrow> outcome (on_world m) Q E (w, u, y)"
  by (auto simp: outcome_def on_world_def split: prod.splits sum.splits)

context segment_store
begin

lemma send_msg_outcome:
  assumes A: "alloc_rel A ok rel" and w: "Inv w" and m: "msg_wf m" "msg_room m"
  shows "outcome (send_msg A m)
    (\<lambda>_ (w', u', y'). y' = y \<and> chain w' = chain w \<and> kept ok Inv own good w (hp_live (w_heap w)) w' \<and>
       (accepts_all y \<longrightarrow> u' = sent_frames y [m] u))
    (\<lambda>_ (w', u', y'). y' = y \<and> chain w' = chain w \<and> kept ok Inv own good w (hp_live (w_heap w)) w' \<and> \<not> (rel \<and> accepts_all y))
    (w, u, y)" (is "outcome _ ?Q ?E _")
proof (cases "sy_send y")
  case None
  with kept_refl [OF w] show ?thesis by (simp add: outcome_def send_msg_def accepts_all_def)
next
  case (Some f)
  let ?L = "hp_live (w_heap w)"
  have own: "own w \<subseteq> ?L" "ok (w_heap w)" using inv_ok [OF w] by auto
  have sz: "length (frame_wire m) + 10 \<le> 2 ^ 63" by (rule frame_small [OF m])
  have "outcome (on_heap (vicarl_p2p_wire_encode A (Some m) True))
    (\<lambda>b v. (holds_bytes b (frame_wire m) \<and> own_bytes b \<inter> ?L = {}) \<and> kept ok Inv own good w (?L \<union> own_bytes b) v \<and> chain v = chain w)
    (\<lambda>e v. \<not> rel \<and> kept ok Inv own good w ?L v \<and> chain v = chain w) w"
    by (rule outcome_heap_step [OF kept_refl [OF w]], rule outcome_mono [OF wire_encode_outcome [OF A own(2) m(1)]])
       (use sz own in \<open>auto simp: size_mod_def\<close>)
  moreover obtain r w1 where enc: "on_heap (vicarl_p2p_wire_encode A (Some m) True) w = (r, w1)" by fastforce
  ultimately have o: "case r of Inl e \<Rightarrow> \<not> rel \<and> kept ok Inv own good w ?L w1 \<and> chain w1 = chain w
      | Inr b \<Rightarrow> (holds_bytes b (frame_wire m) \<and> own_bytes b \<inter> ?L = {}) \<and> kept ok Inv own good w (?L \<union> own_bytes b) w1 \<and> chain w1 = chain w"
    by (simp add: outcome_def split: sum.splits)
  show ?thesis
  proof (cases r)
    case (Inl e)
    with o enc Some show ?thesis by (simp add: outcome_def send_msg_def)
  next
    case (Inr b)
    obtain c u1 where f: "f (slice_of (frame_wire m)) u = (c, u1)" by fastforce
    have sl: "bytes_slice b = slice_of (frame_wire m)" using o Inr by (auto intro: bytes_slice_of)
    have k: "kept ok Inv own good w ?L (upd_heap (vicarl__free A (by_ptr b)) w1) \<and> chain (upd_heap (vicarl__free A (by_ptr b)) w1) = chain w1"
      using o Inr own by (intro kept_free [OF A]) (auto simp: own_bytes_def)
    have c: "c = Inr ()" "u1 = sent_frames y [m] u" if "accepts_all y"
      using that f Some by (simp_all add: accepts_all_def sent_frames_def) (metis fst_conv)
    show ?thesis
    proof (cases c)
      case (Inl e)
      with \<open>r = Inr b\<close> o enc Some sl f k c show ?thesis by (auto simp: outcome_def send_msg_def)
    next
      case Inr2: (Inr v)
      with \<open>r = Inr b\<close> o enc Some sl f k c show ?thesis by (auto simp: outcome_def send_msg_def)
    qed
  qed
qed

lemma refresh_run:
  "Inv w \<Longrightarrow> sy_store y = s \<Longrightarrow> refresh_local_tip (w, u, y) = (Inr (), (w, u, set_tip (chain w) y))"
  by (simp add: refresh_local_tip_def tip_law set_tip_def tip_hash_of_def Let_def)

text \<open>After a request the engine is waiting or has caught up, or there is nothing to ask for.\<close>

lemma request_outcome:
  assumes A: "alloc_rel A ok rel" and w: "Inv w" and y: "tip_known (chain w) y"
  shows "outcome (request_more_if_needed A)
    (\<lambda>_ (w', u', y'). chain w' = chain w \<and> kept ok Inv own good w (hp_live (w_heap w)) w' \<and>
       y' = y\<lparr>next_wanted_no := next_wanted_no y', awaiting_segments := awaiting_segments y'\<rparr> \<and>
       awaiting_segments y' = (if peer_has_tip y then of_nat (length (chain w)) < peer_tip_no y else awaiting_segments y) \<and>
       (accepts_all y \<longrightarrow> u' =
         (if peer_has_tip y \<and> of_nat (length (chain w)) < peer_tip_no y \<and> \<not> awaiting_segments y
          then sent_frames y [MSG_GET_SEGMENTS \<lparr>from_no = of_nat (length (chain w) + 1), max_count = max_inflight y\<rparr>] u else u)))
    (\<lambda>_ (w', u', y'). chain w' = chain w \<and> kept ok Inv own good w (hp_live (w_heap w)) w' \<and>
       y' = y\<lparr>next_wanted_no := next_wanted_no y'\<rparr> \<and> \<not> (rel \<and> accepts_all y)) (w, u, y)"
    (is "outcome _ ?Q ?E _")
proof -
  let ?n = "of_nat (length (chain w)) :: u64"
  let ?behind = "peer_has_tip y \<and> ?n < peer_tip_no y"
  have tip: "local_has_tip y \<longleftrightarrow> chain w \<noteq> []" "local_tip_no y = ?n" using y by (auto simp: tip_known_def)
  note k = kept_refl [OF w]
  consider (send) "?behind" "\<not> awaiting_segments y" | (wait) "?behind" "awaiting_segments y" | (idle) "\<not> peer_has_tip y" | (caught) "peer_has_tip y" "\<not> ?n < peer_tip_no y"
    by blast
  then show ?thesis
  proof cases
    case send
    let ?m = "MSG_GET_SEGMENTS \<lparr>from_no = ?n + 1, max_count = max_inflight y\<rparr>" and ?y = "y\<lparr>next_wanted_no := ?n + 1\<rparr>"
    have req: "request_more_if_needed A (w, u, y) = bindr (send_msg A ?m) (\<lambda>_. on_sync (\<lambda>s. s\<lparr>awaiting_segments := True\<rparr>)) (w, u, ?y)"
      using send tip by (auto simp: request_more_if_needed_def bindr_def on_sync_def Let_def not_le word_gt_0)
    have acc: "accepts_all ?y = accepts_all y" "sent_frames ?y = sent_frames y" by (auto simp: accepts_all_def sent_frames_def fun_eq_iff)
    have "outcome (bindr (send_msg A ?m) (\<lambda>_. on_sync (\<lambda>s. s\<lparr>awaiting_segments := True\<rparr>))) ?Q ?E (w, u, ?y)"
      by (rule outcome_bindr, rule outcome_mono [OF send_msg_outcome [OF A w, of ?m ?y u]])
         (use send acc in \<open>auto simp: outcome_def on_sync_def add.commute\<close>)
    with req show ?thesis by (simp add: outcome_def)
  next
    case wait
    with k tip show ?thesis by (auto simp: outcome_def request_more_if_needed_def Let_def)
  next
    case idle
    with k tip show ?thesis by (auto simp: outcome_def request_more_if_needed_def Let_def)
  next
    case caught
    with k tip show ?thesis by (auto simp: outcome_def request_more_if_needed_def Let_def not_less)
  qed
qed

end

definition segment_msg :: "bytes list \<Rightarrow> nat \<Rightarrow> vicarl_p2p_msg" where
  "segment_msg segs k =
     MSG_SEGMENT \<lparr>msg_segment_no = of_nat (Suc k), msg_segment_hash = sha256 (segs ! k), segment_bytes = slice_of (segs ! k)\<rparr>"

lemma sent_frames_Cons: "sent_frames y (m # ms) u = sent_frames y ms (sent_frames y [m] u)"
  by (simp add: sent_frames_def)

lemma sent_frames_Nil [simp]: "sent_frames y [] u = u"
  by (simp add: sent_frames_def)

context segment_store
begin

text \<open>\<^verbatim>\<open>apply_segment\<close> extends the chain by a segment that continues it, or changes nothing.\<close>

lemma apply_outcome:
  assumes A: "alloc_rel A ok rel" and w: "Inv w" and y: "sy_store y = s" "tip_known (chain w) y"
    and enc: "slice_wf enc" "sl_len enc < lim" and room: "length (chain w) + 2 < size_mod"
  shows "outcome (apply_segment A no declared enc)
    (\<lambda>_ (w', u', y'). offer_ok (chain w) no declared (slice_bytes enc) \<and> chain w' = chain w @ [slice_bytes enc] \<and>
       kept ok Inv own good w (hp_live (w_heap w)) w' \<and> u' = u \<and>
       y' = set_tip (chain w') y\<lparr>awaiting_segments := awaiting_segments y \<and> \<not> (peer_has_tip y \<and> of_nat (length (chain w')) \<ge> peer_tip_no y)\<rparr>)
    (\<lambda>_ (w', u', y'). \<not> (offer_ok (chain w) no declared (slice_bytes enc) \<and> rel \<and> good w \<and> fits (chain w) (slice_bytes enc)) \<and> chain w' = chain w \<and>
       kept ok Inv own good w (hp_live (w_heap w)) w' \<and> u' = u \<and> y' = y) (w, u, y)"
    (is "outcome _ ?Q ?E _")
proof -
  let ?bs = "slice_bytes enc" and ?L = "hp_live (w_heap w)"
  have own: "own w \<subseteq> ?L" "ok (w_heap w)" using inv_ok [OF w] by auto
  let ?upd = "\<lambda>(no, g). bindr (on_sync (\<lambda>s. s\<lparr>local_has_tip := True, local_tip_no := no, local_tip_hash := g\<rparr>)) (\<lambda>_.
        on_sync (\<lambda>s. if peer_has_tip s \<and> local_tip_no s \<ge> peer_tip_no s then s\<lparr>awaiting_segments := False\<rparr> else s))"
  have chk: "outcome (on_heap (check_segment A y no declared enc))
    (\<lambda>_ v. offer_ok (chain w) no declared ?bs \<and> kept ok Inv own good w ?L v \<and> chain v = chain w)
    (\<lambda>_ v. (\<not> offer_ok (chain w) no declared ?bs \<or> \<not> rel) \<and> kept ok Inv own good w ?L v \<and> chain v = chain w) w"
    by (rule outcome_heap_step [OF kept_refl [OF w]], rule check_segment_outcome [OF A own(2) enc(1) _ y(2)])
       (use enc own lim_le in \<open>simp_all add: seg_limit_def\<close>)
  have "outcome (bindr (on_world (on_heap (check_segment A y no declared enc))) (\<lambda>_.
      bindr (on_world (vicarl_store_append_segment s enc True)) ?upd)) ?Q ?E (w, u, y)"
  proof (rule outcome_bindr, rule on_world_outcome, rule outcome_mono [OF chk])
    fix x w1 assume 1: "offer_ok (chain w) no declared ?bs \<and> kept ok Inv own good w ?L w1 \<and> chain w1 = chain w"
    then have w1: "Inv w1" "hp_live (w_heap w1) = ?L" "kept ok Inv own good w ?L w1" and room1: "length (chain w1) + 2 < size_mod"
      using kept_inv kept_live room by auto
    have nxt: "next_segment (chain w1) ?bs" using 1 by (auto simp: offer_ok_def seg_ok_def)
    show "outcome (bindr (on_world (vicarl_store_append_segment s enc True)) ?upd) ?Q ?E (w1, u, y)"
    proof (rule outcome_bindr, rule on_world_outcome, rule outcome_mono [OF append_law [OF w1(1) enc room1]])
      fix r :: "u64 \<times> vicarl_hash32" and w2
      assume 2: "r = (of_nat (length (chain w1) + 1), sha256 ?bs) \<and> chain w2 = chain w1 @ [?bs] \<and>
           kept ok Inv own good w1 (hp_live (w_heap w1)) w2"
      then have "kept ok Inv own good w ?L w2" using kept_trans [OF w1(3)] w1(2) by simp
      with 1 2 y show "outcome (?upd r) ?Q ?E (w2, u, y)"
        by (simp add: outcome_def bindr_def on_sync_def set_tip_def tip_hash_of_def)
    next
      fix e w2
      assume 2: "\<not> (good w1 \<and> fits (chain w1) ?bs \<and> next_segment (chain w1) ?bs) \<and> chain w2 = chain w1 \<and> kept ok Inv own good w1 (hp_live (w_heap w1)) w2"
      then have "kept ok Inv own good w ?L w2" using kept_trans [OF w1(3)] w1(2) by simp
      moreover have "\<not> (good w \<and> fits (chain w) ?bs)" using 1 2 nxt by (auto simp: kept_def)
      ultimately show "?E e (w2, u, y)" using 1 2 by simp
    qed
  qed auto
  with y(1) show ?thesis unfolding outcome_def apply_segment_def by simp
qed

lemma send_segment_outcome:
  assumes A: "alloc_rel A ok rel" and w: "Inv w" and y: "sy_store y = s" and k: "k < length (chain w)"
  shows "outcome (send_segment A (of_nat (Suc k)))
    (\<lambda>_ (w', u', y'). y' = y \<and> chain w' = chain w \<and> kept ok Inv own good w (hp_live (w_heap w)) w' \<and>
       (accepts_all y \<longrightarrow> u' = sent_frames y [segment_msg (chain w) k] u))
    (\<lambda>_ (w', u', y'). y' = y \<and> chain w' = chain w \<and> kept ok Inv own good w (hp_live (w_heap w)) w' \<and>
       \<not> (rel \<and> good w \<and> accepts_all y)) (w, u, y)"
    (is "outcome _ ?Q ?E _")
proof -
  let ?bs = "chain w ! k" and ?L = "hp_live (w_heap w)" and ?m = "segment_msg (chain w) k"
  have own: "own w \<subseteq> ?L" and ck: "chain_ok (chain w)" using inv_ok [OF w] by auto
  have lim: "length ?bs < seg_limit" "length ?bs < size_mod" using ck k by (auto simp: chain_ok_def seg_limit_def size_mod_def dest!: bspec [OF _ nth_mem])
  have mw: "msg_wf ?m" "msg_room ?m" using lim by (simp_all add: segment_msg_def sha256_length)
  let ?rest = "\<lambda>seg. finally_do (\<lambda>(w, u, y). (upd_heap (vicarl_free A (by_ptr seg)) w, u, y))
      (bindr (of_res (compute_hash (bytes_slice seg) True)) (\<lambda>g.
       send_msg A (MSG_SEGMENT \<lparr>msg_segment_no = of_nat (Suc k), msg_segment_hash = g, segment_bytes = bytes_slice seg\<rparr>)))"
  have "outcome (bindr (on_world (vicarl_store_read_segment s (of_nat (Suc k)) True)) ?rest) ?Q ?E (w, u, y)"
  proof (rule outcome_bindr, rule on_world_outcome, rule outcome_mono [OF read_law [OF w, of "Suc k"]])
    fix b w1
    assume "holds_bytes b (chain w ! (Suc k - 1)) \<and> own_bytes b \<inter> ?L = {} \<and> chain w1 = chain w \<and> kept ok Inv own good w (?L \<union> own_bytes b) w1"
    then have b: "bytes_slice b = slice_of ?bs" "own_bytes b \<inter> ?L = {}" "chain w1 = chain w" "kept ok Inv own good w (?L \<union> own_bytes b) w1"
      by (auto simp: bytes_slice_of)
    have w1: "Inv w1" "hp_live (w_heap w1) = ?L \<union> own_bytes b" using b(4) kept_inv kept_live by auto
    have fin: "kept ok Inv own good w ?L (upd_heap (vicarl__free A (by_ptr b)) v) \<and> chain (upd_heap (vicarl__free A (by_ptr b)) v) = chain w"
      if "kept ok Inv own good w1 (hp_live (w_heap w1)) v" "chain v = chain w1" for v
      using kept_free [OF A, of w ?L "by_ptr b" v] kept_trans [OF b(4) that(1)] that(2) b w1(2) own by (auto simp: own_bytes_def)
    have sm: "bindr (of_res (compute_hash (bytes_slice b) True)) (\<lambda>g.
       send_msg A (MSG_SEGMENT \<lparr>msg_segment_no = of_nat (Suc k), msg_segment_hash = g, segment_bytes = bytes_slice b\<rparr>)) st = send_msg A ?m st" for st
      using b(1) lim by (simp add: compute_hash_def vicarl__sha256_wf bindr_def of_res_def segment_msg_def)
    have "outcome (finally_do (\<lambda>(w, u, y). (upd_heap (vicarl_free A (by_ptr b)) w, u, y)) (send_msg A ?m)) ?Q ?E (w1, u, y)"
      by (rule outcome_finally, rule outcome_mono [OF send_msg_outcome [OF A w1(1) mw, of y u]]) (use fin b(3) in auto)
    then show "outcome (?rest b) ?Q ?E (w1, u, y)" by (simp add: outcome_def finally_do_def sm del: of_nat_Suc)
  next
    fix e w1
    assume "\<not> good w \<and> status_of (Inl e :: unit res) \<notin> {None, Some VICARL_ERR_NOT_FOUND} \<and> chain w1 = chain w \<and> kept ok Inv own good w ?L w1"
    then show "?E e (w1, u, y)" by simp
  qed (use k in auto)
  with y show ?thesis unfolding outcome_def send_segment_def by simp
qed

text \<open>The loop sends the segments \<open>i + 1\<close>, \<open>i + 2\<close>, \<open>\<dots>\<close>, at most \<open>cnt - sent\<close> of them.\<close>

lemma serve_outcome:
  assumes A: "alloc_rel A ok rel"
  shows "Inv w \<Longrightarrow> sy_store y = s \<Longrightarrow> local_tip_no y = of_nat (length (chain w)) \<Longrightarrow> unat sent \<le> unat cnt \<Longrightarrow> i \<le> length (chain w) \<Longrightarrow>
    n = min (length (chain w) - i) (unat cnt - unat sent) \<Longrightarrow>
    outcome (serve_loop A cnt (of_nat (Suc i)) sent)
      (\<lambda>_ (w', u', y'). y' = y \<and> chain w' = chain w \<and> kept ok Inv own good w (hp_live (w_heap w)) w' \<and>
         (accepts_all y \<longrightarrow> u' = sent_frames y (map (segment_msg (chain w)) [i..<i + n]) u))
      (\<lambda>_ (w', u', y'). y' = y \<and> chain w' = chain w \<and> kept ok Inv own good w (hp_live (w_heap w)) w' \<and>
         \<not> (rel \<and> good w \<and> accepts_all y)) (w, u, y)"
proof (induction n arbitrary: w u i sent)
  case 0
  have sm: "length (chain w) + 1 < size_mod" using inv_ok [OF 0(1)] by (simp add: chain_ok_def)
  have "\<not> (of_nat (Suc i) \<le> local_tip_no y \<and> sent < cnt)"
  proof
    assume "of_nat (Suc i) \<le> local_tip_no y \<and> sent < cnt"
    then have "Suc i \<le> length (chain w)" "unat sent < unat cnt"
      using 0(3,5) sm unat_of_nat_u64 [of "Suc i"] unat_of_nat_u64 [of "length (chain w)"] by (auto simp: word_le_nat_alt word_less_nat_alt)
    with 0(6) show False by (auto simp: min_def split: if_splits)
  qed
  then have "serve_loop A cnt (of_nat (Suc i)) sent (w, u, y) = (Inr (), (w, u, y))" by (subst serve_loop.simps) auto
  then show ?case using kept_refl [OF 0(1)] by (simp add: outcome_def)
next
  case (Suc n)
  let ?L = "hp_live (w_heap w)" and ?no = "of_nat (Suc i) :: u64"
  have sm: "length (chain w) + 1 < size_mod" using inv_ok [OF Suc.prems(1)] by (simp add: chain_ok_def)
  have i: "i < length (chain w)" "unat sent < unat cnt" using Suc.prems(6) by (auto simp: min_def split: if_splits)
  have cond: "?no \<le> local_tip_no y" "sent < cnt"
    using i sm Suc.prems(3) unat_of_nat_u64 [of "Suc i"] unat_of_nat_u64 [of "length (chain w)"]
    by (auto simp: word_le_nat_alt word_less_nat_alt)
  have sent: "unat (sent + 1) = unat sent + 1" using i(2) unat_u64_less [of cnt] by (simp add: unat_word_ariths size_mod_def)
  have no: "?no + 1 = of_nat (Suc (Suc i))" by simp
  note step = send_segment_outcome [OF A Suc.prems(1,2) i(1), of u]
  obtain r w1 u1 y1 where s1: "send_segment A ?no (w, u, y) = (r, (w1, u1, y1))" by (metis prod.exhaust)
  have loop: "serve_loop A cnt ?no sent (w, u, y) =
     (case r of Inl e \<Rightarrow> (Inl e, (w1, u1, y1)) | Inr _ \<Rightarrow> serve_loop A cnt (of_nat (Suc (Suc i))) (sent + 1) (w1, u1, y1))"
    using cond s1 no by (subst serve_loop.simps) (cases r; simp del: of_nat_Suc)
  show ?case
  proof (cases r)
    case (Inl e)
    with outcome_Inl [OF step] s1 loop show ?thesis by (simp add: outcome_def)
  next
    case (Inr x)
    with outcome_Inr [OF step] s1 have 1: "y1 = y" "chain w1 = chain w" "kept ok Inv own good w ?L w1"
      "accepts_all y \<longrightarrow> u1 = sent_frames y [segment_msg (chain w) i] u" by auto
    have w1: "Inv w1" "hp_live (w_heap w1) = ?L" "good w \<longrightarrow> good w1" using 1(3) kept_inv kept_live by (auto simp: kept_def)
    have "[i..<i + Suc n] = i # [Suc i..<Suc i + n]" by (simp add: upt_rec)
    then have up: "sent_frames y (map (segment_msg (chain w)) [i..<i + Suc n]) u =
        sent_frames y (map (segment_msg (chain w)) [Suc i..<Suc i + n]) (sent_frames y [segment_msg (chain w) i] u)"
      by (metis list.simps(9) sent_frames_Cons)
    have "outcome (serve_loop A cnt (of_nat (Suc (Suc i))) (sent + 1))
      (\<lambda>_ (w', u', y'). y' = y \<and> chain w' = chain w1 \<and> kept ok Inv own good w1 (hp_live (w_heap w1)) w' \<and>
         (accepts_all y \<longrightarrow> u' = sent_frames y (map (segment_msg (chain w1)) [Suc i..<Suc i + n]) u1))
      (\<lambda>_ (w', u', y'). y' = y \<and> chain w' = chain w1 \<and> kept ok Inv own good w1 (hp_live (w_heap w1)) w' \<and>
         \<not> (rel \<and> good w1 \<and> accepts_all y)) (w1, u1, y)"
      by (rule Suc.IH) (use w1 1 Suc.prems i sent in auto)
    then have "outcome (serve_loop A cnt (of_nat (Suc (Suc i))) (sent + 1))
      (\<lambda>_ (w', u', y'). y' = y \<and> chain w' = chain w \<and> kept ok Inv own good w ?L w' \<and>
         (accepts_all y \<longrightarrow> u' = sent_frames y (map (segment_msg (chain w)) [i..<i + Suc n]) u))
      (\<lambda>_ (w', u', y'). y' = y \<and> chain w' = chain w \<and> kept ok Inv own good w ?L w' \<and>
         \<not> (rel \<and> good w \<and> accepts_all y)) (w1, u1, y)"
      using kept_trans [OF 1(3)] 1(2,4) w1 unfolding up
      by (elim outcome_mono) auto
    with Inr 1(1) loop show ?thesis by (simp add: outcome_def)
  qed
qed

end

text \<open>Messages a caller may feed in: the slice of a segment is readable and of a size the store admits.\<close>

fun msg_readable :: "nat \<Rightarrow> vicarl_p2p_msg \<Rightarrow> bool" where
  "msg_readable lim (MSG_SEGMENT m) \<longleftrightarrow> slice_wf (segment_bytes m) \<and> sl_len (segment_bytes m) < lim"
| "msg_readable lim _ \<longleftrightarrow> True"

text \<open>What no operation of the engine changes.\<close>

definition sync_frame :: "('e, 'u) vicarl_p2p_sync \<Rightarrow> addr \<times> ('e, 'u) vicarl_store option \<times> 'u p2p_send_fn option \<times> u64" where
  "sync_frame y = (sy_ptr y, sy_store y, sy_send y, max_inflight y)"

lemma sync_frame_simps [simp]:
  "sync_frame (set_tip segs y) = sync_frame y" "sync_frame (y\<lparr>awaiting_segments := a\<rparr>) = sync_frame y"
  "sync_frame (y\<lparr>next_wanted_no := n\<rparr>) = sync_frame y"
  "sync_frame (y\<lparr>peer_tip_no := p, peer_tip_hash := q, peer_has_tip := t\<rparr>) = sync_frame y"
  by (simp_all add: sync_frame_def)

lemma accepts_all_frame: "sync_frame y' = sync_frame y \<Longrightarrow> accepts_all y' = accepts_all y \<and> sent_frames y' = sent_frames y"
  by (simp add: sync_frame_def accepts_all_def sent_frames_def fun_eq_iff)

text \<open>The effect of one message on the chain.\<close>

definition chain_step :: "vicarl_p2p_msg \<Rightarrow> bytes list \<Rightarrow> bytes list \<Rightarrow> bool" where
  "chain_step m segs segs' \<longleftrightarrow> segs' = segs \<or>
     (\<exists>x. m = MSG_SEGMENT x \<and> offer_ok segs (msg_segment_no x) (msg_segment_hash x) (slice_bytes (segment_bytes x)) \<and>
        segs' = segs @ [slice_bytes (segment_bytes x)])"

lemma chain_step_valid: "chain_step m segs segs' \<Longrightarrow> chain_valid False segs \<Longrightarrow> chain_valid False segs' \<and> prefix segs segs'"
  by (auto simp: chain_step_def offer_ok_def chain_valid_snoc)

text \<open>The positions of the segments that answer a request.\<close>

definition served_range :: "nat \<Rightarrow> vicarl_p2p_get_segments \<Rightarrow> nat list" where
  "served_range n m =
     (let from = (if from_no m = 0 then 1 else unat (from_no m)); cnt = (if max_count m = 0 then 128 else unat (max_count m))
      in [from - 1..<min n (from - 1 + cnt)])"

context segment_store
begin

text \<open>A received segment: accepted exactly when it is a good offer; then the engine waits while it is behind.\<close>

lemma on_segment_outcome:
  assumes A: "alloc_rel A ok rel" and w: "Inv w" and y: "sy_store y = s" "tip_known (chain w) y"
    and m: "slice_wf (segment_bytes m)" "sl_len (segment_bytes m) < lim" and room: "length (chain w) + 2 < size_mod"
  shows "outcome (sync_on_message A (MSG_SEGMENT m))
    (\<lambda>_ (w', u', y'). offer_ok (chain w) (msg_segment_no m) (msg_segment_hash m) (slice_bytes (segment_bytes m)) \<and>
       chain w' = chain w @ [slice_bytes (segment_bytes m)] \<and> kept ok Inv own good w (hp_live (w_heap w)) w' \<and>
       sync_frame y' = sync_frame y \<and> tip_known (chain w') y' \<and> peer_has_tip y' = peer_has_tip y \<and> peer_tip_no y' = peer_tip_no y \<and>
       (peer_has_tip y \<longrightarrow> awaiting_segments y' = (of_nat (length (chain w')) < peer_tip_no y)) \<and>
       (accepts_all y \<and> awaiting_segments y \<longrightarrow> u' = u))
    (\<lambda>_ (w', u', y'). \<not> (offer_ok (chain w) (msg_segment_no m) (msg_segment_hash m) (slice_bytes (segment_bytes m)) \<and>
         rel \<and> good w \<and> fits (chain w) (slice_bytes (segment_bytes m)) \<and> accepts_all y) \<and>
       chain_step (MSG_SEGMENT m) (chain w) (chain w') \<and> kept ok Inv own good w (hp_live (w_heap w)) w' \<and>
       sync_frame y' = sync_frame y \<and> tip_known (chain w') y') (w, u, y)"
    (is "outcome _ ?Q ?E _")
proof -
  let ?bs = "slice_bytes (segment_bytes m)" and ?L = "hp_live (w_heap w)"
  let ?offer = "offer_ok (chain w) (msg_segment_no m) (msg_segment_hash m) ?bs"
  have "outcome (bindr (apply_segment A (msg_segment_no m) (msg_segment_hash m) (segment_bytes m)) (\<lambda>_. request_more_if_needed A)) ?Q ?E (w, u, y)"
  proof (rule outcome_bindr, rule outcome_mono [OF apply_outcome [OF A w y m room]])
    fix x :: unit and t
    let ?a = "\<lambda>w'. awaiting_segments y \<and> \<not> (peer_has_tip y \<and> of_nat (length (chain w')) \<ge> peer_tip_no y)"
    assume "case t of (w', u', y') \<Rightarrow> ?offer \<and> chain w' = chain w @ [?bs] \<and> kept ok Inv own good w ?L w' \<and> u' = u \<and>
       y' = set_tip (chain w') y\<lparr>awaiting_segments := ?a w'\<rparr>"
    then obtain w1 where t: "t = (w1, u, set_tip (chain w1) y\<lparr>awaiting_segments := ?a w1\<rparr>)"
      and 1: ?offer "chain w1 = chain w @ [?bs]" "kept ok Inv own good w ?L w1" by (cases t) auto
    let ?y1 = "set_tip (chain w1) y\<lparr>awaiting_segments := ?a w1\<rparr>"
    have w1: "Inv w1" "hp_live (w_heap w1) = ?L" using 1(3) kept_inv kept_live by auto
    have k: "kept ok Inv own good w ?L v" if "kept ok Inv own good w1 (hp_live (w_heap w1)) v" for v
      using kept_trans [OF 1(3) that] w1(2) by simp
    have acc: "accepts_all ?y1 = accepts_all y" "sync_frame ?y1 = sync_frame y" using accepts_all_frame [of ?y1 y] by auto
    have step: "chain_step (MSG_SEGMENT m) (chain w) (chain w1)" using 1 by (simp add: chain_step_def)
    show "outcome (request_more_if_needed A) ?Q ?E t"
      unfolding t
    proof (rule outcome_mono [OF request_outcome [OF A w1(1)]], unfold split_paired_all prod.case)
      show "tip_known (chain w1) ?y1" by simp
    next
      fix x :: unit and v u' y'
      assume r: "chain v = chain w1 \<and> kept ok Inv own good w1 (hp_live (w_heap w1)) v \<and>
         y' = ?y1\<lparr>next_wanted_no := next_wanted_no y', awaiting_segments := awaiting_segments y'\<rparr> \<and>
         awaiting_segments y' = (if peer_has_tip ?y1 then of_nat (length (chain w1)) < peer_tip_no ?y1 else awaiting_segments ?y1) \<and>
         (accepts_all ?y1 \<longrightarrow> u' =
           (if peer_has_tip ?y1 \<and> of_nat (length (chain w1)) < peer_tip_no ?y1 \<and> \<not> awaiting_segments ?y1
            then sent_frames ?y1 [MSG_GET_SEGMENTS \<lparr>from_no = of_nat (length (chain w1) + 1), max_count = max_inflight ?y1\<rparr>] u else u))"
      then have y': "y' = ?y1\<lparr>next_wanted_no := next_wanted_no y', awaiting_segments := awaiting_segments y'\<rparr>" by blast
      have "sync_frame y' = sync_frame y" "tip_known (chain w1) y'" "peer_has_tip y' = peer_has_tip y" "peer_tip_no y' = peer_tip_no y"
        by (subst y', simp add: tip_known_def set_tip_def sync_frame_def)+
      with r acc(1) 1 k [of v] show "?offer \<and> chain v = chain w @ [?bs] \<and> kept ok Inv own good w ?L v \<and>
        sync_frame y' = sync_frame y \<and> tip_known (chain v) y' \<and> peer_has_tip y' = peer_has_tip y \<and> peer_tip_no y' = peer_tip_no y \<and>
        (peer_has_tip y \<longrightarrow> awaiting_segments y' = (of_nat (length (chain v)) < peer_tip_no y)) \<and>
        (accepts_all y \<and> awaiting_segments y \<longrightarrow> u' = u)"
        by (auto simp: not_le)
    next
      fix e :: verror and v u' y'
      assume r: "chain v = chain w1 \<and> kept ok Inv own good w1 (hp_live (w_heap w1)) v \<and> y' = ?y1\<lparr>next_wanted_no := next_wanted_no y'\<rparr> \<and>
         \<not> (rel \<and> accepts_all ?y1)"
      then have y': "y' = ?y1\<lparr>next_wanted_no := next_wanted_no y'\<rparr>" by blast
      have "sync_frame y' = sync_frame y" "tip_known (chain w1) y'"
        by (subst y', simp add: tip_known_def set_tip_def sync_frame_def)+
      with r acc(1) step k [of v] show "\<not> (?offer \<and> rel \<and> good w \<and> fits (chain w) ?bs \<and> accepts_all y) \<and> chain_step (MSG_SEGMENT m) (chain w) (chain v) \<and>
        kept ok Inv own good w ?L v \<and> sync_frame y' = sync_frame y \<and> tip_known (chain v) y'" by auto
    qed
  qed (use y(2) in \<open>auto simp: chain_step_def\<close>)
  then show ?thesis by simp
qed

lemma on_tip_outcome:
  assumes A: "alloc_rel A ok rel" and w: "Inv w" and y: "sy_store y = s" "tip_known (chain w) y"
  shows "outcome (sync_on_message A (MSG_TIP m))
    (\<lambda>_ (w', u', y'). chain w' = chain w \<and> kept ok Inv own good w (hp_live (w_heap w)) w' \<and> sync_frame y' = sync_frame y \<and>
       tip_known (chain w) y' \<and> peer_tip_no y' = tip_no m \<and> peer_has_tip y' = (tip_no m \<noteq> 0 \<or> \<not> hash_is_zero32 (tip_hash m)) \<and>
       awaiting_segments y' = (if peer_has_tip y' then of_nat (length (chain w)) < tip_no m else awaiting_segments y) \<and>
       (accepts_all y \<longrightarrow> u' =
         (if peer_has_tip y' \<and> of_nat (length (chain w)) < tip_no m \<and> \<not> awaiting_segments y
          then sent_frames y [MSG_GET_SEGMENTS \<lparr>from_no = of_nat (length (chain w) + 1), max_count = max_inflight y\<rparr>] u else u)))
    (\<lambda>_ (w', u', y'). chain w' = chain w \<and> kept ok Inv own good w (hp_live (w_heap w)) w' \<and> sync_frame y' = sync_frame y \<and>
       tip_known (chain w) y' \<and> \<not> (rel \<and> accepts_all y)) (w, u, y)"
    (is "outcome _ ?Q ?E _")
proof -
  let ?y = "y\<lparr>peer_tip_no := tip_no m, peer_tip_hash := tip_hash m, peer_has_tip := tip_no m \<noteq> 0 \<or> \<not> hash_is_zero32 (tip_hash m)\<rparr>"
  have acc: "accepts_all ?y = accepts_all y" "sent_frames ?y = sent_frames y" using accepts_all_frame [of ?y y] by auto
  have upd: "sync_frame (?y\<lparr>next_wanted_no := n, awaiting_segments := a\<rparr>) = sync_frame y \<and>
      (tip_known (chain w) (?y\<lparr>next_wanted_no := n, awaiting_segments := a\<rparr>))" for n a
    using y(2) by (simp add: sync_frame_def tip_known_def)
  have "outcome (request_more_if_needed A) ?Q ?E (w, u, ?y)"
  proof (rule outcome_mono [OF request_outcome [OF A w, of ?y u]], unfold split_paired_all prod.case)
    show "tip_known (chain w) ?y" using y(2) by simp
  next
    fix x :: unit and v u' y'
    assume r: "chain v = chain w \<and> kept ok Inv own good w (hp_live (w_heap w)) v \<and>
       y' = ?y\<lparr>next_wanted_no := next_wanted_no y', awaiting_segments := awaiting_segments y'\<rparr> \<and>
       awaiting_segments y' = (if peer_has_tip ?y then of_nat (length (chain w)) < peer_tip_no ?y else awaiting_segments ?y) \<and>
       (accepts_all ?y \<longrightarrow> u' =
         (if peer_has_tip ?y \<and> of_nat (length (chain w)) < peer_tip_no ?y \<and> \<not> awaiting_segments ?y
          then sent_frames ?y [MSG_GET_SEGMENTS \<lparr>from_no = of_nat (length (chain w) + 1), max_count = max_inflight ?y\<rparr>] u else u))"
    then have y': "y' = ?y\<lparr>next_wanted_no := next_wanted_no y', awaiting_segments := awaiting_segments y'\<rparr>" by blast
    have p: "sync_frame y' = sync_frame y" "tip_known (chain w) y'" "peer_tip_no y' = tip_no m"
      "peer_has_tip y' = (tip_no m \<noteq> 0 \<or> \<not> hash_is_zero32 (tip_hash m))"
      by (subst y', use upd in simp)+
    show "chain v = chain w \<and> kept ok Inv own good w (hp_live (w_heap w)) v \<and> sync_frame y' = sync_frame y \<and>
       tip_known (chain w) y' \<and> peer_tip_no y' = tip_no m \<and> peer_has_tip y' = (tip_no m \<noteq> 0 \<or> \<not> hash_is_zero32 (tip_hash m)) \<and>
       awaiting_segments y' = (if peer_has_tip y' then of_nat (length (chain w)) < tip_no m else awaiting_segments y) \<and>
       (accepts_all y \<longrightarrow> u' =
         (if peer_has_tip y' \<and> of_nat (length (chain w)) < tip_no m \<and> \<not> awaiting_segments y
          then sent_frames y [MSG_GET_SEGMENTS \<lparr>from_no = of_nat (length (chain w) + 1), max_count = max_inflight y\<rparr>] u else u))"
      using r p acc by (simp only: vicarl_p2p_sync.simps) simp
  next
    fix e :: verror and v u' y'
    assume r: "chain v = chain w \<and> kept ok Inv own good w (hp_live (w_heap w)) v \<and> y' = ?y\<lparr>next_wanted_no := next_wanted_no y'\<rparr> \<and>
       \<not> (rel \<and> accepts_all ?y)"
    then have y': "y' = ?y\<lparr>next_wanted_no := next_wanted_no y'\<rparr>" by blast
    have "sync_frame y' = sync_frame y" "tip_known (chain w) y'"
      by (subst y', use y(2) in \<open>simp add: sync_frame_def tip_known_def\<close>)+
    with r acc show "chain v = chain w \<and> kept ok Inv own good w (hp_live (w_heap w)) v \<and> sync_frame y' = sync_frame y \<and>
       tip_known (chain w) y' \<and> \<not> (rel \<and> accepts_all y)" by simp
  qed
  then show ?thesis by (simp add: on_tip_def bindr_def on_sync_def outcome_def)
qed

lemma on_get_outcome:
  assumes A: "alloc_rel A ok rel" and w: "Inv w" and y: "sy_store y = s"
  shows "outcome (sync_on_message A (MSG_GET_SEGMENTS m))
    (\<lambda>_ (w', u', y'). y' = set_tip (chain w) y \<and> chain w' = chain w \<and> kept ok Inv own good w (hp_live (w_heap w)) w' \<and>
       (accepts_all y \<longrightarrow> u' = sent_frames y (map (segment_msg (chain w)) (served_range (length (chain w)) m)) u))
    (\<lambda>_ (w', u', y'). y' = set_tip (chain w) y \<and> chain w' = chain w \<and> kept ok Inv own good w (hp_live (w_heap w)) w' \<and>
       \<not> (rel \<and> good w \<and> accepts_all y)) (w, u, y)"
proof -
  define frm where "frm = (if from_no m = 0 then 1 else unat (from_no m))"
  define cnt where "cnt = (if max_count m = 0 then 128 else unat (max_count m))"
  have rng: "served_range (length (chain w)) m = [frm - 1..<min (length (chain w)) (frm - 1 + cnt)]"
    by (simp add: served_range_def frm_def cnt_def Let_def)
  let ?y = "set_tip (chain w) y" and ?n = "length (chain w)"
  let ?from = "if from_no m = 0 then 1 else from_no m :: u64" and ?cnt = "if max_count m = 0 then 128 else max_count m :: u64"
  have sm: "?n + 1 < size_mod" using inv_ok [OF w] by (simp add: chain_ok_def)
  have un: "unat ?from = frm" "unat ?cnt = cnt" by (simp_all add: frm_def cnt_def)
  have from1: "frm > 0" by (auto simp: frm_def unat_gt_0)
  have le: "?from > of_nat ?n \<longleftrightarrow> frm > ?n" using un unat_of_nat_u64 [of ?n] sm by (simp add: word_less_nat_alt del: unat_1)
  have run: "sync_on_message A (MSG_GET_SEGMENTS m) (w, u, y) =
    (if chain w = [] \<or> frm > ?n then (Inr (), (w, u, ?y)) else serve_loop A ?cnt ?from 0 (w, u, ?y))"
    using le y by (simp add: on_get_segments_def bindr_def refresh_run [OF w y] Let_def)
  have acc: "accepts_all ?y = accepts_all y" "sent_frames ?y = sent_frames y" using accepts_all_frame [of ?y y] by auto
  show ?thesis
  proof (cases "chain w = [] \<or> frm > ?n")
    case True
    then have "served_range ?n m = []" unfolding rng by auto
    with True run kept_refl [OF w] show ?thesis by (simp add: outcome_def)
  next
    case False
    have "Suc (frm - 1) = unat ?from" unfolding un(1) using from1 by simp
    then have f: "?from = of_nat (Suc (frm - 1))" by (simp only: of_nat_unat ucast_id)
    have mn: "frm - 1 + min (?n - (frm - 1)) (unat ?cnt - unat (0 :: u64)) = min ?n (frm - 1 + cnt)" using False un by auto
    have "outcome (serve_loop A ?cnt (of_nat (Suc (frm - 1))) 0)
      (\<lambda>_ (w', u', y'). y' = ?y \<and> chain w' = chain w \<and> kept ok Inv own good w (hp_live (w_heap w)) w' \<and>
         (accepts_all ?y \<longrightarrow> u' = sent_frames ?y (map (segment_msg (chain w)) [frm - 1..<frm - 1 + min (?n - (frm - 1)) (unat ?cnt - unat (0 :: u64))]) u))
      (\<lambda>_ (w', u', y'). y' = ?y \<and> chain w' = chain w \<and> kept ok Inv own good w (hp_live (w_heap w)) w' \<and> \<not> (rel \<and> good w \<and> accepts_all ?y)) (w, u, ?y)"
      by (rule serve_outcome [OF A w]) (use y False in auto)
    with False run rng f mn acc show ?thesis by (simp add: outcome_def del: of_nat_Suc)
  qed
qed

end

section \<open>Every message\<close>

context segment_store
begin

lemma on_message_state:
  assumes A: "alloc_rel A ok rel" and w: "Inv w" and y: "sy_store y = s" "tip_known (chain w) y" and m: "msg_readable lim m"
    and room: "length (chain w) + 2 < size_mod" and run: "sync_on_message A m (w, u, y) = (r, (w', u', y'))"
  shows "kept ok Inv own good w (hp_live (w_heap w)) w' \<and> sync_frame y' = sync_frame y \<and> tip_known (chain w') y' \<and>
    chain_step m (chain w) (chain w')"
proof (cases m)
  case (MSG_HELLO x)
  with run kept_refl [OF w] y show ?thesis by (auto simp: retr_def chain_step_def)
next
  case (MSG_TIP x)
  with on_tip_outcome [OF A w y, of x u] run show ?thesis
    by (cases r) (auto simp: outcome_def chain_step_def)
next
  case (MSG_GET_SEGMENTS x)
  with on_get_outcome [OF A w y(1), of x u] run show ?thesis
    by (cases r) (auto simp: outcome_def chain_step_def)
next
  case (MSG_SEGMENT x)
  then have x: "slice_wf (segment_bytes x)" "sl_len (segment_bytes x) < lim" using m by auto
  from on_segment_outcome [OF A w y x room, of u] run MSG_SEGMENT show ?thesis
    by (cases r) (auto simp: outcome_def chain_step_def)
next
  case (MSG_ERROR x)
  with run kept_refl [OF w] y show ?thesis
    by (auto simp: on_peer_error_def bindr_def of_res_def failr_def chain_step_def split: sum.splits)
next
  case (MSG_OTHER t)
  with run kept_refl [OF w] y show ?thesis by (auto simp: failr_def chain_step_def)
qed

lemma send_tip_outcome:
  assumes A: "alloc_rel A ok rel" and w: "Inv w" and y: "sy_store y = s"
  shows "outcome (sync_send_tip A)
    (\<lambda>_ (w', u', y'). y' = set_tip (chain w) y \<and> chain w' = chain w \<and> kept ok Inv own good w (hp_live (w_heap w)) w' \<and>
       (accepts_all y \<longrightarrow> u' = sent_frames y [MSG_TIP \<lparr>tip_no = of_nat (length (chain w)), tip_hash = tip_hash_of (chain w)\<rparr>] u))
    (\<lambda>_ (w', u', y'). y' = set_tip (chain w) y \<and> chain w' = chain w \<and> kept ok Inv own good w (hp_live (w_heap w)) w' \<and>
       \<not> (rel \<and> accepts_all y)) (w, u, y)"
proof -
  let ?y = "set_tip (chain w) y" and ?m = "MSG_TIP \<lparr>tip_no = of_nat (length (chain w)), tip_hash = tip_hash_of (chain w)\<rparr>"
  have "sync_send_tip A (w, u, y) = send_msg A ?m (w, u, ?y)"
    by (simp add: sync_send_tip_def bindr_def refresh_run [OF w y]) (auto simp: set_tip_def tip_hash_of_def)
  moreover have "accepts_all ?y = accepts_all y" "sent_frames ?y = sent_frames y" using accepts_all_frame [of ?y y] by auto
  ultimately show ?thesis
    using send_msg_outcome [OF A w, of ?m ?y u] by (auto simp: outcome_def tip_hash_length split: prod.splits sum.splits)
qed

end

end
