(* ===== verification/Vicarl_SyncLog.thy ===== *)
theory Vicarl_SyncLog
  imports Vicarl_LedgerLog Vicarl_Sync
begin

text \<open>
  The synchronisation engine of \<^verbatim>\<open>src/p2p/sync.c\<close> on the log store: arbitrary sequences of messages from an untrusted
  peer, the life of an engine, two nodes that exchange frames, and the properties of the synchronisation.
\<close>

section \<open>The engine on the log store\<close>

definition sync_on_log :: "vicarl_allocator \<Rightarrow> (heap \<Rightarrow> bool) \<Rightarrow> (log_env, 'u) vicarl_p2p_sync \<Rightarrow> log_world \<Rightarrow> bool" where
  "sync_on_log A ok y w \<longleftrightarrow> (\<exists>p opt. sy_store y = log_handle A p opt) \<and> log_inv ok w \<and> tip_known (log_chain w) y"

lemma sync_on_logE:
  assumes "sync_on_log A ok y w"
  obtains p opt where "sy_store y = log_handle A p opt" "log_inv ok w" "tip_known (log_chain w) y"
  using assms by (auto simp: sync_on_log_def)

text \<open>What happens at a node: a message arrives, whatever the peer made it up of, or the program sends.\<close>

datatype sync_event = Receive vicarl_p2p_msg | SendHello vicarl_pubkey32 | SendTip

fun event_room :: "sync_event \<Rightarrow> log_world \<Rightarrow> bool" where
  "event_room (Receive m) w \<longleftrightarrow> msg_readable seg_limit m \<and> length (log_chain w) + 2 < size_mod"
| "event_room (SendHello i) w \<longleftrightarrow> length i = 32"
| "event_room SendTip w \<longleftrightarrow> True"

inductive sync_step ::
  "vicarl_allocator \<Rightarrow> log_world \<times> 'u \<times> (log_env, 'u) vicarl_p2p_sync option \<Rightarrow> sync_event \<Rightarrow>
     log_world \<times> 'u \<times> (log_env, 'u) vicarl_p2p_sync option \<Rightarrow> bool" for A where
  step_receive: "vicarl_p2p_sync_on_message A (Some m) t = (r, t') \<Longrightarrow> sync_step A t (Receive m) t'"
| step_hello: "vicarl_p2p_sync_send_hello A (Some i) t = (r, t') \<Longrightarrow> sync_step A t (SendHello i) t'"
| step_tip: "vicarl_p2p_sync_send_tip A t = (r, t') \<Longrightarrow> sync_step A t SendTip t'"

inductive sync_run ::
  "vicarl_allocator \<Rightarrow> log_world \<times> 'u \<times> (log_env, 'u) vicarl_p2p_sync option \<Rightarrow>
     log_world \<times> 'u \<times> (log_env, 'u) vicarl_p2p_sync option \<Rightarrow> bool" for A where
  srun_refl: "sync_run A t t"
| srun_step: "sync_run A t t1 \<Longrightarrow> event_room ev (fst t1) \<Longrightarrow> sync_step A t1 ev t2 \<Longrightarrow> sync_run A t t2"

definition sync_good :: "vicarl_allocator \<Rightarrow> (heap \<Rightarrow> bool) \<Rightarrow> (log_env, 'u) vicarl_p2p_sync \<Rightarrow> log_world \<Rightarrow>
    log_world \<times> 'u \<times> (log_env, 'u) vicarl_p2p_sync option \<Rightarrow> bool" where
  "sync_good A ok y0 w0 t \<longleftrightarrow>
     (\<exists>w u y. t = (w, u, Some y) \<and> sync_on_log A ok y w \<and> chain_valid False (log_chain w) \<and> prefix (log_chain w0) (log_chain w) \<and>
        sync_frame y = sync_frame y0 \<and> hp_live (w_heap w) = hp_live (w_heap w0) \<and> hp_bad (w_heap w) = hp_bad (w_heap w0) \<and>
        log_own w = log_own w0)"

lemma sync_good_step:
  assumes A: "alloc_rel A ok rel" and good: "sync_good A ok y0 w0 t" and room: "event_room ev (fst t)" and step: "sync_step A t ev t'"
  shows "sync_good A ok y0 w0 t'"
proof -
  obtain w u y where t: "t = (w, u, Some y)" and on: "sync_on_log A ok y w" and g: "chain_valid False (log_chain w)"
    "prefix (log_chain w0) (log_chain w)" "sync_frame y = sync_frame y0" "hp_live (w_heap w) = hp_live (w_heap w0)"
    "hp_bad (w_heap w) = hp_bad (w_heap w0)" "log_own w = log_own w0" using good by (auto simp: sync_good_def)
  obtain p opt where y: "sy_store y = log_handle A p opt" "log_inv ok w" "tip_known (log_chain w) y" using on by (rule sync_on_logE)
  note store = log_segment_store [OF A, of p opt]
  have result: "sync_good A ok y0 w0 (w', u', Some y')"
    if "kept ok (log_inv ok) log_own (quiet rel) w (hp_live (w_heap w)) w'" "sync_frame y' = sync_frame y" "tip_known (log_chain w') y'"
      "chain_valid False (log_chain w')" "prefix (log_chain w) (log_chain w')" for w' u' y'
  proof -
    have "sy_store y' = log_handle A p opt" using that(2) y(1) by (simp add: sync_frame_def)
    with that g prefix_order.trans [OF g(2) that(5)] show ?thesis by (auto simp: sync_good_def sync_on_log_def kept_def heap_to_def)
  qed
  have same: "sync_good A ok y0 w0 (w', u', Some (set_tip (log_chain w) y))"
    if "kept ok (log_inv ok) log_own (quiet rel) w (hp_live (w_heap w)) w'" "log_chain w' = log_chain w" for w' u'
    using that g(1) by (intro result) (simp_all add: y(3))
  from step show ?thesis
  proof (cases rule: sync_step.cases)
    case (step_receive m r)
    obtain r' w' u' y' where run: "sync_on_message A m (w, u, y) = (r', (w', u', y'))" by (metis prod.exhaust)
    have t': "t' = (w', u', Some y')" using step_receive t run by (simp add: vicarl_p2p_sync_on_message_def with_sync_def)
    have m: "msg_readable seg_limit m" "length (log_chain w) + 2 < size_mod" using room step_receive t by simp_all
    from segment_store.on_message_state [OF store A y(2,1,3) m run] chain_step_valid [OF _ g(1)] show ?thesis
      unfolding t' by (intro result) auto
  next
    case (step_hello i r)
    let ?m = "MSG_HELLO \<lparr>proto_major = 1, proto_minor = 0, node_id = i\<rparr>"
    obtain r' w' u' y' where run: "send_msg A ?m (w, u, y) = (r', (w', u', y'))" by (metis prod.exhaust)
    have t': "t' = (w', u', Some y')" using step_hello t run by (simp add: vicarl_p2p_sync_send_hello_def with_sync_def)
    have "msg_wf ?m" "msg_room ?m" using room step_hello by simp_all
    from segment_store.send_msg_outcome [OF store A y(2) this, of y u] run same [of w' u'] y(3) show ?thesis
      unfolding t' by (cases r') (auto simp: outcome_def)
  next
    case (step_tip r)
    obtain r' w' u' y' where run: "sync_send_tip A (w, u, y) = (r', (w', u', y'))" by (metis prod.exhaust)
    have t': "t' = (w', u', Some y')" using step_tip t run by (simp add: vicarl_p2p_sync_send_tip_def with_sync_def)
    from segment_store.send_tip_outcome [OF store A y(2,1), of u] run same [of w' u'] show ?thesis
      unfolding t' by (cases r') (auto simp: outcome_def)
  qed
qed

lemma sync_good_run:
  assumes "sync_run A t t'" "alloc_rel A ok rel" "sync_good A ok y0 w0 t"
  shows "sync_good A ok y0 w0 t'"
  using assms by (induction rule: sync_run.induct) (auto intro: sync_good_step)

section \<open>Creating and destroying\<close>

lemma sync_init_outcome:
  assumes A: "alloc_rel A ok rel" and w: "log_inv ok w" and st: "store = log_handle A p opt"
  shows "case vicarl_p2p_sync_init A store (Some f) so True (w, u) of
      (Inl e, (w', u')) \<Rightarrow> e = err_oom \<and> \<not> rel \<and> u' = u \<and> kept ok (log_inv ok) log_own (quiet rel) w (hp_live (w_heap w)) w' \<and> log_chain w' = log_chain w
    | (Inr y, (w', u')) \<Rightarrow> u' = u \<and> sync_on_log A ok y w' \<and> sy_store y = store \<and> sy_send y = Some f \<and> log_chain w' = log_chain w \<and> sy_ptr y \<notin> hp_live (w_heap w) \<and>
        kept ok (log_inv ok) log_own (quiet rel) w (insert (sy_ptr y) (hp_live (w_heap w))) w' \<and> max_inflight y \<noteq> 0 \<and>
        \<not> awaiting_segments y"
proof -
  let ?L = "hp_live (w_heap w)"
  note store = log_segment_store [OF A, of p opt]
  have own: "log_own w \<subseteq> ?L" using segment_store.inv_ok [OF store w] by blast
  have "outcome (on_heap (calloc_or_oom A 1 sizeof_sync))
    (\<lambda>q v. q \<notin> ?L \<and> kept ok (log_inv ok) log_own (quiet rel) w (insert q ?L) v \<and> log_chain v = log_chain w)
    (\<lambda>e v. (e = err_oom \<and> \<not> rel) \<and> kept ok (log_inv ok) log_own (quiet rel) w ?L v \<and> log_chain v = log_chain w) w"
  proof (rule segment_store.outcome_heap_step [OF store segment_store.kept_refl [OF store w]])
    have "heap_to ok (w_heap w) ?L (w_heap w)" using segment_store.inv_ok [OF store w] by (simp add: heap_to_refl)
    from calloc_or_oom_outcome [OF A this, of 1 sizeof_sync]
    show "outcome (calloc_or_oom A 1 sizeof_sync) (\<lambda>q h. q \<notin> ?L \<and> heap_to ok (w_heap w) (insert q ?L) h)
      (\<lambda>e h. (e = err_oom \<and> \<not> rel) \<and> heap_to ok (w_heap w) ?L h) (w_heap w)"
      by (simp add: sizeof_sync_def size_mod_def)
  qed (use own in auto)
  note calloc = this
  obtain r w1 where c: "on_heap (calloc_or_oom A 1 sizeof_sync) w = (r, w1)" by fastforce
  have 1: "case r of Inl e \<Rightarrow> (e = err_oom \<and> \<not> rel) \<and> kept ok (log_inv ok) log_own (quiet rel) w ?L w1 \<and> log_chain w1 = log_chain w
    | Inr q \<Rightarrow> q \<notin> ?L \<and> kept ok (log_inv ok) log_own (quiet rel) w (insert q ?L) w1 \<and> log_chain w1 = log_chain w"
    using calloc unfolding outcome_def c prod.case .
  have nn: "store \<noteq> None" by (simp add: st log_handle_def)
  show ?thesis
  proof (cases r)
    case (Inl e)
    have "e = err_oom" "\<not> rel" "kept ok (log_inv ok) log_own (quiet rel) w ?L w1" "log_chain w1 = log_chain w"
      using 1 unfolding Inl sum.case by blast+
    with Inl c nn show ?thesis by (auto simp: vicarl_p2p_sync_init_def)
  next
    case (Inr q)
    let ?y = "\<lparr>sy_ptr = q, sy_store = store, sy_send = Some f, local_tip_no = 0, local_tip_hash = zero_hash,
      local_has_tip = False, peer_tip_no = 0, peer_tip_hash = zero_hash, peer_has_tip = False, next_wanted_no = 0,
      max_inflight = (case so of None \<Rightarrow> 128 | Some o' \<Rightarrow> if max_segments_per_request o' \<noteq> 0 then max_segments_per_request o' else 128),
      awaiting_segments = False\<rparr>"
    have w1: "log_inv ok w1" using 1 Inr by (simp add: kept_def)
    have r: "refresh_local_tip (w1, u, ?y) = (Inr (), (w1, u, set_tip (log_chain w1) ?y))"
      by (rule segment_store.refresh_run [OF store w1]) (simp add: st)
    have i: "vicarl_p2p_sync_init A store (Some f) so True (w, u) = (Inr (set_tip (log_chain w1) ?y), (w1, u))"
      using nn c Inr r by (auto simp: vicarl_p2p_sync_init_def Let_def)
    have "sync_on_log A ok (set_tip (log_chain w1) ?y) w1" using w1 st by (auto simp: sync_on_log_def)
    with 1 Inr show ?thesis unfolding i prod.case sum.case by (auto split: option.splits)
  qed
qed

section \<open>Two nodes\<close>

text \<open>Nodes with an outbox as transport, as in \<^verbatim>\<open>examples/ex_p2p_loopback.c\<close>: sending appends the frame to the outbox;
  a frame is delivered by decoding it and feeding the message in.\<close>

type_synonym node = "log_world \<times> bytes list \<times> (log_env, bytes list) vicarl_p2p_sync option"

definition queue_send :: "bytes list p2p_send_fn" where
  "queue_send x box = (Inr (), box @ [slice_bytes x])"

fun outbox :: "node \<Rightarrow> bytes list" where
  "outbox (w, box, y) = box"

fun drain :: "node \<Rightarrow> node" where
  "drain (w, box, y) = (w, [], y)"

fun node_chain :: "node \<Rightarrow> bytes list" where
  "node_chain (w, box, y) = log_chain w"

definition deliver :: "vicarl_allocator \<Rightarrow> node \<Rightarrow> bytes \<Rightarrow> node" where
  "deliver A t frame =
     (case vicarl_p2p_wire_decode (slice_of frame) True of
        Inl e \<Rightarrow> t
      | Inr m \<Rightarrow> snd (vicarl_p2p_sync_on_message A (Some m) t))"

text \<open>A round: \<open>a\<close> announces its tip; what \<open>b\<close> answers goes to \<open>a\<close>, what \<open>a\<close> answers goes to \<open>b\<close>.\<close>

definition sync_round :: "vicarl_allocator \<Rightarrow> node \<Rightarrow> node \<Rightarrow> node \<times> node" where
  "sync_round A a b =
     (let a1 = snd (vicarl_p2p_sync_send_tip A a);
          b1 = foldl (deliver A) b (outbox a1);
          a2 = foldl (deliver A) (drain a1) (outbox b1);
          b2 = foldl (deliver A) (drain b1) (outbox a2)
      in (drain a2, b2))"

text \<open>A node at rest, on a consistent log store in a quiet environment.\<close>

definition node_ok :: "vicarl_allocator \<Rightarrow> (heap \<Rightarrow> bool) \<Rightarrow> (log_env, bytes list) vicarl_p2p_sync \<Rightarrow> log_world \<Rightarrow> bool" where
  "node_ok A ok y w \<longleftrightarrow> sync_on_log A ok y w \<and> quiet True w \<and> sy_send y = Some queue_send \<and> chain_valid False (log_chain w)"

lemma queue_accepts: "sy_send y = Some queue_send \<Longrightarrow> accepts_all y"
  by (simp add: accepts_all_def queue_send_def)

lemma queue_frames: "sy_send y = Some queue_send \<Longrightarrow> sent_frames y ms box = box @ map frame_wire ms"
  by (induction ms arbitrary: box) (simp_all add: sent_frames_def queue_send_def)

lemma wire_decode_wf: "vicarl_p2p_wire_decode frame True = Inr m \<Longrightarrow> slice_wf frame \<Longrightarrow> msg_wf m"
  using wire_decode_outcome [of frame] by simp

lemma same_segment_msg:
  assumes "same_msg (segment_msg segs k) m'"
  shows "\<exists>x. m' = MSG_SEGMENT x \<and> msg_segment_no x = of_nat (Suc k) \<and> msg_segment_hash x = sha256 (segs ! k) \<and>
    slice_bytes (segment_bytes x) = segs ! k"
  using assms by (cases m') (simp_all add: segment_msg_def, metis)

lemma deliver_segment:
  assumes A: "alloc_rel A ok True" and y: "sy_store y = log_handle A p opt" "log_inv ok w" "tip_known (log_chain w) y" "quiet True w"
    "sy_send y = Some queue_send" "peer_has_tip y" "awaiting_segments y"
    and seg: "seg_ok False (log_chain w) bs" "length bs < seg_limit" "k = length (log_chain w)" "segs ! k = bs" and room: "k + 2 < size_mod"
  shows "\<exists>w' y'. deliver A (w, box, Some y) (frame_wire (segment_msg segs k)) = (w', box, Some y') \<and>
    sync_on_log A ok y' w' \<and> quiet True w' \<and> sy_send y' = Some queue_send \<and> log_chain w' = log_chain w @ [bs] \<and> sync_frame y' = sync_frame y \<and>
    peer_has_tip y' \<and> peer_tip_no y' = peer_tip_no y \<and> awaiting_segments y' = (of_nat (Suc k) < peer_tip_no y)"
proof -
  let ?m = "segment_msg segs k"
  have m: "msg_wf ?m" "msg_room ?m" using seg(2,4) by (auto simp: segment_msg_def sha256_length size_mod_def seg_limit_def)
  have "length (frame_wire ?m) < size_mod" using frame_small [OF m] by (simp add: size_mod_def)
  from wire_decode_frame [OF m(1) this] obtain m' where dec: "vicarl_p2p_wire_decode (slice_of (frame_wire ?m)) True = Inr m'" "same_msg ?m m'"
    by blast
  have wf: "msg_wf m'" using wire_decode_wf [OF dec(1)] \<open>length (frame_wire ?m) < size_mod\<close> by simp
  obtain x where m': "m' = MSG_SEGMENT x" and x: "msg_segment_no x = of_nat (Suc k)" "msg_segment_hash x = sha256 bs"
    "slice_bytes (segment_bytes x) = bs" using same_segment_msg [OF dec(2)] seg(4) by metis
  have sx: "slice_wf (segment_bytes x)" "sl_len (segment_bytes x) < seg_limit"
    using wf m' x(3) slice_wf_length [of "segment_bytes x"] seg(2) by auto
  note store = log_segment_store [OF A, of p opt]
  have rm: "length (log_chain w) + 2 < size_mod" using room seg(3) by simp
  note out = segment_store.on_segment_outcome [OF store A y(2,1,3) sx rm, of box]
  have offer: "offer_ok (log_chain w) (msg_segment_no x) (msg_segment_hash x) (slice_bytes (segment_bytes x))"
    using x seg by (simp add: offer_ok_def add.commute)
  obtain r w' box' y' where run: "sync_on_message A (MSG_SEGMENT x) (w, box, y) = (r, (w', box', y'))" by (metis prod.exhaust)
  have acc: "accepts_all y" by (rule queue_accepts [OF y(5)])
  have r: "r = Inr ()"
  proof (cases r)
    case (Inl e)
    with outcome_Inl [OF out run [unfolded Inl]] offer y(4) acc show ?thesis by simp
  qed simp
  from outcome_Inr [OF out run [unfolded r]] acc y(6,7) x(3) have q: "log_chain w' = log_chain w @ [bs]"
    "kept ok (log_inv ok) log_own (quiet True) w (hp_live (w_heap w)) w'" "sync_frame y' = sync_frame y" "tip_known (log_chain w') y'"
    "peer_has_tip y'" "peer_tip_no y' = peer_tip_no y" "awaiting_segments y' = (of_nat (length (log_chain w')) < peer_tip_no y)" "box' = box"
    unfolding prod.case by blast+
  moreover have "sy_store y' = log_handle A p opt" "sy_send y' = Some queue_send" using q(3) y(1,5) by (simp_all add: sync_frame_def)
  moreover have "deliver A (w, box, Some y) (frame_wire ?m) = (w', box', Some y')"
    using dec(1) m' run by (simp add: deliver_def vicarl_p2p_sync_on_message_def with_sync_def)
  ultimately show ?thesis using y(4) seg(3) by (auto simp: sync_on_log_def kept_def)
qed

text \<open>All segments of an answer.\<close>

lemma deliver_segments:
  assumes A: "alloc_rel A ok True" and segs: "chain_valid False segs" "chain_ok segs" "length segs + 1 < size_mod" and j: "j \<le> length segs"
  shows "i \<le> j \<Longrightarrow> sync_on_log A ok y w \<Longrightarrow> quiet True w \<Longrightarrow> sy_send y = Some queue_send \<Longrightarrow> log_chain w = take i segs \<Longrightarrow>
    peer_has_tip y \<Longrightarrow> peer_tip_no y = of_nat (length segs) \<Longrightarrow> awaiting_segments y = (i < length segs) \<Longrightarrow>
    \<exists>w' y'. foldl (deliver A) (w, [], Some y) (map (\<lambda>k. frame_wire (segment_msg segs k)) [i..<j]) = (w', [], Some y') \<and>
      sync_on_log A ok y' w' \<and> quiet True w' \<and> sy_send y' = Some queue_send \<and> log_chain w' = take j segs \<and> sync_frame y' = sync_frame y \<and>
      peer_has_tip y' \<and> peer_tip_no y' = of_nat (length segs) \<and> awaiting_segments y' = (j < length segs)"
proof (induction "j - i" arbitrary: i w y)
  case 0
  then have "i = j" by simp
  with 0 show ?case by simp
next
  case (Suc n)
  then have ij: "i < j" "n = j - Suc i" by auto
  obtain p opt where y: "sy_store y = log_handle A p opt" "log_inv ok w" "tip_known (log_chain w) y" using Suc.prems(2) by (rule sync_on_logE)
  have i: "i < length segs" using ij j by simp
  have up: "[i..<j] = i # [Suc i..<j]" using ij(1) by (rule upt_conv_Cons)
  have sm: "i + 2 < size_mod \<or> i + 2 = size_mod" using i segs(3) by simp
  have ok1: "seg_ok False (log_chain w) (segs ! i)" using chain_valid_nth [OF segs(1) i] Suc.prems(5) by simp
  have len: "length (segs ! i) < seg_limit" using segs(2) i by (auto simp: chain_ok_def)
  have rm: "i + 2 < size_mod" using i segs(3) by simp
  have aw: "awaiting_segments y" using Suc.prems(8) i by simp
  have ilen: "i = length (log_chain w)" using Suc.prems(5) i by simp
  obtain w' y' where d: "deliver A (w, [], Some y) (frame_wire (segment_msg segs i)) = (w', [], Some y')" "sync_on_log A ok y' w'" "quiet True w'"
    "sy_send y' = Some queue_send" "log_chain w' = log_chain w @ [segs ! i]" "sync_frame y' = sync_frame y" "peer_has_tip y'"
    "peer_tip_no y' = peer_tip_no y" "awaiting_segments y' = (of_nat (Suc i) < peer_tip_no y)"
    using deliver_segment [OF A y Suc.prems(3,4,6) aw ok1 len ilen refl rm, of "[]"] by blast
  have "log_chain w' = take (Suc i) segs" using d(5) Suc.prems(5) i by (simp add: take_Suc_conv_app_nth)
  moreover have "awaiting_segments y' = (Suc i < length segs)"
    using d(9) Suc.prems(7) i segs(3) unat_of_nat_u64 [of "Suc i"] unat_of_nat_u64 [of "length segs"] by (simp add: word_less_nat_alt)
  ultimately show ?case
    using Suc.hyps(1) [OF ij(2) _ d(2,3,4)] d ij Suc.prems(7) unfolding up by simp
qed

lemma deliver_plain:
  assumes "msg_wf m" "msg_room m" "\<And>m'. same_msg m m' \<Longrightarrow> m' = m" "sync_on_message A m (w, box, y) = (r, (w', box', y'))"
  shows "deliver A (w, box, Some y) (frame_wire m) = (w', box', Some y')"
proof -
  have "length (frame_wire m) < size_mod" using frame_small [OF assms(1,2)] by (simp add: size_mod_def)
  from wire_decode_frame [OF assms(1) this] assms(3) have "vicarl_p2p_wire_decode (slice_of (frame_wire m)) True = Inr m" by blast
  with assms(4) show ?thesis by (simp add: deliver_def vicarl_p2p_sync_on_message_def with_sync_def)
qed

text \<open>A node that is ready to answer, and one that waits for segments.\<close>

lemma node_okE:
  assumes "node_ok A ok y w"
  obtains p opt where "sy_store y = log_handle A p opt" "log_inv ok w" "tip_known (log_chain w) y" "quiet True w"
    "sy_send y = Some queue_send" "accepts_all y" "chain_valid False (log_chain w)"
  using assms by (auto simp: node_ok_def sync_on_log_def queue_accepts)

lemma node_ok_kept:
  assumes "node_ok A ok y w" "kept ok (log_inv ok) log_own (quiet True) w L w'" "log_chain w' = log_chain w" "sync_frame y' = sync_frame y"
    "tip_known (log_chain w) y'"
  shows "node_ok A ok y' w'"
  using assms by (auto simp: node_ok_def sync_on_log_def sync_frame_def kept_def)

lemma node_send_tip:
  assumes A: "alloc_rel A ok True" and n: "node_ok A ok y w"
  shows "\<exists>w' y'. snd (vicarl_p2p_sync_send_tip A (w, box, Some y)) =
      (w', box @ [frame_wire (MSG_TIP \<lparr>tip_no = of_nat (length (log_chain w)), tip_hash = tip_hash_of (log_chain w)\<rparr>)], Some y') \<and>
    node_ok A ok y' w' \<and> log_chain w' = log_chain w \<and> sync_frame y' = sync_frame y"
proof -
  obtain p opt where y: "sy_store y = log_handle A p opt" "log_inv ok w" "tip_known (log_chain w) y" "quiet True w"
    "sy_send y = Some queue_send" "accepts_all y" "chain_valid False (log_chain w)" using n by (rule node_okE)
  note out = segment_store.send_tip_outcome [OF log_segment_store [OF A] A y(2,1), of box]
  obtain r w' box' y' where run: "sync_send_tip A (w, box, y) = (r, (w', box', y'))" by (metis prod.exhaust)
  show ?thesis
  proof (cases r)
    case (Inl e)
    with outcome_Inl [OF out run [unfolded Inl]] y(6) show ?thesis by simp
  next
    case (Inr x)
    from outcome_Inr [OF out run [unfolded Inr]] y(3,5,6) have "y' = y" "log_chain w' = log_chain w"
      "kept ok (log_inv ok) log_own (quiet True) w (hp_live (w_heap w)) w'"
      "box' = box @ [frame_wire (MSG_TIP \<lparr>tip_no = of_nat (length (log_chain w)), tip_hash = tip_hash_of (log_chain w)\<rparr>)]"
      by (auto simp: queue_frames)
    moreover from this have "node_ok A ok y' w'" using node_ok_kept [OF n] y(3) by blast
    ultimately show ?thesis using run by (auto simp: vicarl_p2p_sync_send_tip_def with_sync_def)
  qed
qed

lemma node_tip:
  assumes A: "alloc_rel A ok True" and n: "node_ok A ok y w" and segs: "prefix (log_chain w) segs" "length segs < size_mod"
    and aw: "awaiting_segments y \<longrightarrow> length (log_chain w) < length segs"
  shows "\<exists>w' y'. deliver A (w, [], Some y) (frame_wire (MSG_TIP \<lparr>tip_no = of_nat (length segs), tip_hash = tip_hash_of segs\<rparr>)) =
      (w', (if length (log_chain w) < length segs \<and> \<not> awaiting_segments y
            then [frame_wire (MSG_GET_SEGMENTS \<lparr>from_no = of_nat (length (log_chain w) + 1), max_count = max_inflight y\<rparr>)] else []), Some y') \<and>
    node_ok A ok y' w' \<and> log_chain w' = log_chain w \<and> sync_frame y' = sync_frame y \<and> peer_has_tip y' = (segs \<noteq> []) \<and>
    peer_tip_no y' = of_nat (length segs) \<and> awaiting_segments y' = (length (log_chain w) < length segs)"
proof -
  obtain p opt where y: "sy_store y = log_handle A p opt" "log_inv ok w" "tip_known (log_chain w) y" "quiet True w"
    "sy_send y = Some queue_send" "accepts_all y" "chain_valid False (log_chain w)" using n by (rule node_okE)
  let ?t = "\<lparr>tip_no = of_nat (length segs), tip_hash = tip_hash_of segs\<rparr>"
  have le: "length (log_chain w) \<le> length segs" using segs(1) by (rule prefix_length_le)
  have has: "((of_nat (length segs) :: u64) \<noteq> 0 \<or> \<not> hash_is_zero32 (tip_hash_of segs)) = (segs \<noteq> [])"
    using segs(2) unat_of_nat_u64 [of "length segs"] by (auto simp: hash_is_zero32_def)
  have lt: "(of_nat (length (log_chain w)) :: u64) < of_nat (length segs) \<longleftrightarrow> length (log_chain w) < length segs"
    using segs(2) le unat_of_nat_u64 [of "length segs"] unat_of_nat_u64 [of "length (log_chain w)"] by (simp add: word_less_nat_alt)
  note out = segment_store.on_tip_outcome [OF log_segment_store [OF A] A y(2,1,3), of ?t "[]"]
  obtain r w' box' y' where run: "sync_on_message A (MSG_TIP ?t) (w, [], y) = (r, (w', box', y'))" by (metis prod.exhaust)
  have d: "deliver A (w, [], Some y) (frame_wire (MSG_TIP ?t)) = (w', box', Some y')"
    by (rule deliver_plain [OF _ _ _ run]) (simp_all add: tip_hash_length)
  show ?thesis
  proof (cases r)
    case (Inl e)
    with outcome_Inl [OF out run [unfolded Inl]] y(6) show ?thesis by simp
  next
    case (Inr x)
    from outcome_Inr [OF out run [unfolded Inr], unfolded prod.case vicarl_p2p_tip.simps has lt] y(5,6) have q: "log_chain w' = log_chain w"
      "kept ok (log_inv ok) log_own (quiet True) w (hp_live (w_heap w)) w'" "sync_frame y' = sync_frame y" "tip_known (log_chain w) y'"
      "peer_tip_no y' = of_nat (length segs)" "peer_has_tip y' = (segs \<noteq> [])"
      "awaiting_segments y' = (if segs \<noteq> [] then length (log_chain w) < length segs else awaiting_segments y)"
      "box' = (if segs \<noteq> [] \<and> length (log_chain w) < length segs \<and> \<not> awaiting_segments y
          then [frame_wire (MSG_GET_SEGMENTS \<lparr>from_no = of_nat (length (log_chain w) + 1), max_count = max_inflight y\<rparr>)] else [])"
      by (simp_all add: queue_frames)
    have "node_ok A ok y' w'" using node_ok_kept [OF n q(2,1,3,4)] .
    with q d aw show ?thesis by auto
  qed
qed

lemma node_serve:
  assumes A: "alloc_rel A ok True" and n: "node_ok A ok y w" and i: "i < length (log_chain w)" and c: "cnt \<noteq> 0"
  shows "\<exists>w'. deliver A (w, [], Some y) (frame_wire (MSG_GET_SEGMENTS \<lparr>from_no = of_nat (i + 1), max_count = cnt\<rparr>)) =
      (w', map (\<lambda>k. frame_wire (segment_msg (log_chain w) k)) [i..<min (length (log_chain w)) (i + unat cnt)], Some y) \<and>
    node_ok A ok y w' \<and> log_chain w' = log_chain w"
proof -
  obtain p opt where y: "sy_store y = log_handle A p opt" "log_inv ok w" "tip_known (log_chain w) y" "quiet True w"
    "sy_send y = Some queue_send" "accepts_all y" "chain_valid False (log_chain w)" using n by (rule node_okE)
  let ?g = "\<lparr>from_no = of_nat (i + 1), max_count = cnt\<rparr>"
  have "length (log_chain w) + 1 < size_mod" using segment_store.inv_ok [OF log_segment_store [OF A] y(2)] by (simp add: chain_ok_def)
  then have un: "unat (of_nat (i + 1) :: u64) = i + 1" using i unat_of_nat_u64 [of "i + 1"] by simp
  have nz: "(of_nat (i + 1) :: u64) \<noteq> 0" using un by (metis add_is_0 one_neq_zero unat_0)
  have rng: "served_range (length (log_chain w)) ?g = [i..<min (length (log_chain w)) (i + unat cnt)]"
    using un nz c by (simp add: served_range_def Let_def del: of_nat_add)
  note out = segment_store.on_get_outcome [OF log_segment_store [OF A] A y(2,1), of ?g "[]"]
  obtain r w' box' y' where run: "sync_on_message A (MSG_GET_SEGMENTS ?g) (w, [], y) = (r, (w', box', y'))" by (metis prod.exhaust)
  have d: "deliver A (w, [], Some y) (frame_wire (MSG_GET_SEGMENTS ?g)) = (w', box', Some y')"
    by (rule deliver_plain [OF _ _ _ run]) simp_all
  show ?thesis
  proof (cases r)
    case (Inl e)
    with outcome_Inl [OF out run [unfolded Inl]] y(4,6) show ?thesis by simp
  next
    case (Inr x)
    from outcome_Inr [OF out run [unfolded Inr], unfolded rng prod.case] y(3,5,6) have q: "y' = y" "log_chain w' = log_chain w"
      "kept ok (log_inv ok) log_own (quiet True) w (hp_live (w_heap w)) w'"
      "box' = map frame_wire (map (segment_msg (log_chain w)) [i..<min (length (log_chain w)) (i + unat cnt)])"
      by (simp_all add: queue_frames)
    have "node_ok A ok y w'" by (rule node_ok_kept [OF n q(3,2) refl y(3)])
    with q d show ?thesis by (simp add: comp_def)
  qed
qed

text \<open>A round in which \<open>b\<close> is not waiting, and one in which it is.\<close>

lemma round_fresh:
  assumes A: "alloc_rel A ok True" and a: "node_ok A ok ya wa" and b: "node_ok A ok yb wb" and pre: "prefix (log_chain wb) (log_chain wa)"
    and aw: "\<not> awaiting_segments yb" "max_inflight yb \<noteq> 0"
  shows "\<exists>wa' ya' wb' yb'. sync_round A (wa, [], Some ya) (wb, [], Some yb) = ((wa', [], Some ya'), (wb', [], Some yb')) \<and>
    node_ok A ok ya' wa' \<and> log_chain wa' = log_chain wa \<and> node_ok A ok yb' wb' \<and> sync_frame yb' = sync_frame yb \<and>
    log_chain wb' = take (length (log_chain wb) + unat (max_inflight yb)) (log_chain wa) \<and>
    awaiting_segments yb' = (length (log_chain wb) + unat (max_inflight yb) < length (log_chain wa))"
proof -
  let ?segs = "log_chain wa" and ?i = "length (log_chain wb)" and ?c = "unat (max_inflight yb)"
  let ?tip = "MSG_TIP \<lparr>tip_no = of_nat (length ?segs), tip_hash = tip_hash_of ?segs\<rparr>"
  obtain p opt where y: "log_inv ok wa" "chain_valid False ?segs" using a by (rule node_okE)
  have ck: "chain_ok ?segs" using segment_store.inv_ok [OF log_segment_store [OF A] y(1)] by blast
  then have sm: "length ?segs + 1 < size_mod" "length ?segs < size_mod" by (auto simp: chain_ok_def)
  have wb: "log_chain wb = take ?i ?segs" using pre by (metis append_eq_conv_conj prefixE)
  have le: "?i \<le> length ?segs" using pre by (rule prefix_length_le)
  have c: "?c > 0" using aw(2) by (simp add: unat_gt_0)
  obtain wa1 ya1 where s1: "snd (vicarl_p2p_sync_send_tip A (wa, [], Some ya)) = (wa1, [frame_wire ?tip], Some ya1)" "node_ok A ok ya1 wa1"
    "log_chain wa1 = ?segs" using node_send_tip [OF A a, of "[]"] by auto
  obtain wb1 yb1 where s2: "deliver A (wb, [], Some yb) (frame_wire ?tip) = (wb1, (if ?i < length ?segs
            then [frame_wire (MSG_GET_SEGMENTS \<lparr>from_no = of_nat (?i + 1), max_count = max_inflight yb\<rparr>)] else []), Some yb1)"
    "node_ok A ok yb1 wb1" "log_chain wb1 = log_chain wb" "sync_frame yb1 = sync_frame yb" "peer_has_tip yb1 = (?segs \<noteq> [])"
    "peer_tip_no yb1 = of_nat (length ?segs)" "awaiting_segments yb1 = (?i < length ?segs)"
    using node_tip [OF A b pre sm(2)] aw(1) by auto
  show ?thesis
  proof (cases "?i < length ?segs")
    case False
    with s1 s2 wb le show ?thesis by (auto simp: sync_round_def Let_def)
  next
    case True
    obtain wa2 where s3: "deliver A (wa1, [], Some ya1) (frame_wire (MSG_GET_SEGMENTS \<lparr>from_no = of_nat (?i + 1), max_count = max_inflight yb\<rparr>)) =
        (wa2, map (\<lambda>k. frame_wire (segment_msg ?segs k)) [?i..<min (length ?segs) (?i + ?c)], Some ya1)" "node_ok A ok ya1 wa2" "log_chain wa2 = ?segs"
      using node_serve [OF A s1(2) _ aw(2), of ?i] True s1(3) by auto
    have on: "sync_on_log A ok yb1 wb1" "quiet True wb1" "sy_send yb1 = Some queue_send" using s2(2) by (auto simp: node_ok_def)
    obtain wb2 yb2 where s4: "foldl (deliver A) (wb1, [], Some yb1) (map (\<lambda>k. frame_wire (segment_msg ?segs k)) [?i..<min (length ?segs) (?i + ?c)]) =
        (wb2, [], Some yb2)" "sync_on_log A ok yb2 wb2" "quiet True wb2" "sy_send yb2 = Some queue_send"
      "log_chain wb2 = take (min (length ?segs) (?i + ?c)) ?segs" "sync_frame yb2 = sync_frame yb1"
      "awaiting_segments yb2 = (min (length ?segs) (?i + ?c) < length ?segs)"
      using deliver_segments [OF A y(2) ck sm(1), of "min (length ?segs) (?i + ?c)" ?i yb1 wb1] on s2 wb le True by auto
    have tk: "take (min (length ?segs) (?i + ?c)) ?segs = take (?i + ?c) ?segs" by (simp add: min_def)
    have "node_ok A ok yb2 wb2" using s4 chain_valid_take [OF y(2)] by (auto simp: node_ok_def)
    with True s1 s2 s3 s4 tk show ?thesis by (auto simp: sync_round_def Let_def)
  qed
qed

lemma round_waiting:
  assumes A: "alloc_rel A ok True" and a: "node_ok A ok ya wa" and b: "node_ok A ok yb wb" and pre: "prefix (log_chain wb) (log_chain wa)"
    and aw: "awaiting_segments yb" "length (log_chain wb) < length (log_chain wa)"
  shows "\<exists>wa' ya' wb' yb'. sync_round A (wa, [], Some ya) (wb, [], Some yb) = ((wa', [], Some ya'), (wb', [], Some yb')) \<and>
    node_ok A ok ya' wa' \<and> log_chain wa' = log_chain wa \<and> node_ok A ok yb' wb' \<and> log_chain wb' = log_chain wb \<and> awaiting_segments yb'"
proof -
  let ?segs = "log_chain wa"
  let ?tip = "MSG_TIP \<lparr>tip_no = of_nat (length ?segs), tip_hash = tip_hash_of ?segs\<rparr>"
  obtain p opt where y: "log_inv ok wa" using a by (rule node_okE)
  have sm: "length ?segs < size_mod" using segment_store.inv_ok [OF log_segment_store [OF A] y] by (simp add: chain_ok_def)
  obtain wa1 ya1 where s1: "snd (vicarl_p2p_sync_send_tip A (wa, [], Some ya)) = (wa1, [frame_wire ?tip], Some ya1)" "node_ok A ok ya1 wa1"
    "log_chain wa1 = ?segs" using node_send_tip [OF A a, of "[]"] by auto
  obtain wb1 yb1 where s2: "deliver A (wb, [], Some yb) (frame_wire ?tip) = (wb1, [], Some yb1)"
    "node_ok A ok yb1 wb1" "log_chain wb1 = log_chain wb" "awaiting_segments yb1"
    using node_tip [OF A b pre sm] aw by auto
  with s1 show ?thesis by (auto simp: sync_round_def Let_def)
qed

section \<open>Examples\<close>

definition example_sync :: "u64 \<Rightarrow> (log_env, bytes list) vicarl_p2p_sync" where
  "example_sync n = \<lparr>sy_ptr = 4, sy_store = log_handle default_allocator 3 zero_options, sy_send = Some queue_send, local_tip_no = 0,
     local_tip_hash = zero_hash, local_has_tip = False, peer_tip_no = 0, peer_tip_hash = zero_hash, peer_has_tip = False,
     next_wanted_no = 0, max_inflight = n, awaiting_segments = False\<rparr>"

definition second_segment :: bytes where
  "second_segment = segment_wire \<lparr>segment_no = 2, prev_segment_hash = sha256 genesis, record_count = 0, records_merkle_root = zero_hash,
     hdr_timestamp_ms = 0\<rparr> [] None"

text \<open>A log store with two segments.\<close>

definition two_log :: log_world where
  "two_log =
     \<lparr>w_heap = \<lparr>hp_next = 5, hp_live = {1, 2, 3, 4}, hp_bad = False, hp_oom = []\<rparr>,
      w_env = \<lparr>le_impl = Some \<lparr>ls_ptr = 1, ls_dir_ptr = Some 2, ls_dir = ''d'', ls_tip_no = 2, ls_tip_hash = sha256 second_segment,
                 ls_has_tip = True\<rparr>,
               le_fs = \<lparr>fs_dirs = [''d'' \<mapsto> [(seg_filename 1, genesis), (seg_filename 2, second_segment)]], fs_fail = [], fs_close_fail = [],
                        fs_strerror = ''e''\<rparr>\<rparr>\<rparr>"

lemma second_spec: "\<exists>rs. segment_spec second_segment = Inr (\<lparr>segment_no = 2, prev_segment_hash = sha256 genesis, record_count = 0,
    records_merkle_root = zero_hash, hdr_timestamp_ms = 0\<rparr>, rs, False, replicate 64 0) \<and> map slice_bytes rs = []"
  using segment_spec_wire [of "\<lparr>segment_no = 2, prev_segment_hash = sha256 genesis, record_count = 0, records_merkle_root = zero_hash,
     hdr_timestamp_ms = 0\<rparr>" "[]" None]
  by (simp add: hdr_wf_def sig_wf_def count_ok_def second_segment_def sha256_length)

lemma second_ok: "seg_ok False [genesis] second_segment"
  using second_spec by (auto simp: seg_ok_def segment_valid_def next_segment_def tip_hash_of_def)

lemma second_size: "length second_segment < 100"
  by (simp add: second_segment_def segment_wire_def VICARL_SEG_MAGIC_def leb128_small sha256_length)

lemma file_names: "seg_filename 1 \<noteq> seg_filename 2"
  by (simp add: seg_filename_inject)

lemma two_log_chain: "log_chain two_log = [genesis, second_segment]"
  using file_names by (simp add: log_chain_def two_log_def seg_file_def w_fs_def fs_lookup_def upt_rec)

lemma two_log_inv: "log_inv heap_plenty two_log"
proof -
  let ?ls = "\<lparr>ls_ptr = 1, ls_dir_ptr = Some 2, ls_dir = ''d'', ls_tip_no = 2, ls_tip_hash = sha256 second_segment, ls_has_tip = True\<rparr>"
  have files: "seg_file two_log ?ls 1 = Some genesis" "seg_file two_log ?ls 2 = Some second_segment"
    using file_names by (simp_all add: seg_file_def two_log_def w_fs_def fs_lookup_def)
  have "\<exists>bs. seg_file two_log ?ls (Suc i) = Some bs \<and> length bs < seg_limit" if "i < 2" for i
  proof -
    have lim: "length genesis < seg_limit" "length second_segment < seg_limit" using genesis_size second_size by (simp_all add: seg_limit_def)
    from that consider "i = 0" | "i = 1" by linarith
    then show ?thesis using files lim by cases (simp_all add: numeral_2_eq_2)
  qed
  moreover have "k \<le> 2" if "fs_lookup (w_fs two_log) (''d'', name) \<noteq> None" "is_seg_name name = Some k" for name k
    using that by (auto simp: two_log_def w_fs_def fs_lookup_def is_seg_name_filename split: if_splits)
  ultimately have "log_state_ok two_log ?ls" using files by (auto simp: log_state_ok_def two_log_def w_fs_def size_mod_def)
  then show ?thesis by (auto simp: log_inv_def two_log_def heap_plenty_def heap_wf_def log_own_def w_fs_def)
qed

definition node_sync :: "u64 \<Rightarrow> log_world \<Rightarrow> (log_env, bytes list) vicarl_p2p_sync" where
  "node_sync n w = set_tip (log_chain w) (example_sync n)"

lemma node_sync_on_log: "log_inv heap_plenty w \<Longrightarrow> sync_on_log default_allocator heap_plenty (node_sync n w) w"
  by (auto simp: sync_on_log_def node_sync_def example_sync_def)

lemma node_sync_simps: "sy_send (node_sync n w) = Some queue_send" "awaiting_segments (node_sync n w) \<longleftrightarrow> False"
  "max_inflight (node_sync n w) = n"
  by (simp_all add: node_sync_def example_sync_def)

lemma two_log_valid: "chain_valid False (log_chain two_log)"
  using genesis_valid genesis_next second_ok chain_valid_snoc [of False "[]" genesis] chain_valid_snoc [of False "[genesis]" second_segment]
  by (simp add: two_log_chain seg_ok_def)

lemma empty_node: "node_ok default_allocator heap_plenty (node_sync n empty_log) empty_log"
  using empty_log_inv empty_log_quiet by (simp add: node_ok_def node_sync_on_log node_sync_simps empty_log_chain)

lemma two_node: "node_ok default_allocator heap_plenty (node_sync n two_log) two_log"
proof -
  have "quiet True two_log" by (simp add: quiet_def two_log_def w_fs_def)
  then show ?thesis using two_log_inv two_log_valid by (simp add: node_ok_def node_sync_on_log node_sync_simps)
qed

section \<open>Properties of the synchronisation\<close>



text \<open>C8. A received segment is accepted only if its bytes have the declared hash, its number is the declared one,
  it is well formed with the right Merkle root, and it continues the chain; then exactly its bytes are
  appended. It is accepted whenever that is so and neither memory, the files nor the transport fail. An
  error leaves the chain as it was, except when the request for more that follows an accepted segment
  could not be sent.\<close>
theorem sync_accepts_exactly:
  assumes "alloc_rel A ok rel" and "sync_on_log A ok y w" and "slice_wf (segment_bytes m)" and "sl_len (segment_bytes m) < seg_limit"
    and "length (log_chain w) + 2 < size_mod"
  shows "case vicarl_p2p_sync_on_message A (Some (MSG_SEGMENT m)) (w, u, Some y) of
      (Inr _, (w', u', y')) \<Rightarrow> offer_ok (log_chain w) (msg_segment_no m) (msg_segment_hash m) (slice_bytes (segment_bytes m)) \<and>
        log_chain w' = log_chain w @ [slice_bytes (segment_bytes m)]
    | (Inl e, (w', u', y')) \<Rightarrow> \<not> (offer_ok (log_chain w) (msg_segment_no m) (msg_segment_hash m) (slice_bytes (segment_bytes m)) \<and>
          quiet rel w \<and> accepts_all y) \<and> chain_step (MSG_SEGMENT m) (log_chain w) (log_chain w')"
proof -
  obtain p opt where y: "sy_store y = log_handle A p opt" "log_inv ok w" "tip_known (log_chain w) y" using assms(2) by (rule sync_on_logE)
  note out = segment_store.on_segment_outcome [OF log_segment_store [OF assms(1)] assms(1) y(2,1,3) assms(3-5), of u]
  obtain r w' u' y' where run: "sync_on_message A (MSG_SEGMENT m) (w, u, y) = (r, (w', u', y'))" by (metis prod.exhaust)
  have api: "vicarl_p2p_sync_on_message A (Some (MSG_SEGMENT m)) (w, u, Some y) = (r, (w', u', Some y'))"
    using run by (simp add: vicarl_p2p_sync_on_message_def with_sync_def)
  show ?thesis
  proof (cases r)
    case (Inl e)
    have "quiet rel w \<longrightarrow> rel" "fits_any (log_chain w) (slice_bytes (segment_bytes m))" by (simp_all add: quiet_def)
    with outcome_Inl [OF out run [unfolded Inl]] show ?thesis unfolding api Inl prod.case sum.case by blast
  next
    case (Inr x)
    from outcome_Inr [OF out run [unfolded Inr]] show ?thesis unfolding api Inr prod.case sum.case by blast
  qed
qed

theorem sync_accepts_exactly_witness:
  "\<exists>w' u' y'. vicarl_p2p_sync_on_message default_allocator
      (Some (MSG_SEGMENT \<lparr>msg_segment_no = 1, msg_segment_hash = sha256 genesis, segment_bytes = slice_of genesis\<rparr>))
      (empty_log, [], Some (node_sync 8 empty_log)) = (Inr (), (w', u', y')) \<and> log_chain w' = [genesis]"
proof -
  let ?m = "\<lparr>msg_segment_no = 1, msg_segment_hash = sha256 genesis, segment_bytes = slice_of genesis\<rparr>"
  have on: "sync_on_log default_allocator heap_plenty (node_sync 8 empty_log) empty_log" using empty_node by (simp add: node_ok_def)
  have m: "slice_wf (segment_bytes ?m)" "sl_len (segment_bytes ?m) < seg_limit" "length (log_chain empty_log) + 2 < size_mod"
    using genesis_size by (simp_all add: size_mod_def seg_limit_def empty_log_chain)
  have "offer_ok (log_chain empty_log) 1 (sha256 genesis) genesis"
    using genesis_valid genesis_next by (simp add: offer_ok_def seg_ok_def empty_log_chain)
  moreover have "quiet True empty_log" "accepts_all (node_sync 8 empty_log)"
    using empty_log_quiet queue_accepts node_sync_simps(1) by blast+
  ultimately show ?thesis
    using sync_accepts_exactly [OF libc_reliable on m, of "[]"] by (auto simp: empty_log_chain split: prod.splits sum.splits)
qed

text \<open>C7. Replication: when a node \<open>a\<close> with a valid chain announces its tip to a node \<open>b\<close> that holds a prefix of that chain
  and is not waiting, and the answers are delivered, \<open>b\<close> holds the next \<^verbatim>\<open>max_inflight\<close> segments of \<open>a\<close>'s chain, which is
  all of it when no more are missing; \<open>a\<close> is unchanged and \<open>b\<close> waits exactly if it is still behind.\<close>
theorem sync_round_transfers:
  assumes "alloc_rel A ok True" and "node_ok A ok ya wa" and "node_ok A ok yb wb" and "prefix (log_chain wb) (log_chain wa)"
    and "\<not> awaiting_segments yb" and "max_inflight yb \<noteq> 0"
  shows "\<exists>wa' ya' wb' yb'. sync_round A (wa, [], Some ya) (wb, [], Some yb) = ((wa', [], Some ya'), (wb', [], Some yb')) \<and>
    node_ok A ok ya' wa' \<and> log_chain wa' = log_chain wa \<and> node_ok A ok yb' wb' \<and>
    log_chain wb' = take (length (log_chain wb) + unat (max_inflight yb)) (log_chain wa) \<and>
    awaiting_segments yb' = (log_chain wb' \<noteq> log_chain wa)"
proof -
  obtain wa' ya' wb' yb' where r: "sync_round A (wa, [], Some ya) (wb, [], Some yb) = ((wa', [], Some ya'), (wb', [], Some yb'))"
    "node_ok A ok ya' wa'" "log_chain wa' = log_chain wa" "node_ok A ok yb' wb'"
    "log_chain wb' = take (length (log_chain wb) + unat (max_inflight yb)) (log_chain wa)"
    "awaiting_segments yb' = (length (log_chain wb) + unat (max_inflight yb) < length (log_chain wa))"
    using round_fresh [OF assms] by blast
  have "(log_chain wb' \<noteq> log_chain wa) = (length (log_chain wb) + unat (max_inflight yb) < length (log_chain wa))"
    unfolding r(5) by (metis length_take min.absorb2 not_le take_all_iff)
  with r show ?thesis by blast
qed

theorem sync_round_transfers_witness:
  "node_chain (snd (sync_round default_allocator (two_log, [], Some (node_sync 8 two_log)) (empty_log, [], Some (node_sync 8 empty_log)))) =
     [genesis, second_segment]"
  using sync_round_transfers [OF libc_reliable two_node [of 8] empty_node [of 8]]
  by (auto simp: empty_log_chain two_log_chain node_sync_simps)

text \<open>C39. The engine stalls: when more than \<^verbatim>\<open>max_inflight\<close> segments are missing, the flag \<^verbatim>\<open>awaiting_segments\<close> stays set after
  the first answer, nothing clears it, and no number of further rounds brings another segment, although
  both nodes are consistent and nothing fails.\<close>
theorem sync_rounds_stall:
  assumes "alloc_rel A ok True" and "node_ok A ok ya wa" and "node_ok A ok yb wb" and "prefix (log_chain wb) (log_chain wa)"
    and "\<not> awaiting_segments yb" and "max_inflight yb \<noteq> 0" and "length (log_chain wb) + unat (max_inflight yb) < length (log_chain wa)"
  shows "node_chain (snd (((\<lambda>(a, b). sync_round A a b) ^^ Suc n) ((wa, [], Some ya), (wb, [], Some yb)))) =
    take (length (log_chain wb) + unat (max_inflight yb)) (log_chain wa)"
proof -
  let ?k = "length (log_chain wb) + unat (max_inflight yb)"
  let ?P = "\<lambda>(a, b). \<exists>wa' ya' wb' yb'. a = (wa', [], Some ya') \<and> b = (wb', [], Some yb') \<and> node_ok A ok ya' wa' \<and> log_chain wa' = log_chain wa \<and>
    node_ok A ok yb' wb' \<and> log_chain wb' = take ?k (log_chain wa) \<and> awaiting_segments yb'"
  have step: "?P (sync_round A a b)" if P: "?P (a, b)" for a b
  proof -
    obtain wa' ya' wb' yb' where ab: "a = (wa', [], Some ya')" "b = (wb', [], Some yb')" and n: "node_ok A ok ya' wa'" "log_chain wa' = log_chain wa"
      "node_ok A ok yb' wb'" "log_chain wb' = take ?k (log_chain wa)" "awaiting_segments yb'" using P by auto
    have "prefix (log_chain wb') (log_chain wa')" "length (log_chain wb') < length (log_chain wa')" using n assms(7) by (auto simp: take_is_prefix)
    from round_waiting [OF assms(1) n(1,3) this(1) n(5) this(2)] n show ?thesis unfolding ab by auto
  qed
  have "?P (((\<lambda>(a, b). sync_round A a b) ^^ Suc n) ((wa, [], Some ya), (wb, [], Some yb)))"
  proof (induction n)
    case 0
    show ?case using round_fresh [OF assms(1-6)] assms(7) by auto
  next
    case (Suc n)
    obtain a b where ab: "((\<lambda>(a, b). sync_round A a b) ^^ Suc n) ((wa, [], Some ya), (wb, [], Some yb)) = (a, b)" by (rule prod.exhaust)
    from step [OF Suc [unfolded ab]] ab show ?case by simp
  qed
  then show ?thesis by auto
qed

theorem sync_rounds_stall_witness:
  "node_chain (snd (((\<lambda>(a, b). sync_round default_allocator a b) ^^ Suc 9)
     ((two_log, [], Some (node_sync 1 two_log)), (empty_log, [], Some (node_sync 1 empty_log))))) = [genesis]"
  using sync_rounds_stall [OF libc_reliable two_node [of 1] empty_node [of 1], of 9]
  by (simp add: empty_log_chain two_log_chain node_sync_simps)

text \<open>The life of an engine: \<^verbatim>\<open>vicarl_p2p_sync_init\<close> allocates one block and caches the right tip, or fails for lack of
  memory and leaves nothing behind; after any run, \<^verbatim>\<open>vicarl_p2p_sync_destroy\<close> returns the heap to the blocks that
  were live before, with the store in place and its chain valid and extended.\<close>
theorem sync_session_tidy:
  assumes "alloc_rel A ok rel" and "log_inv ok w0" and "chain_valid False (log_chain w0)"
  shows "case vicarl_p2p_sync_init A (log_handle A p opt) (Some f) so True (w0, u0) of
      (Inl e, (w, u)) \<Rightarrow> e = err_oom \<and> \<not> rel \<and> log_inv ok w \<and> hp_live (w_heap w) = hp_live (w_heap w0)
    | (Inr y, (w, u)) \<Rightarrow> max_inflight y \<noteq> 0 \<and> tip_known (log_chain w0) y \<and>
        (\<forall>t. sync_run A (w, u, Some y) t \<longrightarrow>
           (\<exists>w1 u1 y1. t = (w1, u1, Some y1) \<and>
              (let w2 = vicarl_p2p_sync_destroy A (Some y1) w1 in
                 log_inv ok w2 \<and> hp_live (w_heap w2) = hp_live (w_heap w0) \<and> hp_bad (w_heap w2) = hp_bad (w_heap w0) \<and>
                 chain_valid False (log_chain w2) \<and> prefix (log_chain w0) (log_chain w2))))"
proof -
  let ?i = "vicarl_p2p_sync_init A (log_handle A p opt) (Some f) so True (w0, u0)" and ?L = "hp_live (w_heap w0)"
  note init = sync_init_outcome [OF assms(1,2) refl, where p = p and opt = opt and f = f and so = so and u = u0]
  note store = log_segment_store [OF assms(1), of p opt]
  obtain r w u where i: "?i = (r, (w, u))" by (metis prod.exhaust)
  show ?thesis
  proof (cases r)
    case (Inl e)
    have "e = err_oom" "\<not> rel" "kept ok (log_inv ok) log_own (quiet rel) w0 ?L w" using init unfolding i Inl prod.case sum.case by blast+
    then show ?thesis unfolding i Inl prod.case sum.case by (auto simp: kept_def heap_to_def)
  next
    case (Inr y)
    have y: "sync_on_log A ok y w" "log_chain w = log_chain w0" "sy_ptr y \<notin> ?L"
      "kept ok (log_inv ok) log_own (quiet rel) w0 (insert (sy_ptr y) ?L) w" "max_inflight y \<noteq> 0"
      using init unfolding i Inr prod.case sum.case by blast+
    have tidy: "\<exists>w1 u1 y1. t = (w1, u1, Some y1) \<and> (let w2 = vicarl_p2p_sync_destroy A (Some y1) w1 in
         log_inv ok w2 \<and> hp_live (w_heap w2) = ?L \<and> hp_bad (w_heap w2) = hp_bad (w_heap w0) \<and>
         chain_valid False (log_chain w2) \<and> prefix (log_chain w0) (log_chain w2))" if run: "sync_run A (w, u, Some y) t" for t
    proof -
      have "sync_good A ok y w (w, u, Some y)" using y(1,2) assms(3) by (simp add: sync_good_def)
      from sync_good_run [OF run assms(1) this] obtain w1 u1 y1 where t: "t = (w1, u1, Some y1)" and g: "sync_on_log A ok y1 w1"
        "chain_valid False (log_chain w1)" "prefix (log_chain w) (log_chain w1)" "sync_frame y1 = sync_frame y"
        "hp_live (w_heap w1) = hp_live (w_heap w)" "hp_bad (w_heap w1) = hp_bad (w_heap w)" "log_own w1 = log_own w" by (auto simp: sync_good_def)
      have ptr: "sy_ptr y1 = sy_ptr y" using g(4) by (simp add: sync_frame_def)
      have inv: "log_inv ok w1" using g(1) by (simp add: sync_on_log_def)
      have live: "hp_live (w_heap w1) = insert (sy_ptr y) ?L" "hp_bad (w_heap w1) = hp_bad (w_heap w0)" "log_own w1 \<subseteq> ?L"
        using g(5-7) y(4) segment_store.inv_ok [OF store assms(2)] by (auto simp: kept_def heap_to_def)
      have "kept ok (log_inv ok) log_own (quiet rel) w1 (?L \<union> set_option (Some (sy_ptr y))) w1"
        using segment_store.kept_refl [OF store inv] live(1) by simp
      from segment_store.kept_free [OF store assms(1) this _ live(3)] y(3)
      have "kept ok (log_inv ok) log_own (quiet rel) w1 ?L (vicarl_p2p_sync_destroy A (Some y1) w1)"
        "log_chain (vicarl_p2p_sync_destroy A (Some y1) w1) = log_chain w1" by (simp_all add: vicarl_p2p_sync_destroy_def ptr)
      with t g(2,3) y(2) live(2) show ?thesis by (simp add: kept_def heap_to_def Let_def)
    qed
    have "tip_known (log_chain w0) y" using y(1,2) by (simp add: sync_on_log_def)
    with y(5) tidy show ?thesis unfolding i Inr prod.case sum.case by blast
  qed
qed

theorem sync_session_tidy_witness:
  "\<exists>y w u. vicarl_p2p_sync_init default_allocator (log_handle default_allocator 3 zero_options) (Some queue_send) None True (empty_log, []) =
      (Inr y, (w, u)) \<and> hp_live (w_heap (vicarl_p2p_sync_destroy default_allocator (Some y) w)) = {1, 2}"
proof -
  have "chain_valid False (log_chain empty_log)" by (simp add: empty_log_chain)
  note tidy = sync_session_tidy [OF libc_reliable empty_log_inv this, where p = 3 and opt = zero_options and f = queue_send and so = None and ?u0.0 = "[]"]
  obtain r w u where i: "vicarl_p2p_sync_init default_allocator (log_handle default_allocator 3 zero_options) (Some queue_send) None True (empty_log, []) =
      (r, (w, u))" by (metis prod.exhaust)
  have live: "hp_live (w_heap empty_log) = {1, 2}" by (simp add: empty_log_def)
  show ?thesis
  proof (cases r)
    case (Inl e)
    with tidy i show ?thesis by simp
  next
    case (Inr y)
    from tidy have "\<exists>w1 u1 y1. (w, u, Some y) = (w1, u1, Some y1) \<and>
        (let w2 = vicarl_p2p_sync_destroy default_allocator (Some y1) w1 in hp_live (w_heap w2) = hp_live (w_heap empty_log))"
      unfolding i Inr prod.case sum.case Let_def using srun_refl [of default_allocator "(w, u, Some y)"] by blast
    with i Inr live show ?thesis by (auto simp: Let_def)
  qed
qed

text \<open>The text of a peer's error message is read within the message as long as it is shorter than two gigabytes; from
  there on the precision \<^verbatim>\<open>(int)len\<close> is negative, \<^verbatim>\<open>%.*s\<close> ignores it, and a message without a NUL byte is read
  past its end.\<close>
theorem sync_error_text_bounds:
  assumes "slice_wf m" and "sl_len m < 2 ^ 32"
  shows "if sl_len m < 2 ^ 31 then \<exists>txt. fmt_slice m = Inr txt \<and> length txt \<le> sl_len m
    else (is_ub (fmt_slice m) \<longleftrightarrow> 0 \<notin> set (the (sl_ptr m)))"
proof -
  let ?v = "of_nat (sl_len m) :: 32 word"
  have u: "uint ?v = int (sl_len m)" using assms(2) by (simp add: uint_nat unat_of_nat)
  show ?thesis
  proof (cases "sl_len m < 2 ^ 31")
    case True
    then have s: "sint ?v = int (sl_len m)" using u by (simp add: sint_uint signed_take_bit_int_eq_self)
    have "length (takeWhile (\<lambda>b. b \<noteq> 0) (take (sl_len m) bs)) \<le> sl_len m" for bs :: bytes
      using length_takeWhile_le [of "\<lambda>b. b \<noteq> 0" "take (sl_len m) bs"] by simp
    with True s assms(1) show ?thesis by (auto simp: fmt_slice_def slice_wf_def Let_def split: option.splits)
  next
    case False
    have "int (sl_len m) div 2 ^ 31 = 1" using False assms(2) by (simp add: div_eq_dividend_iff int_div_pos_eq [of _ _ 1 "int (sl_len m) - 2 ^ 31"])
    then have "bit (int (sl_len m)) 31" by (simp add: bit_iff_odd)
    moreover have "take_bit 32 (int (sl_len m)) = int (sl_len m)" using assms(2) by (simp add: take_bit_int_eq_self)
    ultimately have s: "sint ?v = int (sl_len m) - 2 ^ 32"
      using u by (simp add: sint_uint signed_take_bit_eq_take_bit_minus)
    obtain bs where "sl_ptr m = Some bs" using assms(1) False by (cases "sl_ptr m") (auto simp: slice_wf_def)
    with False s assms(2) show ?thesis by (auto simp: fmt_slice_def is_ub_def Let_def)
  qed
qed

theorem sync_error_text_bounds_witness:
  "is_ub (fmt_slice \<lparr>sl_ptr = Some (replicate (2 ^ 31) 65), sl_len = 2 ^ 31\<rparr>)"
  using sync_error_text_bounds [of "\<lparr>sl_ptr = Some (replicate (2 ^ 31) 65), sl_len = 2 ^ 31\<rparr>"]
  by (simp add: slice_wf_def size_mod_def set_replicate_conv_if)

end
