(* ===== verification/Vicarl_Ffi.thy ===== *)
theory Vicarl_Ffi
  imports Vicarl_LedgerLog Vicarl_Error
begin

text \<open>
  \<^verbatim>\<open>src/ffi/ffi.c\<close>: handles for foreign callers. A handle is a block that points to a ledger; every function checks the
  handle and its arguments and calls the function of the ledger.
\<close>

section \<open>Handles\<close>

record ('e, 'u) vicarl_ffi_ledger =
  ffi_ptr :: addr
  ffi_ledger :: "('e, 'u) vicarl_ledger option"

type_synonym ('e, 'u) ffi_state = "'e world \<times> ('e, 'u) vicarl_ffi_ledger option"

definition sizeof_ffi_ledger :: nat where
  "sizeof_ffi_ledger = 8"

definition vicarl_ffi_last_error :: "string \<Rightarrow> string" where
  "vicarl_ffi_last_error buf = vicarl_last_error_message buf"

definition vicarl_ffi_free :: "vicarl_allocator \<Rightarrow> addr option \<Rightarrow> heap \<Rightarrow> heap" where
  "vicarl_ffi_free A p = vicarl_free A p"

definition vicarl_ffi_ledger_open ::
  "vicarl_allocator \<Rightarrow> (string option \<Rightarrow> vicarl_store_options option \<Rightarrow> bool \<Rightarrow> ('e world, ('e, 'u) vicarl_store) vm) \<Rightarrow>
     (string option \<Rightarrow> vicarl_store_options option \<Rightarrow> bool \<Rightarrow> ('e world, ('e, 'u) vicarl_store) vm) \<Rightarrow>
     string option \<Rightarrow> vicarl_ledger_options option \<Rightarrow> bool \<Rightarrow> ('e world, ('e, 'u) vicarl_ffi_ledger) vm" where
  "vicarl_ffi_ledger_open A open_sqlite open_log path opt out =
     (if \<not> out then failr (fail_with VICARL_ERR_INVALID_ARGUMENT ''ffi_ledger_open: out is NULL'')
      else if path = None \<or> path = Some [] then failr (fail_with VICARL_ERR_INVALID_ARGUMENT ''ffi_ledger_open: path is empty'')
      else
        bindr (vicarl_ledger_open A open_sqlite open_log path opt True) (\<lambda>led.
        bindr (on_error (vicarl_ledger_close A (Some led)) (on_heap (calloc_or_oom A 1 sizeof_ffi_ledger))) (\<lambda>p.
        retr \<lparr>ffi_ptr = p, ffi_ledger = Some led\<rparr>)))"

definition vicarl_ffi_ledger_close :: "vicarl_allocator \<Rightarrow> ('e, 'u) vicarl_ffi_ledger option \<Rightarrow> 'e world \<Rightarrow> 'e world" where
  "vicarl_ffi_ledger_close A h w =
     (case h of
        None \<Rightarrow> w
      | Some x \<Rightarrow> upd_heap (vicarl__free A (Some (ffi_ptr x))) (vicarl_ledger_close A (ffi_ledger x) w))"

text \<open>\<^verbatim>\<open>if (!h || !h->ledger)\<close>, then the operation on the ledger behind the handle.\<close>

definition with_handle :: "string \<Rightarrow> (('e, 'u) ledger_state, 'a) vm \<Rightarrow> (('e, 'u) ffi_state, 'a) vm" where
  "with_handle msg m s =
     (case s of
        (w, Some x) \<Rightarrow>
          (case ffi_ledger x of
             None \<Rightarrow> (Inl (fail_with VICARL_ERR_INVALID_ARGUMENT msg), s)
           | Some l \<Rightarrow> (case m (w, Some l) of (r, (w', l')) \<Rightarrow> (r, (w', Some (x\<lparr>ffi_ledger := l'\<rparr>)))))
      | (w, None) \<Rightarrow> (Inl (fail_with VICARL_ERR_INVALID_ARGUMENT msg), s))"

definition vicarl_ffi_ledger_append_record ::
  "vicarl_allocator \<Rightarrow> clock \<Rightarrow> bytes option \<Rightarrow> nat \<Rightarrow> bool \<Rightarrow> (('e, 'u) ffi_state, vicarl_hash32) vm" where
  "vicarl_ffi_ledger_append_record A clk record_bytes record_len out =
     with_handle ''ffi_ledger_append_record: invalid handle''
       (if \<not> out then failr (fail_with VICARL_ERR_INVALID_ARGUMENT ''ffi_ledger_append_record: out_record_id is NULL'')
        else if record_len > 0 \<and> record_bytes = None
        then failr (fail_with VICARL_ERR_INVALID_ARGUMENT ''ffi_ledger_append_record: record_bytes is NULL'')
        else vicarl_ledger_append_record A clk \<lparr>sl_ptr = record_bytes, sl_len = record_len\<rparr> True)"

definition vicarl_ffi_ledger_flush :: "vicarl_allocator \<Rightarrow> clock \<Rightarrow> (('e, 'u) ffi_state, unit) vm" where
  "vicarl_ffi_ledger_flush A clk = with_handle ''ffi_ledger_flush: invalid handle'' (vicarl_ledger_flush A clk)"

text \<open>Verification may not end (its loop), which is the result \<^const>\<open>None\<close>.\<close>

definition vicarl_ffi_ledger_verify :: "vicarl_allocator \<Rightarrow> ('e, 'u) ffi_state \<Rightarrow> (unit res \<times> ('e, 'u) ffi_state) option" where
  "vicarl_ffi_ledger_verify A s =
     (case s of
        (w, Some x) \<Rightarrow>
          (case ffi_ledger x of
             None \<Rightarrow> Some (Inl (fail_with VICARL_ERR_INVALID_ARGUMENT ''ffi_ledger_verify: invalid handle''), s)
           | Some l \<Rightarrow> map_option (\<lambda>(r, (w', l')). (r, (w', Some (x\<lparr>ffi_ledger := l'\<rparr>)))) (vicarl_ledger_verify A (w, Some l)))
      | (w, None) \<Rightarrow> Some (Inl (fail_with VICARL_ERR_INVALID_ARGUMENT ''ffi_ledger_verify: invalid handle''), s))"

definition vicarl_ffi_ledger_tip :: "bool \<Rightarrow> (('e, 'u) ffi_state, u64 \<times> vicarl_hash32) vm" where
  "vicarl_ffi_ledger_tip out = with_handle ''ffi_ledger_tip: invalid handle'' (vicarl_ledger_tip out)"

definition vicarl_ffi_ledger_read_segment :: "u64 \<Rightarrow> bool \<Rightarrow> (('e, 'u) ffi_state, vicarl_bytes) vm" where
  "vicarl_ffi_ledger_read_segment no out =
     with_handle ''ffi_ledger_read_segment: invalid handle''
       (if \<not> out then failr (fail_with VICARL_ERR_INVALID_ARGUMENT ''ffi_ledger_read_segment: out_encoded_segment is NULL'')
        else vicarl_ledger_read_segment no True)"

definition vicarl_ffi_ledger_store_kind :: "('e, 'u) vicarl_ffi_ledger option \<Rightarrow> vicarl_store_kind" where
  "vicarl_ffi_ledger_store_kind h =
     (case h of
        None \<Rightarrow> VICARL_STORE_NONE
      | Some x \<Rightarrow> if ffi_ledger x = None then VICARL_STORE_NONE else vicarl_store_kind_of (vicarl_ledger_store (ffi_ledger x)))"

section \<open>Sessions through handles\<close>

definition ffi_room :: "ledger_op \<Rightarrow> (log_env, 'u) ffi_state \<Rightarrow> bool" where
  "ffi_room op s \<longleftrightarrow> op_room op (fst s, Option.bind (snd s) ffi_ledger)"

inductive ffi_step :: "vicarl_allocator \<Rightarrow> (log_env, 'u) ffi_state \<Rightarrow> ledger_op \<Rightarrow> (log_env, 'u) ffi_state \<Rightarrow> bool" for A where
  ffi_append: "vicarl_ffi_ledger_append_record A clk (sl_ptr rec) (sl_len rec) True s = (r, s') \<Longrightarrow> ffi_step A s (OpAppend clk rec) s'"
| ffi_flush: "vicarl_ffi_ledger_flush A clk s = (r, s') \<Longrightarrow> ffi_step A s (OpFlush clk) s'"
| ffi_verify: "vicarl_ffi_ledger_verify A s = Some (r, s') \<Longrightarrow> ffi_step A s OpVerify s'"

inductive ffi_run :: "vicarl_allocator \<Rightarrow> (log_env, 'u) ffi_state \<Rightarrow> (log_env, 'u) ffi_state \<Rightarrow> bool" for A where
  frun_refl: "ffi_run A s s"
| frun_step: "ffi_run A s t \<Longrightarrow> ffi_room op t \<Longrightarrow> ffi_step A t op u \<Longrightarrow> ffi_run A s u"

text \<open>An operation through a handle is the operation on its ledger.\<close>

lemma ffi_step_ledger:
  assumes "ffi_step A (w, Some x) op s'" "ffi_ledger x = Some l" "ffi_room op (w, Some x)"
  obtains w' l' where "s' = (w', Some (x\<lparr>ffi_ledger := l'\<rparr>))" "ledger_step A (w, Some l) op (w', l')"
  using assms(1)
proof (cases rule: ffi_step.cases)
  case (ffi_append clk rec r)
  then have "slice_wf rec" using assms(2,3) by (simp add: ffi_room_def)
  then have nb: "\<not> (sl_len rec > 0 \<and> sl_ptr rec = None)" by (auto simp: slice_wf_def split: option.splits)
  have eta: "\<lparr>sl_ptr = sl_ptr rec, sl_len = sl_len rec\<rparr> = rec" by simp
  obtain r' w' l' where l': "vicarl_ledger_append_record A clk rec True (w, Some l) = (r', (w', l'))" by (metis prod.exhaust)
  then have "s' = (w', Some (x\<lparr>ffi_ledger := l'\<rparr>))"
    using ffi_append(2) assms(2) nb eta by (auto simp: vicarl_ffi_ledger_append_record_def with_handle_def)
  with l' show thesis using that [of w' l'] ffi_append(1) ledger_step.step_append by blast
next
  case (ffi_flush clk r)
  obtain r' w' l' where l': "vicarl_ledger_flush A clk (w, Some l) = (r', (w', l'))" by (metis prod.exhaust)
  then have "s' = (w', Some (x\<lparr>ffi_ledger := l'\<rparr>))"
    using ffi_flush(2) assms(2) by (auto simp: vicarl_ffi_ledger_flush_def with_handle_def)
  with l' show thesis using that [of w' l'] ffi_flush(1) ledger_step.step_flush by blast
next
  case (ffi_verify r)
  then obtain r' w' l' where l': "vicarl_ledger_verify A (w, Some l) = Some (r', (w', l'))" "s' = (w', Some (x\<lparr>ffi_ledger := l'\<rparr>))"
    using assms(2) by (auto simp: vicarl_ffi_ledger_verify_def)
  then show thesis using that [of w' l'] ffi_verify(1) ledger_step.step_verify by blast
qed

lemma ffi_run_good:
  assumes "ffi_run A s t" "alloc_rel A ok rel" "s = (w, Some x)" "ffi_ledger x = Some l" "ledger_good A ok fr recs (w, Some l)"
  shows "\<exists>w' l'. t = (w', Some (x\<lparr>ffi_ledger := Some l'\<rparr>)) \<and> ledger_good A ok fr recs (w', Some l')"
  using assms
proof (induction rule: ffi_run.induct)
  case (frun_refl s)
  have "x = x\<lparr>ffi_ledger := Some l\<rparr>" using frun_refl(3) by (cases x) simp
  with frun_refl show ?case by metis
next
  case (frun_step s t op u)
  then obtain w1 l1 where t: "t = (w1, Some (x\<lparr>ffi_ledger := Some l1\<rparr>))" "ledger_good A ok fr recs (w1, Some l1)" by blast
  obtain w2 l2 where u: "u = (w2, Some (x\<lparr>ffi_ledger := Some l1\<rparr>\<lparr>ffi_ledger := l2\<rparr>))" "ledger_step A (w1, Some l1) op (w2, l2)"
    using ffi_step_ledger [of A w1 "x\<lparr>ffi_ledger := Some l1\<rparr>" op u l1] frun_step.hyps(2,3) t(1) by auto
  have "op_room op (w1, Some l1)" using frun_step.hyps(2) t(1) by (simp add: ffi_room_def)
  from ledger_good_step [OF frun_step.prems(1) t(2) this u(2)] have "ledger_good A ok fr recs (w2, l2)" .
  moreover from this obtain l3 where "l2 = Some l3" by (auto simp: ledger_good_def)
  ultimately show ?case using u(1) by auto
qed

lemma on_log_heap_grown:
  assumes A: "alloc_rel A ok rel" and on: "on_log A ok l w" and h: "heap_to ok (w_heap w) (X \<union> hp_live (w_heap w)) h"
  shows "on_log A ok l (w\<lparr>w_heap := h\<rparr>) \<and> log_own (w\<lparr>w_heap := h\<rparr>) = log_own w \<and> log_chain (w\<lparr>w_heap := h\<rparr>) = log_chain w"
proof -
  obtain p opt where inv: "ledger_inv (log_inv ok) log_own l w" using on by (rule on_logE)
  then have w: "log_inv ok w" by (simp add: ledger_inv_def)
  have "log_inv ok (w\<lparr>w_heap := h\<rparr>) \<and> log_own (w\<lparr>w_heap := h\<rparr>) = log_own w \<and> log_chain (w\<lparr>w_heap := h\<rparr>) = log_chain w"
    using segment_store.heap_change [OF log_segment_store [OF A] w, of h] segment_store.inv_ok [OF log_segment_store [OF A] w] h
    by (auto simp: heap_to_def)
  with on inv h show ?thesis by (auto simp: on_log_def ledger_inv_def heap_to_def)
qed

lemma ffi_wrap_outcome:
  assumes A: "alloc_rel A ok rel" and on: "on_log A ok l w1"
    and l: "lg_opt l = effective_options opt" "lg_buf l = []" "log_chain w1 = segs" and st: "lg_store l = Some st" "st_ptr st \<notin> log_own w1"
    and dis: "insert (st_ptr st) (log_own w1) \<inter> hp_live (w_heap w) = {}"
    and live: "hp_live (w_heap w1) - own_ledger l = hp_live (w_heap w) \<union> insert (st_ptr st) (log_own w1)"
    and bad: "hp_bad (w_heap w1) = hp_bad (w_heap w)"
  shows "outcome (bindr (on_error (vicarl_ledger_close A (Some l)) (on_heap (calloc_or_oom A 1 sizeof_ffi_ledger)))
      (\<lambda>p. retr \<lparr>ffi_ptr = p, ffi_ledger = Some l\<rparr>))
    (\<lambda>x w'. \<exists>l st. ffi_ledger x = Some l \<and> on_log A ok l w' \<and> lg_opt l = effective_options opt \<and> lg_buf l = [] \<and> log_chain w' = segs \<and>
       lg_store l = Some st \<and> st_ptr st \<notin> log_own w' \<and> ffi_ptr x \<notin> hp_live (w_heap w) \<and>
       hp_live (w_heap w') - own_ledger l = insert (ffi_ptr x) (hp_live (w_heap w)) \<union> insert (st_ptr st) (log_own w') \<and>
       insert (st_ptr st) (log_own w') \<inter> insert (ffi_ptr x) (hp_live (w_heap w)) = {} \<and> hp_bad (w_heap w') = hp_bad (w_heap w))
    (\<lambda>e w'. hp_live (w_heap w') = hp_live (w_heap w) \<and> hp_bad (w_heap w') = hp_bad (w_heap w) \<and> env_error rel w e) w1" (is "outcome _ ?Q ?E w1")
proof (rule outcome_bindr, rule outcome_on_error, rule outcome_on_heap)
  let ?L = "hp_live (w_heap w)"
  obtain p opt where inv: "ledger_inv (log_inv ok) log_own l w1" using on by (rule on_logE)
  then have w1: "ok (w_heap w1)" "own_ledger l \<subseteq> hp_live (w_heap w1)" "log_inv ok w1" by (auto simp: ledger_inv_def elim: log_invE)
  let ?L1 = "hp_live (w_heap w1)"
  have "heap_to ok (w_heap w1) ?L1 (w_heap w1)" using w1(1) by (rule heap_to_refl)
  note calloc = calloc_or_oom_outcome [OF A this, of 1 sizeof_ffi_ledger]
  show "outcome (calloc_or_oom A 1 sizeof_ffi_ledger) (\<lambda>p h. outcome (retr \<lparr>ffi_ptr = p, ffi_ledger = Some l\<rparr>) ?Q ?E (w1\<lparr>w_heap := h\<rparr>))
    (\<lambda>e h. ?E e (vicarl_ledger_close A (Some l) (w1\<lparr>w_heap := h\<rparr>))) (w_heap w1)"
  proof (rule outcome_mono [OF calloc])
    fix q h assume q: "q \<notin> ?L1 \<and> heap_to ok (w_heap w1) (insert q ?L1) h"
    then have s: "on_log A ok l (w1\<lparr>w_heap := h\<rparr>)" "log_own (w1\<lparr>w_heap := h\<rparr>) = log_own w1" "log_chain (w1\<lparr>w_heap := h\<rparr>) = log_chain w1"
      using on_log_heap_grown [OF A on, of "{q}" h] by simp_all
    have h: "hp_live h = insert q ?L1" "hp_bad h = hp_bad (w_heap w)" using q bad by (auto simp: heap_to_def)
    have sub: "?L \<union> insert (st_ptr st) (log_own w1) \<subseteq> ?L1" using live by auto
    have "hp_live h - own_ledger l = insert q ?L \<union> insert (st_ptr st) (log_own w1)" unfolding h(1) using live q w1(2) by auto
    moreover have "insert (st_ptr st) (log_own w1) \<inter> insert q ?L = {}" "q \<notin> ?L" using dis q sub by auto
    ultimately have "?Q \<lparr>ffi_ptr = q, ffi_ledger = Some l\<rparr> (w1\<lparr>w_heap := h\<rparr>)" using s l st h(2) by simp
    then show "outcome (retr \<lparr>ffi_ptr = q, ffi_ledger = Some l\<rparr>) ?Q ?E (w1\<lparr>w_heap := h\<rparr>)"
      unfolding outcome_def retr_def prod.case sum.case .
  next
    fix e h assume eh: "e = err_oom \<and> \<not> rel \<and> heap_to ok (w_heap w1) ?L1 h"
    then have e: "heap_to ok (w_heap w1) ?L1 h" by blast
    have err: "env_error rel w e" using eh by (simp add: env_error_def quiet_def)
    from e have s: "on_log A ok l (w1\<lparr>w_heap := h\<rparr>)" "log_own (w1\<lparr>w_heap := h\<rparr>) = log_own w1" using on_log_heap_grown [OF A on, of "{}" h] by simp_all
    have "hp_live (w_heap (w1\<lparr>w_heap := h\<rparr>)) - own_ledger l = ?L \<union> insert (st_ptr st) (log_own (w1\<lparr>w_heap := h\<rparr>))"
      using e live s(2) by (simp add: heap_to_def)
    from close_leaves [OF A s(1) st(1) _ this] s(2) st(2) dis e bad err
    show "?E e (vicarl_ledger_close A (Some l) (w1\<lparr>w_heap := h\<rparr>))" by (simp add: heap_to_def)
  qed (simp add: sizeof_ffi_ledger_def size_mod_def)
qed

lemma ffi_open_outcome:
  fixes open_sqlite :: "string option \<Rightarrow> vicarl_store_options option \<Rightarrow> bool \<Rightarrow> (log_world, (log_env, 'u) vicarl_store) vm"
  assumes A: "alloc_rel A ok rel" and w: "ok (w_heap w)" "fs_close_fail (w_fs w) = []" and dir: "dir \<noteq> []" "dir_chain (w_fs w) dir segs"
    and kind: "lo_store_kind (effective_options opt) \<noteq> VICARL_STORE_SQLITE"
  shows "outcome (vicarl_ffi_ledger_open A open_sqlite (vicarl_store_open_log A) (Some dir) opt True)
    (\<lambda>x w'. \<exists>l st. ffi_ledger x = Some l \<and> on_log A ok l w' \<and> lg_opt l = effective_options opt \<and> lg_buf l = [] \<and> log_chain w' = segs \<and>
       lg_store l = Some st \<and> st_ptr st \<notin> log_own w' \<and> ffi_ptr x \<notin> hp_live (w_heap w) \<and>
       hp_live (w_heap w') - own_ledger l = insert (ffi_ptr x) (hp_live (w_heap w)) \<union> insert (st_ptr st) (log_own w') \<and>
       insert (st_ptr st) (log_own w') \<inter> insert (ffi_ptr x) (hp_live (w_heap w)) = {} \<and> hp_bad (w_heap w') = hp_bad (w_heap w))
    (\<lambda>e w'. hp_live (w_heap w') = hp_live (w_heap w) \<and> hp_bad (w_heap w') = hp_bad (w_heap w) \<and> env_error rel w e) w" (is "outcome _ ?Q ?E w")
proof -
  let ?L = "hp_live (w_heap w)"
  have "outcome (bindr (vicarl_ledger_open A open_sqlite (vicarl_store_open_log A) (Some dir) opt True) (\<lambda>l.
      bindr (on_error (vicarl_ledger_close A (Some l)) (on_heap (calloc_or_oom A 1 sizeof_ffi_ledger)))
      (\<lambda>p. retr \<lparr>ffi_ptr = p, ffi_ledger = Some l\<rparr>))) ?Q ?E w"
  proof (rule outcome_bindr, rule outcome_mono [OF ledger_open_outcome [OF A w dir kind]])
    fix l :: "(log_env, 'u) vicarl_ledger" and w1
    let ?st = "st_ptr (the (lg_store l))"
    assume o: "on_log A ok l w1 \<and> lg_opt l = effective_options opt \<and> lg_buf l = [] \<and> log_chain w1 = segs \<and>
       ledger_blocks l w1 \<inter> ?L = {} \<and> frame_of l w1 = ((?L \<union> insert ?st (log_own w1), hp_bad (w_heap w)), log_own w1, lg_store l, lg_opt l) \<and>
       ?st \<notin> log_own w1 \<and> ?st \<notin> own_ledger l"
    obtain st where st: "lg_store l = Some st" using o by (auto simp: on_log_def log_handle_def)
    have "insert (st_ptr st) (log_own w1) \<inter> ?L = {}" using o st by (auto simp: ledger_blocks_def)
    with o st show "outcome (bindr (on_error (vicarl_ledger_close A (Some l)) (on_heap (calloc_or_oom A 1 sizeof_ffi_ledger)))
      (\<lambda>p. retr \<lparr>ffi_ptr = p, ffi_ledger = Some l\<rparr>)) ?Q ?E w1" by (intro ffi_wrap_outcome [OF A, of l w1 opt segs st w]) (auto simp: frame_of_def)
  qed (simp add: heap_to_def)
  with dir(1) show ?thesis by (simp add: vicarl_ffi_ledger_open_def)
qed

section \<open>Properties\<close>



end
