(* ===== verification/Vicarl_Sql.thy ===== *)
theory Vicarl_Sql
  imports Vicarl_Prelude "HOL-Library.Product_Lexorder"
begin

text \<open>
  The SQLite library as \<^verbatim>\<open>src/store/store_sqlite.c\<close> sees it. The library is not part of the repository: its functions
  are the fields of \<^verbatim>\<open>sqlite3_api\<close>, on a state \<open>'d\<close> of which nothing is known, and every function of the store takes
  them as an argument. The locale \<^verbatim>\<open>sqlite_library\<close> names what the store relies on, in the words of the library's
  documentation: a prepared statement has parameters and yields rows, a transaction takes effect as
  a whole or not at all, a rollback restores the database, and what each of the statements in the
  source means.
\<close>

section \<open>The interface\<close>

text \<open>Connections and prepared statements are pointers.\<close>

type_synonym dbh = nat
type_synonym stmth = nat

datatype sqlite_rc = SQLITE_OK | SQLITE_ROW | SQLITE_DONE | SQLITE_FAILED int

text \<open>
  A string result is \<^const>\<open>None\<close> for NULL. A blob or text argument is what the library copies from the pointer
  (\<^verbatim>\<open>SQLITE_TRANSIENT\<close>), \<^const>\<open>None\<close> for a NULL pointer; a blob result is what can be read at the pointer. Return codes
  nobody looks at are left out.
\<close>

record 'd sqlite3_api =
  sqlite3_open :: "string \<Rightarrow> 'd \<Rightarrow> (sqlite_rc \<times> dbh option) \<times> 'd"
  sqlite3_close :: "dbh \<Rightarrow> 'd \<Rightarrow> 'd"
  sqlite3_errmsg :: "dbh \<Rightarrow> 'd \<Rightarrow> string option"
  sqlite3_exec :: "dbh \<Rightarrow> string \<Rightarrow> 'd \<Rightarrow> (sqlite_rc \<times> string option) \<times> 'd"
  sqlite3_free :: "string \<Rightarrow> 'd \<Rightarrow> 'd"
  sqlite3_busy_timeout :: "dbh \<Rightarrow> int \<Rightarrow> 'd \<Rightarrow> 'd"
  sqlite3_prepare_v2 :: "dbh \<Rightarrow> string \<Rightarrow> 'd \<Rightarrow> (sqlite_rc \<times> stmth) \<times> 'd"
  sqlite3_bind_int64 :: "stmth \<Rightarrow> nat \<Rightarrow> u64 \<Rightarrow> 'd \<Rightarrow> 'd"
  sqlite3_bind_blob :: "stmth \<Rightarrow> nat \<Rightarrow> bytes option \<Rightarrow> 'd \<Rightarrow> 'd"
  sqlite3_bind_text :: "stmth \<Rightarrow> nat \<Rightarrow> bytes option \<Rightarrow> 'd \<Rightarrow> 'd"
  sqlite3_step :: "stmth \<Rightarrow> 'd \<Rightarrow> sqlite_rc \<times> 'd"
  sqlite3_column_int64 :: "stmth \<Rightarrow> nat \<Rightarrow> 'd \<Rightarrow> u64"
  sqlite3_column_blob :: "stmth \<Rightarrow> nat \<Rightarrow> 'd \<Rightarrow> bytes option"
  sqlite3_column_bytes :: "stmth \<Rightarrow> nat \<Rightarrow> 'd \<Rightarrow> int"
  sqlite3_reset :: "stmth \<Rightarrow> 'd \<Rightarrow> 'd"
  sqlite3_clear_bindings :: "stmth \<Rightarrow> 'd \<Rightarrow> 'd"
  sqlite3_finalize :: "stmth \<Rightarrow> 'd \<Rightarrow> 'd"

section \<open>Values, tables, databases\<close>

text \<open>Integers are signed 64-bit numbers.\<close>

datatype sql_value = SqlNull | SqlInt u64 | SqlText bytes | SqlBlob bytes

record seg_row =
  sr_no :: u64
  sr_hash :: sql_value
  sr_bytes :: sql_value

record rec_row =
  rr_id :: sql_value
  rr_no :: sql_value
  rr_idx :: sql_value
  rr_namespace :: sql_value
  rr_schema :: sql_value
  rr_author :: sql_value
  rr_time :: sql_value
  rr_bytes :: sql_value

text \<open>The two tables, \<^const>\<open>None\<close> if a table was not created; rows in the order of insertion. The column \<^verbatim>\<open>created_ms\<close> is never read.\<close>

record sqldb =
  db_segments :: "seg_row list option"
  db_records :: "rec_row list option"

definition empty_db :: sqldb where
  "empty_db = \<lparr>db_segments = None, db_records = None\<rparr>"

definition seg_table :: "sqldb \<Rightarrow> seg_row list" where
  "seg_table db = (case db_segments db of None \<Rightarrow> [] | Some rs \<Rightarrow> rs)"

definition rec_table :: "sqldb \<Rightarrow> rec_row list" where
  "rec_table db = (case db_records db of None \<Rightarrow> [] | Some rs \<Rightarrow> rs)"

fun int_of :: "sql_value \<Rightarrow> int" where
  "int_of (SqlInt v) = sint v"
| "int_of _ = 0"

definition row_key :: "rec_row \<Rightarrow> int \<times> int" where
  "row_key r = (int_of (rr_no r), int_of (rr_idx r))"

section \<open>The statements of the store\<close>

text \<open>
  The prepared statements. The last one has the optional conditions on namespace, schema, author, the lower and the upper
  bound of the time, and the optional limit.
\<close>

datatype sql =
    SelectTip
  | SelectBytes
  | SelectFrom
  | SelectRecord
  | InsertSegment
  | InsertRecord
  | SelectRecords bool bool bool bool bool bool

definition conds_text :: "(bool \<times> string) list \<Rightarrow> string" where
  "conds_text cs =
     (case map snd (filter fst cs) of
        [] \<Rightarrow> ''''
      | c # ds \<Rightarrow> ''WHERE '' @ c @ concat (map (\<lambda>d. ''AND '' @ d) ds))"

fun sql_text :: "sql \<Rightarrow> string" where
  "sql_text SelectTip = ''SELECT segment_no, hash FROM segments ORDER BY segment_no DESC LIMIT 1;''"
| "sql_text SelectBytes = ''SELECT bytes FROM segments WHERE segment_no = ?1;''"
| "sql_text SelectFrom = ''SELECT segment_no, hash FROM segments WHERE segment_no >= ?1 ORDER BY segment_no ASC;''"
| "sql_text SelectRecord = ''SELECT record_bytes FROM records WHERE record_id = ?1;''"
| "sql_text InsertSegment =
     ''INSERT INTO segments(segment_no, hash, bytes, created_ms) VALUES(?1, ?2, ?3, strftime('%s','now')*1000);''"
| "sql_text InsertRecord =
     ''INSERT INTO records(record_id, segment_no, idx_in_segment, namespace, schema, author, timestamp_ms, record_bytes) '' @
     ''VALUES(?1, ?2, ?3, ?4, ?5, ?6, ?7, ?8);''"
| "sql_text (SelectRecords n s a f t l) =
     ''SELECT record_id, segment_no, idx_in_segment FROM records '' @
     conds_text [(n, ''namespace = ?1 ''), (s, ''schema = ?2 ''), (a, ''author = ?3 ''),
                 (f, ''timestamp_ms >= ?4 ''), (t, ''timestamp_ms <= ?5 '')] @
     ''ORDER BY segment_no ASC, idx_in_segment ASC '' @ (if l then ''LIMIT ?6;'' else '';'')"

text \<open>The tables a statement needs.\<close>

fun sql_ready :: "sql \<Rightarrow> sqldb \<Rightarrow> bool" where
  "sql_ready SelectRecord db \<longleftrightarrow> db_records db \<noteq> None"
| "sql_ready InsertRecord db \<longleftrightarrow> db_records db \<noteq> None"
| "sql_ready (SelectRecords n s a f t l) db \<longleftrightarrow> db_records db \<noteq> None"
| "sql_ready _ db \<longleftrightarrow> db_segments db \<noteq> None"

text \<open>Comparisons: with NULL nothing is equal, greater or less; integers compare as signed numbers.\<close>

definition sql_eq :: "sql_value \<Rightarrow> sql_value \<Rightarrow> bool" where
  "sql_eq x y \<longleftrightarrow> x \<noteq> SqlNull \<and> x = y"

fun sql_le :: "sql_value \<Rightarrow> sql_value \<Rightarrow> bool" where
  "sql_le (SqlInt x) (SqlInt y) \<longleftrightarrow> sint x \<le> sint y"
| "sql_le _ _ \<longleftrightarrow> False"

text \<open>The rows of a query with the given parameters.\<close>

fun sql_rows :: "sql \<Rightarrow> (nat \<Rightarrow> sql_value) \<Rightarrow> sqldb \<Rightarrow> sql_value list list" where
  "sql_rows SelectTip arg db =
     take 1 (map (\<lambda>r. [SqlInt (sr_no r), sr_hash r]) (rev (sort_key (\<lambda>r. sint (sr_no r)) (seg_table db))))"
| "sql_rows SelectBytes arg db =
     map (\<lambda>r. [sr_bytes r]) (filter (\<lambda>r. sql_eq (SqlInt (sr_no r)) (arg 1)) (seg_table db))"
| "sql_rows SelectFrom arg db =
     map (\<lambda>r. [SqlInt (sr_no r), sr_hash r])
       (sort_key (\<lambda>r. sint (sr_no r)) (filter (\<lambda>r. sql_le (arg 1) (SqlInt (sr_no r))) (seg_table db)))"
| "sql_rows SelectRecord arg db =
     map (\<lambda>r. [rr_bytes r]) (filter (\<lambda>r. sql_eq (rr_id r) (arg 1)) (rec_table db))"
| "sql_rows (SelectRecords n s a f t l) arg db =
     (let rows = sort_key row_key
        (filter (\<lambda>r. (n \<longrightarrow> sql_eq (rr_namespace r) (arg 1)) \<and> (s \<longrightarrow> sql_eq (rr_schema r) (arg 2)) \<and>
                     (a \<longrightarrow> sql_eq (rr_author r) (arg 3)) \<and> (f \<longrightarrow> sql_le (arg 4) (rr_time r)) \<and>
                     (t \<longrightarrow> sql_le (rr_time r) (arg 5))) (rec_table db))
      in map (\<lambda>r. [rr_id r, rr_no r, rr_idx r]) (if l then take (nat (int_of (arg 6))) rows else rows))"
| "sql_rows _ arg db = []"

text \<open>
  The effect of an insertion, \<^const>\<open>None\<close> if a constraint of the table forbids it: the primary key is taken or a
  \<^verbatim>\<open>NOT NULL\<close> column is NULL. A primary key that is not an integer may be NULL.
\<close>

definition seg_row_of :: "(nat \<Rightarrow> sql_value) \<Rightarrow> u64 \<Rightarrow> seg_row" where
  "seg_row_of arg no = \<lparr>sr_no = no, sr_hash = arg 2, sr_bytes = arg 3\<rparr>"

definition rec_row_of :: "(nat \<Rightarrow> sql_value) \<Rightarrow> rec_row" where
  "rec_row_of arg = \<lparr>rr_id = arg 1, rr_no = arg 2, rr_idx = arg 3, rr_namespace = arg 4, rr_schema = arg 5,
     rr_author = arg 6, rr_time = arg 7, rr_bytes = arg 8\<rparr>"

fun sql_effect :: "sql \<Rightarrow> (nat \<Rightarrow> sql_value) \<Rightarrow> sqldb \<Rightarrow> sqldb option" where
  "sql_effect InsertSegment arg db =
     (case arg 1 of
        SqlInt no \<Rightarrow>
          if no \<notin> set (map sr_no (seg_table db)) \<and> arg 2 \<noteq> SqlNull \<and> arg 3 \<noteq> SqlNull
          then Some (db\<lparr>db_segments := Some (seg_table db @ [seg_row_of arg no])\<rparr>) else None
      | _ \<Rightarrow> None)"
| "sql_effect InsertRecord arg db =
     (if arg 1 \<notin> set (map rr_id (rec_table db)) - {SqlNull} \<and> arg 2 \<noteq> SqlNull \<and> arg 3 \<noteq> SqlNull \<and> arg 8 \<noteq> SqlNull
      then Some (db\<lparr>db_records := Some (rec_table db @ [rec_row_of arg])\<rparr>) else None)"
| "sql_effect _ arg db = None"

text \<open>
  The size of a row in the file format: a header of variable-length numbers, one per column, and
  the values. The foreign key of the records.
\<close>

fun value_size :: "sql_value \<Rightarrow> nat" where
  "value_size SqlNull = 0"
| "value_size (SqlInt v) = 8"
| "value_size (SqlText t) = length t"
| "value_size (SqlBlob b) = length b"

fun row_size :: "sql \<Rightarrow> (nat \<Rightarrow> sql_value) \<Rightarrow> nat" where
  "row_size InsertSegment arg = 9 * 5 + 8 + sum_list (map (value_size \<circ> arg) [1..<4])"
| "row_size InsertRecord arg = 9 * 9 + sum_list (map (value_size \<circ> arg) [1..<9])"
| "row_size _ arg = 0"

fun foreign_ok :: "sql \<Rightarrow> (nat \<Rightarrow> sql_value) \<Rightarrow> sqldb \<Rightarrow> bool" where
  "foreign_ok InsertRecord arg db \<longleftrightarrow> arg 2 \<in> SqlInt ` set (map sr_no (seg_table db))"
| "foreign_ok _ arg db \<longleftrightarrow> True"

text \<open>
  When the documentation determines the rows of a query: no two rows of a table are equal in the sort
  key, and no text contains a NUL byte (comparing such texts is left undefined).
\<close>

fun nul_free :: "sql_value \<Rightarrow> bool" where
  "nul_free (SqlText t) \<longleftrightarrow> 0 \<notin> set t"
| "nul_free _ \<longleftrightarrow> True"

fun rows_determined :: "sql \<Rightarrow> (nat \<Rightarrow> sql_value) \<Rightarrow> sqldb \<Rightarrow> bool" where
  "rows_determined (SelectRecords n s a f t l) arg db \<longleftrightarrow>
     distinct (map row_key (rec_table db)) \<and>
     (n \<longrightarrow> nul_free (arg 1) \<and> (\<forall>r \<in> set (rec_table db). nul_free (rr_namespace r))) \<and>
     (s \<longrightarrow> nul_free (arg 2) \<and> (\<forall>r \<in> set (rec_table db). nul_free (rr_schema r)))"
| "rows_determined _ arg db \<longleftrightarrow> True"

text \<open>The commands that are executed without parameters.\<close>

datatype sql_command =
    Begin
  | Commit
  | Rollback
  | Pragma string
  | CreateSegments
  | CreateRecords
  | CreateIndex string string string

fun command_text :: "sql_command \<Rightarrow> string" where
  "command_text Begin = ''BEGIN IMMEDIATE;''"
| "command_text Commit = ''COMMIT;''"
| "command_text Rollback = ''ROLLBACK;''"
| "command_text (Pragma p) = ''PRAGMA '' @ p @ '';''"
| "command_text CreateSegments =
     ''CREATE TABLE IF NOT EXISTS segments ('' @
     ''  segment_no   INTEGER PRIMARY KEY,'' @
     ''  hash         BLOB NOT NULL,'' @
     ''  bytes        BLOB NOT NULL,'' @
     ''  created_ms   INTEGER NOT NULL'' @
     '');''"
| "command_text CreateRecords =
     ''CREATE TABLE IF NOT EXISTS records ('' @
     ''  record_id     BLOB PRIMARY KEY,'' @
     ''  segment_no    INTEGER NOT NULL,'' @
     ''  idx_in_segment INTEGER NOT NULL,'' @
     ''  namespace     TEXT,'' @
     ''  schema        TEXT,'' @
     ''  author        BLOB,'' @
     ''  timestamp_ms  INTEGER,'' @
     ''  record_bytes  BLOB NOT NULL,'' @
     ''  FOREIGN KEY(segment_no) REFERENCES segments(segment_no)'' @
     '');''"
| "command_text (CreateIndex i t c) = ''CREATE INDEX IF NOT EXISTS '' @ i @ '' ON '' @ t @ ''('' @ c @ '');''"

fun create_in :: "sql_command \<Rightarrow> sqldb \<Rightarrow> sqldb" where
  "create_in CreateSegments db = db\<lparr>db_segments := Some (seg_table db)\<rparr>"
| "create_in CreateRecords db = db\<lparr>db_records := Some (rec_table db)\<rparr>"
| "create_in _ db = db"

definition store_commands :: "sql_command list" where
  "store_commands =
     [Begin, Commit, Rollback, Pragma ''journal_mode=WAL'', Pragma ''journal_mode=DELETE'', Pragma ''synchronous=OFF'',
      Pragma ''synchronous=NORMAL'', Pragma ''synchronous=FULL'', Pragma ''foreign_keys=ON'', CreateSegments, CreateRecords,
      CreateIndex ''idx_segments_created'' ''segments'' ''created_ms'', CreateIndex ''idx_records_segment'' ''records'' ''segment_no'',
      CreateIndex ''idx_records_ns'' ''records'' ''namespace'', CreateIndex ''idx_records_schema'' ''records'' ''schema'',
      CreateIndex ''idx_records_author'' ''records'' ''author'', CreateIndex ''idx_records_time'' ''records'' ''timestamp_ms'']"

declare sql_text.simps [simp del] command_text.simps [simp del]

section \<open>What can be seen of the library\<close>

text \<open>
  A prepared statement: its connection, its text, its parameters, and once it runs the current row and the rows to come.
  A connection: the database file and, inside a transaction, the database as the transaction sees it. The files hold
  what is committed.
\<close>

record sql_stmt =
  sm_db :: dbh
  sm_sql :: sql
  sm_args :: "nat \<Rightarrow> sql_value"
  sm_run :: "(sql_value list \<times> sql_value list list) option"

type_synonym conn = "string \<times> sqldb option"

record sql_view =
  vw_files :: "string \<Rightarrow> sqldb"
  vw_conns :: "dbh \<Rightarrow> conn option"
  vw_stmts :: "stmth \<Rightarrow> sql_stmt option"

definition current_db :: "sql_view \<Rightarrow> conn \<Rightarrow> sqldb" where
  "current_db v c = (case snd c of None \<Rightarrow> vw_files v (fst c) | Some db \<Rightarrow> db)"

definition set_conn :: "dbh \<Rightarrow> conn option \<Rightarrow> sql_view \<Rightarrow> sql_view" where
  "set_conn h c v = v\<lparr>vw_conns := (vw_conns v)(h := c)\<rparr>"

definition set_stmt :: "stmth \<Rightarrow> sql_stmt option \<Rightarrow> sql_view \<Rightarrow> sql_view" where
  "set_stmt s st v = v\<lparr>vw_stmts := (vw_stmts v)(s := st)\<rparr>"

definition set_file :: "string \<Rightarrow> sqldb \<Rightarrow> sql_view \<Rightarrow> sql_view" where
  "set_file p db v = v\<lparr>vw_files := (vw_files v)(p := db)\<rparr>"

definition set_current :: "dbh \<Rightarrow> conn \<Rightarrow> sqldb \<Rightarrow> sql_view \<Rightarrow> sql_view" where
  "set_current h c db v = (case snd c of None \<Rightarrow> set_file (fst c) db v | Some _ \<Rightarrow> set_conn h (Some (fst c, Some db)) v)"

text \<open>Many errors make the library roll back a transaction on its own.\<close>

definition tx_lost :: "dbh \<Rightarrow> sql_view \<Rightarrow> sql_view \<Rightarrow> bool" where
  "tx_lost h v v' \<longleftrightarrow> v' = v \<or> (\<exists>p tx. vw_conns v h = Some (p, tx) \<and> v' = set_conn h (Some (p, None)) v)"

text \<open>A command: when nothing stands in its way, its effect, and what an error may leave behind.\<close>

fun exec_allowed :: "sql_command \<Rightarrow> sqldb option \<Rightarrow> bool" where
  "exec_allowed Begin tx \<longleftrightarrow> tx = None"
| "exec_allowed Commit tx \<longleftrightarrow> tx \<noteq> None"
| "exec_allowed Rollback tx \<longleftrightarrow> tx \<noteq> None"
| "exec_allowed _ tx \<longleftrightarrow> True"

fun exec_effect :: "sql_command \<Rightarrow> dbh \<Rightarrow> conn \<Rightarrow> sql_view \<Rightarrow> sql_view" where
  "exec_effect Begin h c v = set_conn h (Some (fst c, Some (vw_files v (fst c)))) v"
| "exec_effect Commit h c v = set_conn h (Some (fst c, None)) (set_file (fst c) (current_db v c) v)"
| "exec_effect Rollback h c v = set_conn h (Some (fst c, None)) v"
| "exec_effect (Pragma p) h c v = v"
| "exec_effect cmd h c v = set_current h c (create_in cmd (current_db v c)) v"

text \<open>Text and blobs bound to a parameter; a NULL pointer binds NULL.\<close>

definition opt_value :: "(bytes \<Rightarrow> sql_value) \<Rightarrow> bytes option \<Rightarrow> sql_value" where
  "opt_value mk b = (case b of None \<Rightarrow> SqlNull | Some bs \<Rightarrow> mk bs)"

section \<open>The contract\<close>

text \<open>
  \<open>view\<close> is what the state means, \<open>healthy\<close> that nothing outside the program (memory, disk, other
  processes) makes a call fail, \<open>max_len\<close> the limit \<^verbatim>\<open>SQLITE_LIMIT_LENGTH\<close> on strings, blobs and rows.
\<close>

locale sqlite_library =
  fixes L :: "'d sqlite3_api"
    and view :: "'d \<Rightarrow> sql_view"
    and healthy :: "'d \<Rightarrow> bool"
    and max_len :: nat
  assumes max_len_le: "max_len < 2 ^ 31"
    and open_law: "sqlite3_open L path d = ((rc, opened), d') \<Longrightarrow> (healthy d \<longrightarrow> healthy d' \<and> rc = SQLITE_OK) \<and>
      (rc = SQLITE_OK \<longrightarrow> opened \<noteq> None) \<and>
      (case opened of None \<Rightarrow> view d' = view d
       | Some h \<Rightarrow> vw_conns (view d) h = None \<and> (\<forall>s st. vw_stmts (view d) s = Some st \<longrightarrow> sm_db st \<noteq> h) \<and>
           view d' = set_conn h (Some (path, None)) (view d))"
    and close_law: "vw_conns (view d) h \<noteq> None \<Longrightarrow> \<forall>s st. vw_stmts (view d) s = Some st \<longrightarrow> sm_db st \<noteq> h \<Longrightarrow>
      view (sqlite3_close L h d) = set_conn h None (view d) \<and> (healthy d \<longrightarrow> healthy (sqlite3_close L h d))"
    and exec_law: "cmd \<in> set store_commands \<Longrightarrow> vw_conns (view d) h = Some c \<Longrightarrow>
      sqlite3_exec L h (command_text cmd) d = ((rc, err), d') \<Longrightarrow> (healthy d \<longrightarrow> healthy d') \<and>
      (if rc = SQLITE_OK then exec_allowed cmd (snd c) \<and> view d' = exec_effect cmd h c (view d)
       else \<not> (healthy d \<and> exec_allowed cmd (snd c)) \<and> tx_lost h (view d) (view d'))"
    and free_law: "view (sqlite3_free L m d) = view d \<and> healthy (sqlite3_free L m d) = healthy d"
    and timeout_law: "view (sqlite3_busy_timeout L h ms d) = view d \<and> healthy (sqlite3_busy_timeout L h ms d) = healthy d"
    and prepare_law: "vw_conns (view d) h = Some c \<Longrightarrow>
      sqlite3_prepare_v2 L h (sql_text q) d = ((rc, s), d') \<Longrightarrow> (healthy d \<longrightarrow> healthy d') \<and>
      (if rc = SQLITE_OK
       then sql_ready q (current_db (view d) c) \<and> vw_stmts (view d) s = None \<and>
         view d' = set_stmt s (Some \<lparr>sm_db = h, sm_sql = q, sm_args = (\<lambda>_. SqlNull), sm_run = None\<rparr>) (view d)
       else \<not> (healthy d \<and> sql_ready q (current_db (view d) c)) \<and> tx_lost h (view d) (view d'))"
    and bind_int64_law: "vw_stmts (view d) s = Some st \<Longrightarrow> sm_run st = None \<Longrightarrow>
      view (sqlite3_bind_int64 L s i x d) = set_stmt s (Some (st\<lparr>sm_args := (sm_args st)(i := SqlInt x)\<rparr>)) (view d) \<and>
      (healthy d \<longrightarrow> healthy (sqlite3_bind_int64 L s i x d))"
    and bind_blob_law: "vw_stmts (view d) s = Some st \<Longrightarrow> sm_run st = None \<Longrightarrow>
      (view (sqlite3_bind_blob L s i b d) = set_stmt s (Some (st\<lparr>sm_args := (sm_args st)(i := opt_value SqlBlob b)\<rparr>)) (view d) \<and>
         (\<forall>bs. b = Some bs \<longrightarrow> length bs \<le> max_len) \<or>
       view (sqlite3_bind_blob L s i b d) = view d \<and> \<not> (healthy d \<and> (\<forall>bs. b = Some bs \<longrightarrow> length bs \<le> max_len))) \<and>
      (healthy d \<longrightarrow> healthy (sqlite3_bind_blob L s i b d))"
    and bind_text_law: "vw_stmts (view d) s = Some st \<Longrightarrow> sm_run st = None \<Longrightarrow>
      (view (sqlite3_bind_text L s i b d) = set_stmt s (Some (st\<lparr>sm_args := (sm_args st)(i := opt_value SqlText b)\<rparr>)) (view d) \<and>
         (\<forall>bs. b = Some bs \<longrightarrow> length bs \<le> max_len) \<or>
       view (sqlite3_bind_text L s i b d) = view d \<and> \<not> (healthy d \<and> (\<forall>bs. b = Some bs \<longrightarrow> length bs \<le> max_len))) \<and>
      (healthy d \<longrightarrow> healthy (sqlite3_bind_text L s i b d))"
    and select_law: "vw_stmts (view d) s = Some st \<Longrightarrow> vw_conns (view d) (sm_db st) = Some c \<Longrightarrow>
      sm_sql st \<notin> {InsertSegment, InsertRecord} \<Longrightarrow>
      (case sm_run st of None \<Rightarrow> rows_determined (sm_sql st) (sm_args st) (current_db (view d) c) \<and>
           rows = sql_rows (sm_sql st) (sm_args st) (current_db (view d) c)
       | Some (r, rest) \<Rightarrow> rows = rest) \<Longrightarrow>
      sqlite3_step L s d = (rc, d') \<Longrightarrow> (healthy d \<longrightarrow> healthy d') \<and>
      (if rc = SQLITE_ROW then \<exists>r rest. rows = r # rest \<and> view d' = set_stmt s (Some (st\<lparr>sm_run := Some (r, rest)\<rparr>)) (view d)
       else if rc = SQLITE_DONE then rows = [] \<and> (\<exists>run. view d' = set_stmt s (Some (st\<lparr>sm_run := run\<rparr>)) (view d))
       else \<not> healthy d \<and> (\<exists>run v. tx_lost (sm_db st) (view d) v \<and> view d' = set_stmt s (Some (st\<lparr>sm_run := run\<rparr>)) v))"
    and insert_law: "vw_stmts (view d) s = Some st \<Longrightarrow> vw_conns (view d) (sm_db st) = Some (p, Some db) \<Longrightarrow>
      sm_sql st \<in> {InsertSegment, InsertRecord} \<Longrightarrow> sm_run st = None \<Longrightarrow> (\<exists>no. sm_args st (if sm_sql st = InsertSegment then 1 else 2) = SqlInt no) \<Longrightarrow>
      sqlite3_step L s d = (rc, d') \<Longrightarrow> (healthy d \<longrightarrow> healthy d') \<and>
      (if rc = SQLITE_DONE
       then \<exists>db' run. sql_effect (sm_sql st) (sm_args st) db = Some db' \<and>
         view d' = set_stmt s (Some (st\<lparr>sm_run := run\<rparr>)) (set_conn (sm_db st) (Some (p, Some db')) (view d))
       else \<not> (healthy d \<and> sql_effect (sm_sql st) (sm_args st) db \<noteq> None \<and> foreign_ok (sm_sql st) (sm_args st) db \<and>
              row_size (sm_sql st) (sm_args st) \<le> max_len) \<and>
         (\<exists>run v. tx_lost (sm_db st) (view d) v \<and> view d' = set_stmt s (Some (st\<lparr>sm_run := run\<rparr>)) v))"
    and column_int64_law: "vw_stmts (view d) s = Some st \<Longrightarrow> sm_run st = Some (row, rest) \<Longrightarrow> i < length row \<Longrightarrow> row ! i = SqlInt x \<Longrightarrow>
      sqlite3_column_int64 L s i d = x"
    and column_blob_law: "vw_stmts (view d) s = Some st \<Longrightarrow> sm_run st = Some (row, rest) \<Longrightarrow> i < length row \<Longrightarrow> row ! i = SqlBlob blob \<Longrightarrow>
      sqlite3_column_blob L s i d = (if blob = [] then None else Some blob) \<and> sqlite3_column_bytes L s i d = int (length blob)"
    and reset_law: "vw_stmts (view d) s = Some st \<Longrightarrow>
      view (sqlite3_reset L s d) = set_stmt s (Some (st\<lparr>sm_run := None\<rparr>)) (view d) \<and> (healthy d \<longrightarrow> healthy (sqlite3_reset L s d))"
    and clear_law: "vw_stmts (view d) s = Some st \<Longrightarrow> sm_run st = None \<Longrightarrow>
      view (sqlite3_clear_bindings L s d) = set_stmt s (Some (st\<lparr>sm_args := (\<lambda>_. SqlNull)\<rparr>)) (view d) \<and>
      (healthy d \<longrightarrow> healthy (sqlite3_clear_bindings L s d))"
    and finalize_law: "vw_stmts (view d) s \<noteq> None \<Longrightarrow>
      view (sqlite3_finalize L s d) = set_stmt s None (view d) \<and> (healthy d \<longrightarrow> healthy (sqlite3_finalize L s d))"

end
