(* ===== verification/Vicarl_StoreSqlite.thy ===== *)
theory Vicarl_StoreSqlite
  imports Vicarl_StoreLog Vicarl_Sql
begin

text \<open>
  The SQLite store, \<^verbatim>\<open>src/store/store_sqlite.c\<close>: its state, every function of its table, opening and closing, on an
  arbitrary library \<^verbatim>\<open>sqlite3_api\<close>. The state of the store is \<^verbatim>\<open>sqlite_store\<close>, the environment adds the state of the library. The
  second half runs the functions on a library that keeps the contract \<^verbatim>\<open>sqlite_library\<close>: what each call may leave
  behind, the invariant that ties the tables to a chain of segments, and reading.
\<close>

section \<open>State\<close>

record sqlite_store =
  sq_ptr :: addr
  sq_db :: "dbh option"
  sq_tip_no :: u64
  sq_tip_hash :: vicarl_hash32
  sq_has_tip :: bool
  record_index_enabled :: bool

record 'd sqlite_env =
  se_impl :: "sqlite_store option"
  se_lib :: 'd

type_synonym 'd sqlite_world = "'d sqlite_env world"

definition w_lib :: "'d sqlite_world \<Rightarrow> 'd" where
  "w_lib w = se_lib (w_env w)"

definition set_lib :: "'d \<Rightarrow> 'd sqlite_world \<Rightarrow> 'd sqlite_world" where
  "set_lib d w = w\<lparr>w_env := (w_env w)\<lparr>se_lib := d\<rparr>\<rparr>"

definition set_sqlite :: "sqlite_store option \<Rightarrow> 'd sqlite_world \<Rightarrow> 'd sqlite_world" where
  "set_sqlite ss w = w\<lparr>w_env := (w_env w)\<lparr>se_impl := ss\<rparr>\<rparr>"

text \<open>Calling the library: for a result, for its effect, and to look at its state.\<close>

definition lib_call :: "('d \<Rightarrow> 'a \<times> 'd) \<Rightarrow> ('d sqlite_world, 'a) vm" where
  "lib_call f w = (case f (w_lib w) of (x, d) \<Rightarrow> (Inr x, set_lib d w))"

definition lib_do :: "('d \<Rightarrow> 'd) \<Rightarrow> ('d sqlite_world, unit) vm" where
  "lib_do f w = (Inr (), set_lib (f (w_lib w)) w)"

definition lib_get :: "('d \<Rightarrow> 'a) \<Rightarrow> ('d sqlite_world, 'a) vm" where
  "lib_get f w = (Inr (f (w_lib w)), w)"

text \<open>A call whose status is ignored.\<close>

definition ignoring :: "('s, 'a) vm \<Rightarrow> ('s, unit) vm" where
  "ignoring m s = (Inr (), snd (m s))"

section \<open>Helpers\<close>

definition sqlerr :: "'d sqlite3_api \<Rightarrow> dbh option \<Rightarrow> string \<Rightarrow> ('d sqlite_world, 'a) vm" where
  "sqlerr L db what w =
     (let msg = (case db of None \<Rightarrow> Some ''sqlite error'' | Some h \<Rightarrow> sqlite3_errmsg L h (w_lib w)) in
      (Inl (fail_with VICARL_ERR_IO (what @ '': '' @ (case msg of None \<Rightarrow> ''(null)'' | Some m \<Rightarrow> m))), w))"

definition exec_sql :: "'d sqlite3_api \<Rightarrow> dbh \<Rightarrow> string \<Rightarrow> ('d sqlite_world, unit) vm" where
  "exec_sql L db sql =
     bindr (lib_call (sqlite3_exec L db sql)) (\<lambda>(rc, err).
     if rc \<noteq> SQLITE_OK then
       (case err of
          Some m \<Rightarrow> bindr (lib_do (sqlite3_free L m)) (\<lambda>_. failr (fail_with VICARL_ERR_IO (''sqlite exec failed: '' @ m)))
        | None \<Rightarrow> failr (fail_with VICARL_ERR_IO ''sqlite exec failed''))
     else retr ())"

definition apply_pragmas :: "'d sqlite3_api \<Rightarrow> dbh \<Rightarrow> vicarl_store_options option \<Rightarrow> ('d sqlite_world, unit) vm" where
  "apply_pragmas L db opt =
     bindr (case opt of
              Some x \<Rightarrow> if sqlite_wal x \<noteq> 0 then exec_sql L db ''PRAGMA journal_mode=WAL;'' else exec_sql L db ''PRAGMA journal_mode=DELETE;''
            | None \<Rightarrow> exec_sql L db ''PRAGMA journal_mode=DELETE;'') (\<lambda>_.
     let sync_sql = (case opt of
           None \<Rightarrow> ''PRAGMA synchronous=NORMAL;''
         | Some x \<Rightarrow> if sqlite_synchronous x = 0 then ''PRAGMA synchronous=OFF;''
                     else if sqlite_synchronous x = 2 then ''PRAGMA synchronous=FULL;''
                     else ''PRAGMA synchronous=NORMAL;'') in
     bindr (exec_sql L db sync_sql) (\<lambda>_.
     bindr (exec_sql L db ''PRAGMA foreign_keys=ON;'') (\<lambda>_.
     lib_do (sqlite3_busy_timeout L db 3000))))"

definition ensure_schema :: "'d sqlite3_api \<Rightarrow> dbh \<Rightarrow> bool \<Rightarrow> ('d sqlite_world, unit) vm" where
  "ensure_schema L db index =
     bindr (exec_sql L db (command_text CreateSegments)) (\<lambda>_.
     bindr (exec_sql L db ''CREATE INDEX IF NOT EXISTS idx_segments_created ON segments(created_ms);'') (\<lambda>_.
     if index then
       bindr (exec_sql L db (command_text CreateRecords)) (\<lambda>_.
       bindr (exec_sql L db ''CREATE INDEX IF NOT EXISTS idx_records_segment ON records(segment_no);'') (\<lambda>_.
       bindr (exec_sql L db ''CREATE INDEX IF NOT EXISTS idx_records_ns ON records(namespace);'') (\<lambda>_.
       bindr (exec_sql L db ''CREATE INDEX IF NOT EXISTS idx_records_schema ON records(schema);'') (\<lambda>_.
       bindr (exec_sql L db ''CREATE INDEX IF NOT EXISTS idx_records_author ON records(author);'') (\<lambda>_.
       exec_sql L db ''CREATE INDEX IF NOT EXISTS idx_records_time ON records(timestamp_ms);'')))))
     else retr ()))"

text \<open>Preparing a statement; a NULL connection is a misuse of the library. The second form is followed by \<^verbatim>\<open>if (rc != SQLITE_OK) return sqlerr(...)\<close>.\<close>

definition sql_prepare :: "'d sqlite3_api \<Rightarrow> dbh option \<Rightarrow> string \<Rightarrow> ('d sqlite_world, sqlite_rc \<times> stmth) vm" where
  "sql_prepare L db sql =
     (case db of None \<Rightarrow> failr (UB ''prepare on a NULL connection'') | Some h \<Rightarrow> lib_call (sqlite3_prepare_v2 L h sql))"

definition prepare_or_fail :: "'d sqlite3_api \<Rightarrow> dbh option \<Rightarrow> string \<Rightarrow> string \<Rightarrow> ('d sqlite_world, stmth) vm" where
  "prepare_or_fail L db sql what =
     bindr (sql_prepare L db sql) (\<lambda>(rc, st). if rc \<noteq> SQLITE_OK then sqlerr L db what else retr st)"

text \<open>
  \<^verbatim>\<open>sqlite3_bind_blob(st, i, ptr, (int)len, SQLITE_TRANSIENT)\<close>: the cast keeps 32 bits; a negative size is undefined. For
  \<^verbatim>\<open>sqlite3_bind_text\<close> a negative size means up to the terminating NUL.
\<close>

definition int_cast :: "nat \<Rightarrow> int" where
  "int_cast n = sint (of_nat n :: u32)"

definition bind_blob :: "'d sqlite3_api \<Rightarrow> stmth \<Rightarrow> nat \<Rightarrow> vicarl_slice \<Rightarrow> ('d sqlite_world, unit) vm" where
  "bind_blob L st i s =
     (if int_cast (sl_len s) < 0 then failr (UB ''sqlite3_bind_blob: negative size'')
      else case sl_ptr s of
        None \<Rightarrow> lib_do (sqlite3_bind_blob L st i None)
      | Some mem \<Rightarrow>
          bindr (of_res (slice_read \<lparr>sl_ptr = Some mem, sl_len = nat (int_cast (sl_len s))\<rparr>)) (\<lambda>bs.
          lib_do (sqlite3_bind_blob L st i (Some bs))))"

definition bind_text :: "'d sqlite3_api \<Rightarrow> stmth \<Rightarrow> nat \<Rightarrow> vicarl_slice \<Rightarrow> ('d sqlite_world, unit) vm" where
  "bind_text L st i s =
     (case sl_ptr s of
        None \<Rightarrow> lib_do (sqlite3_bind_text L st i None)
      | Some mem \<Rightarrow>
          if int_cast (sl_len s) < 0
          then (if 0 \<in> set mem then lib_do (sqlite3_bind_text L st i (Some (takeWhile (\<lambda>c. c \<noteq> 0) mem)))
                else failr (UB ''sqlite3_bind_text: text not terminated''))
          else
            bindr (of_res (slice_read \<lparr>sl_ptr = Some mem, sl_len = nat (int_cast (sl_len s))\<rparr>)) (\<lambda>bs.
            lib_do (sqlite3_bind_text L st i (Some bs))))"

text \<open>The row of the last segment.\<close>

definition tip_of_row :: "'d sqlite3_api \<Rightarrow> stmth \<Rightarrow> sqlite_store \<Rightarrow> ('d sqlite_world, sqlite_store) vm" where
  "tip_of_row L st ss =
     bindr (lib_get (sqlite3_column_int64 L st 0)) (\<lambda>no.
     bindr (lib_get (sqlite3_column_blob L st 1)) (\<lambda>hb.
     bindr (lib_get (sqlite3_column_bytes L st 1)) (\<lambda>hblen.
     if hb = None \<or> hblen \<noteq> 32 then
       bindr (lib_do (sqlite3_finalize L st)) (\<lambda>_. failr (fail_with VICARL_ERR_FORMAT ''sqlite tip: invalid hash length''))
     else
       bindr (of_res (slice_read \<lparr>sl_ptr = hb, sl_len = 32\<rparr>)) (\<lambda>h.
       bindr (lib_do (sqlite3_finalize L st)) (\<lambda>_.
       retr (ss\<lparr>sq_tip_no := no, sq_tip_hash := h, sq_has_tip := True\<rparr>))))))"

definition load_tip :: "'d sqlite3_api \<Rightarrow> sqlite_store \<Rightarrow> ('d sqlite_world, sqlite_store) vm" where
  "load_tip L ss0 =
     (let ss = ss0\<lparr>sq_has_tip := False, sq_tip_no := 0, sq_tip_hash := zero_hash\<rparr> in
      bindr (prepare_or_fail L (sq_db ss) (sql_text SelectTip) ''prepare tip'') (\<lambda>st.
      bindr (lib_call (sqlite3_step L st)) (\<lambda>rc.
      if rc = SQLITE_ROW then tip_of_row L st ss
      else
        bindr (lib_do (sqlite3_finalize L st)) (\<lambda>_.
        if rc = SQLITE_DONE then retr (ss\<lparr>sq_has_tip := False\<rparr>) else sqlerr L (sq_db ss) ''step tip''))))"

definition peek_segment_no_prev :: "vicarl_slice \<Rightarrow> (u64 \<times> vicarl_hash32) res" where
  "peek_segment_no_prev enc =
     (if sl_len enc < 6 \<or> sl_ptr enc = None
      then Inl (fail_with VICARL_ERR_FORMAT ''peek_segment_no_prev: input too short'')
      else fst
        (bindr (rethrow (replace_err (fail_with VICARL_ERR_FORMAT ''peek_segment_no_prev: truncated magic'')) get_magic) (\<lambda>magic.
         bindr (guardr (magic = [0x56, 0x43, 0x53, 0x31]) (fail_with VICARL_ERR_FORMAT ''peek_segment_no_prev: bad magic'')) (\<lambda>_.
         bindr (rethrow (replace_err (fail_with VICARL_ERR_FORMAT ''peek_segment_no_prev: missing flags'')) vicarl_rbuf_get_u8) (\<lambda>_.
         bindr vicarl_rbuf_get_varu64 (\<lambda>no.
         bindr (rethrow (replace_err (fail_with VICARL_ERR_FORMAT ''peek_segment_no_prev: missing prev hash'')) (vicarl_rbuf_get_bytes 32)) (\<lambda>prev.
         retr (no, slice_bytes prev)))))) (rbuf_of_slice enc)))"

section \<open>The functions of the table\<close>

definition sqlite_close :: "vicarl_allocator \<Rightarrow> 'd sqlite3_api \<Rightarrow> 'd sqlite_world \<Rightarrow> 'd sqlite_world" where
  "sqlite_close A L w =
     (case se_impl (w_env w) of
        None \<Rightarrow> w
      | Some ss \<Rightarrow>
          set_sqlite None (upd_heap (vicarl__free A (Some (sq_ptr ss)))
            (case sq_db ss of None \<Rightarrow> w | Some h \<Rightarrow> snd (lib_do (sqlite3_close L h) w))))"

definition sqlite_tip :: "bool \<Rightarrow> ('d sqlite_world, u64 \<times> vicarl_hash32) vm" where
  "sqlite_tip out w =
     (if \<not> out then (Inl (badarg ''sqlite_tip: invalid args''), w)
      else case se_impl (w_env w) of
        None \<Rightarrow> (Inl (VErr VICARL_ERR_NOT_FOUND None), w)
      | Some ss \<Rightarrow>
          if \<not> sq_has_tip ss then (Inl (VErr VICARL_ERR_NOT_FOUND None), w)
          else (Inr (sq_tip_no ss, sq_tip_hash ss), w))"

text \<open>\<^verbatim>\<open>malloc((size_t)n ? (size_t)n : 1)\<close>, \<^verbatim>\<open>if (n > 0) memcpy(out, b, (size_t)n)\<close>, and the statement finalized on the way out.\<close>

definition copy_column :: "vicarl_allocator \<Rightarrow> 'd sqlite3_api \<Rightarrow> stmth \<Rightarrow> bytes option \<Rightarrow> int \<Rightarrow> ('d sqlite_world, vicarl_bytes) vm" where
  "copy_column A L st b n =
     (let sz = nat (n mod 2 ^ 64) in
      bindr (on_error (\<lambda>w. snd (lib_do (sqlite3_finalize L st) w)) (on_heap (malloc_or_oom A (if sz \<noteq> 0 then sz else 1)))) (\<lambda>p.
      bindr (if n > 0 then of_res (slice_read \<lparr>sl_ptr = b, sl_len = sz\<rparr>) else retr []) (\<lambda>bs.
      bindr (lib_do (sqlite3_finalize L st)) (\<lambda>_.
      retr \<lparr>by_ptr = Some p, by_data = bs, by_len = sz\<rparr>))))"

definition sqlite_read_segment :: "vicarl_allocator \<Rightarrow> 'd sqlite3_api \<Rightarrow> u64 \<Rightarrow> bool \<Rightarrow> ('d sqlite_world, vicarl_bytes) vm" where
  "sqlite_read_segment A L no out w =
     (if \<not> out then (Inl (badarg ''sqlite_read_segment: invalid args''), w)
      else case se_impl (w_env w) of
        None \<Rightarrow> (Inl (fail_with VICARL_ERR_INTERNAL ''sqlite_read_segment: store not initialized''), w)
      | Some ss \<Rightarrow>
          bindr (prepare_or_fail L (sq_db ss) (sql_text SelectBytes) ''prepare read_segment'') (\<lambda>st.
          bindr (lib_do (sqlite3_bind_int64 L st 1 no)) (\<lambda>_.
          bindr (lib_call (sqlite3_step L st)) (\<lambda>rc.
          if rc = SQLITE_ROW then
            bindr (lib_get (sqlite3_column_blob L st 0)) (\<lambda>b.
            bindr (lib_get (sqlite3_column_bytes L st 0)) (\<lambda>n.
            if n < 0 then
              bindr (lib_do (sqlite3_finalize L st)) (\<lambda>_. failr (fail_with VICARL_ERR_FORMAT ''sqlite_read_segment: invalid blob size''))
            else copy_column A L st b n))
          else
            bindr (lib_do (sqlite3_finalize L st)) (\<lambda>_.
            if rc = SQLITE_DONE then failr (VErr VICARL_ERR_NOT_FOUND None)
            else sqlerr L (sq_db ss) ''step read_segment'')))) w)"

text \<open>
  The loop \<^verbatim>\<open>while ((rc = sqlite3_step(st)) == SQLITE_ROW)\<close> of \<^verbatim>\<open>sqlite_iter_segments\<close> and \<^verbatim>\<open>sqlite_query_records\<close>: a hash from
  column \<open>col\<close>, the callback with it and the other columns, and the end of the statement. It runs as
  long as the library yields rows.
\<close>

partial_function (option) rows_loop ::
  "'d sqlite3_api \<Rightarrow> dbh option \<Rightarrow> stmth \<Rightarrow> nat \<Rightarrow> string \<Rightarrow> string \<Rightarrow> (vicarl_hash32 \<Rightarrow> 'd \<Rightarrow> ('u, unit) vm) \<Rightarrow>
     'd sqlite_world \<times> 'u \<Rightarrow> (unit res \<times> 'd sqlite_world \<times> 'u) option" where
  "rows_loop L db st col bad what visit s =
     (let (rc, d) = sqlite3_step L st (w_lib (fst s));
          w1 = set_lib d (fst s);
          w2 = set_lib (sqlite3_finalize L st d) (fst s) in
      if rc = SQLITE_ROW then
        (let hb = sqlite3_column_blob L st col d; hblen = sqlite3_column_bytes L st col d in
         if hb = None \<or> hblen \<noteq> 32 then Some (Inl (fail_with VICARL_ERR_FORMAT bad), (w2, snd s))
         else
           (case slice_read \<lparr>sl_ptr = hb, sl_len = 32\<rparr> of
              Inl e \<Rightarrow> Some (Inl e, (w1, snd s))
            | Inr h \<Rightarrow>
                (case visit h d (snd s) of
                   (Inl e, u1) \<Rightarrow> Some (Inl e, (w2, u1))
                 | (Inr _, u1) \<Rightarrow> rows_loop L db st col bad what visit (w1, u1))))
      else if rc \<noteq> SQLITE_DONE then Some (case sqlerr L db what w2 of (r, w3) \<Rightarrow> (r, (w3, snd s)))
      else Some (Inr (), (w2, snd s)))"

text \<open>Carrying on with the rows once the statement is prepared and bound.\<close>

definition then_rows :: "('w, stmth) vm \<Rightarrow> (stmth \<Rightarrow> 'w \<times> 'u \<Rightarrow> (unit res \<times> 'w \<times> 'u) option) \<Rightarrow> 'w \<times> 'u \<Rightarrow> (unit res \<times> 'w \<times> 'u) option" where
  "then_rows m f s = (case m (fst s) of (Inl e, w) \<Rightarrow> Some (Inl e, (w, snd s)) | (Inr st, w) \<Rightarrow> f st (w, snd s))"

definition sqlite_iter_segments ::
  "'d sqlite3_api \<Rightarrow> u64 \<Rightarrow> 'u segment_iter_fn option \<Rightarrow> 'd sqlite_world \<times> 'u \<Rightarrow> (unit res \<times> 'd sqlite_world \<times> 'u) option" where
  "sqlite_iter_segments L from cb s =
     (case cb of
        None \<Rightarrow> Some (Inl (badarg ''sqlite_iter_segments: invalid args''), s)
      | Some f \<Rightarrow>
          (case se_impl (w_env (fst s)) of
             None \<Rightarrow> Some (Inl (VErr VICARL_ERR_INTERNAL None), s)
           | Some ss \<Rightarrow>
               let start = (if from = 0 then 1 else from) in
               then_rows
                 (bindr (prepare_or_fail L (sq_db ss) (sql_text SelectFrom) ''prepare iter_segments'') (\<lambda>st.
                  bindr (lib_do (sqlite3_bind_int64 L st 1 start)) (\<lambda>_. retr st)))
                 (\<lambda>st. rows_loop L (sq_db ss) st 1 ''sqlite_iter_segments: invalid hash length'' ''step iter_segments''
                    (\<lambda>h d. f (sqlite3_column_int64 L st 0 d) h)) s))"

text \<open>One round of the loop over the records: read, hash, decode, bind, insert. \<open>i\<close> is the index, \<open>k\<close> the number of rounds left.\<close>

definition bind_record :: "'d sqlite3_api \<Rightarrow> stmth \<Rightarrow> vicarl_hash32 \<Rightarrow> u64 \<Rightarrow> nat \<Rightarrow> vicarl_record_meta \<Rightarrow> vicarl_slice \<Rightarrow> ('d sqlite_world, unit) vm" where
  "bind_record L ins rid no i meta rec_bytes =
     bindr (lib_do (sqlite3_reset L ins)) (\<lambda>_.
     bindr (lib_do (sqlite3_clear_bindings L ins)) (\<lambda>_.
     bindr (bind_blob L ins 1 (slice_of rid)) (\<lambda>_.
     bindr (lib_do (sqlite3_bind_int64 L ins 2 no)) (\<lambda>_.
     bindr (lib_do (sqlite3_bind_int64 L ins 3 (of_nat i))) (\<lambda>_.
     bindr (bind_text L ins 4 (namespace_utf8 meta)) (\<lambda>_.
     bindr (bind_text L ins 5 (schema_utf8 meta)) (\<lambda>_.
     bindr (bind_blob L ins 6 (slice_of (author meta))) (\<lambda>_.
     bindr (lib_do (sqlite3_bind_int64 L ins 7 (timestamp_ms meta))) (\<lambda>_.
     bind_blob L ins 8 rec_bytes)))))))))"

definition insert_record ::
  "vicarl_allocator \<Rightarrow> 'd sqlite3_api \<Rightarrow> dbh option \<Rightarrow> stmth \<Rightarrow> u64 \<Rightarrow> vicarl_segment \<Rightarrow> nat \<Rightarrow> ('d sqlite_world, unit) vm" where
  "insert_record A L db ins no seg i =
     bindr (on_error (\<lambda>w. snd (lib_do (sqlite3_finalize L ins) w))
       (bindr (of_res (vicarl_segment_get_record (Some seg) i True)) (\<lambda>rec_bytes.
        bindr (of_res (vicarl_record_id rec_bytes True)) (\<lambda>rid.
        bindr (on_heap (vicarl_record_decode A rec_bytes True)) (\<lambda>rec. retr (rec_bytes, rid, rec)))))) (\<lambda>(rec_bytes, rid, rec).
     bindr (bind_record L ins rid no i (rec_meta rec) rec_bytes) (\<lambda>_.
     bindr (lib_call (sqlite3_step L ins)) (\<lambda>rc w.
       (if rc \<noteq> SQLITE_DONE then bindr (lib_do (sqlite3_finalize L ins)) (\<lambda>_. sqlerr L db ''insert record'') else retr ())
         (upd_heap (vicarl_record_destroy A (Some rec)) w))))"

fun insert_records_loop ::
  "vicarl_allocator \<Rightarrow> 'd sqlite3_api \<Rightarrow> dbh option \<Rightarrow> stmth \<Rightarrow> u64 \<Rightarrow> vicarl_segment \<Rightarrow> nat \<Rightarrow> nat \<Rightarrow> ('d sqlite_world, unit) vm" where
  "insert_records_loop A L db ins no seg i 0 = lib_do (sqlite3_finalize L ins)"
| "insert_records_loop A L db ins no seg i (Suc k) =
     bindr (insert_record A L db ins no seg i) (\<lambda>_. insert_records_loop A L db ins no seg (Suc i) k)"

definition insert_records_indexed ::
  "vicarl_allocator \<Rightarrow> 'd sqlite3_api \<Rightarrow> sqlite_store \<Rightarrow> u64 \<Rightarrow> vicarl_slice \<Rightarrow> ('d sqlite_world, unit) vm" where
  "insert_records_indexed A L ss no encoded_segment =
     bindr (on_heap (vicarl_segment_decode A encoded_segment True)) (\<lambda>seg.
     finally_do (upd_heap (vicarl_segment_destroy A (Some seg)))
       (let count = unat (record_count (seg_hdr seg)) in
        bindr (prepare_or_fail L (sq_db ss) (sql_text InsertRecord) ''prepare insert record'') (\<lambda>ins.
        insert_records_loop A L (sq_db ss) ins no seg 0 count)))"

text \<open>
  \<^verbatim>\<open>exec_sql(ss->db, "ROLLBACK;")\<close> on the way out with a status: if it fails itself, its message replaces the one there.
\<close>

fun overwrite_msg :: "verror \<Rightarrow> verror \<Rightarrow> verror" where
  "overwrite_msg (VErr _ m) (VErr st _) = VErr st m"
| "overwrite_msg _ e = e"

definition rollback_on_error :: "'d sqlite3_api \<Rightarrow> dbh \<Rightarrow> ('d sqlite_world, 'a) vm \<Rightarrow> ('d sqlite_world, 'a) vm" where
  "rollback_on_error L db m w =
     (case m w of
        (Inl e, w1) \<Rightarrow>
          (case exec_sql L db ''ROLLBACK;'' w1 of
             (Inl e', w2) \<Rightarrow> (Inl (overwrite_msg e' e), w2)
           | (Inr _, w2) \<Rightarrow> (Inl e, w2))
      | (Inr x, w1) \<Rightarrow> (Inr x, w1))"

text \<open>The insertion of the segment, inside the transaction.\<close>

definition insert_segment :: "'d sqlite3_api \<Rightarrow> dbh \<Rightarrow> u64 \<Rightarrow> vicarl_hash32 \<Rightarrow> vicarl_slice \<Rightarrow> ('d sqlite_world, unit) vm" where
  "insert_segment L db no hash enc =
     bindr (sql_prepare L (Some db) (sql_text InsertSegment)) (\<lambda>(rc, ins).
     if rc \<noteq> SQLITE_OK then
       bindr (ignoring (exec_sql L db ''ROLLBACK;'')) (\<lambda>_. sqlerr L (Some db) ''prepare insert segment'')
     else
       bindr (lib_do (sqlite3_bind_int64 L ins 1 no)) (\<lambda>_.
       bindr (bind_blob L ins 2 (slice_of hash)) (\<lambda>_.
       bindr (bind_blob L ins 3 enc) (\<lambda>_.
       bindr (lib_call (sqlite3_step L ins)) (\<lambda>rc.
       bindr (lib_do (sqlite3_finalize L ins)) (\<lambda>_.
       if rc \<noteq> SQLITE_DONE then
         bindr (ignoring (exec_sql L db ''ROLLBACK;'')) (\<lambda>_. sqlerr L (Some db) ''insert segment'')
       else retr ()))))))"

definition sqlite_append_segment ::
  "vicarl_allocator \<Rightarrow> 'd sqlite3_api \<Rightarrow> vicarl_store_options \<Rightarrow> vicarl_slice \<Rightarrow> bool \<Rightarrow> ('d sqlite_world, u64 \<times> vicarl_hash32) vm" where
  "sqlite_append_segment A L opt enc out w =
     (if \<not> out then (Inl (badarg ''sqlite_append_segment: invalid args''), w)
      else if slice_bad enc then (Inl (badarg ''sqlite_append_segment: encoded_segment.ptr is NULL''), w)
      else case se_impl (w_env w) of
        None \<Rightarrow> (Inl (VErr VICARL_ERR_INTERNAL None), w)
      | Some ss \<Rightarrow>
          (case sq_db ss of
             None \<Rightarrow> (Inl (VErr VICARL_ERR_INTERNAL None), w)
           | Some db \<Rightarrow>
               (case peek_segment_no_prev enc of
                  Inl e \<Rightarrow> (Inl e, w)
                | Inr (seg_no, prev) \<Rightarrow>
                    let expected = (if sq_has_tip ss then sq_tip_no ss + 1 else 1) in
                    if seg_no \<noteq> expected
                    then (Inl (fail_with VICARL_ERR_INVALID_ARGUMENT
                            (''sqlite_append_segment: segment_no '' @ dec_u64 seg_no @
                             '' does not match expected '' @ dec_u64 expected)), w)
                    else if sq_has_tip ss \<and> prev \<noteq> sq_tip_hash ss
                    then (Inl (fail_with VICARL_ERR_FORMAT ''sqlite_append_segment: prev_segment_hash mismatch''), w)
                    else if \<not> sq_has_tip ss \<and> \<not> hash_is_zero32 prev
                    then (Inl (fail_with VICARL_ERR_FORMAT ''sqlite_append_segment: genesis prev_segment_hash must be zero''), w)
                    else
                      (case vicarl__sha256 enc True of
                         Inl e \<Rightarrow> (Inl e, w)
                       | Inr hash \<Rightarrow>
                           bindr (exec_sql L db ''BEGIN IMMEDIATE;'') (\<lambda>_.
                           bindr (insert_segment L db seg_no hash enc) (\<lambda>_.
                           bindr (if record_index_enabled ss
                                  then rollback_on_error L db (insert_records_indexed A L ss seg_no enc) else retr ()) (\<lambda>_.
                           bindr (rollback_on_error L db (exec_sql L db ''COMMIT;'')) (\<lambda>_ w'.
                             (Inr (seg_no, hash),
                              set_sqlite (Some (ss\<lparr>sq_tip_no := seg_no, sq_tip_hash := hash, sq_has_tip := True\<rparr>)) w'))))) w))))"

definition sqlite_get_record ::
  "vicarl_allocator \<Rightarrow> 'd sqlite3_api \<Rightarrow> vicarl_hash32 option \<Rightarrow> bool \<Rightarrow> ('d sqlite_world, vicarl_bytes) vm" where
  "sqlite_get_record A L record_id out w =
     (case record_id of
        None \<Rightarrow> (Inl (badarg ''sqlite_get_record: invalid args''), w)
      | Some rid \<Rightarrow>
          if \<not> out then (Inl (badarg ''sqlite_get_record: invalid args''), w)
          else
            (case se_impl (w_env w) of
               None \<Rightarrow> (Inl (VErr VICARL_ERR_INTERNAL None), w)
             | Some ss \<Rightarrow>
                 if \<not> record_index_enabled ss
                 then (Inl (fail_with VICARL_ERR_UNSUPPORTED ''sqlite store: record index disabled''), w)
                 else
                   bindr (prepare_or_fail L (sq_db ss) (sql_text SelectRecord) ''prepare get_record'') (\<lambda>st.
                   bindr (bind_blob L st 1 (slice_of rid)) (\<lambda>_.
                   bindr (lib_call (sqlite3_step L st)) (\<lambda>rc.
                   if rc = SQLITE_ROW then
                     bindr (lib_get (sqlite3_column_blob L st 0)) (\<lambda>b.
                     bindr (lib_get (sqlite3_column_bytes L st 0)) (\<lambda>n.
                     copy_column A L st b n))
                   else
                     bindr (lib_do (sqlite3_finalize L st)) (\<lambda>_.
                     if rc = SQLITE_DONE then failr (VErr VICARL_ERR_NOT_FOUND None)
                     else sqlerr L (sq_db ss) ''step get_record'')))) w))"

definition filter_has_text :: "vicarl_slice \<Rightarrow> bool" where
  "filter_has_text s \<longleftrightarrow> sl_ptr s \<noteq> None \<and> sl_len s > 0"

text \<open>
  The text of the query, put together in \<^verbatim>\<open>char sql[512]\<close> with \<^verbatim>\<open>strcpy\<close> and \<^verbatim>\<open>strcat\<close>; a string and its terminating NUL that do not fit
  are undefined behaviour. Beside the text the builder carries the flag \<^verbatim>\<open>first\<close>.
\<close>

definition strcat512 :: "string \<Rightarrow> string \<Rightarrow> string res" where
  "strcat512 buf s = (if length (buf @ s) + 1 \<le> 512 then Inr (buf @ s) else Inl (UB ''strcat: buffer overflow''))"

definition add_clause :: "bool \<Rightarrow> string \<Rightarrow> (string \<times> bool) res \<Rightarrow> (string \<times> bool) res" where
  "add_clause present clause r =
     (case r of
        Inl e \<Rightarrow> Inl e
      | Inr (buf, first) \<Rightarrow>
          if present then
            (case strcat512 buf (if first then clause else ''AND '' @ clause) of Inl e \<Rightarrow> Inl e | Inr buf' \<Rightarrow> Inr (buf', False))
          else Inr (buf, first))"

definition query_clauses :: "vicarl_record_filter \<Rightarrow> string \<Rightarrow> (string \<times> bool) res" where
  "query_clauses flt base =
     (let n = filter_has_text (flt_namespace flt); s = filter_has_text (flt_schema flt); a = (\<not> hash_is_zero32 (flt_author flt));
          f = (time_from_ms flt \<noteq> 0); t = (time_to_ms flt \<noteq> 0);
          start = (if n \<or> s \<or> a \<or> f \<or> t then strcat512 base ''WHERE '' else Inr base)
      in add_clause t ''timestamp_ms <= ?5 '' (add_clause f ''timestamp_ms >= ?4 '' (add_clause a ''author = ?3 ''
          (add_clause s ''schema = ?2 '' (add_clause n ''namespace = ?1 '' (case start of Inl e \<Rightarrow> Inl e | Inr buf \<Rightarrow> Inr (buf, True)))))))"

definition query_limit :: "vicarl_record_filter option \<Rightarrow> u32" where
  "query_limit flt = (case flt of None \<Rightarrow> 0 | Some x \<Rightarrow> if flt_limit x \<noteq> 0 then flt_limit x else 0)"

definition build_query :: "vicarl_record_filter option \<Rightarrow> string res" where
  "build_query flt =
     (case strcat512 '''' ''SELECT record_id, segment_no, idx_in_segment FROM records '' of
        Inl e \<Rightarrow> Inl e
      | Inr base \<Rightarrow>
          (case (case flt of None \<Rightarrow> Inr (base, True) | Some x \<Rightarrow> query_clauses x base) of
             Inl e \<Rightarrow> Inl e
           | Inr (buf, _) \<Rightarrow>
               (case strcat512 buf ''ORDER BY segment_no ASC, idx_in_segment ASC '' of
                  Inl e \<Rightarrow> Inl e
                | Inr buf' \<Rightarrow> strcat512 buf' (if query_limit flt > 0 then ''LIMIT ?6;'' else '';''))))"

definition bind_filter :: "'d sqlite3_api \<Rightarrow> stmth \<Rightarrow> vicarl_record_filter option \<Rightarrow> ('d sqlite_world, unit) vm" where
  "bind_filter L st flt =
     (case flt of
        None \<Rightarrow> retr ()
      | Some x \<Rightarrow>
          bindr (if filter_has_text (flt_namespace x) then bind_text L st 1 (flt_namespace x) else retr ()) (\<lambda>_.
          bindr (if filter_has_text (flt_schema x) then bind_text L st 2 (flt_schema x) else retr ()) (\<lambda>_.
          bindr (if \<not> hash_is_zero32 (flt_author x) then bind_blob L st 3 (slice_of (flt_author x)) else retr ()) (\<lambda>_.
          bindr (if time_from_ms x \<noteq> 0 then lib_do (sqlite3_bind_int64 L st 4 (time_from_ms x)) else retr ()) (\<lambda>_.
          bindr (if time_to_ms x \<noteq> 0 then lib_do (sqlite3_bind_int64 L st 5 (time_to_ms x)) else retr ()) (\<lambda>_.
          if query_limit flt > 0 then lib_do (sqlite3_bind_int64 L st 6 (ucast (query_limit flt))) else retr ()))))))"

definition sqlite_query_records ::
  "'d sqlite3_api \<Rightarrow> vicarl_record_filter option \<Rightarrow> 'u record_iter_fn option \<Rightarrow> 'd sqlite_world \<times> 'u \<Rightarrow>
     (unit res \<times> 'd sqlite_world \<times> 'u) option" where
  "sqlite_query_records L flt cb s =
     (case cb of
        None \<Rightarrow> Some (Inl (badarg ''sqlite_query_records: invalid args''), s)
      | Some f \<Rightarrow>
          (case se_impl (w_env (fst s)) of
             None \<Rightarrow> Some (Inl (VErr VICARL_ERR_INTERNAL None), s)
           | Some ss \<Rightarrow>
               if \<not> record_index_enabled ss
               then Some (Inl (fail_with VICARL_ERR_UNSUPPORTED ''sqlite store: record index disabled''), s)
               else
                 then_rows
                   (bindr (of_res (build_query flt)) (\<lambda>sql.
                    bindr (prepare_or_fail L (sq_db ss) sql ''prepare query_records'') (\<lambda>st.
                    bindr (bind_filter L st flt) (\<lambda>_. retr st))))
                   (\<lambda>st. rows_loop L (sq_db ss) st 0 ''sqlite_query_records: invalid record_id length'' ''step query_records''
                      (\<lambda>rid d. f rid (sqlite3_column_int64 L st 1 d) (ucast (sqlite3_column_int64 L st 2 d)))) s))"

definition SQLITE_VT :: "vicarl_allocator \<Rightarrow> 'd sqlite3_api \<Rightarrow> ('d sqlite_env, 'u) store_vtable" where
  "SQLITE_VT A L =
     \<lparr>vt_kind = VICARL_STORE_SQLITE, vt_close = Some (sqlite_close A L),
      vt_append_segment = Some (sqlite_append_segment A L), vt_read_segment = Some (sqlite_read_segment A L),
      vt_tip = Some sqlite_tip, vt_iter_segments = Some (sqlite_iter_segments L),
      vt_get_record = Some (sqlite_get_record A L), vt_query_records = Some (sqlite_query_records L)\<rparr>"

section \<open>Opening\<close>

definition sizeof_sqlite_store :: nat where
  "sizeof_sqlite_store = 56"

definition close_db :: "'d sqlite3_api \<Rightarrow> dbh \<Rightarrow> 'd sqlite_world \<Rightarrow> 'd sqlite_world" where
  "close_db L h w = snd (lib_do (sqlite3_close L h) w)"

text \<open>With a connection: the settings and the tables, the store's block; then the tip and the store object.\<close>

definition open_setup ::
  "vicarl_allocator \<Rightarrow> 'd sqlite3_api \<Rightarrow> dbh \<Rightarrow> vicarl_store_options option \<Rightarrow> bool \<Rightarrow> ('d sqlite_world, addr) vm" where
  "open_setup A L h opt index =
     on_error (close_db L h)
       (bindr (apply_pragmas L h opt) (\<lambda>_.
        bindr (ensure_schema L h index) (\<lambda>_.
        on_heap (calloc_or_oom A 1 sizeof_sqlite_store))))"

definition open_attach ::
  "vicarl_allocator \<Rightarrow> 'd sqlite3_api \<Rightarrow> dbh \<Rightarrow> vicarl_store_options option \<Rightarrow> bool \<Rightarrow> addr \<Rightarrow>
     ('d sqlite_world, ('d sqlite_env, 'u) vicarl_store) vm" where
  "open_attach A L h opt index sp =
     on_error (\<lambda>w. upd_heap (vicarl__free A (Some sp)) (close_db L h w))
       (bindr (load_tip L \<lparr>sq_ptr = sp, sq_db = Some h, sq_tip_no = 0, sq_tip_hash = zero_hash, sq_has_tip = False,
                           record_index_enabled = index\<rparr>) (\<lambda>ss w.
          (case vicarl__store_new A (Some (SQLITE_VT A L)) opt (w_heap w) of
             (None, h') \<Rightarrow> (Inl err_oom, w\<lparr>w_heap := h'\<rparr>)
           | (Some store, h') \<Rightarrow> (Inr store, set_sqlite (Some ss) (w\<lparr>w_heap := h'\<rparr>)))))"

definition vicarl_store_open_sqlite ::
  "vicarl_allocator \<Rightarrow> 'd sqlite3_api \<Rightarrow> string option \<Rightarrow> vicarl_store_options option \<Rightarrow> bool \<Rightarrow>
     ('d sqlite_world, ('d sqlite_env, 'u) vicarl_store) vm" where
  "vicarl_store_open_sqlite A L db_path opt out =
     (if \<not> out then failr (badarg ''store_open_sqlite: out is NULL'')
      else case db_path of
        None \<Rightarrow> failr (badarg ''store_open_sqlite: db_path is empty'')
      | Some path \<Rightarrow>
          if path = [] then failr (badarg ''store_open_sqlite: db_path is empty'')
          else
            bindr (lib_call (sqlite3_open L path)) (\<lambda>(rc, db).
            if rc \<noteq> SQLITE_OK then
              finally_do (case db of None \<Rightarrow> id | Some h \<Rightarrow> close_db L h) (sqlerr L db ''sqlite open failed'')
            else
              (case db of
                 None \<Rightarrow> failr (UB ''a NULL connection'')
               | Some h \<Rightarrow>
                   let index = (case opt of None \<Rightarrow> False | Some x \<Rightarrow> enable_record_index x \<noteq> 0) in
                   bindr (open_setup A L h opt index) (open_attach A L h opt index))))"

section \<open>Views\<close>

lemma view_simps [simp]:
  "vw_files (set_conn h c v) = vw_files v" "vw_stmts (set_conn h c v) = vw_stmts v"
  "vw_conns (set_conn h c v) = (vw_conns v)(h := c)"
  "vw_files (set_stmt s st v) = vw_files v" "vw_conns (set_stmt s st v) = vw_conns v"
  "vw_stmts (set_stmt s st v) = (vw_stmts v)(s := st)"
  "vw_conns (set_file p db v) = vw_conns v" "vw_stmts (set_file p db v) = vw_stmts v"
  "vw_files (set_file p db v) = (vw_files v)(p := db)"
  by (simp_all add: set_conn_def set_stmt_def set_file_def)

lemma view_updates [simp]:
  "set_stmt s x (set_stmt s y v) = set_stmt s x v" "set_conn h c (set_conn h c' v) = set_conn h c v"
  "set_file p a (set_file p b v) = set_file p a v"
  "set_conn h c (set_stmt s x v) = set_stmt s x (set_conn h c v)"
  "current_db (set_stmt s x v) cn = current_db v cn" "current_db (set_conn h c v) cn = current_db v cn"
  by (simp_all add: set_conn_def set_stmt_def set_file_def current_db_def split: option.split)

lemma set_stmt_None: "vw_stmts v s = None \<Longrightarrow> set_stmt s None v = v"
  by (simp add: set_stmt_def fun_upd_idem)

lemma set_conn_idem: "vw_conns v h = c \<Longrightarrow> set_conn h c v = v"
  by (simp add: set_conn_def fun_upd_idem)

lemma tx_lost_refl [simp, intro]: "tx_lost h v v"
  by (simp add: tx_lost_def)

lemma tx_lost_conn: "vw_conns v h = Some (p, tx) \<Longrightarrow> tx_lost h v (set_conn h (Some (p, None)) v)"
  by (auto simp: tx_lost_def)

lemma tx_lostE:
  assumes "tx_lost h v v'" "vw_conns v h = Some (p, tx)"
  obtains tx' where "v' = set_conn h (Some (p, tx')) v" "tx' = tx \<or> tx' = None"
  using assms that [of tx] that [of None] set_conn_idem [OF assms(2)] unfolding tx_lost_def by auto

lemma w_lib_simps [simp]:
  "w_lib (set_lib d w) = d" "w_heap (set_lib d w) = w_heap w" "se_impl (w_env (set_lib d w)) = se_impl (w_env w)"
  "w_lib (w\<lparr>w_heap := g\<rparr>) = w_lib w" "w_lib (upd_heap f w) = w_lib w" "w_lib (set_sqlite ss w) = w_lib w"
  "w_heap (set_sqlite ss w) = w_heap w" "se_impl (w_env (set_sqlite ss w)) = ss"
  "set_lib d (set_lib d' w) = set_lib d w"
  by (simp_all add: set_lib_def w_lib_def set_sqlite_def)

section \<open>Running the library\<close>

text \<open>The errors that come from the library.\<close>

definition sql_error :: "verror \<Rightarrow> bool" where
  "sql_error e \<longleftrightarrow> (\<exists>m. e = VErr VICARL_ERR_IO (Some m))"

context sqlite_library
begin

text \<open>From \<open>w0\<close> a world \<open>w\<close> is reached in which the library shows \<open>v\<close> and the blocks \<open>M\<close> are live.\<close>

definition reach :: "(heap \<Rightarrow> bool) \<Rightarrow> 'd sqlite_world \<Rightarrow> addr set \<Rightarrow> sql_view \<Rightarrow> 'd sqlite_world \<Rightarrow> bool" where
  "reach ok w0 M v w \<longleftrightarrow> se_impl (w_env w) = se_impl (w_env w0) \<and> heap_to ok (w_heap w0) M (w_heap w) \<and>
     view (w_lib w) = v \<and> (healthy (w_lib w0) \<longrightarrow> healthy (w_lib w))"

lemma reach_start: "ok (w_heap w) \<Longrightarrow> reach ok w (hp_live (w_heap w)) (view (w_lib w)) w"
  by (simp add: reach_def heap_to_refl)

lemma reach_lib: "reach ok w0 M v w \<Longrightarrow> view d = v' \<Longrightarrow> (healthy (w_lib w) \<Longrightarrow> healthy d) \<Longrightarrow> reach ok w0 M v' (set_lib d w)"
  by (auto simp: reach_def)

lemma reach_heap: "reach ok w0 M v w \<Longrightarrow> heap_to ok (w_heap w) M' g \<Longrightarrow> reach ok w0 M' v (w\<lparr>w_heap := g\<rparr>)"
  by (auto simp: reach_def intro: heap_to_trans)

lemma reach_upd_heap: "reach ok w0 M v w \<Longrightarrow> heap_to ok (w_heap w) M' (f (w_heap w)) \<Longrightarrow> reach ok w0 M' v (upd_heap f w)"
  using reach_heap by (simp add: upd_heap_def)

lemma reach_view: "reach ok w0 M v w \<Longrightarrow> view (w_lib w) = v"
  by (simp add: reach_def)

lemma reach_healthy: "reach ok w0 M v w \<Longrightarrow> healthy (w_lib w0) \<Longrightarrow> healthy (w_lib w)"
  by (simp add: reach_def)

lemma reach_ok: "reach ok w0 M v w \<Longrightarrow> ok (w_heap w) \<and> hp_live (w_heap w) = M \<and> heap_to ok (w_heap w) M (w_heap w)"
  by (simp add: reach_def heap_to_def)

lemma outcome_reach_heap:
  assumes r: "reach ok w0 M v w"
    and m: "outcome m (\<lambda>x h. Q x \<and> heap_to ok (w_heap w) (M1 x) h) (\<lambda>e h. E e \<and> heap_to ok (w_heap w) (M2 e) h) (w_heap w)"
  shows "outcome (on_heap m) (\<lambda>x w'. Q x \<and> reach ok w0 (M1 x) v w') (\<lambda>e w'. E e \<and> reach ok w0 (M2 e) v w') w"
  by (rule outcome_on_heap, rule outcome_mono [OF m]) (use reach_heap [OF r] in auto)

lemma outcome_lib_call:
  assumes "\<And>x d. f (w_lib w) = (x, d) \<Longrightarrow> Q x (set_lib d w)"
  shows "outcome (lib_call f) Q E w"
  using assms by (auto simp: outcome_def lib_call_def split: prod.splits)

lemma outcome_lib_do: "Q () (set_lib (f (w_lib w)) w) \<Longrightarrow> outcome (lib_do f) Q E w"
  by (simp add: outcome_def lib_do_def)

lemma outcome_lib_get: "Q (f (w_lib w)) w \<Longrightarrow> outcome (lib_get f) Q E w"
  by (simp add: outcome_def lib_get_def)

lemma outcome_ignoring: "outcome m (\<lambda>_. Q ()) (\<lambda>_. Q ()) s \<Longrightarrow> outcome (ignoring m) Q E s"
  by (auto simp: outcome_def ignoring_def split: prod.splits sum.splits)

lemma outcome_sqlerr: "(\<And>e. sql_error e \<Longrightarrow> E e w) \<Longrightarrow> outcome (sqlerr L db what) Q E w"
  by (simp add: outcome_def sqlerr_def Let_def sql_error_def fail_with_def)

lemma exec_outcome:
  assumes r: "reach ok w0 M v w" and cmd: "cmd \<in> set store_commands" "txt = command_text cmd" and c: "vw_conns v h = Some c"
  shows "outcome (exec_sql L h txt)
    (\<lambda>_ w'. exec_allowed cmd (snd c) \<and> reach ok w0 M (exec_effect cmd h c v) w')
    (\<lambda>e w'. sql_error e \<and> \<not> (healthy (w_lib w0) \<and> exec_allowed cmd (snd c)) \<and> (\<exists>v'. tx_lost h v v' \<and> reach ok w0 M v' w')) w"
proof -
  obtain rc err d where run: "sqlite3_exec L h (command_text cmd) (w_lib w) = ((rc, err), d)" by (metis prod.exhaust)
  have c': "vw_conns (view (w_lib w)) h = Some c" using r c by (simp add: reach_def)
  note law = exec_law [OF cmd(1) c' run, unfolded reach_view [OF r]]
  have d: "reach ok w0 M v' (set_lib d w)" if "view d = v'" for v' by (rule reach_lib [OF r that]) (use law in simp)
  have f: "reach ok w0 M v' (set_lib (sqlite3_free L m d) w)" if "view d = v'" for v' m
    by (rule reach_lib [OF r]) (use law free_law that in auto)
  show ?thesis
  proof (cases "rc = SQLITE_OK")
    case True
    have "exec_sql L h txt w = (Inr (), set_lib d w)"
      using True run by (simp add: cmd(2) exec_sql_def bindr_def lib_call_def retr_def)
    with True law d show ?thesis unfolding outcome_def by simp
  next
    case False
    obtain e w' where run': "exec_sql L h txt w = (Inl e, w')" "sql_error e" "w' = set_lib d w \<or> (\<exists>m. w' = set_lib (sqlite3_free L m d) w)"
      using False run by (cases err) (auto simp: cmd(2) exec_sql_def bindr_def lib_call_def lib_do_def failr_def sql_error_def fail_with_def)
    have "\<not> (healthy (w_lib w0) \<and> exec_allowed cmd (snd c))" "tx_lost h v (view d)"
      using law False reach_healthy [OF r] by auto
    moreover have "reach ok w0 M (view d) w'" using run'(3) d f by blast
    ultimately show ?thesis using run'(1,2) unfolding outcome_def by auto
  qed
qed

abbreviation fresh_stmt :: "dbh \<Rightarrow> sql \<Rightarrow> sql_stmt" where
  "fresh_stmt h q \<equiv> \<lparr>sm_db = h, sm_sql = q, sm_args = (\<lambda>_. SqlNull), sm_run = None\<rparr>"

lemma prepare_outcome:
  assumes r: "reach ok w0 M v w" and c: "vw_conns v h = Some c" and q: "txt = sql_text q"
  shows "outcome (sql_prepare L (Some h) txt)
    (\<lambda>(rc, s) w'. if rc = SQLITE_OK
       then sql_ready q (current_db v c) \<and> vw_stmts v s = None \<and> reach ok w0 M (set_stmt s (Some (fresh_stmt h q)) v) w'
       else \<not> (healthy (w_lib w0) \<and> sql_ready q (current_db v c)) \<and> (\<exists>v'. tx_lost h v v' \<and> reach ok w0 M v' w')) E w"
    (is "outcome _ ?Q _ _")
  unfolding sql_prepare_def option.case
proof (rule outcome_lib_call)
  fix x d assume run: "sqlite3_prepare_v2 L h txt (w_lib w) = (x, d)"
  obtain rc s where x: "x = (rc, s)" by (cases x)
  have c': "vw_conns (view (w_lib w)) h = Some c" using r c by (simp add: reach_def)
  note law = prepare_law [OF c' run [unfolded x q], unfolded reach_view [OF r]]
  have d: "reach ok w0 M v' (set_lib d w)" if "view d = v'" for v' by (rule reach_lib [OF r that]) (use law in simp)
  show "?Q x (set_lib d w)"
    unfolding x prod.case using law d reach_healthy [OF r] by auto
qed

lemma prepare_or_fail_outcome:
  assumes r: "reach ok w0 M v w" and c: "vw_conns v h = Some c" and q: "txt = sql_text q"
  shows "outcome (prepare_or_fail L (Some h) txt what)
    (\<lambda>s w'. sql_ready q (current_db v c) \<and> vw_stmts v s = None \<and> reach ok w0 M (set_stmt s (Some (fresh_stmt h q)) v) w')
    (\<lambda>e w'. sql_error e \<and> \<not> (healthy (w_lib w0) \<and> sql_ready q (current_db v c)) \<and> (\<exists>v'. tx_lost h v v' \<and> reach ok w0 M v' w')) w"
  unfolding prepare_or_fail_def
proof (rule outcome_bindr, rule outcome_mono [OF prepare_outcome [OF assms]], unfold split_paired_all prod.case)
  fix rc s w'
  assume "if rc = SQLITE_OK
     then sql_ready q (current_db v c) \<and> vw_stmts v s = None \<and> reach ok w0 M (set_stmt s (Some (fresh_stmt h q)) v) w'
     else \<not> (healthy (w_lib w0) \<and> sql_ready q (current_db v c)) \<and> (\<exists>v'. tx_lost h v v' \<and> reach ok w0 M v' w')"
  then show "outcome (if rc \<noteq> SQLITE_OK then sqlerr L (Some h) what else retr s)
    (\<lambda>s w'. sql_ready q (current_db v c) \<and> vw_stmts v s = None \<and> reach ok w0 M (set_stmt s (Some (fresh_stmt h q)) v) w')
    (\<lambda>e w'. sql_error e \<and> \<not> (healthy (w_lib w0) \<and> sql_ready q (current_db v c)) \<and> (\<exists>v'. tx_lost h v v' \<and> reach ok w0 M v' w')) w'"
    by (cases "rc = SQLITE_OK") (auto intro!: outcome_sqlerr outcome_retr)
qed

lemma finalize_reach:
  assumes r: "reach ok w0 M (set_stmt s x v) w" and x: "x \<noteq> None" and s: "vw_stmts v s = None"
  shows "reach ok w0 M v (set_lib (sqlite3_finalize L s (w_lib w)) w)"
proof (rule reach_lib [OF r])
  have "vw_stmts (view (w_lib w)) s \<noteq> None" using r x by (simp add: reach_def)
  from finalize_law [OF this] r set_stmt_None [OF s]
  show "view (sqlite3_finalize L s (w_lib w)) = v" "healthy (w_lib w) \<Longrightarrow> healthy (sqlite3_finalize L s (w_lib w))"
    by (simp_all add: reach_def)
qed

end

section \<open>Parameters and rows\<close>

text \<open>
  The store ignores the result of binding a text or a blob. \<open>binds g m arg val\<close>: the parameters \<open>arg\<close> are the intended \<open>val\<close>,
  except that a text or a blob is missing if it is longer than \<open>m\<close>, and may be missing unless \<open>g\<close>.
\<close>

fun is_int :: "sql_value \<Rightarrow> bool" where
  "is_int (SqlInt x) \<longleftrightarrow> True"
| "is_int _ \<longleftrightarrow> False"

definition binds :: "bool \<Rightarrow> nat \<Rightarrow> (nat \<Rightarrow> sql_value) \<Rightarrow> (nat \<Rightarrow> sql_value) \<Rightarrow> bool" where
  "binds g m arg val \<longleftrightarrow> (\<forall>i. arg i = val i \<and> (is_int (val i) \<or> value_size (val i) \<le> m) \<or>
     arg i = SqlNull \<and> \<not> is_int (val i) \<and> \<not> (g \<and> value_size (val i) \<le> m))"

lemma binds_null [simp]: "binds g m (\<lambda>_. SqlNull) (\<lambda>_. SqlNull)"
  by (simp add: binds_def)

lemma binds_at: "binds g m arg val \<Longrightarrow> arg i = val i \<and> (is_int (val i) \<or> value_size (val i) \<le> m) \<or>
     arg i = SqlNull \<and> \<not> is_int (val i) \<and> \<not> (g \<and> value_size (val i) \<le> m)"
  by (simp add: binds_def)

lemma binds_eq: "binds g m arg val \<Longrightarrow> g \<Longrightarrow> (\<And>i. is_int (val i) \<or> value_size (val i) \<le> m) \<Longrightarrow> arg = val"
  unfolding binds_def by (rule ext) blast

lemma binds_ints: "binds g m arg val \<Longrightarrow> (\<And>i. is_int (val i) \<or> val i = SqlNull) \<Longrightarrow> arg = val"
  unfolding binds_def by (rule ext) metis

lemma binds_int: "binds g m arg val \<Longrightarrow> val i = SqlInt x \<Longrightarrow> arg i = SqlInt x"
  by (drule binds_at [of _ _ _ _ i]) auto

lemma binds_set: "binds g m arg val \<Longrightarrow> is_int x \<or> value_size x \<le> m \<Longrightarrow> binds g m (arg(i := x)) (val(i := x))"
  by (auto simp: binds_def)

lemma binds_unset: "binds g m arg val \<Longrightarrow> val i = SqlNull \<Longrightarrow> \<not> is_int x \<Longrightarrow> \<not> (g \<and> value_size x \<le> m) \<Longrightarrow> binds g m arg (val(i := x))"
  using binds_at [of g m arg val i] by (auto simp: binds_def)

definition blob_value :: "vicarl_slice \<Rightarrow> sql_value" where
  "blob_value s = opt_value SqlBlob (map_option (take (sl_len s)) (sl_ptr s))"

definition text_value :: "vicarl_slice \<Rightarrow> sql_value" where
  "text_value s = opt_value SqlText (map_option (take (sl_len s)) (sl_ptr s))"

lemma blob_value_of [simp]: "blob_value (slice_of bs) = SqlBlob bs"
  by (simp add: blob_value_def opt_value_def)

lemma blob_value_ptr: "sl_ptr s \<noteq> None \<Longrightarrow> blob_value s = SqlBlob (slice_bytes s)"
  by (auto simp: blob_value_def opt_value_def slice_bytes_def)

lemma int_cast_small: "n < 2 ^ 31 \<Longrightarrow> int_cast n = int n"
  by (simp add: int_cast_def signed_of_nat signed_take_bit_int_eq_self)

lemma slice_read_some: "slice_wf s \<Longrightarrow> sl_ptr s = Some mem \<Longrightarrow> slice_read \<lparr>sl_ptr = Some mem, sl_len = sl_len s\<rparr> = Inr (take (sl_len s) mem)"
  by (auto simp: slice_read_def slice_wf_def)

lemma tx_lost_stmt:
  assumes "tx_lost h (set_stmt s x v) v2"
  shows "\<exists>v'. tx_lost h v v' \<and> set_stmt s y v2 = set_stmt s y v'"
proof (cases "v2 = set_stmt s x v")
  case False
  then obtain p tx where "vw_conns v h = Some (p, tx)" "v2 = set_stmt s x (set_conn h (Some (p, None)) v)"
    using assms by (auto simp: tx_lost_def)
  then show ?thesis by (intro exI [of _ "set_conn h (Some (p, None)) v"]) (auto simp: tx_lost_def)
qed (use tx_lost_refl in auto)

context sqlite_library
begin

definition bound :: "(heap \<Rightarrow> bool) \<Rightarrow> 'd sqlite_world \<Rightarrow> addr set \<Rightarrow> sql_view \<Rightarrow> stmth \<Rightarrow> sql_stmt \<Rightarrow> (nat \<Rightarrow> sql_value) \<Rightarrow>
    'd sqlite_world \<Rightarrow> bool" where
  "bound ok w0 M v s st val w \<longleftrightarrow>
     (\<exists>arg. binds (healthy (w_lib w0)) max_len arg val \<and> reach ok w0 M (set_stmt s (Some (st\<lparr>sm_args := arg\<rparr>)) v) w)"

lemma boundI: "reach ok w0 M (set_stmt s (Some st) v) w \<Longrightarrow> sm_args st = (\<lambda>_. SqlNull) \<Longrightarrow> bound ok w0 M v s st (\<lambda>_. SqlNull) w"
  unfolding bound_def by (intro exI [of _ "\<lambda>_. SqlNull"], cases st) simp

lemma bound_ints:
  assumes "bound ok w0 M v s st val w" "\<And>i. is_int (val i) \<or> val i = SqlNull"
  shows "reach ok w0 M (set_stmt s (Some (st\<lparr>sm_args := val\<rparr>)) v) w"
  using assms(1) binds_ints [where val = val, OF _ assms(2)] unfolding bound_def by blast

lemma bound_int64:
  assumes b: "bound ok w0 M v s st val w" and st: "sm_run st = None"
  shows "outcome (lib_do (sqlite3_bind_int64 L s i x)) (\<lambda>_. bound ok w0 M v s st (val(i := SqlInt x))) E w"
proof (rule outcome_lib_do)
  obtain arg where arg: "binds (healthy (w_lib w0)) max_len arg val" and r: "reach ok w0 M (set_stmt s (Some (st\<lparr>sm_args := arg\<rparr>)) v) w"
    using b by (auto simp: bound_def)
  let ?d = "sqlite3_bind_int64 L s i x (w_lib w)" and ?arg = "arg(i := SqlInt x)"
  have "vw_stmts (view (w_lib w)) s = Some (st\<lparr>sm_args := arg\<rparr>)" using reach_view [OF r] by simp
  from bind_int64_law [OF this, of i x] st reach_view [OF r]
  have d: "view ?d = set_stmt s (Some (st\<lparr>sm_args := ?arg\<rparr>)) v" "healthy (w_lib w) \<Longrightarrow> healthy ?d" by auto
  have "binds (healthy (w_lib w0)) max_len ?arg (val(i := SqlInt x))" by (rule binds_set [OF arg]) simp
  with reach_lib [OF r d] show "bound ok w0 M v s st (val(i := SqlInt x)) (set_lib ?d w)" by (auto simp: bound_def)
qed

lemma bound_bytes:
  assumes b: "bound ok w0 M v s st val w" and i: "val i = SqlNull" and mk: "\<And>bs. \<not> is_int (mk bs) \<and> value_size (mk bs) = length bs"
    and law: "\<And>st. vw_stmts (view (w_lib w)) s = Some st \<Longrightarrow> sm_run st = None \<Longrightarrow>
      (view (f (w_lib w)) = set_stmt s (Some (st\<lparr>sm_args := (sm_args st)(i := opt_value mk b)\<rparr>)) (view (w_lib w)) \<and>
         (\<forall>bs. b = Some bs \<longrightarrow> length bs \<le> max_len) \<or>
       view (f (w_lib w)) = view (w_lib w) \<and> \<not> (healthy (w_lib w) \<and> (\<forall>bs. b = Some bs \<longrightarrow> length bs \<le> max_len))) \<and>
      (healthy (w_lib w) \<longrightarrow> healthy (f (w_lib w)))"
    and st: "sm_run st = None"
  shows "outcome (lib_do f) (\<lambda>_. bound ok w0 M v s st (val(i := opt_value mk b))) E w"
proof (rule outcome_lib_do)
  let ?g = "healthy (w_lib w0)" and ?x = "opt_value mk b"
  obtain arg where arg: "binds ?g max_len arg val" and r: "reach ok w0 M (set_stmt s (Some (st\<lparr>sm_args := arg\<rparr>)) v) w"
    using b by (auto simp: bound_def)
  let ?d = "f (w_lib w)" and ?arg = "arg(i := ?x)" and ?short = "\<forall>bs. b = Some bs \<longrightarrow> length bs \<le> max_len"
  have x: "\<not> is_int ?x" "value_size ?x \<le> max_len \<longleftrightarrow> ?short" using mk by (auto simp: opt_value_def split: option.split)
  have "vw_stmts (view (w_lib w)) s = Some (st\<lparr>sm_args := arg\<rparr>)" using reach_view [OF r] by simp
  from law [OF this] st reach_view [OF r]
  have d: "view ?d = set_stmt s (Some (st\<lparr>sm_args := ?arg\<rparr>)) v \<and> ?short \<or> view ?d = set_stmt s (Some (st\<lparr>sm_args := arg\<rparr>)) v \<and> \<not> (?g \<and> ?short)"
    and h: "healthy (w_lib w) \<Longrightarrow> healthy ?d" using reach_healthy [OF r] by auto
  have "binds ?g max_len ?arg (val(i := ?x))" if ?short by (rule binds_set [OF arg]) (use x that in blast)
  moreover have "binds ?g max_len arg (val(i := ?x))" if "\<not> (?g \<and> ?short)" by (rule binds_unset [OF arg i]) (use x that in blast)+
  ultimately show "bound ok w0 M v s st (val(i := ?x)) (set_lib ?d w)" using d reach_lib [OF r _ h] unfolding bound_def by blast
qed

lemma bound_blob:
  assumes b: "bound ok w0 M v s st val w" and i: "val i = SqlNull" and st: "sm_run st = None"
    and sl: "slice_wf sl" "sl_len sl < 2 ^ 31"
  shows "outcome (bind_blob L s i sl) (\<lambda>_. bound ok w0 M v s st (val(i := blob_value sl))) E w"
proof (cases "sl_ptr sl")
  case None
  then have "sl_len sl = 0" using sl(1) by (simp add: slice_wf_def)
  moreover have "outcome (lib_do (sqlite3_bind_blob L s i None)) (\<lambda>_. bound ok w0 M v s st (val(i := opt_value SqlBlob None))) E w"
    by (rule bound_bytes [OF b i, where mk = SqlBlob and b = None and f = "sqlite3_bind_blob L s i None", OF _ bind_blob_law st]) simp
  ultimately show ?thesis using None by (simp add: bind_blob_def int_cast_small blob_value_def)
next
  case (Some mem)
  let ?bs = "take (sl_len sl) mem"
  have "outcome (lib_do (sqlite3_bind_blob L s i (Some ?bs))) (\<lambda>_. bound ok w0 M v s st (val(i := opt_value SqlBlob (Some ?bs)))) E w"
    by (rule bound_bytes [OF b i, where mk = SqlBlob and b = "Some ?bs" and f = "sqlite3_bind_blob L s i (Some ?bs)", OF _ bind_blob_law st]) simp
  with Some sl slice_read_some [OF sl(1) Some] show ?thesis
    by (simp add: bind_blob_def int_cast_small blob_value_def bindr_def of_res_def outcome_def)
qed

lemma bound_text:
  assumes b: "bound ok w0 M v s st val w" and i: "val i = SqlNull" and st: "sm_run st = None"
    and sl: "slice_wf sl" "sl_len sl < 2 ^ 31"
  shows "outcome (bind_text L s i sl) (\<lambda>_. bound ok w0 M v s st (val(i := text_value sl))) E w"
proof (cases "sl_ptr sl")
  case None
  moreover have "outcome (lib_do (sqlite3_bind_text L s i None)) (\<lambda>_. bound ok w0 M v s st (val(i := opt_value SqlText None))) E w"
    by (rule bound_bytes [OF b i, where mk = SqlText and b = None and f = "sqlite3_bind_text L s i None", OF _ bind_text_law st]) simp
  ultimately show ?thesis by (simp add: bind_text_def text_value_def)
next
  case (Some mem)
  let ?bs = "take (sl_len sl) mem"
  have "outcome (lib_do (sqlite3_bind_text L s i (Some ?bs))) (\<lambda>_. bound ok w0 M v s st (val(i := opt_value SqlText (Some ?bs)))) E w"
    by (rule bound_bytes [OF b i, where mk = SqlText and b = "Some ?bs" and f = "sqlite3_bind_text L s i (Some ?bs)", OF _ bind_text_law st]) simp
  with Some sl slice_read_some [OF sl(1) Some] show ?thesis
    by (simp add: bind_text_def int_cast_small text_value_def bindr_def of_res_def outcome_def)
qed

text \<open>Stepping through a query: the next row, the end, or an error, which may lose an open transaction.\<close>

lemma select_outcome:
  assumes r: "reach ok w0 M (set_stmt s (Some st) v) w" and c: "vw_conns v h = Some c" "sm_db st = h"
    and q: "sm_sql st \<notin> {InsertSegment, InsertRecord}"
    and rows: "case sm_run st of None \<Rightarrow> rows_determined (sm_sql st) (sm_args st) (current_db v c) \<and>
        rows = sql_rows (sm_sql st) (sm_args st) (current_db v c) | Some (x, rest) \<Rightarrow> rows = rest"
  shows "outcome (lib_call (sqlite3_step L s))
    (\<lambda>rc w'. rc = SQLITE_ROW \<and> (\<exists>x rest. rows = x # rest \<and> reach ok w0 M (set_stmt s (Some (st\<lparr>sm_run := Some (x, rest)\<rparr>)) v) w') \<or>
       rc = SQLITE_DONE \<and> rows = [] \<and> (\<exists>st'. reach ok w0 M (set_stmt s (Some st') v) w') \<or>
       rc \<notin> {SQLITE_ROW, SQLITE_DONE} \<and> \<not> healthy (w_lib w0) \<and> (\<exists>st' v'. tx_lost h v v' \<and> reach ok w0 M (set_stmt s (Some st') v') w')) E w"
proof (rule outcome_lib_call)
  fix rc d assume run: "sqlite3_step L s (w_lib w) = (rc, d)"
  have st: "vw_stmts (view (w_lib w)) s = Some st" and cn: "vw_conns (view (w_lib w)) (sm_db st) = Some c"
    and cur: "current_db (view (w_lib w)) c = current_db v c"
    using reach_view [OF r] c by simp_all
  note law = select_law [OF st cn q rows [folded cur] run, unfolded reach_view [OF r] c(2)]
  have d: "reach ok w0 M v' (set_lib d w)" if "view d = v'" for v' by (rule reach_lib [OF r that]) (use law in simp)
  have "\<exists>st' v'. tx_lost h v v' \<and> reach ok w0 M (set_stmt s (Some st') v') (set_lib d w)"
    if "\<exists>run v2. tx_lost h (set_stmt s (Some st) v) v2 \<and> view d = set_stmt s (Some (st\<lparr>sm_run := run\<rparr>)) v2"
    using that tx_lost_stmt d by metis
  with law d reach_healthy [OF r]
  show "rc = SQLITE_ROW \<and> (\<exists>x rest. rows = x # rest \<and> reach ok w0 M (set_stmt s (Some (st\<lparr>sm_run := Some (x, rest)\<rparr>)) v) (set_lib d w)) \<or>
       rc = SQLITE_DONE \<and> rows = [] \<and> (\<exists>st'. reach ok w0 M (set_stmt s (Some st') v) (set_lib d w)) \<or>
       rc \<notin> {SQLITE_ROW, SQLITE_DONE} \<and> \<not> healthy (w_lib w0) \<and> (\<exists>st' v'. tx_lost h v v' \<and> reach ok w0 M (set_stmt s (Some st') v') (set_lib d w))"
    by (cases "rc = SQLITE_ROW"; cases "rc = SQLITE_DONE") auto
qed

lemma insert_outcome:
  assumes b: "bound ok w0 M v s st val w" and c: "vw_conns v h = Some (p, Some db)" "sm_db st = h"
    and q: "sm_sql st = q" "q \<in> {InsertSegment, InsertRecord}" "sm_run st = None" and no: "val (if q = InsertSegment then 1 else 2) = SqlInt no"
  shows "outcome (lib_call (sqlite3_step L s))
    (\<lambda>rc w'. if rc = SQLITE_DONE
       then \<exists>arg db' st'. binds (healthy (w_lib w0)) max_len arg val \<and> sql_effect q arg db = Some db' \<and> sm_db st' = h \<and> sm_sql st' = q \<and>
         reach ok w0 M (set_stmt s (Some st') (set_conn h (Some (p, Some db')) v)) w'
       else \<not> (healthy (w_lib w0) \<and> (\<forall>i. is_int (val i) \<or> value_size (val i) \<le> max_len) \<and> sql_effect q val db \<noteq> None \<and> foreign_ok q val db \<and> row_size q val \<le> max_len) \<and>
         (\<exists>st' v'. tx_lost h v v' \<and> reach ok w0 M (set_stmt s (Some st') v') w')) E w"
proof (rule outcome_lib_call)
  fix rc d assume run: "sqlite3_step L s (w_lib w) = (rc, d)"
  obtain arg where arg: "binds (healthy (w_lib w0)) max_len arg val" and r: "reach ok w0 M (set_stmt s (Some (st\<lparr>sm_args := arg\<rparr>)) v) w"
    using b by (auto simp: bound_def)
  let ?st = "st\<lparr>sm_args := arg\<rparr>"
  have st: "vw_stmts (view (w_lib w)) s = Some ?st" and cn: "vw_conns (view (w_lib w)) (sm_db ?st) = Some (p, Some db)"
    using reach_view [OF r] c by simp_all
  have key: "\<exists>n. sm_args ?st (if sm_sql ?st = InsertSegment then 1 else 2) = SqlInt n"
    using binds_int [OF arg no] q(1) by auto
  have q': "sm_sql ?st \<in> {InsertSegment, InsertRecord}" "sm_run ?st = None" using q by auto
  note law = insert_law [OF st cn q' key run, unfolded reach_view [OF r]]
  have d: "reach ok w0 M v' (set_lib d w)" if "view d = v'" for v' by (rule reach_lib [OF r that]) (use law in simp)
  have err: "\<exists>st' v'. tx_lost h v v' \<and> reach ok w0 M (set_stmt s (Some st') v') (set_lib d w)"
    if "\<exists>run v2. tx_lost h (set_stmt s (Some ?st) v) v2 \<and> view d = set_stmt s (Some (?st\<lparr>sm_run := run\<rparr>)) v2"
    using that tx_lost_stmt d by metis
  show "if rc = SQLITE_DONE
       then \<exists>arg db' st'. binds (healthy (w_lib w0)) max_len arg val \<and> sql_effect q arg db = Some db' \<and> sm_db st' = h \<and> sm_sql st' = q \<and>
         reach ok w0 M (set_stmt s (Some st') (set_conn h (Some (p, Some db')) v)) (set_lib d w)
       else \<not> (healthy (w_lib w0) \<and> (\<forall>i. is_int (val i) \<or> value_size (val i) \<le> max_len) \<and> sql_effect q val db \<noteq> None \<and> foreign_ok q val db \<and> row_size q val \<le> max_len) \<and>
         (\<exists>st' v'. tx_lost h v v' \<and> reach ok w0 M (set_stmt s (Some st') v') (set_lib d w))"
  proof (cases "rc = SQLITE_DONE")
    case True
    with law obtain db' run' where e: "sql_effect q arg db = Some db'"
      "view d = set_stmt s (Some (?st\<lparr>sm_run := run'\<rparr>)) (set_conn h (Some (p, Some db')) v)"
      using q c by auto
    have "binds (healthy (w_lib w0)) max_len arg val \<and> sql_effect q arg db = Some db' \<and> sm_db (?st\<lparr>sm_run := run'\<rparr>) = h \<and> sm_sql (?st\<lparr>sm_run := run'\<rparr>) = q \<and>
      reach ok w0 M (set_stmt s (Some (?st\<lparr>sm_run := run'\<rparr>)) (set_conn h (Some (p, Some db')) v)) (set_lib d w)"
      using arg e(1) d [OF e(2)] q c by simp
    then show ?thesis unfolding if_P [OF True] by (intro exI)
  next
    case False
    have "\<not> (healthy (w_lib w0) \<and> (\<forall>i. is_int (val i) \<or> value_size (val i) \<le> max_len) \<and> sql_effect q val db \<noteq> None \<and> foreign_ok q val db \<and> row_size q val \<le> max_len)"
      using law False binds_eq [OF arg] reach_healthy [OF r] q by auto
    moreover have "\<exists>run v2. tx_lost h (set_stmt s (Some ?st) v) v2 \<and> view d = set_stmt s (Some (?st\<lparr>sm_run := run\<rparr>)) v2"
      using law False c by simp
    ultimately show ?thesis using False err by simp
  qed
qed

end

section \<open>The tables of a chain\<close>

definition seg_row_at :: "nat \<Rightarrow> bytes \<Rightarrow> seg_row" where
  "seg_row_at i bs = \<lparr>sr_no = of_nat (Suc i), sr_hash = SqlBlob (sha256 bs), sr_bytes = SqlBlob bs\<rparr>"

definition seg_rows :: "bytes list \<Rightarrow> seg_row list" where
  "seg_rows segs = map (\<lambda>i. seg_row_at i (segs ! i)) [0..<length segs]"

fun blob_bytes :: "sql_value \<Rightarrow> bytes" where
  "blob_bytes (SqlBlob b) = b"
| "blob_bytes _ = []"

definition db_chain :: "sqldb \<Rightarrow> bytes list" where
  "db_chain db = map (\<lambda>r. blob_bytes (sr_bytes r)) (seg_table db)"

definition chain_db :: "bytes list \<Rightarrow> sqldb \<Rightarrow> bool" where
  "chain_db segs db \<longleftrightarrow> db_segments db = Some (seg_rows segs) \<and> chain_ok segs"

text \<open>The row of a record, and the table of all records of a chain, in order.\<close>

definition record_row :: "u64 \<Rightarrow> nat \<Rightarrow> bytes \<Rightarrow> rec_row" where
  "record_row no i r =
     (let meta = fst (projr (record_spec r)) in
      \<lparr>rr_id = SqlBlob (sha256 r), rr_no = SqlInt no, rr_idx = SqlInt (of_nat i),
       rr_namespace = text_value (namespace_utf8 meta), rr_schema = text_value (schema_utf8 meta),
       rr_author = SqlBlob (author meta), rr_time = SqlInt (timestamp_ms meta), rr_bytes = SqlBlob r\<rparr>)"

definition seg_index :: "u64 \<Rightarrow> bytes \<Rightarrow> rec_row list" where
  "seg_index no bs = map (\<lambda>i. record_row no i (seg_records_of bs ! i)) [0..<length (seg_records_of bs)]"

definition chain_index :: "bytes list \<Rightarrow> rec_row list" where
  "chain_index segs = concat (map (\<lambda>i. seg_index (of_nat (Suc i)) (segs ! i)) [0..<length segs])"

text \<open>Beside the sizes, what it takes to index a segment: its records decode and no record is stored twice.\<close>

definition row_args :: "rec_row \<Rightarrow> nat \<Rightarrow> sql_value" where
  "row_args r = (\<lambda>_. SqlNull)(1 := rr_id r, 2 := rr_no r, 3 := rr_idx r, 4 := rr_namespace r, 5 := rr_schema r,
     6 := rr_author r, 7 := rr_time r, 8 := rr_bytes r)"

definition index_fits :: "nat \<Rightarrow> bytes list \<Rightarrow> bytes \<Rightarrow> bool" where
  "index_fits max_len segs bs \<longleftrightarrow>
     (\<forall>r \<in> set (seg_records_of bs). (\<exists>f. record_spec r = Inr f)) \<and>
     (\<forall>row \<in> set (seg_index (of_nat (Suc (length segs))) bs). row_size InsertRecord (row_args row) \<le> max_len) \<and>
     distinct (map sha256 (concat (map seg_records_of segs) @ seg_records_of bs))"

definition sqlite_fits :: "nat \<Rightarrow> bool \<Rightarrow> bytes list \<Rightarrow> bytes \<Rightarrow> bool" where
  "sqlite_fits max_len index segs bs \<longleftrightarrow> length bs + 93 \<le> max_len \<and> (index \<longrightarrow> index_fits max_len segs bs)"

lemma seg_rows_Nil [simp]: "seg_rows [] = []"
  by (simp add: seg_rows_def)

lemma seg_rows_snoc: "seg_rows (segs @ [bs]) = seg_rows segs @ [seg_row_at (length segs) bs]"
  by (simp add: seg_rows_def nth_append cong: map_cong)

lemma chain_index_Nil [simp]: "chain_index [] = []"
  by (simp add: chain_index_def)

lemma chain_index_snoc: "chain_index (segs @ [bs]) = chain_index segs @ seg_index (of_nat (Suc (length segs))) bs"
  by (auto simp: chain_index_def nth_append intro!: arg_cong [where f = concat])

lemma map_rr_id_index: "map rr_id (chain_index segs) = map (SqlBlob \<circ> sha256) (concat (map seg_records_of segs))"
proof (induction segs rule: rev_induct)
  case (snoc bs segs)
  have "map rr_id (seg_index no bs) = map (SqlBlob \<circ> sha256) (seg_records_of bs)" for no
    by (rule nth_equalityI) (simp_all add: seg_index_def record_row_def Let_def)
  with snoc show ?case by (simp add: chain_index_snoc)
qed simp

lemma length_seg_rows [simp]: "length (seg_rows segs) = length segs"
  by (simp add: seg_rows_def)

lemma seg_rows_nos: "map sr_no (seg_rows segs) = map (\<lambda>i. of_nat (Suc i)) [0..<length segs]"
  by (simp add: seg_rows_def seg_row_at_def)

lemma seg_rows_distinct: "chain_ok segs \<Longrightarrow> distinct (map sr_no (seg_rows segs))"
proof -
  assume "chain_ok segs"
  then have "length segs < size_mod" by (simp add: chain_ok_def)
  then have "inj_on (\<lambda>i. of_nat (Suc i) :: u64) {0..<length segs}"
    by (intro inj_onI) (metis Suc_inject atLeastLessThan_iff le_neq_implies_less less_trans_Suc nat_less_le not_less_eq unat_of_nat_u64)
  then show ?thesis unfolding seg_rows_nos by (simp add: distinct_map)
qed

lemma next_no_fresh: "length segs + 1 < size_mod \<Longrightarrow> of_nat (Suc (length segs)) \<notin> set (map sr_no (seg_rows segs))"
proof
  assume l: "length segs + 1 < size_mod" and "of_nat (Suc (length segs)) \<in> set (map sr_no (seg_rows segs))"
  then obtain i where i: "i < length segs" "of_nat (Suc (length segs)) = (of_nat (Suc i) :: u64)"
    by (auto simp: seg_rows_nos simp del: of_nat_Suc)
  then have "Suc (length segs) = Suc i" using unat_of_nat_u64 [of "Suc (length segs)"] unat_of_nat_u64 [of "Suc i"] l
    by (metis Suc_eq_plus1 Suc_less_eq less_trans)
  with i show False by simp
qed

lemma db_chain_rows: "chain_db segs db \<Longrightarrow> db_chain db = segs"
proof -
  assume "chain_db segs db"
  then have "seg_table db = seg_rows segs" by (simp add: chain_db_def seg_table_def)
  then show ?thesis
    by (simp add: db_chain_def seg_rows_def seg_row_at_def o_def) (simp add: map_nth)
qed

section \<open>The invariant\<close>

definition sqlite_own :: "'d sqlite_world \<Rightarrow> addr set" where
  "sqlite_own w = (case se_impl (w_env w) of None \<Rightarrow> {} | Some ss \<Rightarrow> {sq_ptr ss})"

definition tip_is :: "bytes list \<Rightarrow> sqlite_store \<Rightarrow> bool" where
  "tip_is segs ss \<longleftrightarrow> sq_has_tip ss = (segs \<noteq> []) \<and> sq_tip_no ss = of_nat (length segs) \<and> sq_tip_hash ss = tip_hash_of segs"

text \<open>
  A transaction that could not be rolled back may stay open; what it inserted is not part of the chain. No statement is
  left over.
\<close>

definition pending_db :: "bytes list \<Rightarrow> sqldb \<Rightarrow> bool" where
  "pending_db segs db \<longleftrightarrow>
     (\<exists>more. db_segments db = Some (seg_rows segs @ more) \<and> (\<forall>r \<in> set more. sr_no r \<notin> set (map sr_no (seg_rows segs))))"

definition idle :: "dbh \<Rightarrow> sql_view \<Rightarrow> bool" where
  "idle h v \<longleftrightarrow> (\<forall>s st. vw_stmts v s = Some st \<longrightarrow> sm_db st \<noteq> h)"

definition sqlite_at :: "sql_view \<Rightarrow> sqlite_store \<Rightarrow> dbh \<Rightarrow> string \<Rightarrow> sqldb option \<Rightarrow> bytes list \<Rightarrow> bool" where
  "sqlite_at v ss h p tx segs \<longleftrightarrow> sq_db ss = Some h \<and> vw_conns v h = Some (p, tx) \<and> idle h v \<and> tip_is segs ss \<and>
     chain_db segs (vw_files v p) \<and> (\<forall>db. tx = Some db \<longrightarrow> pending_db segs db)"

definition sqlite_inv :: "('d \<Rightarrow> sql_view) \<Rightarrow> string \<Rightarrow> bool \<Rightarrow> (heap \<Rightarrow> bool) \<Rightarrow> 'd sqlite_world \<Rightarrow> bool" where
  "sqlite_inv view p index ok w \<longleftrightarrow> ok (w_heap w) \<and> (\<exists>ss h tx segs. se_impl (w_env w) = Some ss \<and> sq_ptr ss \<in> hp_live (w_heap w) \<and>
     record_index_enabled ss = index \<and> sqlite_at (view (w_lib w)) ss h p tx segs)"

text \<open>The database of the connection, as committed.\<close>

definition sqlite_db :: "('d \<Rightarrow> sql_view) \<Rightarrow> 'd sqlite_world \<Rightarrow> (sqldb \<times> bool) option" where
  "sqlite_db view w =
     (case se_impl (w_env w) of
        None \<Rightarrow> None
      | Some ss \<Rightarrow>
          (case sq_db ss of
             None \<Rightarrow> None
           | Some h \<Rightarrow>
               (case vw_conns (view (w_lib w)) h of
                  None \<Rightarrow> None
                | Some (p, tx) \<Rightarrow> Some (vw_files (view (w_lib w)) p, tx = None))))"

definition sqlite_chain :: "('d \<Rightarrow> sql_view) \<Rightarrow> 'd sqlite_world \<Rightarrow> bytes list" where
  "sqlite_chain view w = (case sqlite_db view w of None \<Rightarrow> [] | Some (db, done_tx) \<Rightarrow> db_chain db)"

text \<open>
  A store in good order: the library and the memory do not fail, no transaction is left over, and the index, if
  there is one, has the records of the chain.
\<close>

definition sqlite_good :: "('d \<Rightarrow> sql_view) \<Rightarrow> ('d \<Rightarrow> bool) \<Rightarrow> bool \<Rightarrow> bool \<Rightarrow> 'd sqlite_world \<Rightarrow> bool" where
  "sqlite_good view healthy index rel w \<longleftrightarrow> rel \<and> healthy (w_lib w) \<and>
     (\<exists>db. sqlite_db view w = Some (db, True) \<and> (index \<longrightarrow> db_records db = Some (chain_index (db_chain db))))"

definition sqlite_handle :: "vicarl_allocator \<Rightarrow> 'd sqlite3_api \<Rightarrow> addr \<Rightarrow> vicarl_store_options \<Rightarrow> ('d sqlite_env, 'u) vicarl_store option" where
  "sqlite_handle A L p opt = Some \<lparr>st_ptr = p, st_vt = Some (SQLITE_VT A L), st_opt = opt\<rparr>"

lemma sqlite_handle_ops [simp]:
  "vicarl_store_tip (sqlite_handle A L p opt) = sqlite_tip"
  "vicarl_store_read_segment (sqlite_handle A L p opt) = sqlite_read_segment A L"
  "vicarl_store_append_segment (sqlite_handle A L p opt) = sqlite_append_segment A L opt"
  "vicarl_store_iter_segments (sqlite_handle A L p opt) = sqlite_iter_segments L"
  "vicarl_store_get_record (sqlite_handle A L p opt) = sqlite_get_record A L"
  "vicarl_store_query_records (sqlite_handle A L p opt) = sqlite_query_records L"
  "vt_fun vt_close (sqlite_handle A L p opt) = Some (sqlite_close A L)"
  by (simp_all add: fun_eq_iff sqlite_handle_def SQLITE_VT_def vt_fun_def vicarl_store_tip_def vicarl_store_read_segment_def
      vicarl_store_append_segment_def vicarl_store_iter_segments_def vicarl_store_get_record_def vicarl_store_query_records_def)

lemma sqlite_db_at: "se_impl (w_env w) = Some ss \<Longrightarrow> sqlite_at (view (w_lib w)) ss h p tx segs \<Longrightarrow>
    sqlite_db view w = Some (vw_files (view (w_lib w)) p, tx = None) \<and> sqlite_chain view w = segs"
  by (auto simp: sqlite_db_def sqlite_chain_def sqlite_at_def db_chain_rows)

lemma sqlite_invI: "ok (w_heap w) \<Longrightarrow> se_impl (w_env w) = Some ss \<Longrightarrow> sq_ptr ss \<in> hp_live (w_heap w) \<Longrightarrow> record_index_enabled ss = index \<Longrightarrow>
    sqlite_at (view (w_lib w)) ss h p tx segs \<Longrightarrow> sqlite_inv view p index ok w"
  unfolding sqlite_inv_def by blast

lemma sqlite_invE:
  assumes "sqlite_inv view p index ok w"
  obtains ss h tx where "ok (w_heap w)" "se_impl (w_env w) = Some ss" "sq_ptr ss \<in> hp_live (w_heap w)" "record_index_enabled ss = index"
    "sqlite_at (view (w_lib w)) ss h p tx (sqlite_chain view w)" "sqlite_db view w = Some (vw_files (view (w_lib w)) p, tx = None)"
  using assms sqlite_db_at unfolding sqlite_inv_def by metis

lemma sqlite_at_lost:
  assumes "sqlite_at v ss h p tx segs" "tx_lost h v v'"
  shows "\<exists>tx'. sqlite_at v' ss h p tx' segs \<and> (tx = None \<longrightarrow> tx' = None) \<and> vw_files v' = vw_files v"
proof -
  have c: "vw_conns v h = Some (p, tx)" using assms(1) by (simp add: sqlite_at_def)
  obtain tx' where "v' = set_conn h (Some (p, tx')) v" "tx' = tx \<or> tx' = None" by (rule tx_lostE [OF assms(2) c])
  with assms(1) show ?thesis by (auto simp: sqlite_at_def idle_def)
qed

context sqlite_library
begin

lemma kept_reach:
  assumes at: "se_impl (w_env w) = Some ss" "sqlite_at (view (w_lib w)) ss h p tx segs" "record_index_enabled ss = index"
    and r: "reach ok w M v' w'" and v': "tx_lost h (view (w_lib w)) v'" and M: "sq_ptr ss \<in> M"
  shows "kept ok (sqlite_inv view p index ok) sqlite_own (sqlite_good view healthy index rel) w M w' \<and> sqlite_chain view w' = segs"
proof -
  obtain tx' where tx': "sqlite_at v' ss h p tx' segs" "tx = None \<longrightarrow> tx' = None" "vw_files v' = vw_files (view (w_lib w))"
    using sqlite_at_lost [OF at(2) v'] by blast
  have i: "se_impl (w_env w') = Some ss" and lib: "view (w_lib w') = v'" using r at(1) by (simp_all add: reach_def)
  note db = sqlite_db_at [of w ss view, OF at(1,2)] sqlite_db_at [of w' ss view, OF i tx'(1) [folded lib]]
  have "sqlite_inv view p index ok w'" by (rule sqlite_invI [OF _ i _ at(3)]) (use lib tx'(1) r M in \<open>simp_all add: reach_def heap_to_def\<close>)
  moreover have "sqlite_own w' = sqlite_own w" by (simp add: sqlite_own_def i at(1))
  moreover have "sqlite_good view healthy index rel w \<longrightarrow> sqlite_good view healthy index rel w'"
    using db tx' lib reach_healthy [OF r] by (auto simp: sqlite_good_def)
  ultimately show ?thesis using r db by (auto simp: kept_def reach_def)
qed

end

lemma sqlite_tip_law:
  assumes "sqlite_inv view p index ok w"
  shows "sqlite_tip True w = (if sqlite_chain view w = [] then (Inl (VErr VICARL_ERR_NOT_FOUND None), w)
     else (Inr (of_nat (length (sqlite_chain view w)), sha256 (last (sqlite_chain view w))), w))"
  using assms by (rule sqlite_invE) (auto simp: sqlite_tip_def sqlite_at_def tip_is_def tip_hash_of_def)

section \<open>Reading a segment\<close>

context sqlite_library
begin

lemma copy_column_outcome:
  assumes A: "alloc_rel A ok rel" and r: "reach ok w0 M (set_stmt s (Some st) v) w" and s: "vw_stmts v s = None"
    and len: "length bs < size_mod"
  shows "outcome (copy_column A L s (if bs = [] then None else Some bs) (int (length bs)))
    (\<lambda>b w'. holds_bytes b bs \<and> own_bytes b \<inter> M = {} \<and> reach ok w0 (M \<union> own_bytes b) v w')
    (\<lambda>e w'. e = err_oom \<and> \<not> rel \<and> reach ok w0 M v w') w"
    (is "outcome _ ?Q ?E _")
proof -
  let ?b = "if bs = [] then None else Some bs"
  have sz: "nat (int (length bs) mod 2 ^ 64) = length bs" using len by (simp add: size_mod_def nat_mod_distrib)
  have rd: "(if int (length bs) > 0 then of_res (slice_read \<lparr>sl_ptr = ?b, sl_len = length bs\<rparr>) else retr []) w1 = (Inr bs, w1)" for w1 :: "'d sqlite_world"
    by (cases "bs = []") (simp_all add: of_res_def retr_def slice_read_def)
  have fin: "reach ok w0 M' v (set_lib (sqlite3_finalize L s (w_lib w1)) w1)" if "reach ok w0 M' (set_stmt s (Some st) v) w1" for M' w1
    using finalize_reach [OF that _ s] by simp
  let ?m = "on_heap (malloc_or_oom A (if length bs \<noteq> 0 then length bs else 1)) :: ('d sqlite_world, addr) vm"
  have "outcome ?m
    (\<lambda>p w'. p \<notin> M \<and> reach ok w0 (insert p M) (set_stmt s (Some st) v) w')
    (\<lambda>e w'. (e = err_oom \<and> \<not> rel) \<and> reach ok w0 M (set_stmt s (Some st) v) w') w"
    by (rule outcome_reach_heap [OF r], rule outcome_mono [OF malloc_or_oom_outcome [OF A]]) (use reach_ok [OF r] in auto)
  note m = outcome_mono [OF this]
  show ?thesis
    unfolding copy_column_def Let_def sz
  proof (rule outcome_bindr, rule outcome_on_error, rule m)
    fix p w1 assume 1: "p \<notin> M \<and> reach ok w0 (insert p M) (set_stmt s (Some st) v) w1"
    have "?Q \<lparr>by_ptr = Some p, by_data = bs, by_len = length bs\<rparr> (set_lib (sqlite3_finalize L s (w_lib w1)) w1)"
      using 1 fin [of "insert p M" w1] by (simp add: holds_bytes_def own_bytes_def)
    then show "outcome (bindr (if 0 < int (length bs) then of_res (slice_read \<lparr>sl_ptr = ?b, sl_len = length bs\<rparr>) else retr [])
       (\<lambda>bs'. bindr (lib_do (sqlite3_finalize L s)) (\<lambda>_. retr \<lparr>by_ptr = Some p, by_data = bs', by_len = length bs\<rparr>))) ?Q ?E w1"
      unfolding outcome_def bindr_def rd by (simp add: lib_do_def retr_def)
  next
    fix e w1 assume "(e = err_oom \<and> \<not> rel) \<and> reach ok w0 M (set_stmt s (Some st) v) w1"
    then show "?E e (snd (lib_do (sqlite3_finalize L s) w1))" using fin by (simp add: lib_do_def)
  qed
qed


text \<open>The step of a query for one blob, and what follows it in \<^verbatim>\<open>sqlite_read_segment\<close> and \<^verbatim>\<open>sqlite_get_record\<close>.\<close>

lemma fetch_outcome:
  assumes A: "alloc_rel A ok rel" and r: "reach ok w0 M (set_stmt s (Some st) v) w" and s: "vw_stmts v s = None"
    and c: "vw_conns v h = Some c" "sm_db st = h" and q: "sm_sql st \<notin> {InsertSegment, InsertRecord}" "sm_run st = None"
    "rows_determined (sm_sql st) (sm_args st) (current_db v c)"
    and rows: "rows = sql_rows (sm_sql st) (sm_args st) (current_db v c)" "rows = [] \<or> rows = [SqlBlob bs] # rest"
    and len: "length bs < size_mod" and F: "\<And>b k. F b (int k) = copy_column A L s b (int k)"
  shows "outcome (bindr (lib_call (sqlite3_step L s)) (\<lambda>rc.
      if rc = SQLITE_ROW then
        bindr (lib_get (sqlite3_column_blob L s 0)) (\<lambda>b. bindr (lib_get (sqlite3_column_bytes L s 0)) (\<lambda>n. F b n))
      else bindr (lib_do (sqlite3_finalize L s)) (\<lambda>_.
        if rc = SQLITE_DONE then failr (VErr VICARL_ERR_NOT_FOUND None) else sqlerr L (Some h) what)))
    (\<lambda>b w'. rows \<noteq> [] \<and> holds_bytes b bs \<and> own_bytes b \<inter> M = {} \<and> reach ok w0 (M \<union> own_bytes b) v w')
    (\<lambda>e w'. e = VErr VICARL_ERR_NOT_FOUND None \<and> rows = [] \<and> reach ok w0 M v w' \<or>
       (sql_error e \<or> e = err_oom) \<and> \<not> (rel \<and> healthy (w_lib w0)) \<and> (\<exists>v'. tx_lost h v v' \<and> reach ok w0 M v' w')) w"
    (is "outcome _ ?Q ?E _")
proof (rule outcome_bindr, rule outcome_mono [OF select_outcome [OF r c q(1), of rows]])
  show "case sm_run st of None \<Rightarrow> rows_determined (sm_sql st) (sm_args st) (current_db v c) \<and>
      rows = sql_rows (sm_sql st) (sm_args st) (current_db v c) | Some (x, rest) \<Rightarrow> rows = rest"
    using q rows by simp
next
  fix rc w1
  have closed: "outcome (lib_do (sqlite3_finalize L s)) (\<lambda>_ w'. reach ok w0 M v' w') E' w1"
    if "reach ok w0 M (set_stmt s (Some st') v') w1" "tx_lost h v v'" for st' v' E'
  proof (rule outcome_lib_do, rule finalize_reach [OF that(1)])
    show "vw_stmts v' s = None" using that(2) s by (auto simp: tx_lost_def)
  qed simp
  let ?body = "if rc = SQLITE_ROW then
        bindr (lib_get (sqlite3_column_blob L s 0)) (\<lambda>b. bindr (lib_get (sqlite3_column_bytes L s 0)) (\<lambda>n. F b n))
      else bindr (lib_do (sqlite3_finalize L s)) (\<lambda>_.
        if rc = SQLITE_DONE then failr (VErr VICARL_ERR_NOT_FOUND None) else sqlerr L (Some h) what)"
  assume "rc = SQLITE_ROW \<and> (\<exists>x rest. rows = x # rest \<and> reach ok w0 M (set_stmt s (Some (st\<lparr>sm_run := Some (x, rest)\<rparr>)) v) w1) \<or>
       rc = SQLITE_DONE \<and> rows = [] \<and> (\<exists>st'. reach ok w0 M (set_stmt s (Some st') v) w1) \<or>
       rc \<notin> {SQLITE_ROW, SQLITE_DONE} \<and> \<not> healthy (w_lib w0) \<and> (\<exists>st' v'. tx_lost h v v' \<and> reach ok w0 M (set_stmt s (Some st') v') w1)"
  then consider (row) x rest' where "rc = SQLITE_ROW" "rows = x # rest'" "reach ok w0 M (set_stmt s (Some (st\<lparr>sm_run := Some (x, rest')\<rparr>)) v) w1"
    | (fin) st' where "rc = SQLITE_DONE" "rows = []" "reach ok w0 M (set_stmt s (Some st') v) w1"
    | (err) st' v' where "rc \<notin> {SQLITE_ROW, SQLITE_DONE}" "\<not> healthy (w_lib w0)" "tx_lost h v v'" "reach ok w0 M (set_stmt s (Some st') v') w1"
    by blast
  then show "outcome ?body ?Q ?E w1"
  proof cases
    case row
    let ?st = "st\<lparr>sm_run := Some (x, rest')\<rparr>"
    have x: "x = [SqlBlob bs]" using rows(2) row(2) by simp
    have "vw_stmts (view (w_lib w1)) s = Some ?st" using reach_view [OF row(3)] by simp
    from column_blob_law [OF this, of x rest' 0 bs] x
    have col: "sqlite3_column_blob L s 0 (w_lib w1) = (if bs = [] then None else Some bs)"
      "sqlite3_column_bytes L s 0 (w_lib w1) = int (length bs)" by simp_all
    have "outcome (F (if bs = [] then None else Some bs) (int (length bs))) ?Q ?E w1"
      unfolding F by (rule outcome_mono [OF copy_column_outcome [OF A row(3) s len]]) (use row(2) in auto)
    with row(1) col show ?thesis by (simp add: outcome_def bindr_def lib_get_def)
  next
    case fin
    then have "outcome (bindr (lib_do (sqlite3_finalize L s)) (\<lambda>_. failr (VErr VICARL_ERR_NOT_FOUND None))) ?Q ?E w1"
      by (intro outcome_bindr outcome_mono [OF closed [OF fin(3) tx_lost_refl]]) (auto intro!: outcome_failr)
    with fin(1) show ?thesis by simp
  next
    case err
    have "outcome (bindr (lib_do (sqlite3_finalize L s)) (\<lambda>_. sqlerr L (Some h) what)) ?Q ?E w1"
      by (rule outcome_bindr, rule outcome_mono [OF closed [OF err(4,3)]]) (use err in \<open>auto intro!: outcome_sqlerr\<close>)
    with err(1) show ?thesis by simp
  qed
qed

end

lemma filter_distinct_key: "distinct (map f xs) \<Longrightarrow> i < length xs \<Longrightarrow> filter (\<lambda>r. f r = f (xs ! i)) xs = [xs ! i]"
proof (induction xs arbitrary: i)
  case (Cons x xs)
  show ?case
  proof (cases i)
    case 0
    then show ?thesis using Cons.prems(1) by (auto simp: filter_empty_conv image_iff)
  next
    case (Suc j)
    then have "f x \<noteq> f (xs ! j)" using Cons.prems by auto
    with Suc Cons show ?thesis by simp
  qed
qed simp

lemma seg_rows_nth: "i < length segs \<Longrightarrow> seg_rows segs ! i = seg_row_at i (segs ! i)"
  by (simp add: seg_rows_def)

lemma pending_lookup:
  assumes "pending_db segs db" "chain_ok segs" "i < length segs"
  shows "filter (\<lambda>r. sr_no r = of_nat (Suc i)) (seg_table db) = [seg_row_at i (segs ! i)]"
proof -
  obtain more where m: "seg_table db = seg_rows segs @ more" "\<forall>r \<in> set more. sr_no r \<notin> set (map sr_no (seg_rows segs))"
    using assms(1) by (auto simp: pending_db_def seg_table_def)
  have no: "sr_no (seg_rows segs ! i) = of_nat (Suc i)" using seg_rows_nth [OF assms(3)] by (simp add: seg_row_at_def)
  have "filter (\<lambda>r. sr_no r = of_nat (Suc i)) (seg_rows segs) = [seg_row_at i (segs ! i)]"
    using filter_distinct_key [OF seg_rows_distinct [OF assms(2)], of i] assms(3) seg_rows_nth [OF assms(3)] unfolding no by simp
  moreover have "of_nat (Suc i) \<in> set (map sr_no (seg_rows segs))" using assms(3) by (auto simp: seg_rows_nos)
  then have "filter (\<lambda>r. sr_no r = of_nat (Suc i)) more = []" using m(2) by (auto simp: filter_empty_conv)
  ultimately show ?thesis by (simp add: m(1))
qed

lemma sqlite_at_current: "sqlite_at v ss h p tx segs \<Longrightarrow> pending_db segs (current_db v (p, tx)) \<and> chain_ok segs"
  by (cases tx) (auto simp: sqlite_at_def current_db_def chain_db_def pending_db_def)

context sqlite_library
begin

lemma sqlite_read_law:
  assumes A: "alloc_rel A ok rel" and w: "sqlite_inv view p index ok w" and no: "0 < no" "no \<le> length (sqlite_chain view w)"
  shows "outcome (sqlite_read_segment A L (of_nat no) True)
    (\<lambda>b w'. holds_bytes b (sqlite_chain view w ! (no - 1)) \<and> own_bytes b \<inter> hp_live (w_heap w) = {} \<and>
       sqlite_chain view w' = sqlite_chain view w \<and>
       kept ok (sqlite_inv view p index ok) sqlite_own (sqlite_good view healthy index rel) w (hp_live (w_heap w) \<union> own_bytes b) w')
    (\<lambda>e w'. \<not> sqlite_good view healthy index rel w \<and> status_of (Inl e :: unit res) \<notin> {None, Some VICARL_ERR_NOT_FOUND} \<and>
       sqlite_chain view w' = sqlite_chain view w \<and>
       kept ok (sqlite_inv view p index ok) sqlite_own (sqlite_good view healthy index rel) w (hp_live (w_heap w)) w') w"
    (is "outcome _ ?Q ?E _")
proof -
  let ?segs = "sqlite_chain view w" and ?M = "hp_live (w_heap w)" and ?v = "view (w_lib w)"
  obtain ss h tx where at: "ok (w_heap w)" "se_impl (w_env w) = Some ss" "sq_ptr ss \<in> ?M" "record_index_enabled ss = index"
    "sqlite_at ?v ss h p tx ?segs" using w by (rule sqlite_invE)
  have c: "vw_conns ?v h = Some (p, tx)" "sq_db ss = Some h" using at(5) by (simp_all add: sqlite_at_def)
  obtain i where i: "no = Suc i" "i < length ?segs" using no by (cases no) auto
  let ?bs = "?segs ! i" and ?cur = "current_db ?v (p, tx)"
  note cur = sqlite_at_current [OF at(5)]
  have len: "length ?bs < size_mod" using cur i(2) by (auto simp: chain_ok_def seg_limit_def size_mod_def dest!: bspec [OF _ nth_mem])
  have ready: "sql_ready SelectBytes ?cur" using cur by (auto simp: pending_db_def)
  have keep: "kept ok (sqlite_inv view p index ok) sqlite_own (sqlite_good view healthy index rel) w M' w' \<and> sqlite_chain view w' = ?segs"
    if "reach ok w M' v' w'" "tx_lost h ?v v'" "sq_ptr ss \<in> M'" for M' v' w'
    by (rule kept_reach [OF at(2,5,4) that])
  have bad: "\<not> sqlite_good view healthy index rel w" if "\<not> (rel \<and> healthy (w_lib w))" using that by (auto simp: sqlite_good_def)
  let ?tail = "\<lambda>st. bindr (lib_call (sqlite3_step L st)) (\<lambda>rc.
          if rc = SQLITE_ROW then
            bindr (lib_get (sqlite3_column_blob L st 0)) (\<lambda>b.
            bindr (lib_get (sqlite3_column_bytes L st 0)) (\<lambda>n.
            if n < 0 then
              bindr (lib_do (sqlite3_finalize L st)) (\<lambda>_. failr (fail_with VICARL_ERR_FORMAT ''sqlite_read_segment: invalid blob size''))
            else copy_column A L st b n))
          else
            bindr (lib_do (sqlite3_finalize L st)) (\<lambda>_.
            if rc = SQLITE_DONE then failr (VErr VICARL_ERR_NOT_FOUND None)
            else sqlerr L (Some h) ''step read_segment''))"
  have "outcome (bindr (prepare_or_fail L (Some h) (sql_text SelectBytes) ''prepare read_segment'') (\<lambda>st.
      bindr (lib_do (sqlite3_bind_int64 L st 1 (of_nat no))) (\<lambda>_. ?tail st))) ?Q ?E w"
  proof (rule outcome_bindr, rule outcome_mono [OF prepare_or_fail_outcome [OF reach_start [where ok = ok and w = w, OF at(1)] c(1) refl]])
    fix s w1
    assume 1: "sql_ready SelectBytes ?cur \<and> vw_stmts ?v s = None \<and> reach ok w ?M (set_stmt s (Some (fresh_stmt h SelectBytes)) ?v) w1"
    let ?args = "(\<lambda>_. SqlNull)(1 := SqlInt (of_nat no))" and ?st = "\<lambda>a. (fresh_stmt h SelectBytes)\<lparr>sm_args := a\<rparr>"
    have b1: "bound ok w ?M ?v s (fresh_stmt h SelectBytes) (\<lambda>_. SqlNull) w1" using 1 by (intro boundI) simp_all
    show "outcome (bindr (lib_do (sqlite3_bind_int64 L s 1 (of_nat no))) (\<lambda>_. ?tail s)) ?Q ?E w1"
    proof (rule outcome_bindr, rule outcome_mono [OF bound_int64 [OF b1]])
      fix x :: unit and w2 assume "bound ok w ?M ?v s (fresh_stmt h SelectBytes) ?args w2"
      then have 2: "reach ok w ?M (set_stmt s (Some (?st ?args)) ?v) w2" by (rule bound_ints) simp
      have "filter (\<lambda>r. sql_eq (SqlInt (sr_no r)) (SqlInt (of_nat no))) (seg_table ?cur) = [seg_row_at i ?bs]"
        using pending_lookup [OF _ _ i(2)] cur by (simp add: sql_eq_def i(1))
      then have rows: "sql_rows SelectBytes ?args ?cur = [[SqlBlob ?bs]]" by (simp add: seg_row_at_def)
      show "outcome (?tail s) ?Q ?E w2"
      proof (rule outcome_mono [OF fetch_outcome [OF A 2 _ c(1), where rows = "[[SqlBlob ?bs]]" and bs = ?bs and rest = "[]"]])
        fix b w' assume "[[SqlBlob ?bs]] \<noteq> [] \<and> holds_bytes b ?bs \<and> own_bytes b \<inter> ?M = {} \<and> reach ok w (?M \<union> own_bytes b) ?v w'"
        then show "?Q b w'" using keep [of "?M \<union> own_bytes b" ?v w'] at(3) i by auto
      next
        fix e w' assume "e = VErr VICARL_ERR_NOT_FOUND None \<and> [[SqlBlob ?bs]] = [] \<and> reach ok w ?M ?v w' \<or>
          (sql_error e \<or> e = err_oom) \<and> \<not> (rel \<and> healthy (w_lib w)) \<and> (\<exists>v'. tx_lost h ?v v' \<and> reach ok w ?M v' w')"
        then show "?E e w'" using keep [of ?M] at(3) bad by (auto simp: sql_error_def fail_with_def)
      qed (use 1 rows len in auto)
    qed simp_all
  next
    fix e w' assume "sql_error e \<and> \<not> (healthy (w_lib w) \<and> sql_ready SelectBytes ?cur) \<and> (\<exists>v'. tx_lost h ?v v' \<and> reach ok w ?M v' w')"
    then show "?E e w'" using keep [of ?M] at(3) ready bad by (auto simp: sql_error_def)
  qed
  then show ?thesis unfolding outcome_def sqlite_read_segment_def at(2) option.case c(2) not_True_eq_False if_False .
qed

end

end
