(* ===== verification/Vicarl_SqliteAppend.thy ===== *)
theory Vicarl_SqliteAppend
  imports Vicarl_StoreSqlite
begin

text \<open>
  Appending to the SQLite store: one transaction inserts the segment and, if the index is enabled, a row per record; whatever fails, the
  chain is either longer by the segment or as it was. With this the store is a \<^verbatim>\<open>segment_store\<close>, on every library that
  keeps the contract.
\<close>

section \<open>Appending\<close>

lemma peek_prev_of_segment:
  assumes "slice_wf enc" "segment_spec (slice_bytes enc) = Inr (hdr, rs, hs, sig)"
  shows "peek_segment_no_prev enc = Inr (segment_no hdr, prev_segment_hash hdr)"
  using assms
  by (rule segment_spec_reads) (auto simp: peek_segment_no_prev_def bindr_Inr rethrow_Inr VICARL_SEG_MAGIC_def bindr_retr retr_def)

lemma store_command_texts:
  "''BEGIN IMMEDIATE;'' = command_text Begin" "''COMMIT;'' = command_text Commit" "''ROLLBACK;'' = command_text Rollback"
  by (simp_all add: command_text.simps)

lemma store_commands_in: "Begin \<in> set store_commands" "Commit \<in> set store_commands" "Rollback \<in> set store_commands"
  by (simp_all add: store_commands_def)

context sqlite_library
begin

text \<open>The error after which a transaction may or may not be rolled back.\<close>

lemma tx_lost_within:
  assumes "vw_conns v h = Some (p, tx)" "tx_lost h v v'"
  shows "\<exists>tx'. (tx' = tx \<or> tx' = None) \<and> v' = set_conn h (Some (p, tx')) v"
  using assms by (metis tx_lostE)

lemma rollback_outcome:
  assumes r: "reach ok w0 M v w" and c: "vw_conns v h = Some (p, tx)"
  shows "outcome (exec_sql L h ''ROLLBACK;'')
    (\<lambda>_ w'. reach ok w0 M (set_conn h (Some (p, None)) v) w')
    (\<lambda>e w'. sql_error e \<and> (\<exists>tx'. (tx' = tx \<or> tx' = None) \<and> (healthy (w_lib w0) \<longrightarrow> tx' = None) \<and> reach ok w0 M (set_conn h (Some (p, tx')) v) w')) w"
proof (rule outcome_mono [OF exec_outcome [OF r store_commands_in(3) store_command_texts(3) c]])
  fix e w' assume "sql_error e \<and> \<not> (healthy (w_lib w0) \<and> exec_allowed Rollback (snd (p, tx))) \<and> (\<exists>v'. tx_lost h v v' \<and> reach ok w0 M v' w')"
  then show "sql_error e \<and> (\<exists>tx'. (tx' = tx \<or> tx' = None) \<and> (healthy (w_lib w0) \<longrightarrow> tx' = None) \<and> reach ok w0 M (set_conn h (Some (p, tx')) v) w')"
    using tx_lost_within [OF c] by fastforce
qed simp

text \<open>What is left after an attempt to roll back.\<close>

definition undone :: "(heap \<Rightarrow> bool) \<Rightarrow> 'd sqlite_world \<Rightarrow> addr set \<Rightarrow> dbh \<Rightarrow> string \<Rightarrow> sqldb option \<Rightarrow> sql_view \<Rightarrow> 'd sqlite_world \<Rightarrow> bool" where
  "undone ok w0 M h p tx v w' \<longleftrightarrow>
     (\<exists>tx'. (tx' = tx \<or> tx' = None) \<and> (healthy (w_lib w0) \<longrightarrow> tx' = None) \<and> reach ok w0 M (set_conn h (Some (p, tx')) v) w')"

lemma ignoring_rollback:
  assumes "reach ok w0 M v w" "vw_conns v h = Some (p, tx)"
  shows "outcome (ignoring (exec_sql L h ''ROLLBACK;'')) (\<lambda>_. undone ok w0 M h p tx v) E w"
  by (rule outcome_ignoring, rule outcome_mono [OF rollback_outcome [OF assms]]) (auto simp: undone_def)

lemma rollback_on_error_outcome:
  assumes m: "outcome m Q (\<lambda>e w'. P e \<and> (\<exists>tx. T tx \<and> reach ok w0 M (set_conn h (Some (p, tx)) v) w')) w"
    and P: "\<And>e e'. sql_error e' \<Longrightarrow> P e \<Longrightarrow> P (overwrite_msg e' e)"
  shows "outcome (rollback_on_error L h m) Q (\<lambda>e w'. P e \<and> (\<exists>tx. T tx \<and> undone ok w0 M h p tx v w')) w"
proof -
  obtain r w1 where run: "m w = (r, w1)" by (cases "m w")
  show ?thesis
  proof (cases r)
    case (Inr x)
    with m run show ?thesis by (simp add: outcome_def rollback_on_error_def)
  next
    case (Inl e)
    then obtain tx where e: "P e" "T tx" "reach ok w0 M (set_conn h (Some (p, tx)) v) w1" using outcome_Inl [OF m] run by blast
    have rb: "outcome (exec_sql L h ''ROLLBACK;'') (\<lambda>_. undone ok w0 M h p tx v) (\<lambda>e'. \<lambda>w'. sql_error e' \<and> undone ok w0 M h p tx v w') w1"
      by (rule outcome_mono [OF rollback_outcome [OF e(3)]]) (auto simp: undone_def)
    obtain r2 w2 where run2: "exec_sql L h ''ROLLBACK;'' w1 = (r2, w2)" by (cases "exec_sql L h ''ROLLBACK;'' w1")
    show ?thesis
    proof (cases r2)
      case (Inl e2)
      then have "rollback_on_error L h m w = (Inl (overwrite_msg e2 e), w2)" by (simp add: rollback_on_error_def run run2 \<open>r = Inl e\<close>)
      with outcome_Inl [OF rb run2 [unfolded Inl]] e P show ?thesis unfolding outcome_def by auto
    next
      case (Inr x)
      then have "rollback_on_error L h m w = (Inl e, w2)" by (simp add: rollback_on_error_def run run2 \<open>r = Inl e\<close>)
      with outcome_Inr [OF rb run2 [unfolded Inr]] e show ?thesis unfolding outcome_def by auto
    qed
  qed
qed

end

lemma outcome_then: "outcome m (\<lambda>_. P) E w \<Longrightarrow> (\<And>w'. P w' \<Longrightarrow> outcome f Q E w') \<Longrightarrow> outcome (bindr m (\<lambda>_. f)) Q E w"
  by (rule outcome_bindr, erule outcome_mono)

definition add_segment :: "u64 \<Rightarrow> vicarl_hash32 \<Rightarrow> bytes \<Rightarrow> sqldb \<Rightarrow> sqldb" where
  "add_segment no hash bs db = db\<lparr>db_segments := Some (seg_table db @ [\<lparr>sr_no = no, sr_hash = SqlBlob hash, sr_bytes = SqlBlob bs\<rparr>])\<rparr>"

lemma insert_segment_effect:
  assumes b: "binds g m arg ((\<lambda>_. SqlNull)(1 := SqlInt no, 2 := SqlBlob hash, 3 := SqlBlob bs))"
    and e: "sql_effect InsertSegment arg db = Some db'"
  shows "db' = add_segment no hash bs db"
proof -
  have "arg 1 = SqlInt no" using binds_int [OF b, of 1] by simp
  with e have "arg 2 \<noteq> SqlNull" "arg 3 \<noteq> SqlNull" "db' = db\<lparr>db_segments := Some (seg_table db @ [seg_row_of arg no])\<rparr>"
    by (auto split: if_splits)
  moreover from this have "arg 2 = SqlBlob hash" "arg 3 = SqlBlob bs" using binds_at [OF b, of 2] binds_at [OF b, of 3] by auto
  ultimately show ?thesis by (simp add: add_segment_def seg_row_of_def)
qed

context sqlite_library
begin

text \<open>Inserting a segment: a failed statement is rolled back; the three parameters; the step.\<close>

lemma undo_segment_outcome:
  assumes r: "reach ok w0 M v' w" "tx_lost h v v'" and c: "vw_conns v h = Some (p, Some db)" and bad: "B"
  shows "outcome (bindr (ignoring (exec_sql L h ''ROLLBACK;'')) (\<lambda>_. sqlerr L (Some h) what)) Q
    (\<lambda>e w'. sql_error e \<and> B \<and> undone ok w0 M h p (Some db) v w') w"
proof -
  obtain tx where tx: "tx = Some db \<or> tx = None" "v' = set_conn h (Some (p, tx)) v" using tx_lost_within [OF c r(2)] by blast
  then have c': "vw_conns v' h = Some (p, tx)" by simp
  have "sql_error e \<and> B \<and> undone ok w0 M h p (Some db) v w2" if "undone ok w0 M h p tx v' w2" "sql_error e" for e w2
    using that tx bad by (auto simp: undone_def)
  then show ?thesis by (intro outcome_bindr outcome_mono [OF ignoring_rollback [OF r(1) c']] outcome_sqlerr)
qed

lemma bind_segment_outcome:
  assumes b: "bound ok w0 M v s st (\<lambda>_. SqlNull) w" and st: "sm_run st = None" and hash: "length hash = 32"
    and enc: "slice_wf enc" "sl_ptr enc \<noteq> None" "sl_len enc < 2 ^ 31"
  shows "outcome (bindr (lib_do (sqlite3_bind_int64 L s 1 no)) (\<lambda>_. bindr (bind_blob L s 2 (slice_of hash)) (\<lambda>_. bind_blob L s 3 enc)))
    (\<lambda>_. bound ok w0 M v s st ((\<lambda>_. SqlNull)(1 := SqlInt no, 2 := SqlBlob hash, 3 := SqlBlob (slice_bytes enc)))) E w"
  by (rule outcome_then [OF bound_int64 [OF b st]], rule outcome_then [OF bound_blob [OF _ _ st]], assumption)
     (use hash in \<open>simp_all add: size_mod_def blob_value_ptr [OF enc(2), symmetric]\<close>, rule bound_blob [OF _ _ st enc(1,3)], simp_all)

lemma step_segment_outcome:
  assumes b: "bound ok w0 M v s (fresh_stmt h InsertSegment) val w" and s: "vw_stmts v s = None" and c: "vw_conns v h = Some (p, Some db)"
    and val: "val = (\<lambda>_. SqlNull)(1 := SqlInt no, 2 := SqlBlob hash, 3 := SqlBlob bs)" and hash: "length hash = 32"
  shows "outcome (bindr (lib_call (sqlite3_step L s)) (\<lambda>rc. bindr (lib_do (sqlite3_finalize L s)) (\<lambda>_.
       if rc \<noteq> SQLITE_DONE then bindr (ignoring (exec_sql L h ''ROLLBACK;'')) (\<lambda>_. sqlerr L (Some h) ''insert segment'') else retr ())))
    (\<lambda>_ w'. reach ok w0 M (set_conn h (Some (p, Some (add_segment no hash bs db))) v) w')
    (\<lambda>e w'. sql_error e \<and> \<not> (healthy (w_lib w0) \<and> length bs + 93 \<le> max_len \<and> no \<notin> set (map sr_no (seg_table db))) \<and> undone ok w0 M h p (Some db) v w') w"
    (is "outcome _ ?Q (\<lambda>e w'. sql_error e \<and> ?B \<and> _ e w') _")
proof (rule outcome_bindr, rule outcome_mono [OF insert_outcome [OF b c, where q = InsertSegment and no = no]])
  let ?E = "\<lambda>e w'. sql_error e \<and> ?B \<and> undone ok w0 M h p (Some db) v w'"
  fix rc w3
  assume 3: "if rc = SQLITE_DONE
   then \<exists>arg db' st'. binds (healthy (w_lib w0)) max_len arg val \<and> sql_effect InsertSegment arg db = Some db' \<and> sm_db st' = h \<and> sm_sql st' = InsertSegment \<and>
     reach ok w0 M (set_stmt s (Some st') (set_conn h (Some (p, Some db')) v)) w3
   else \<not> (healthy (w_lib w0) \<and> (\<forall>i. is_int (val i) \<or> value_size (val i) \<le> max_len) \<and> sql_effect InsertSegment val db \<noteq> None \<and> foreign_ok InsertSegment val db \<and> row_size InsertSegment val \<le> max_len) \<and>
     (\<exists>st' v'. tx_lost h v v' \<and> reach ok w0 M (set_stmt s (Some st') v') w3)"
  have fin: "outcome (lib_do (sqlite3_finalize L s)) (\<lambda>_. reach ok w0 M v') E' w3"
    if "reach ok w0 M (set_stmt s (Some st') v') w3" "vw_stmts v' s = None" for st' v' E'
    by (rule outcome_lib_do, rule finalize_reach [OF that(1) _ that(2)]) simp
  show "outcome (bindr (lib_do (sqlite3_finalize L s)) (\<lambda>_.
     if rc \<noteq> SQLITE_DONE then bindr (ignoring (exec_sql L h ''ROLLBACK;'')) (\<lambda>_. sqlerr L (Some h) ''insert segment'') else retr ())) ?Q ?E w3"
  proof (cases "rc = SQLITE_DONE")
    case True
    with 3 obtain arg db' st' where e: "binds (healthy (w_lib w0)) max_len arg val" "sql_effect InsertSegment arg db = Some db'"
      "reach ok w0 M (set_stmt s (Some st') (set_conn h (Some (p, Some db')) v)) w3" by auto
    have "db' = add_segment no hash bs db" by (rule insert_segment_effect [OF e(1) [unfolded val] e(2)])
    with True e(3) s show ?thesis by (intro outcome_bindr outcome_mono [OF fin [OF e(3)]]) (auto intro: outcome_retr)
  next
    case False
    with 3 obtain st' v' where e: "tx_lost h v v'" "reach ok w0 M (set_stmt s (Some st') v') w3"
      and bad: "\<not> (healthy (w_lib w0) \<and> (\<forall>i. is_int (val i) \<or> value_size (val i) \<le> max_len) \<and> sql_effect InsertSegment val db \<noteq> None \<and>
        row_size InsertSegment val \<le> max_len)" by (auto simp: val)
    have "row_size InsertSegment val = length bs + 93" using hash by (simp add: val upt_rec)
    moreover have eff: "sql_effect InsertSegment val db \<noteq> None" if "no \<notin> set (map sr_no (seg_table db))" using that by (simp add: val)
    moreover have "length bs + 93 \<le> max_len \<Longrightarrow> is_int (val i) \<or> value_size (val i) \<le> max_len" for i using hash by (simp add: val)
    ultimately have bad': ?B using bad eff by metis
    have "vw_stmts v' s = None" using e(1) s by (auto simp: tx_lost_def)
    with False show ?thesis
      by (simp only: not_False_eq_True if_True)
         (rule outcome_bindr, rule outcome_mono [OF fin [OF e(2)]], assumption, rule undo_segment_outcome [OF _ e(1) c bad'], assumption+)
  qed
qed (simp_all add: val)

lemma insert_segment_outcome:
  assumes r: "reach ok w0 M v w" and c: "vw_conns v h = Some (p, Some db)" "db_segments db \<noteq> None"
    and enc: "slice_wf enc" "sl_ptr enc \<noteq> None" "sl_len enc < 2 ^ 31" and hash: "length hash = 32"
  shows "outcome (insert_segment L h no hash enc)
    (\<lambda>_ w'. reach ok w0 M (set_conn h (Some (p, Some (add_segment no hash (slice_bytes enc) db))) v) w')
    (\<lambda>e w'. sql_error e \<and> \<not> (healthy (w_lib w0) \<and> sl_len enc + 93 \<le> max_len \<and> no \<notin> set (map sr_no (seg_table db))) \<and>
       undone ok w0 M h p (Some db) v w') w"
    (is "outcome _ ?Q ?E _")
  unfolding insert_segment_def
proof (rule outcome_bindr, rule outcome_mono [OF prepare_outcome [OF r c(1) refl]], unfold split_paired_all prod.case)
  let ?step = "\<lambda>s. bindr (lib_call (sqlite3_step L s)) (\<lambda>rc. bindr (lib_do (sqlite3_finalize L s)) (\<lambda>_.
       if rc \<noteq> SQLITE_DONE then bindr (ignoring (exec_sql L h ''ROLLBACK;'')) (\<lambda>_. sqlerr L (Some h) ''insert segment'') else retr ()))"
  fix rc s w1
  assume 1: "if rc = SQLITE_OK
     then sql_ready InsertSegment (current_db v (p, Some db)) \<and> vw_stmts v s = None \<and> reach ok w0 M (set_stmt s (Some (fresh_stmt h InsertSegment)) v) w1
     else \<not> (healthy (w_lib w0) \<and> sql_ready InsertSegment (current_db v (p, Some db))) \<and> (\<exists>v'. tx_lost h v v' \<and> reach ok w0 M v' w1)"
  show "outcome (if rc \<noteq> SQLITE_OK then
       bindr (ignoring (exec_sql L h ''ROLLBACK;'')) (\<lambda>_. sqlerr L (Some h) ''prepare insert segment'')
     else bindr (lib_do (sqlite3_bind_int64 L s 1 no)) (\<lambda>_. bindr (bind_blob L s 2 (slice_of hash)) (\<lambda>_. bindr (bind_blob L s 3 enc) (\<lambda>_. ?step s)))) ?Q ?E w1"
  proof (cases "rc = SQLITE_OK")
    case False
    with 1 c(2) obtain v' where v': "tx_lost h v v'" "reach ok w0 M v' w1" "\<not> healthy (w_lib w0)" by (auto simp: current_db_def)
    then have "\<not> (healthy (w_lib w0) \<and> sl_len enc + 93 \<le> max_len \<and> no \<notin> set (map sr_no (seg_table db)))" by simp
    from undo_segment_outcome [OF v'(2,1) c(1) this] False show ?thesis by simp
  next
    case True
    let ?val = "(\<lambda>_ :: nat. SqlNull)(1 := SqlInt no, 2 := SqlBlob hash, 3 := SqlBlob (slice_bytes enc))"
    have s: "vw_stmts v s = None" and r1: "reach ok w0 M (set_stmt s (Some (fresh_stmt h InsertSegment)) v) w1" using 1 True by auto
    have b: "bound ok w0 M v s (fresh_stmt h InsertSegment) (\<lambda>_. SqlNull) w1" by (rule boundI [OF r1]) simp
    have "outcome (bindr (bindr (lib_do (sqlite3_bind_int64 L s 1 no)) (\<lambda>_. bindr (bind_blob L s 2 (slice_of hash)) (\<lambda>_. bind_blob L s 3 enc))) (\<lambda>_. ?step s)) ?Q ?E w1"
      using step_segment_outcome [OF _ s c(1) refl hash, of ok w0 M no "slice_bytes enc"] slice_wf_length [OF enc(1)]
      by (intro outcome_then [OF bind_segment_outcome [OF b _ hash enc]]) simp_all
    then show ?thesis using True by (simp add: bindr_assoc)
  qed
qed auto

end

text \<open>What a decoded record says about itself lies within its bytes.\<close>

lemma record_spec_meta:
  assumes spec: "record_spec r = Inr (meta, pl, hs, sg)" and len: "length r < size_mod"
  shows "(slice_wf (namespace_utf8 meta) \<and> sl_ptr (namespace_utf8 meta) \<noteq> None \<and> sl_len (namespace_utf8 meta) \<le> length r) \<and>
    (slice_wf (schema_utf8 meta) \<and> sl_ptr (schema_utf8 meta) \<noteq> None \<and> sl_len (schema_utf8 meta) \<le> length r) \<and> length (author meta) = 32 \<and> 32 \<le> length r"
proof -
  let ?r = "vicarl_rbuf_init r (length r)"
  obtain r0 where p: "record_parse ?r = (Inr (meta, pl, hs, sg), r0)"
    using spec by (cases "record_parse ?r") (auto simp: record_spec_def split: if_splits)
  obtain m r1 fl r2 r3 r4 au r5 where s: "get_magic ?r = (Inr m, r1)" "vicarl_rbuf_get_u8 r1 = (Inr fl, r2)"
    "vicarl_rbuf_get_ldbytes r2 = (Inr (namespace_utf8 meta), r3)" "vicarl_rbuf_get_ldbytes r3 = (Inr (schema_utf8 meta), r4)"
    "vicarl_rbuf_get_bytes 32 r4 = (Inr au, r5)" "author meta = slice_bytes au"
    using p unfolding record_parse_def record_fields_def by (auto simp: vm_Inr_iff guardr_run retr_def Let_def split: if_splits) blast
  have d0: "rbuf_wf ?r" "rb_data ?r = r" by (simp_all add: vicarl_rbuf_init_def rbuf_wf_def)
  have skip: "rbuf_wf r' \<and> rb_data r' = r" if "rbuf_wf q" "rb_data q = r" "\<exists>k \<le> length (unread q). r' = rbuf_skip k q" for q r'
    using that rbuf_skip_wf [of q] by (auto simp: rbuf_skip_def)
  have d1: "rbuf_wf r1 \<and> rb_data r1 = r" using skip [OF d0 reader_safeD_Inr [OF reader_safe_get_magic d0(1) s(1)]] .
  have d2: "rbuf_wf r2 \<and> rb_data r2 = r" using skip [OF _ _ reader_safeD_Inr [OF reader_safe_get_u8 _ s(2)]] d1 by simp
  have d3: "rbuf_wf r3 \<and> rb_data r3 = r" using skip [OF _ _ reader_safeD_Inr [OF reader_safe_get_ldbytes _ s(3)]] d2 by simp
  have d4: "rbuf_wf r4 \<and> rb_data r4 = r" using skip [OF _ _ reader_safeD_Inr [OF reader_safe_get_ldbytes _ s(4)]] d3 by simp
  have "32 \<le> length (unread r4)" "length (slice_bytes au) = 32" using outcome_Inr [OF get_bytes_cases s(5)] d4 by simp_all
  moreover have "length (unread r4) \<le> length r" using d4 by (simp add: unread_def)
  ultimately have "length (slice_bytes au) = 32 \<and> 32 \<le> length r" by simp
  with get_ldbytes_result [OF _ _ s(3)] get_ldbytes_result [OF _ _ s(4)] s(6) d2 d3 len show ?thesis by simp
qed

lemma text_value_ptr: "sl_ptr s \<noteq> None \<Longrightarrow> text_value s = SqlText (slice_bytes s)"
  by (auto simp: text_value_def opt_value_def slice_bytes_def)

context sqlite_library
begin

lemma bind_record_outcome:
  assumes r: "reach ok w0 M (set_stmt s (Some st) v) w" and st: "sm_db st = h" "sm_sql st = InsertRecord"
    and rb: "slice_wf rb" "sl_ptr rb \<noteq> None" "sl_len rb < 2 ^ 31" and spec: "record_spec (slice_bytes rb) = Inr (meta, pl, hs, sg)"
    and row: "row = record_row no i (slice_bytes rb)"
  shows "outcome (bind_record L s (sha256 (slice_bytes rb)) no i meta rb)
    (\<lambda>_. bound ok w0 M v s (fresh_stmt h InsertRecord) (row_args row)) E w"
proof -
  let ?bs = "slice_bytes rb" and ?st = "fresh_stmt h InsertRecord" and ?N = "\<lambda>_ :: nat. SqlNull"
  have len: "length ?bs < 2 ^ 31" using rb slice_wf_length by simp
  note m = record_spec_meta [OF spec]
  have ns: "slice_wf (namespace_utf8 meta)" "sl_ptr (namespace_utf8 meta) \<noteq> None" "sl_len (namespace_utf8 meta) < 2 ^ 31"
    and sc: "slice_wf (schema_utf8 meta)" "sl_ptr (schema_utf8 meta) \<noteq> None" "sl_len (schema_utf8 meta) < 2 ^ 31"
    and au: "length (author meta) = 32" using m len by (auto simp: size_mod_def)
  have args: "row_args row = ?N(1 := SqlBlob (sha256 ?bs), 2 := SqlInt no, 3 := SqlInt (of_nat i), 4 := text_value (namespace_utf8 meta),
      5 := text_value (schema_utf8 meta), 6 := SqlBlob (author meta), 7 := SqlInt (timestamp_ms meta), 8 := SqlBlob ?bs)"
    by (simp add: row row_args_def record_row_def spec)
  have au': "slice_wf (slice_of (author meta))" "slice_wf (slice_of (sha256 ?bs))" using au by (simp_all add: size_mod_def)
  have rbv: "blob_value rb = SqlBlob ?bs" using rb(2) by (rule blob_value_ptr)
  have s8: "outcome (bind_blob L s 8 rb) (\<lambda>_. bound ok w0 M v s ?st (row_args row)) E w'"
    if "bound ok w0 M v s ?st (?N(1 := SqlBlob (sha256 ?bs), 2 := SqlInt no, 3 := SqlInt (of_nat i), 4 := text_value (namespace_utf8 meta),
      5 := text_value (schema_utf8 meta), 6 := SqlBlob (author meta), 7 := SqlInt (timestamp_ms meta))) w'" for w'
    by (rule outcome_mono [OF bound_blob [OF that]]) (use rb rbv in \<open>auto simp: args\<close>)
  have s6: "outcome (bindr (bind_blob L s 6 (slice_of (author meta))) (\<lambda>_. bindr (lib_do (sqlite3_bind_int64 L s 7 (timestamp_ms meta))) (\<lambda>_.
      bind_blob L s 8 rb))) (\<lambda>_. bound ok w0 M v s ?st (row_args row)) E w'"
    if "bound ok w0 M v s ?st (?N(1 := SqlBlob (sha256 ?bs), 2 := SqlInt no, 3 := SqlInt (of_nat i), 4 := text_value (namespace_utf8 meta),
      5 := text_value (schema_utf8 meta))) w'" for w'
    by (rule outcome_then [OF bound_blob [OF that]], use au au' in \<open>simp_all del: One_nat_def\<close>)
       (rule outcome_then [OF bound_int64], assumption, simp, erule s8)
  have s4: "outcome (bindr (bind_text L s 4 (namespace_utf8 meta)) (\<lambda>_. bindr (bind_text L s 5 (schema_utf8 meta)) (\<lambda>_.
      bindr (bind_blob L s 6 (slice_of (author meta))) (\<lambda>_. bindr (lib_do (sqlite3_bind_int64 L s 7 (timestamp_ms meta))) (\<lambda>_.
      bind_blob L s 8 rb))))) (\<lambda>_. bound ok w0 M v s ?st (row_args row)) E w'"
    if "bound ok w0 M v s ?st (?N(1 := SqlBlob (sha256 ?bs), 2 := SqlInt no, 3 := SqlInt (of_nat i))) w'" for w'
    by (rule outcome_then [OF bound_text [OF that]], use ns sc in \<open>simp_all del: One_nat_def\<close>)
       (rule outcome_then [OF bound_text], assumption, use ns sc s6 in \<open>simp_all del: One_nat_def\<close>)
  have reset: "reach ok w0 M (set_stmt s (Some ?st) v) (set_lib (sqlite3_clear_bindings L s (sqlite3_reset L s (w_lib w))) w)"
  proof (rule reach_lib [OF r])
    let ?d = "sqlite3_reset L s (w_lib w)"
    have "vw_stmts (view (w_lib w)) s = Some st" using reach_view [OF r] by simp
    from reset_law [OF this] reach_view [OF r] have d: "view ?d = set_stmt s (Some (st\<lparr>sm_run := None\<rparr>)) v" "healthy (w_lib w) \<longrightarrow> healthy ?d" by simp_all
    have "vw_stmts (view ?d) s = Some (st\<lparr>sm_run := None\<rparr>)" using d by simp
    from clear_law [OF this] d st show "view (sqlite3_clear_bindings L s ?d) = set_stmt s (Some ?st) v"
      "healthy (w_lib w) \<Longrightarrow> healthy (sqlite3_clear_bindings L s ?d)" by (cases st, simp)+
  qed
  have b0: "bound ok w0 M v s ?st ?N (set_lib (sqlite3_clear_bindings L s (sqlite3_reset L s (w_lib w))) w)" by (rule boundI [OF reset]) simp
  have "outcome (bindr (bind_blob L s 1 (slice_of (sha256 ?bs))) (\<lambda>_. bindr (lib_do (sqlite3_bind_int64 L s 2 no)) (\<lambda>_.
      bindr (lib_do (sqlite3_bind_int64 L s 3 (of_nat i))) (\<lambda>_.
      bindr (bind_text L s 4 (namespace_utf8 meta)) (\<lambda>_. bindr (bind_text L s 5 (schema_utf8 meta)) (\<lambda>_.
      bindr (bind_blob L s 6 (slice_of (author meta))) (\<lambda>_. bindr (lib_do (sqlite3_bind_int64 L s 7 (timestamp_ms meta))) (\<lambda>_.
      bind_blob L s 8 rb)))))))) (\<lambda>_. bound ok w0 M v s ?st (row_args row)) E (set_lib (sqlite3_clear_bindings L s (sqlite3_reset L s (w_lib w))) w)"
    by (rule outcome_then [OF bound_blob [OF b0]], use au' in \<open>simp_all del: One_nat_def\<close>)
       (rule outcome_then [OF bound_int64], assumption, simp, rule outcome_then [OF bound_int64], assumption, simp, erule s4)
  then show ?thesis unfolding bind_record_def by (simp add: outcome_def bindr_def lib_do_def)
qed

end

lemma no_ub_overwrite: "no_ub e \<Longrightarrow> no_ub (overwrite_msg e' e)"
  by (cases e'; cases e) (auto simp: no_ub_def)

text \<open>A record that can be indexed after those that are there.\<close>

definition record_fits :: "nat \<Rightarrow> u64 \<Rightarrow> nat \<Rightarrow> sqldb \<Rightarrow> bytes \<Rightarrow> bool" where
  "record_fits max_len no i db r \<longleftrightarrow> (\<exists>f. record_spec r = Inr f) \<and> row_size InsertRecord (row_args (record_row no i r)) \<le> max_len \<and>
     SqlBlob (sha256 r) \<notin> set (map rr_id (rec_table db)) \<and> no \<in> set (map sr_no (seg_table db))"

definition add_record :: "rec_row \<Rightarrow> sqldb \<Rightarrow> sqldb" where
  "add_record row db = db\<lparr>db_records := Some (rec_table db @ [row])\<rparr>"

lemma rec_row_of_args [simp]: "rec_row_of (row_args row) = row"
  by (simp add: rec_row_of_def row_args_def)

text \<open>All values of the row of a record fit if the record does.\<close>

lemma record_row_short:
  assumes "record_spec r = Inr f" "length r < size_mod" "length r \<le> m"
  shows "is_int (row_args (record_row no i r) j) \<or> value_size (row_args (record_row no i r) j) \<le> m"
proof -
  obtain meta pl hs sg where f: "f = (meta, pl, hs, sg)" by (cases f)
  from record_spec_meta [OF assms(1) [unfolded f] assms(2)] assms(3) show ?thesis
    by (auto simp: row_args_def record_row_def assms(1) f text_value_ptr slice_wf_length)
qed

lemma insert_record_effect:
  assumes e: "sql_effect InsertRecord arg db = Some db'" and b: "binds g m arg (row_args (record_row no i r))"
    and r: "record_spec r = Inr f" "length r < size_mod"
  shows "db_segments db' = db_segments db" "db_records db' \<noteq> None" "g \<Longrightarrow> db' = add_record (record_row no i r) db"
proof -
  have 8: "arg 8 \<noteq> SqlNull" and db': "db' = db\<lparr>db_records := Some (rec_table db @ [rec_row_of arg])\<rparr>" using e by (auto split: if_splits)
  then show "db_segments db' = db_segments db" "db_records db' \<noteq> None" by simp_all
  have "length r \<le> m" using 8 binds_at [OF b, of 8] by (simp add: row_args_def record_row_def Let_def)
  from binds_eq [OF b _ record_row_short [OF r this]] db' show "g \<Longrightarrow> db' = add_record (record_row no i r) db" by (simp add: add_record_def)
qed

lemma insert_record_allowed:
  "record_fits max_len no i db r \<Longrightarrow> sql_effect InsertRecord (row_args (record_row no i r)) db \<noteq> None \<and>
     foreign_ok InsertRecord (row_args (record_row no i r)) db"
  by (simp add: record_fits_def row_args_def record_row_def Let_def)

context sqlite_library
begin

text \<open>Inside the transaction, with the statement that inserts records.\<close>

definition inserting :: "(heap \<Rightarrow> bool) \<Rightarrow> 'd sqlite_world \<Rightarrow> addr set \<Rightarrow> sql_view \<Rightarrow> stmth \<Rightarrow> dbh \<Rightarrow> string \<Rightarrow> sqldb \<Rightarrow> 'd sqlite_world \<Rightarrow> bool" where
  "inserting ok w0 M v s h p db w \<longleftrightarrow> (\<exists>st. sm_db st = h \<and> sm_sql st = InsertRecord \<and>
     reach ok w0 M (set_stmt s (Some st) (set_conn h (Some (p, Some db)) v)) w)"

text \<open>Leaving the loop with an error.\<close>

definition aborted :: "(heap \<Rightarrow> bool) \<Rightarrow> 'd sqlite_world \<Rightarrow> addr set \<Rightarrow> sql_view \<Rightarrow> dbh \<Rightarrow> string \<Rightarrow> sqldb \<Rightarrow> 'd sqlite_world \<Rightarrow> bool" where
  "aborted ok w0 M v h p db w \<longleftrightarrow> (\<exists>tx. (tx = None \<or> tx = Some db) \<and> reach ok w0 M (set_conn h (Some (p, tx)) v) w)"

lemma finalize_inserting:
  assumes "inserting ok w0 M v s h p db w" "vw_stmts v s = None"
  shows "reach ok w0 M (set_conn h (Some (p, Some db)) v) (set_lib (sqlite3_finalize L s (w_lib w)) w)"
  using assms finalize_reach by (auto simp: inserting_def)

lemma step_record_outcome:
  assumes A: "alloc_rel A ok rel" and s: "vw_stmts v s = None" and own: "record_owned M rec"
    and row: "row = record_row no i r" and r: "record_spec r = Inr f" "length r < size_mod"
    and b: "bound ok w0 (M \<union> own_record rec) (set_conn h (Some (p, Some db)) v) s (fresh_stmt h InsertRecord) (row_args row) w"
  shows "outcome (bindr (lib_call (sqlite3_step L s)) (\<lambda>rc w.
       (if rc \<noteq> SQLITE_DONE then bindr (lib_do (sqlite3_finalize L s)) (\<lambda>_. sqlerr L (Some h) what) else retr ())
         (upd_heap (vicarl_record_destroy A (Some rec)) w)))
    (\<lambda>_ w'. \<exists>db'. db_segments db' = db_segments db \<and> db_records db' \<noteq> None \<and> (healthy (w_lib w0) \<longrightarrow> db' = add_record row db) \<and> inserting ok w0 M v s h p db' w')
    (\<lambda>e w'. no_ub e \<and> \<not> (healthy (w_lib w0) \<and> record_fits max_len no i db r) \<and> aborted ok w0 M v h p db w') w"
    (is "outcome _ ?Q ?E _")
proof (rule outcome_bindr, rule outcome_mono [OF insert_outcome [OF b, where h = h and p = p and db = db and q = InsertRecord and no = no]])
  show "vw_conns (set_conn h (Some (p, Some db)) v) h = Some (p, Some db)" by simp
  show "row_args row (if InsertRecord = InsertSegment then 1 else 2) = SqlInt no" by (simp add: row row_args_def record_row_def Let_def)
next
  fix rc w1
  let ?v = "set_conn h (Some (p, Some db)) v" and ?M = "M \<union> own_record rec"
  assume 1: "if rc = SQLITE_DONE
       then \<exists>arg db' st'. binds (healthy (w_lib w0)) max_len arg (row_args row) \<and> sql_effect InsertRecord arg db = Some db' \<and> sm_db st' = h \<and> sm_sql st' = InsertRecord \<and>
         reach ok w0 ?M (set_stmt s (Some st') (set_conn h (Some (p, Some db')) ?v)) w1
       else \<not> (healthy (w_lib w0) \<and> (\<forall>j. is_int (row_args row j) \<or> value_size (row_args row j) \<le> max_len) \<and> sql_effect InsertRecord (row_args row) db \<noteq> None \<and> foreign_ok InsertRecord (row_args row) db \<and> row_size InsertRecord (row_args row) \<le> max_len) \<and>
         (\<exists>st' v'. tx_lost h ?v v' \<and> reach ok w0 ?M (set_stmt s (Some st') v') w1)"
  let ?w2 = "upd_heap (vicarl_record_destroy A (Some rec)) w1"
  have d: "reach ok w0 M v' ?w2" if "reach ok w0 ?M v' w1" for v'
  proof (rule reach_upd_heap [OF that])
    obtain q where "own_record rec \<inter> M = {}" "rec_owned rec = Some q" "q \<noteq> rec_ptr rec" using own by (auto simp: record_owned_def)
    with record_destroy_heap [OF A _ this] reach_ok [OF that] show "heap_to ok (w_heap w1) M (vicarl_record_destroy A (Some rec) (w_heap w1))" by blast
  qed
  show "outcome (\<lambda>w. (if rc \<noteq> SQLITE_DONE then bindr (lib_do (sqlite3_finalize L s)) (\<lambda>_. sqlerr L (Some h) what) else retr ())
         (upd_heap (vicarl_record_destroy A (Some rec)) w)) ?Q ?E w1"
  proof (cases "rc = SQLITE_DONE")
    case True
    with 1 obtain arg db' st' where e: "binds (healthy (w_lib w0)) max_len arg (row_args row)" "sql_effect InsertRecord arg db = Some db'" "sm_db st' = h" "sm_sql st' = InsertRecord"
      "reach ok w0 ?M (set_stmt s (Some st') (set_conn h (Some (p, Some db')) v)) w1" by auto
    moreover have "inserting ok w0 M v s h p db' ?w2" using d [OF e(5)] e(3,4) by (auto simp: inserting_def)
    ultimately have "?Q () ?w2" using insert_record_effect [OF e(2) e(1) [unfolded row] r] unfolding row by blast
    with True show ?thesis by (simp add: outcome_def retr_def)
  next
    case False
    with 1 obtain st' v' where e: "tx_lost h ?v v'" "reach ok w0 ?M (set_stmt s (Some st') v') w1"
      and bad: "\<not> (healthy (w_lib w0) \<and> (\<forall>j. is_int (row_args row j) \<or> value_size (row_args row j) \<le> max_len) \<and> sql_effect InsertRecord (row_args row) db \<noteq> None \<and> foreign_ok InsertRecord (row_args row) db \<and> row_size InsertRecord (row_args row) \<le> max_len)"
      by auto
    obtain tx where tx: "tx = Some db \<or> tx = None" "v' = set_conn h (Some (p, tx)) v"
      using tx_lost_within [OF _ e(1), of p "Some db"] by auto
    have "length r \<le> max_len" if "record_fits max_len no i db r"
      using that by (simp add: record_fits_def row_args_def record_row_def Let_def upt_rec)
    then have "\<not> (healthy (w_lib w0) \<and> record_fits max_len no i db r)"
      using bad insert_record_allowed [of max_len no i db r] record_row_short [OF r] unfolding row record_fits_def by blast
    moreover have "aborted ok w0 M v h p db (set_lib (sqlite3_finalize L s (w_lib ?w2)) ?w2)"
      using finalize_reach [OF d [OF e(2)]] tx s unfolding aborted_def by auto
    ultimately have E: "sql_error e \<Longrightarrow> ?E e (set_lib (sqlite3_finalize L s (w_lib ?w2)) ?w2)" for e by (auto simp: sql_error_def)
    have "outcome (bindr (lib_do (sqlite3_finalize L s)) (\<lambda>_. sqlerr L (Some h) what)) ?Q ?E ?w2"
      by (rule outcome_bindr, rule outcome_lib_do, rule outcome_sqlerr, rule E)
    with False show ?thesis by (simp add: outcome_def)
  qed
qed simp_all

end

text \<open>A decoded segment as \<^verbatim>\<open>insert_records_indexed\<close> sees it: as many readable records as announced.\<close>

definition seg_readable :: "vicarl_segment \<Rightarrow> bool" where
  "seg_readable seg \<longleftrightarrow> seg_record_count seg = length (seg_records seg) \<and> (\<forall>r \<in> set (seg_records seg). slice_wf r \<and> sl_len r < 2 ^ 31)"

context sqlite_library
begin

lemma store_record_outcome:
  assumes A: "alloc_rel A ok rel" and s: "vw_stmts v s = None" and rb: "slice_wf rb" "sl_len rb < 2 ^ 31" and r: "r = slice_bytes rb"
    and st: "sm_db st = h" "sm_sql st = InsertRecord" and rs: "record_spec r = Inr (handle_fields rec)" and own: "record_owned M rec"
    and r1: "reach ok w0 (M \<union> own_record rec) (set_stmt s (Some st) (set_conn h (Some (p, Some db)) v)) w"
  shows "outcome (bindr (bind_record L s (sha256 r) no i (rec_meta rec) rb) (\<lambda>_.
      bindr (lib_call (sqlite3_step L s)) (\<lambda>rc w.
       (if rc \<noteq> SQLITE_DONE then bindr (lib_do (sqlite3_finalize L s)) (\<lambda>_. sqlerr L (Some h) ''insert record'') else retr ())
         (upd_heap (vicarl_record_destroy A (Some rec)) w))))
    (\<lambda>_ w'. \<exists>db'. db_segments db' = db_segments db \<and> db_records db' \<noteq> None \<and> (healthy (w_lib w0) \<longrightarrow> db' = add_record (record_row no i r) db) \<and> inserting ok w0 M v s h p db' w')
    (\<lambda>e w'. no_ub e \<and> \<not> (rel \<and> healthy (w_lib w0) \<and> record_fits max_len no i db r) \<and> aborted ok w0 M v h p db w') w"
    (is "outcome _ ?Q ?E _")
proof -
  have rl: "length r < size_mod" using slice_wf_length [OF rb(1)] rb(2) by (simp add: r size_mod_def)
  obtain pl hs sg where spec: "record_spec (slice_bytes rb) = Inr (rec_meta rec, pl, hs, sg)" using rs unfolding handle_fields_def r by blast
  have ptr: "sl_ptr rb \<noteq> None" using spec by (auto simp: record_spec_def slice_bytes_def split: if_splits option.splits)
  have "outcome (bind_record L s (sha256 r) no i (rec_meta rec) rb)
    (\<lambda>_. bound ok w0 (M \<union> own_record rec) (set_conn h (Some (p, Some db)) v) s (fresh_stmt h InsertRecord) (row_args (record_row no i r))) ?E w"
    unfolding r by (rule bind_record_outcome [OF r1 st rb(1) ptr rb(2) spec refl])
  then show ?thesis
    by (rule outcome_then, intro outcome_mono [OF step_record_outcome [OF A s own refl rs rl]]) (assumption | blast)+
qed

lemma insert_record_outcome:
  assumes A: "alloc_rel A ok rel" and s: "vw_stmts v s = None" and seg: "seg_readable seg" "i < length (seg_records seg)"
    and r: "r = slice_bytes (seg_records seg ! i)" and w: "inserting ok w0 M v s h p db w"
  shows "outcome (insert_record A L (Some h) s no seg i)
    (\<lambda>_ w'. \<exists>db'. db_segments db' = db_segments db \<and> db_records db' \<noteq> None \<and> (healthy (w_lib w0) \<longrightarrow> db' = add_record (record_row no i r) db) \<and> inserting ok w0 M v s h p db' w')
    (\<lambda>e w'. no_ub e \<and> \<not> (rel \<and> healthy (w_lib w0) \<and> record_fits max_len no i db r) \<and> aborted ok w0 M v h p db w') w"
    (is "outcome _ ?Q ?E _")
proof -
  let ?rb = "seg_records seg ! i"
  have rb: "slice_wf ?rb" "sl_len ?rb < 2 ^ 31" using seg by (auto simp: seg_readable_def)
  have get: "vicarl_segment_get_record (Some seg) i True = Inr ?rb" using seg by (simp add: vicarl_segment_get_record_def seg_readable_def)
  have rid: "vicarl_record_id ?rb True = Inr (sha256 r)"
    using vicarl__sha256_wf [OF rb(1)] slice_wf_not_bad [OF rb(1)] by (simp add: vicarl_record_id_def r)
  obtain st where st: "sm_db st = h" "sm_sql st = InsertRecord" "reach ok w0 M (set_stmt s (Some st) (set_conn h (Some (p, Some db)) v)) w"
    using w by (auto simp: inserting_def)
  let ?v = "set_conn h (Some (p, Some db)) v"
  have dec: "outcome (on_heap (vicarl_record_decode A ?rb True))
    (\<lambda>rec w'. (record_spec r = Inr (handle_fields rec) \<and> record_owned M rec) \<and> reach ok w0 (M \<union> own_record rec) (set_stmt s (Some st) ?v) w')
    (\<lambda>e w'. (record_spec r = Inl e \<or> e = err_oom \<and> \<not> rel) \<and> reach ok w0 M (set_stmt s (Some st) ?v) w') w"
    by (rule outcome_reach_heap [OF st(3)], rule outcome_mono [OF record_decode_outcome [OF A _ rb(1)]])
       (use reach_ok [OF st(3)] in \<open>auto simp: r\<close>)
  let ?body = "\<lambda>(rec_bytes, rid, rec). bindr (bind_record L s rid no i (rec_meta rec) rec_bytes) (\<lambda>_.
     bindr (lib_call (sqlite3_step L s)) (\<lambda>rc w.
       (if rc \<noteq> SQLITE_DONE then bindr (lib_do (sqlite3_finalize L s)) (\<lambda>_. sqlerr L (Some h) ''insert record'') else retr ())
         (upd_heap (vicarl_record_destroy A (Some rec)) w)))"
  have "outcome (bindr (on_error (\<lambda>w. snd (lib_do (sqlite3_finalize L s) w))
      (bindr (on_heap (vicarl_record_decode A ?rb True)) (\<lambda>rec. retr (?rb, sha256 r, rec)))) ?body) ?Q ?E w"
  proof (rule outcome_bindr, rule outcome_on_error, rule outcome_bindr, rule outcome_mono [OF dec])
    fix rec w1 assume 1: "(record_spec r = Inr (handle_fields rec) \<and> record_owned M rec) \<and> reach ok w0 (M \<union> own_record rec) (set_stmt s (Some st) ?v) w1"
    then have "outcome (?body (?rb, sha256 r, rec)) ?Q ?E w1"
      unfolding prod.case by (intro store_record_outcome [OF A s rb r st(1,2)]) blast+
    then show "outcome (retr (?rb, sha256 r, rec)) (\<lambda>x. outcome (?body x) ?Q ?E) (\<lambda>e w. ?E e (snd (lib_do (sqlite3_finalize L s) w))) w1"
      unfolding outcome_def [of "retr _"] retr_def prod.case sum.case .
  next
    fix e w1 assume 1: "(record_spec r = Inl e \<or> e = err_oom \<and> \<not> rel) \<and> reach ok w0 M (set_stmt s (Some st) ?v) w1"
    then have "reach ok w0 M ?v (set_lib (sqlite3_finalize L s (w_lib w1)) w1)" using finalize_reach [of ok w0 M s "Some st" ?v w1] s by simp
    then have "aborted ok w0 M v h p db (snd (lib_do (sqlite3_finalize L s) w1))" unfolding aborted_def lib_do_def snd_conv by blast
    moreover have "no_ub e" using 1 record_spec_error [of r e] by auto
    moreover have "\<not> (rel \<and> healthy (w_lib w0) \<and> record_fits max_len no i db r)" using 1 by (auto simp: record_fits_def)
    ultimately show "?E e (snd (lib_do (sqlite3_finalize L s) w1))" by blast
  qed
  moreover have "(bindr (of_res (vicarl_segment_get_record (Some seg) i True)) (\<lambda>rec_bytes.
        bindr (of_res (vicarl_record_id rec_bytes True)) (\<lambda>rid.
        bindr (on_heap (vicarl_record_decode A rec_bytes True)) (\<lambda>rec. retr (rec_bytes, rid, rec))))) =
      (bindr (on_heap (vicarl_record_decode A ?rb True)) (\<lambda>rec. retr (?rb, sha256 r, rec)) :: ('d sqlite_world, vicarl_slice \<times> bytes \<times> vicarl_record) vm)"
    by (rule ext) (simp add: bindr_def of_res_def get rid)
  ultimately show ?thesis unfolding insert_record_def by simp
qed

end

text \<open>Room in the index for the records \<open>rs\<close> of segment \<open>no\<close>, from position \<open>i\<close> on.\<close>

definition index_room :: "u64 \<Rightarrow> sqldb \<Rightarrow> bytes list \<Rightarrow> bool" where
  "index_room no db rs \<longleftrightarrow> no \<in> set (map sr_no (seg_table db)) \<and> distinct (map sha256 rs) \<and>
     (\<forall>r \<in> set rs. (\<exists>f. record_spec r = Inr f) \<and> SqlBlob (sha256 r) \<notin> set (map rr_id (rec_table db)))"

lemma index_room_Cons:
  assumes "index_room no db (r # rs)" "row_size InsertRecord (row_args (record_row no i r)) \<le> max_len"
  shows "record_fits max_len no i db r" "index_room no (add_record (record_row no i r) db) rs"
proof -
  show "record_fits max_len no i db r" using assms by (simp add: index_room_def record_fits_def)
  have tab: "x \<in> set (map rr_id (rec_table (add_record (record_row no i r) db))) \<longleftrightarrow> x = SqlBlob (sha256 r) \<or> x \<in> set (map rr_id (rec_table db))"
    "seg_table (add_record (record_row no i r) db) = seg_table db" for x
    by (auto simp: add_record_def rec_table_def seg_table_def record_row_def Let_def)
  have "sha256 r' \<noteq> sha256 r" if "r' \<in> set rs" for r' using assms(1) imageI [OF that, of sha256] unfolding index_room_def by auto
  with assms(1) show "index_room no (add_record (record_row no i r) db) rs" unfolding index_room_def tab by simp
qed

definition add_records :: "rec_row list \<Rightarrow> sqldb \<Rightarrow> sqldb" where
  "add_records rows db = db\<lparr>db_records := Some (rec_table db @ rows)\<rparr>"

lemma add_records_simps:
  "db_records db \<noteq> None \<Longrightarrow> add_records [] db = db" "add_records rows (add_record row db) = add_records (row # rows) db"
  by (auto simp: add_records_def add_record_def rec_table_def)

definition rows_from :: "u64 \<Rightarrow> nat \<Rightarrow> bytes list \<Rightarrow> rec_row list" where
  "rows_from no i rs = map (\<lambda>(j, r). record_row no j r) (enumerate i rs)"

lemma rows_from_simps [simp]: "rows_from no i [] = []" "rows_from no i (r # rs) = record_row no i r # rows_from no (Suc i) rs"
  by (simp_all add: rows_from_def)

lemma rows_from_index: "rows_from no 0 (seg_records_of bs) = seg_index no bs"
  by (rule nth_equalityI) (simp_all add: rows_from_def seg_index_def nth_enumerate_eq)

definition rows_fit :: "nat \<Rightarrow> rec_row list \<Rightarrow> bool" where
  "rows_fit m rows \<longleftrightarrow> (\<forall>row \<in> set rows. row_size InsertRecord (row_args row) \<le> m)"

context sqlite_library
begin

lemma insert_loop_outcome:
  assumes A: "alloc_rel A ok rel" and s: "vw_stmts v s = None" and seg: "seg_readable seg"
  shows "inserting ok w0 M v s h p db w \<Longrightarrow> db_records db \<noteq> None \<Longrightarrow> i + k = length (seg_records seg) \<Longrightarrow>
    rs = map slice_bytes (drop i (seg_records seg)) \<Longrightarrow>
    outcome (insert_records_loop A L (Some h) s no seg i k)
    (\<lambda>_ w'. \<exists>db'. db_segments db' = db_segments db \<and> (healthy (w_lib w0) \<longrightarrow> db' = add_records (rows_from no i rs) db) \<and> reach ok w0 M (set_conn h (Some (p, Some db')) v) w')
    (\<lambda>e w'. no_ub e \<and> \<not> (rel \<and> healthy (w_lib w0) \<and> rows_fit max_len (rows_from no i rs) \<and> index_room no db rs) \<and> (\<exists>db'. db_segments db' = db_segments db \<and> aborted ok w0 M v h p db' w')) w"
proof (induction k arbitrary: i db w rs)
  case 0
  then have "rs = []" by simp
  then have "(healthy (w_lib w0) \<longrightarrow> db = add_records (rows_from no i rs) db)" using add_records_simps(1) [OF "0.prems"(2)] by simp
  then show ?case unfolding insert_records_loop.simps using finalize_inserting [OF "0.prems"(1) s] by (intro outcome_lib_do) blast
next
  case (Suc k)
  let ?r = "slice_bytes (seg_records seg ! i)" and ?rs = "map slice_bytes (drop (Suc i) (seg_records seg))"
  let ?row = "record_row no i ?r"
  have i: "i < length (seg_records seg)" using Suc.prems(3) by simp
  have rs: "rs = ?r # ?rs" using Suc.prems(4) i by (simp add: Cons_nth_drop_Suc [symmetric])
  let ?Q = "\<lambda>_ w'. \<exists>db'. db_segments db' = db_segments db \<and> (healthy (w_lib w0) \<longrightarrow> db' = add_records (rows_from no i rs) db) \<and> reach ok w0 M (set_conn h (Some (p, Some db')) v) w'"
  let ?E = "\<lambda>e w'. no_ub e \<and> \<not> (rel \<and> healthy (w_lib w0) \<and> rows_fit max_len (rows_from no i rs) \<and> index_room no db rs) \<and> (\<exists>db'. db_segments db' = db_segments db \<and> aborted ok w0 M v h p db' w')"
  show ?case
    unfolding insert_records_loop.simps
  proof (rule outcome_bindr, rule outcome_mono [OF insert_record_outcome [OF A s seg i refl Suc.prems(1), where no = no]])
    fix x :: unit and w1
    assume "\<exists>db'. db_segments db' = db_segments db \<and> db_records db' \<noteq> None \<and> (healthy (w_lib w0) \<longrightarrow> db' = add_record ?row db) \<and> inserting ok w0 M v s h p db' w1"
    then obtain db1 where 1: "db_segments db1 = db_segments db" "db_records db1 \<noteq> None" "healthy (w_lib w0) \<longrightarrow> db1 = add_record ?row db" "inserting ok w0 M v s h p db1 w1" by blast
    have room: "rows_fit max_len (rows_from no (Suc i) ?rs) \<and> index_room no db1 ?rs"
      if "healthy (w_lib w0)" "rows_fit max_len (rows_from no i rs)" "index_room no db rs"
      using index_room_Cons(2) [of no db ?r ?rs i max_len] that 1(3) unfolding rs by (simp add: rows_fit_def)
    show "outcome (insert_records_loop A L (Some h) s no seg (Suc i) k) ?Q ?E w1"
    proof (rule outcome_mono [OF Suc.IH [OF 1(4,2) _ refl]])
      show "Suc i + k = length (seg_records seg)" using Suc.prems(3) by simp
    next
      fix x :: unit and w2
      assume "\<exists>db'. db_segments db' = db_segments db1 \<and> (healthy (w_lib w0) \<longrightarrow> db' = add_records (rows_from no (Suc i) ?rs) db1) \<and> reach ok w0 M (set_conn h (Some (p, Some db')) v) w2"
      moreover have "healthy (w_lib w0) \<Longrightarrow> add_records (rows_from no (Suc i) ?rs) db1 = add_records (rows_from no i rs) db"
        using 1(3) add_records_simps(2) unfolding rs by simp
      ultimately show "?Q x w2" unfolding 1(1) by metis
    next
      fix e w2
      assume "no_ub e \<and> \<not> (rel \<and> healthy (w_lib w0) \<and> rows_fit max_len (rows_from no (Suc i) ?rs) \<and> index_room no db1 ?rs) \<and> (\<exists>db'. db_segments db' = db_segments db1 \<and> aborted ok w0 M v h p db' w2)"
      then show "?E e w2" using room unfolding 1(1) by blast
    qed
  next
    fix e w1 assume 1: "no_ub e \<and> \<not> (rel \<and> healthy (w_lib w0) \<and> record_fits max_len no i db ?r) \<and> aborted ok w0 M v h p db w1"
    then show "?E e w1" using index_room_Cons(1) [of no db ?r ?rs i max_len] unfolding rs by (auto simp: rows_fit_def)
  qed
qed

lemma insert_rows_outcome:
  assumes A: "alloc_rel A ok rel" and r1: "reach ok w0 M (set_conn h (Some (p, Some db)) v) w1"
    and rd: "seg_readable seg" and n: "n = length (seg_records seg)" and recs: "seg_records_of bs = map slice_bytes (seg_records seg)"
  shows "outcome (bindr (prepare_or_fail L (Some h) (sql_text InsertRecord) ''prepare insert record'') (\<lambda>ins.
        insert_records_loop A L (Some h) ins no seg 0 n))
    (\<lambda>_ w'. \<exists>db'. db_segments db' = db_segments db \<and> (healthy (w_lib w0) \<longrightarrow> db' = add_records (seg_index no bs) db) \<and> reach ok w0 M (set_conn h (Some (p, Some db')) v) w')
    (\<lambda>e w'. (no_ub e \<and> \<not> (rel \<and> healthy (w_lib w0) \<and> rows_fit max_len (seg_index no bs) \<and> db_records db \<noteq> None \<and> (\<exists>f. segment_spec bs = Inr f) \<and> index_room no db (seg_records_of bs))) \<and>
       (\<exists>tx. (\<forall>db'. tx = Some db' \<longrightarrow> db_segments db' = db_segments db) \<and> reach ok w0 M (set_conn h (Some (p, tx)) v) w')) w1"
    (is "outcome _ ?Q ?E _")
proof (rule outcome_bindr, rule outcome_mono [OF prepare_or_fail_outcome [OF r1 _ refl, where h = h and c = "(p, Some db)"]])
  let ?v = "set_conn h (Some (p, Some db)) v"
  fix s w2
  assume 2: "sql_ready InsertRecord (current_db ?v (p, Some db)) \<and> vw_stmts ?v s = None \<and> reach ok w0 M (set_stmt s (Some (fresh_stmt h InsertRecord)) ?v) w2"
  then have s: "vw_stmts v s = None" and ready: "db_records db \<noteq> None" by (simp_all add: current_db_def)
  have ins: "inserting ok w0 M v s h p db w2" unfolding inserting_def using 2 by (intro exI [of _ "fresh_stmt h InsertRecord"]) simp
  show "outcome (insert_records_loop A L (Some h) s no seg 0 n) ?Q ?E w2"
    by (rule outcome_mono [OF insert_loop_outcome [OF A s rd ins ready _ refl, where no = no]])
       (use n recs in \<open>auto simp: rows_from_index [of no bs, unfolded recs] aborted_def\<close>)
next
  let ?v = "set_conn h (Some (p, Some db)) v"
  fix e w2 assume "sql_error e \<and> \<not> (healthy (w_lib w0) \<and> sql_ready InsertRecord (current_db ?v (p, Some db))) \<and> (\<exists>v'. tx_lost h ?v v' \<and> reach ok w0 M v' w2)"
  then obtain v' where 2: "sql_error e" "\<not> (healthy (w_lib w0) \<and> db_records db \<noteq> None)" "tx_lost h ?v v'" "reach ok w0 M v' w2"
    by (auto simp: current_db_def)
  obtain tx where "tx = Some db \<or> tx = None" "v' = set_conn h (Some (p, tx)) v" using tx_lost_within [OF _ 2(3), of p "Some db"] by auto
  with 2 show "?E e w2" by (auto simp: sql_error_def)
qed simp

lemma insert_indexed_outcome:
  assumes A: "alloc_rel A ok rel" and r: "reach ok w0 M (set_conn h (Some (p, Some db)) v) w" and ss: "sq_db ss = Some h"
    and enc: "slice_wf enc" "sl_len enc < 2 ^ 31" and bs: "bs = slice_bytes enc"
  shows "outcome (insert_records_indexed A L ss no enc)
    (\<lambda>_ w'. \<exists>db'. db_segments db' = db_segments db \<and> (healthy (w_lib w0) \<longrightarrow> db' = add_records (seg_index no bs) db) \<and> reach ok w0 M (set_conn h (Some (p, Some db')) v) w')
    (\<lambda>e w'. (no_ub e \<and> \<not> (rel \<and> healthy (w_lib w0) \<and> rows_fit max_len (seg_index no bs) \<and> db_records db \<noteq> None \<and> (\<exists>f. segment_spec bs = Inr f) \<and> index_room no db (seg_records_of bs))) \<and>
       (\<exists>tx. (\<forall>db'. tx = Some db' \<longrightarrow> db_segments db' = db_segments db) \<and> reach ok w0 M (set_conn h (Some (p, tx)) v) w')) w"
    (is "outcome _ ?Q ?E _")
  unfolding insert_records_indexed_def
proof (rule outcome_bindr)
  let ?v = "set_conn h (Some (p, Some db)) v"
  have len: "length bs < size_mod" "length bs < 2 ^ 59" using enc slice_wf_length [OF enc(1)] by (simp_all add: bs size_mod_def)
  have "outcome (on_heap (vicarl_segment_decode A enc True))
    (\<lambda>seg w'. (segment_spec bs = Inr (seg_fields seg) \<and> seg_record_count seg = unat (record_count (seg_hdr seg)) \<and> segment_owned M seg) \<and> reach ok w0 (M \<union> own_segment seg) ?v w')
    (\<lambda>e w'. (segment_spec bs = Inl e \<or> e = err_oom \<and> (\<not> rel \<or> huge_count bs)) \<and> reach ok w0 M ?v w') w"
    by (rule outcome_reach_heap [OF r], rule outcome_mono [OF segment_decode_outcome [OF A _ enc(1)]]) (use reach_ok [OF r] in \<open>auto simp: bs\<close>)
  then show "outcome (on_heap (vicarl_segment_decode A enc True))
    (\<lambda>seg. outcome (finally_do (upd_heap (vicarl_segment_destroy A (Some seg)))
       (let count = unat (record_count (seg_hdr seg)) in
        bindr (prepare_or_fail L (sq_db ss) (sql_text InsertRecord) ''prepare insert record'') (\<lambda>ins.
        insert_records_loop A L (sq_db ss) ins no seg 0 count))) ?Q ?E) ?E w"
  proof (rule outcome_mono)
    fix e w1 assume 1: "(segment_spec bs = Inl e \<or> e = err_oom \<and> (\<not> rel \<or> huge_count bs)) \<and> reach ok w0 M ?v w1"
    have "no_ub e" using 1 segment_spec_error [of bs e] by auto
    moreover have "\<not> (rel \<and> (\<exists>f. segment_spec bs = Inr f))" using 1 not_huge [OF _ len(2)] by auto
    ultimately show "?E e w1" using 1 by (intro conjI exI [of _ "Some db"]) auto
  next
    fix seg w1
    assume "(segment_spec bs = Inr (seg_fields seg) \<and> seg_record_count seg = unat (record_count (seg_hdr seg)) \<and> segment_owned M seg) \<and>
      reach ok w0 (M \<union> own_segment seg) ?v w1"
    then have seg: "segment_spec bs = Inr (seg_fields seg)" "seg_record_count seg = unat (record_count (seg_hdr seg))" "segment_owned M seg"
      and r1: "reach ok w0 (M \<union> own_segment seg) ?v w1" by auto
    let ?M = "M \<union> own_segment seg" and ?n = "unat (record_count (seg_hdr seg))"
    have rs: "length (seg_records seg) = ?n \<and> (\<forall>s \<in> set (seg_records seg). slice_wf s) \<and> (\<forall>s \<in> set (seg_records seg). sl_len s \<le> length bs)"
      using segment_spec_records [OF seg(1) [unfolded seg_fields_def] len(1)] by simp
    then have rd: "seg_readable seg" using seg(2) enc slice_wf_length [OF enc(1)] by (fastforce simp: seg_readable_def bs)
    have recs: "seg_records_of bs = map slice_bytes (seg_records seg)" using seg(1) by (simp add: seg_records_of_def seg_fields_def)
    have destroy: "reach ok w0 M v' (upd_heap (vicarl_segment_destroy A (Some seg)) w2)" if r2: "reach ok w0 ?M v' w2" for v' w2
    proof (rule reach_upd_heap [OF r2])
      have "heap_to ok (w_heap w2) ?M (w_heap w2)" using reach_ok [OF r2] by simp
      from segment_destroy_heap [OF A this seg(3)] show "heap_to ok (w_heap w2) M (vicarl_segment_destroy A (Some seg) (w_heap w2))" .
    qed
    have "?n = length (seg_records seg)" using rs by simp
    note rows = insert_rows_outcome [OF A r1 rd this recs, of no]
    have "outcome (finally_do (upd_heap (vicarl_segment_destroy A (Some seg)))
      (bindr (prepare_or_fail L (Some h) (sql_text InsertRecord) ''prepare insert record'') (\<lambda>ins.
        insert_records_loop A L (Some h) ins no seg 0 ?n))) ?Q ?E w1"
      by (intro outcome_finally outcome_mono [OF rows]) (use destroy in blast)+
    then show "outcome (finally_do (upd_heap (vicarl_segment_destroy A (Some seg)))
       (let count = ?n in
        bindr (prepare_or_fail L (sq_db ss) (sql_text InsertRecord) ''prepare insert record'') (\<lambda>ins.
        insert_records_loop A L (sq_db ss) ins no seg 0 count))) ?Q ?E w1"
      unfolding Let_def ss .
  qed
qed

end

lemma index_fits_room:
  assumes "index_fits max_len segs bs" "db_records db = Some (chain_index segs)" "no \<in> set (map sr_no (seg_table db))"
  shows "index_room no db (seg_records_of bs)"
proof -
  have ids: "set (map rr_id (rec_table db)) = set (map (SqlBlob \<circ> sha256) (concat (map seg_records_of segs)))"
    using assms(2) by (simp only: rec_table_def option.case map_rr_id_index)
  have "SqlBlob (sha256 r) \<notin> set (map rr_id (rec_table db))" if "r \<in> set (seg_records_of bs)" for r
  proof
    assume "SqlBlob (sha256 r) \<in> set (map rr_id (rec_table db))"
    then have "sha256 r \<in> set (map sha256 (concat (map seg_records_of segs)))" unfolding ids by auto
    moreover have "sha256 r \<in> set (map sha256 (seg_records_of bs))" using that by simp
    ultimately show False using assms(1) unfolding index_fits_def map_append distinct_append by blast
  qed
  with assms(1,3) show ?thesis by (simp add: index_fits_def index_room_def)
qed

lemma add_segment_rows:
  assumes "db_segments db = Some (seg_rows segs)"
  shows "db_segments (add_segment (of_nat (Suc (length segs))) (sha256 bs) bs db) = Some (seg_rows (segs @ [bs]))"
    "db_records (add_segment no hash bs db) = db_records db"
  using assms by (simp_all add: add_segment_def seg_table_def seg_rows_snoc seg_row_at_def)

lemma pending_snoc: "length segs + 1 < size_mod \<Longrightarrow> db_segments db = Some (seg_rows (segs @ [bs])) \<Longrightarrow> pending_db segs db"
  using next_no_fresh [of segs] by (auto simp: pending_db_def seg_rows_snoc seg_row_at_def simp del: of_nat_Suc)

context sqlite_library
begin

text \<open>An append that fails leaves the chain alone, whatever becomes of the transaction.\<close>

lemma kept_tx:
  assumes at: "se_impl (w_env w) = Some ss" "sqlite_at (view (w_lib w)) ss h p tx segs" "record_index_enabled ss = index"
    and r: "reach ok w M (set_conn h (Some (p, tx')) (view (w_lib w))) w'" and M: "sq_ptr ss \<in> M"
    and tx': "\<And>db. tx' = Some db \<Longrightarrow> pending_db segs db" "healthy (w_lib w) \<Longrightarrow> tx = None \<Longrightarrow> tx' = None"
  shows "kept ok (sqlite_inv view p index ok) sqlite_own (sqlite_good view healthy index rel) w M w' \<and> sqlite_chain view w' = segs"
proof -
  have i: "se_impl (w_env w') = Some ss" and lib: "view (w_lib w') = set_conn h (Some (p, tx')) (view (w_lib w))" using r at(1) by (simp_all add: reach_def)
  have at': "sqlite_at (view (w_lib w')) ss h p tx' segs" using at(2) tx'(1) by (auto simp: lib sqlite_at_def idle_def)
  note db = sqlite_db_at [of w ss view, OF at(1,2)] sqlite_db_at [of w' ss view, OF i at']
  have "sqlite_inv view p index ok w'" by (rule sqlite_invI [where view = view and w = w', OF _ i _ at(3) at']) (use r M in \<open>simp_all add: reach_def heap_to_def\<close>)
  moreover have "sqlite_own w' = sqlite_own w" by (simp add: sqlite_own_def i at(1))
  moreover have "sqlite_good view healthy index rel w \<longrightarrow> sqlite_good view healthy index rel w'"
    using db tx'(2) lib reach_healthy [OF r] by (auto simp: sqlite_good_def)
  ultimately show ?thesis using r db by (auto simp: kept_def reach_def)
qed

text \<open>A commit makes the new segment the tip.\<close>

lemma kept_commit:
  assumes at: "se_impl (w_env w) = Some ss" "sqlite_at (view (w_lib w)) ss h p None segs" "record_index_enabled ss = index"
    and r: "reach ok w (hp_live (w_heap w)) (set_conn h (Some (p, None)) (set_file p db (view (w_lib w)))) w1" and own: "sq_ptr ss \<in> hp_live (w_heap w)"
    and db: "db_segments db = Some (seg_rows (segs @ [bs]))" and ok': "chain_ok (segs @ [bs])"
    and ss': "ss' = ss\<lparr>sq_tip_no := of_nat (Suc (length segs)), sq_tip_hash := sha256 bs, sq_has_tip := True\<rparr>"
    and index: "healthy (w_lib w) \<Longrightarrow> index \<Longrightarrow> db_records (vw_files (view (w_lib w)) p) = Some (chain_index segs) \<Longrightarrow>
      db_records db = Some (chain_index (segs @ [bs]))"
  shows "kept ok (sqlite_inv view p index ok) sqlite_own (sqlite_good view healthy index rel) w (hp_live (w_heap w)) (set_sqlite (Some ss') w1) \<and>
    sqlite_chain view (set_sqlite (Some ss') w1) = segs @ [bs]"
proof -
  let ?w = "set_sqlite (Some ss') w1"
  have i: "se_impl (w_env ?w) = Some ss'" and lib: "view (w_lib ?w) = set_conn h (Some (p, None)) (set_file p db (view (w_lib w)))" using r by (simp_all add: reach_def)
  have at': "sqlite_at (view (w_lib ?w)) ss' h p None (segs @ [bs])"
    unfolding lib using at(2) db ok' by (auto simp: sqlite_at_def idle_def ss' tip_is_def chain_db_def tip_hash_of_def)
  note dbs = sqlite_db_at [of w ss view, OF at(1,2)] sqlite_db_at [of ?w ss' view, OF i at']
  have ch: "db_chain (vw_files (view (w_lib w)) p) = segs" "db_chain db = segs @ [bs]"
    using at(2) db ok' db_chain_rows by (auto simp: sqlite_at_def chain_db_def)
  have "sqlite_inv view p index ok ?w" by (rule sqlite_invI [where view = view and w = ?w, OF _ i _ _ at']) (use r own at(3) in \<open>simp_all add: reach_def heap_to_def ss'\<close>)
  moreover have "sqlite_own ?w = sqlite_own w" by (simp add: sqlite_own_def i at(1) ss')
  moreover have "sqlite_good view healthy index rel w \<longrightarrow> sqlite_good view healthy index rel ?w"
    using dbs index ch reach_healthy [OF r] lib by (auto simp: sqlite_good_def)
  ultimately show ?thesis using r dbs by (auto simp: kept_def reach_def)
qed

end

definition sqlite_lim :: nat where
  "sqlite_lim = 2 ^ 31"

context sqlite_library
begin

text \<open>The store before an append, and the two results of an append of \<open>bs\<close>: the chain is longer by \<open>bs\<close>, or as it was.\<close>

definition before_append :: "(heap \<Rightarrow> bool) \<Rightarrow> bool \<Rightarrow> 'd sqlite_world \<Rightarrow> sqlite_store \<Rightarrow> dbh \<Rightarrow> string \<Rightarrow> sqldb option \<Rightarrow> bytes list \<Rightarrow> bool" where
  "before_append ok index w ss h p tx segs \<longleftrightarrow> ok (w_heap w) \<and> se_impl (w_env w) = Some ss \<and> sq_ptr ss \<in> hp_live (w_heap w) \<and>
     record_index_enabled ss = index \<and> sqlite_at (view (w_lib w)) ss h p tx segs \<and> length segs + 2 < size_mod"

definition appended :: "(heap \<Rightarrow> bool) \<Rightarrow> string \<Rightarrow> bool \<Rightarrow> bool \<Rightarrow> 'd sqlite_world \<Rightarrow> bytes list \<Rightarrow> bytes \<Rightarrow> u64 \<times> vicarl_hash32 \<Rightarrow> 'd sqlite_world \<Rightarrow> bool" where
  "appended ok p index rel w segs bs x w' \<longleftrightarrow> x = (of_nat (length segs + 1), sha256 bs) \<and> sqlite_chain view w' = segs @ [bs] \<and>
     kept ok (sqlite_inv view p index ok) sqlite_own (sqlite_good view healthy index rel) w (hp_live (w_heap w)) w'"

definition may_fail :: "bool \<Rightarrow> bool \<Rightarrow> 'd sqlite_world \<Rightarrow> bytes list \<Rightarrow> bytes \<Rightarrow> bool" where
  "may_fail index rel w segs bs \<longleftrightarrow> \<not> (sqlite_good view healthy index rel w \<and> sqlite_fits max_len index segs bs \<and> (\<exists>f. segment_spec bs = Inr f))"

definition not_appended :: "(heap \<Rightarrow> bool) \<Rightarrow> string \<Rightarrow> bool \<Rightarrow> bool \<Rightarrow> 'd sqlite_world \<Rightarrow> bytes list \<Rightarrow> bytes \<Rightarrow> verror \<Rightarrow> 'd sqlite_world \<Rightarrow> bool" where
  "not_appended ok p index rel w segs bs e w' \<longleftrightarrow> no_ub e \<and> may_fail index rel w segs bs \<and> sqlite_chain view w' = segs \<and>
     kept ok (sqlite_inv view p index ok) sqlite_own (sqlite_good view healthy index rel) w (hp_live (w_heap w)) w'"

lemma before_appendD:
  assumes "before_append ok index w ss h p tx segs"
  shows "sq_db ss = Some h" "vw_conns (view (w_lib w)) h = Some (p, tx)" "db_segments (vw_files (view (w_lib w)) p) = Some (seg_rows segs)"
    "chain_ok segs" "record_index_enabled ss = index" "ok (w_heap w)"
    "sqlite_good view healthy index rel w \<Longrightarrow> rel \<and> healthy (w_lib w) \<and> tx = None \<and> (index \<longrightarrow> db_records (vw_files (view (w_lib w)) p) = Some (chain_index segs))"
proof -
  have at: "se_impl (w_env w) = Some ss" "sqlite_at (view (w_lib w)) ss h p tx segs" using assms by (simp_all add: before_append_def)
  then show c: "sq_db ss = Some h" "vw_conns (view (w_lib w)) h = Some (p, tx)" "db_segments (vw_files (view (w_lib w)) p) = Some (seg_rows segs)"
    "chain_ok segs" "record_index_enabled ss = index" "ok (w_heap w)"
    using assms by (simp_all add: sqlite_at_def chain_db_def before_append_def)
  show "sqlite_good view healthy index rel w \<Longrightarrow> rel \<and> healthy (w_lib w) \<and> tx = None \<and> (index \<longrightarrow> db_records (vw_files (view (w_lib w)) p) = Some (chain_index segs))"
    using sqlite_db_at [of w ss view, OF at] db_chain_rows [of segs "vw_files (view (w_lib w)) p"] c(3,4) by (auto simp: sqlite_good_def chain_db_def)
qed

lemma not_appendedI:
  assumes b: "before_append ok index w ss h p tx segs" and "no_ub e" "may_fail index rel w segs bs"
    and r: "reach ok w (hp_live (w_heap w)) (set_conn h (Some (p, tx')) (view (w_lib w))) w'"
    and tx': "\<And>db. tx' = Some db \<Longrightarrow> pending_db segs db" "healthy (w_lib w) \<Longrightarrow> tx = None \<Longrightarrow> tx' = None"
  shows "not_appended ok p index rel w segs bs e w'"
proof -
  have "se_impl (w_env w) = Some ss" "sqlite_at (view (w_lib w)) ss h p tx segs" "record_index_enabled ss = index" "sq_ptr ss \<in> hp_live (w_heap w)"
    using b by (simp_all add: before_append_def)
  from kept_tx [OF this(1-3) r this(4) tx', of rel] assms(2,3) show ?thesis unfolding not_appended_def by blast
qed

lemma not_appended_undone:
  assumes b: "before_append ok index w ss h p tx segs" and "no_ub e" "may_fail index rel w segs bs"
    and u: "undone ok w (hp_live (w_heap w)) h p tx' (view (w_lib w)) w'" and tx': "\<And>db. tx' = Some db \<Longrightarrow> pending_db segs db"
  shows "not_appended ok p index rel w segs bs e w'"
proof -
  obtain tx2 where 2: "tx2 = tx' \<or> tx2 = None" "healthy (w_lib w) \<longrightarrow> tx2 = None" "reach ok w (hp_live (w_heap w)) (set_conn h (Some (p, tx2)) (view (w_lib w))) w'"
    using u by (auto simp: undone_def)
  show ?thesis by (rule not_appendedI [OF assms(1-3) 2(3)]) (use 2(1,2) tx' in auto)
qed

lemma commit_outcome:
  assumes b: "before_append ok index w ss h p tx segs" "tx = None" and len: "length bs < sqlite_lim"
    and r: "reach ok w (hp_live (w_heap w)) (set_conn h (Some (p, Some db)) (view (w_lib w))) w1" and db: "db_segments db = Some (seg_rows (segs @ [bs]))"
    and rec: "healthy (w_lib w) \<Longrightarrow> index \<Longrightarrow> db_records (vw_files (view (w_lib w)) p) = Some (chain_index segs) \<Longrightarrow> db_records db = Some (chain_index (segs @ [bs]))"
    and no: "no = of_nat (Suc (length segs))"
  shows "outcome (bindr (rollback_on_error L h (exec_sql L h ''COMMIT;'')) (\<lambda>_ w'.
      (Inr (no, sha256 bs), set_sqlite (Some (ss\<lparr>sq_tip_no := no, sq_tip_hash := sha256 bs, sq_has_tip := True\<rparr>)) w')))
    (appended ok p index rel w segs bs) (not_appended ok p index rel w segs bs) w1"
proof -
  let ?v = "view (w_lib w)" and ?M = "hp_live (w_heap w)"
  let ?v1 = "set_conn h (Some (p, Some db)) ?v"
  have c: "vw_conns ?v1 h = Some (p, Some db)" by simp
  have eff: "exec_effect Commit h (p, Some db) ?v1 = set_conn h (Some (p, None)) (set_file p db ?v)"
    by (simp add: current_db_def set_conn_def set_file_def)
  have "outcome (exec_sql L h ''COMMIT;'')
    (\<lambda>_. reach ok w ?M (set_conn h (Some (p, None)) (set_file p db ?v)))
    (\<lambda>e w'. (no_ub e \<and> \<not> healthy (w_lib w)) \<and> (\<exists>tx'. (tx' = Some db \<or> tx' = None) \<and> reach ok w ?M (set_conn h (Some (p, tx')) ?v) w')) w1"
  proof (rule outcome_mono [OF exec_outcome [OF r store_commands_in(2) store_command_texts(2) c, unfolded eff]])
    fix e w' assume "sql_error e \<and> \<not> (healthy (w_lib w) \<and> exec_allowed Commit (snd (p, Some db))) \<and> (\<exists>v'. tx_lost h ?v1 v' \<and> reach ok w ?M v' w')"
    then obtain v' where e: "sql_error e" "\<not> healthy (w_lib w)" "tx_lost h ?v1 v'" "reach ok w ?M v' w'" by auto
    obtain tx' where "tx' = Some db \<or> tx' = None" "v' = set_conn h (Some (p, tx')) ?v" using tx_lost_within [OF c e(3)] by auto
    with e show "(no_ub e \<and> \<not> healthy (w_lib w)) \<and> (\<exists>tx'. (tx' = Some db \<or> tx' = None) \<and> reach ok w ?M (set_conn h (Some (p, tx')) ?v) w')"
      by (auto simp: sql_error_def)
  qed blast
  note commit = this
  have rb: "outcome (rollback_on_error L h (exec_sql L h ''COMMIT;''))
    (\<lambda>_. reach ok w ?M (set_conn h (Some (p, None)) (set_file p db ?v)))
    (\<lambda>e w'. (no_ub e \<and> \<not> healthy (w_lib w)) \<and> (\<exists>tx'. (tx' = Some db \<or> tx' = None) \<and> undone ok w ?M h p tx' ?v w')) w1"
    by (rule rollback_on_error_outcome [OF commit]) (use no_ub_overwrite in blast)
  have at: "se_impl (w_env w) = Some ss" "sqlite_at ?v ss h p None segs" "record_index_enabled ss = index" "sq_ptr ss \<in> ?M" "length segs + 2 < size_mod"
    using b by (simp_all add: before_append_def)
  have chain': "chain_ok (segs @ [bs])" using before_appendD(4) [OF b(1)] at(5) len by (auto simp: chain_ok_def seg_limit_def sqlite_lim_def)
  show ?thesis
  proof (rule outcome_bindr, rule outcome_mono [OF rb])
    fix x :: unit and w' assume 4: "reach ok w ?M (set_conn h (Some (p, None)) (set_file p db ?v)) w'"
    let ?w = "set_sqlite (Some (ss\<lparr>sq_tip_no := no, sq_tip_hash := sha256 bs, sq_has_tip := True\<rparr>)) w'"
    have "kept ok (sqlite_inv view p index ok) sqlite_own (sqlite_good view healthy index rel) w ?M ?w \<and> sqlite_chain view ?w = segs @ [bs]"
      by (rule kept_commit [OF at(1-3) 4 at(4) db chain']) (simp add: no, rule rec)
    then have "appended ok p index rel w segs bs (no, sha256 bs) (set_sqlite (Some (ss\<lparr>sq_tip_no := no, sq_tip_hash := sha256 bs, sq_has_tip := True\<rparr>)) w')"
      unfolding appended_def by (simp add: no)
    then show "outcome (\<lambda>w'. (Inr (no, sha256 bs), set_sqlite (Some (ss\<lparr>sq_tip_no := no, sq_tip_hash := sha256 bs, sq_has_tip := True\<rparr>)) w'))
        (appended ok p index rel w segs bs) (not_appended ok p index rel w segs bs) w'"
      unfolding outcome_def prod.case sum.case .
  next
    fix e w' assume "(no_ub e \<and> \<not> healthy (w_lib w)) \<and> (\<exists>tx'. (tx' = Some db \<or> tx' = None) \<and> undone ok w ?M h p tx' ?v w')"
    then obtain tx' where 4: "no_ub e" "\<not> healthy (w_lib w)" "tx' = Some db \<or> tx' = None" "undone ok w ?M h p tx' ?v w'" by blast
    have "pending_db segs db" by (rule pending_snoc [OF _ db]) (use at(5) in simp)
    moreover have "may_fail index rel w segs bs" using before_appendD(7) [OF b(1)] 4(2) by (auto simp: may_fail_def)
    ultimately show "not_appended ok p index rel w segs bs e w'" using 4(3) by (intro not_appended_undone [OF b(1) 4(1) _ 4(4)]) auto
  qed
qed


lemma index_commit_outcome:
  assumes A: "alloc_rel A ok rel" and b: "before_append ok index w ss h p tx segs" "tx = None"
    and enc: "slice_wf enc" "sl_len enc < sqlite_lim" and bs: "bs = slice_bytes enc" and no: "no = of_nat (Suc (length segs))"
    and db1: "db1 = add_segment no (sha256 bs) bs (vw_files (view (w_lib w)) p)"
    and r: "reach ok w (hp_live (w_heap w)) (set_conn h (Some (p, Some db1)) (view (w_lib w))) w1"
  shows "outcome (bindr (if record_index_enabled ss then rollback_on_error L h (insert_records_indexed A L ss no enc) else retr ()) (\<lambda>_.
       bindr (rollback_on_error L h (exec_sql L h ''COMMIT;'')) (\<lambda>_ w'.
         (Inr (no, sha256 bs), set_sqlite (Some (ss\<lparr>sq_tip_no := no, sq_tip_hash := sha256 bs, sq_has_tip := True\<rparr>)) w'))))
    (appended ok p index rel w segs bs) (not_appended ok p index rel w segs bs) w1"
    (is "outcome (bindr ?index (\<lambda>_. ?commit)) ?Q ?E _")
proof -
  let ?v = "view (w_lib w)" and ?M = "hp_live (w_heap w)"
  note d = before_appendD [OF b(1)]
  have len: "length bs < sqlite_lim" "sl_len enc < 2 ^ 31" using slice_wf_length [OF enc(1)] enc(2) by (simp_all add: bs sqlite_lim_def)
  have rows: "db_segments db1 = Some (seg_rows (segs @ [bs]))" "db_records db1 = db_records (vw_files ?v p)"
    using add_segment_rows [OF d(3)] by (simp_all add: no db1 del: of_nat_Suc)
  note commit = commit_outcome [OF b len(1) _ _ _ no]
  show ?thesis
  proof (cases index)
    case False
    have "outcome ?commit ?Q ?E w1" by (rule commit [OF r rows(1)]) (use False in simp)
    with False d(5) show ?thesis unfolding outcome_def by (simp add: bindr_retr)
  next
    case True
    let ?P = "\<lambda>e. no_ub e \<and> \<not> (rel \<and> healthy (w_lib w) \<and> rows_fit max_len (seg_index no bs) \<and> db_records db1 \<noteq> None \<and> (\<exists>f. segment_spec bs = Inr f) \<and> index_room no db1 (seg_records_of bs))"
    let ?T = "\<lambda>tx. \<forall>db'. tx = Some db' \<longrightarrow> db_segments db' = db_segments db1"
    have ins: "outcome (rollback_on_error L h (insert_records_indexed A L ss no enc))
      (\<lambda>_ w'. \<exists>db'. db_segments db' = db_segments db1 \<and> (healthy (w_lib w) \<longrightarrow> db' = add_records (seg_index no bs) db1) \<and> reach ok w ?M (set_conn h (Some (p, Some db')) ?v) w')
      (\<lambda>e w'. ?P e \<and> (\<exists>tx. ?T tx \<and> undone ok w ?M h p tx ?v w')) w1"
      by (rule rollback_on_error_outcome [OF insert_indexed_outcome [OF A r d(1) enc(1) len(2) bs]]) (use no_ub_overwrite in blast)
    have "outcome (bindr (rollback_on_error L h (insert_records_indexed A L ss no enc)) (\<lambda>_. ?commit)) ?Q ?E w1"
    proof (rule outcome_bindr, rule outcome_mono [OF ins])
      fix x :: unit and w2
      assume "\<exists>db'. db_segments db' = db_segments db1 \<and> (healthy (w_lib w) \<longrightarrow> db' = add_records (seg_index no bs) db1) \<and> reach ok w ?M (set_conn h (Some (p, Some db')) ?v) w2"
      then obtain db' where 2: "db_segments db' = db_segments db1" "healthy (w_lib w) \<longrightarrow> db' = add_records (seg_index no bs) db1"
        "reach ok w ?M (set_conn h (Some (p, Some db')) ?v) w2" by blast
      show "outcome ?commit ?Q ?E w2"
      proof (rule commit [OF 2(3)])
        show "db_segments db' = Some (seg_rows (segs @ [bs]))" using 2(1) rows(1) by simp
        show "db_records db' = Some (chain_index (segs @ [bs]))" if "healthy (w_lib w)" index "db_records (vw_files ?v p) = Some (chain_index segs)"
          using 2(2) that rows(2) by (simp add: add_records_def rec_table_def chain_index_snoc no)
      qed
    next
      fix e w2 assume "?P e \<and> (\<exists>tx. ?T tx \<and> undone ok w ?M h p tx ?v w2)"
      then obtain tx' where 2: "?P e" "?T tx'" "undone ok w ?M h p tx' ?v w2" by blast
      have in1: "no \<in> set (map sr_no (seg_table db1))" by (simp add: db1 add_segment_def seg_table_def)
      have "may_fail index rel w segs bs"
        unfolding may_fail_def
      proof
        assume g: "sqlite_good view healthy index rel w \<and> sqlite_fits max_len index segs bs \<and> (\<exists>f. segment_spec bs = Inr f)"
        then have f: "index_fits max_len segs bs" and rec: "db_records db1 = Some (chain_index segs)" "rel" "healthy (w_lib w)"
          using True d(7) rows(2) by (auto simp: sqlite_fits_def)
        from index_fits_room [OF f rec(1) in1] f g rec 2(1) show False by (auto simp: index_fits_def rows_fit_def no)
      qed
      moreover have "pending_db segs db'" if "tx' = Some db'" for db'
        by (rule pending_snoc) (use 2(2) that rows(1) b(1) in \<open>simp_all add: before_append_def\<close>)
      ultimately show "?E e w2" using 2(1) by (intro not_appended_undone [OF b(1) _ _ 2(3)]) auto
    qed
    with True d(5) show ?thesis by simp
  qed
qed

lemma append_tx_outcome:
  assumes A: "alloc_rel A ok rel" and b: "before_append ok index w ss h p tx segs"
    and enc: "slice_wf enc" "sl_ptr enc \<noteq> None" "sl_len enc < sqlite_lim" and bs: "bs = slice_bytes enc" and no: "no = of_nat (Suc (length segs))"
  shows "outcome (bindr (exec_sql L h ''BEGIN IMMEDIATE;'') (\<lambda>_.
       bindr (insert_segment L h no (sha256 bs) enc) (\<lambda>_.
       bindr (if record_index_enabled ss then rollback_on_error L h (insert_records_indexed A L ss no enc) else retr ()) (\<lambda>_.
       bindr (rollback_on_error L h (exec_sql L h ''COMMIT;'')) (\<lambda>_ w'.
         (Inr (no, sha256 bs), set_sqlite (Some (ss\<lparr>sq_tip_no := no, sq_tip_hash := sha256 bs, sq_has_tip := True\<rparr>)) w'))))))
    (appended ok p index rel w segs bs) (not_appended ok p index rel w segs bs) w"
    (is "outcome (bindr _ (\<lambda>_. bindr _ (\<lambda>_. ?rest))) ?Q ?E _")
proof (rule outcome_bindr, rule outcome_mono [OF exec_outcome [OF reach_start [where ok = ok and w = w] store_commands_in(1) store_command_texts(1)]])
  let ?v = "view (w_lib w)" and ?M = "hp_live (w_heap w)"
  note d = before_appendD [OF b]
  show "ok (w_heap w)" "vw_conns ?v h = Some (p, tx)" by (rule d)+
  have pend: "pending_db segs db" if "tx = Some db" for db using b that by (simp add: before_append_def sqlite_at_def)
  {
    fix e w1 assume "sql_error e \<and> \<not> (healthy (w_lib w) \<and> exec_allowed Begin (snd (p, tx))) \<and> (\<exists>v'. tx_lost h ?v v' \<and> reach ok w ?M v' w1)"
    then obtain v' where 1: "sql_error e" "\<not> (healthy (w_lib w) \<and> tx = None)" "tx_lost h ?v v'" "reach ok w ?M v' w1" by auto
    obtain tx' where tx': "tx' = tx \<or> tx' = None" "v' = set_conn h (Some (p, tx')) ?v" using tx_lost_within [OF d(2) 1(3)] by blast
    show "?E e w1"
      by (rule not_appendedI [OF b _ _ 1(4) [unfolded tx'(2)]]) (use 1(1,2) tx'(1) pend d(7) in \<open>auto simp: sql_error_def may_fail_def\<close>)
  next
    fix x :: unit and w1 assume "exec_allowed Begin (snd (p, tx)) \<and> reach ok w ?M (exec_effect Begin h (p, tx) ?v) w1"
    then have tx: "tx = None" and r1: "reach ok w ?M (set_conn h (Some (p, Some (vw_files ?v p))) ?v) w1" by simp_all
    have len: "sl_len enc < 2 ^ 31" "length bs = sl_len enc" using enc slice_wf_length [OF enc(1)] by (simp_all add: sqlite_lim_def bs)
    have c1: "vw_conns (set_conn h (Some (p, Some (vw_files ?v p))) ?v) h = Some (p, Some (vw_files ?v p))" "db_segments (vw_files ?v p) \<noteq> None"
      using d(3) by simp_all
    show "outcome (bindr (insert_segment L h no (sha256 bs) enc) (\<lambda>_. ?rest)) ?Q ?E w1"
    proof (rule outcome_bindr, rule outcome_mono [OF insert_segment_outcome [OF r1 c1 enc(1,2) len(1) sha256_length]])
      fix x :: unit and w2
      assume "reach ok w ?M (set_conn h (Some (p, Some (add_segment no (sha256 bs) (slice_bytes enc) (vw_files ?v p)))) (set_conn h (Some (p, Some (vw_files ?v p))) ?v)) w2"
      then show "outcome ?rest ?Q ?E w2" by (intro index_commit_outcome [OF A b tx enc(1,3) bs no refl]) (simp add: bs)
    next
      fix e w2 assume "sql_error e \<and> \<not> (healthy (w_lib w) \<and> sl_len enc + 93 \<le> max_len \<and> no \<notin> set (map sr_no (seg_table (vw_files ?v p)))) \<and>
        undone ok w ?M h p (Some (vw_files ?v p)) (set_conn h (Some (p, Some (vw_files ?v p))) ?v) w2"
      then have 2: "sql_error e" "\<not> (healthy (w_lib w) \<and> sl_len enc + 93 \<le> max_len \<and> no \<notin> set (map sr_no (seg_table (vw_files ?v p))))"
        "undone ok w ?M h p (Some (vw_files ?v p)) ?v w2" by (simp_all add: undone_def)
      have "no \<notin> set (map sr_no (seg_table (vw_files ?v p)))"
        using next_no_fresh [of segs] b by (simp add: no seg_table_def d(3) before_append_def del: of_nat_Suc)
      with 2(2) len(2) d(7) have "may_fail index rel w segs bs" by (auto simp: may_fail_def sqlite_fits_def)
      moreover have "pending_db segs (vw_files ?v p)" using d(3) by (simp add: pending_db_def)
      ultimately show "?E e w2" using 2(1) by (intro not_appended_undone [OF b _ _ 2(3)]) (auto simp: sql_error_def)
    qed
  }
qed

end

text \<open>The checks before the transaction: an error there means that the segment is not the next one.\<close>

lemma append_checks:
  assumes impl: "se_impl (w_env w) = Some ss" "sq_db ss = Some h" and tip: "tip_is segs ss" and enc: "slice_wf enc"
  obtains (stop) e where "sqlite_append_segment A L opt enc True w = (Inl e, w)" "\<not> next_segment segs (slice_bytes enc)"
  | (go) no where "no = of_nat (Suc (length segs))" "sl_ptr enc \<noteq> None"
      "sqlite_append_segment A L opt enc True w =
         bindr (exec_sql L h ''BEGIN IMMEDIATE;'') (\<lambda>_.
         bindr (insert_segment L h no (sha256 (slice_bytes enc)) enc) (\<lambda>_.
         bindr (if record_index_enabled ss then rollback_on_error L h (insert_records_indexed A L ss no enc) else retr ()) (\<lambda>_.
         bindr (rollback_on_error L h (exec_sql L h ''COMMIT;'')) (\<lambda>_ w'.
           (Inr (no, sha256 (slice_bytes enc)),
            set_sqlite (Some (ss\<lparr>sq_tip_no := no, sq_tip_hash := sha256 (slice_bytes enc), sq_has_tip := True\<rparr>)) w'))))) w"
proof (cases "peek_segment_no_prev enc")
  case (Inl e)
  show thesis
  proof (rule stop)
    show "sqlite_append_segment A L opt enc True w = (Inl e, w)"
      using Inl impl slice_wf_not_bad [OF enc] by (simp add: sqlite_append_segment_def)
    show "\<not> next_segment segs (slice_bytes enc)" using Inl peek_prev_of_segment [OF enc] by (auto simp: next_segment_def)
  qed
next
  case (Inr x)
  obtain no prev where peek: "peek_segment_no_prev enc = Inr (no, prev)" using Inr by (cases x) auto
  have exp: "(if sq_has_tip ss then sq_tip_no ss + 1 else 1) = of_nat (Suc (length segs))"
    using tip by (auto simp: tip_is_def)
  have z: "hash_is_zero32 prev \<longleftrightarrow> prev = zero_hash" by (simp add: hash_is_zero32_def)
  have next_iff: "no = of_nat (Suc (length segs)) \<and> prev = tip_hash_of segs" if "next_segment segs (slice_bytes enc)"
    using that peek peek_prev_of_segment [OF enc] by (auto simp: next_segment_def)
  show thesis
  proof (cases "no = of_nat (Suc (length segs)) \<and> prev = tip_hash_of segs")
    case False
    have "\<exists>e. sqlite_append_segment A L opt enc True w = (Inl e, w)"
      using False peek impl slice_wf_not_bad [OF enc] tip exp z
      by (cases "no = of_nat (Suc (length segs))"; cases "segs = []")
         (simp_all add: sqlite_append_segment_def Let_def tip_is_def tip_hash_of_def del: of_nat_Suc)
    with False next_iff stop show thesis by blast
  next
    case True
    have "sl_ptr enc \<noteq> None" using peek by (auto simp: peek_segment_no_prev_def split: if_splits)
    with True show thesis
    proof (intro go [of no])
      have "\<not> (sq_has_tip ss \<and> prev \<noteq> sq_tip_hash ss)" "\<not> (\<not> sq_has_tip ss \<and> \<not> hash_is_zero32 prev)"
        "\<not> no \<noteq> (if sq_has_tip ss then sq_tip_no ss + 1 else 1)"
        using True tip z exp by (auto simp: tip_is_def tip_hash_of_def)
      note conds = if_not_P [OF this(1)] if_not_P [OF this(2)] if_not_P [OF this(3)] if_not_P [OF slice_wf_not_bad [OF enc]]
      show "sqlite_append_segment A L opt enc True w =
         bindr (exec_sql L h ''BEGIN IMMEDIATE;'') (\<lambda>_.
         bindr (insert_segment L h no (sha256 (slice_bytes enc)) enc) (\<lambda>_.
         bindr (if record_index_enabled ss then rollback_on_error L h (insert_records_indexed A L ss no enc) else retr ()) (\<lambda>_.
         bindr (rollback_on_error L h (exec_sql L h ''COMMIT;'')) (\<lambda>_ w'.
           (Inr (no, sha256 (slice_bytes enc)),
            set_sqlite (Some (ss\<lparr>sq_tip_no := no, sq_tip_hash := sha256 (slice_bytes enc), sq_has_tip := True\<rparr>)) w'))))) w"
        unfolding sqlite_append_segment_def impl option.case peek sum.case prod.case Let_def conds vicarl__sha256_wf [OF enc] not_True_eq_False if_False ..
    qed simp_all
  qed
qed

context sqlite_library
begin

lemma sqlite_append_law:
  assumes A: "alloc_rel A ok rel" and w: "sqlite_inv view p index ok w" and enc: "slice_wf enc" "sl_len enc < sqlite_lim"
    and room: "length (sqlite_chain view w) + 2 < size_mod"
  shows "outcome (sqlite_append_segment A L opt enc True)
    (\<lambda>r w'. r = (of_nat (length (sqlite_chain view w) + 1), sha256 (slice_bytes enc)) \<and>
       sqlite_chain view w' = sqlite_chain view w @ [slice_bytes enc] \<and>
       kept ok (sqlite_inv view p index ok) sqlite_own (sqlite_good view healthy index rel) w (hp_live (w_heap w)) w')
    (\<lambda>e w'. \<not> (sqlite_good view healthy index rel w \<and> sqlite_fits max_len index (sqlite_chain view w) (slice_bytes enc) \<and>
         next_segment (sqlite_chain view w) (slice_bytes enc)) \<and>
       sqlite_chain view w' = sqlite_chain view w \<and>
       kept ok (sqlite_inv view p index ok) sqlite_own (sqlite_good view healthy index rel) w (hp_live (w_heap w)) w') w"
    (is "outcome _ ?Q ?E _")
proof -
  let ?segs = "sqlite_chain view w" and ?bs = "slice_bytes enc"
  obtain ss h tx where at: "ok (w_heap w)" "se_impl (w_env w) = Some ss" "sq_ptr ss \<in> hp_live (w_heap w)" "record_index_enabled ss = index"
    "sqlite_at (view (w_lib w)) ss h p tx ?segs" using w by (rule sqlite_invE)
  have b: "before_append ok index w ss h p tx ?segs" using at room by (simp add: before_append_def)
  have d: "sq_db ss = Some h" "tip_is ?segs ss" using at(5) by (simp_all add: sqlite_at_def)
  have same: "kept ok (sqlite_inv view p index ok) sqlite_own (sqlite_good view healthy index rel) w (hp_live (w_heap w)) w"
    using w at(1) by (simp add: kept_def heap_to_refl)
  from at(2) d enc(1) show ?thesis
  proof (cases rule: append_checks [where A = A and L = L and opt = opt])
    case (stop e)
    then show ?thesis using same by (simp add: outcome_def)
  next
    case (go no)
    note out = append_tx_outcome [OF A b enc(1) go(2) enc(2) refl go(1)]
    have "outcome (\<lambda>w'. sqlite_append_segment A L opt enc True w) ?Q ?E w"
      using out unfolding go(3) outcome_def appended_def not_appended_def may_fail_def
      by (auto simp: next_segment_def split: prod.splits sum.splits)
    then show ?thesis unfolding outcome_def .
  qed
qed

lemma sqlite_segment_store:
  assumes A: "alloc_rel A ok rel"
  shows "segment_store ok (sqlite_handle A L sp opt) (sqlite_inv view p index ok) sqlite_own (sqlite_good view healthy index rel)
    (sqlite_chain view) sqlite_lim (sqlite_fits max_len index)"
proof
  show "sqlite_lim \<le> seg_limit" by (simp add: sqlite_lim_def seg_limit_def)
next
  fix w assume "sqlite_inv view p index ok w"
  then show "ok (w_heap w) \<and> sqlite_own w \<subseteq> hp_live (w_heap w) \<and> chain_ok (sqlite_chain view w)"
    by (rule sqlite_invE) (simp add: sqlite_own_def sqlite_at_def chain_db_def)
next
  fix w h assume w: "sqlite_inv view p index ok w" "ok h" "sqlite_own w \<subseteq> hp_live h"
  have db: "sqlite_db view (w\<lparr>w_heap := h\<rparr>) = sqlite_db view w" for h unfolding sqlite_db_def w_lib_simps by simp
  obtain ss hd tx where at: "se_impl (w_env w) = Some ss" "record_index_enabled ss = index"
    "sqlite_at (view (w_lib w)) ss hd p tx (sqlite_chain view w)" using w(1) by (rule sqlite_invE)
  have "sqlite_inv view p index ok (w\<lparr>w_heap := h\<rparr>)"
    by (rule sqlite_invI [where ss = ss and h = hd and tx = tx and segs = "sqlite_chain view w"])
       (use w(2,3) at in \<open>simp_all add: sqlite_own_def\<close>)
  then show "sqlite_inv view p index ok (w\<lparr>w_heap := h\<rparr>) \<and> sqlite_own (w\<lparr>w_heap := h\<rparr>) = sqlite_own w \<and>
      sqlite_good view healthy index rel (w\<lparr>w_heap := h\<rparr>) = sqlite_good view healthy index rel w \<and>
      sqlite_chain view (w\<lparr>w_heap := h\<rparr>) = sqlite_chain view w"
    by (simp add: sqlite_own_def sqlite_good_def sqlite_chain_def db)
next
  fix w assume "sqlite_inv view p index ok w"
  then show "vicarl_store_tip (sqlite_handle A L sp opt) True w =
      (if sqlite_chain view w = [] then (Inl (VErr VICARL_ERR_NOT_FOUND None), w)
       else (Inr (of_nat (length (sqlite_chain view w)), sha256 (last (sqlite_chain view w))), w))"
    by (simp add: sqlite_tip_law)
next
  fix w no assume "sqlite_inv view p index ok w" "0 < no" "no \<le> length (sqlite_chain view w)"
  from sqlite_read_law [OF A this] show "outcome (vicarl_store_read_segment (sqlite_handle A L sp opt) (of_nat no) True)
        (\<lambda>b w'. holds_bytes b (sqlite_chain view w ! (no - 1)) \<and> own_bytes b \<inter> hp_live (w_heap w) = {} \<and>
           sqlite_chain view w' = sqlite_chain view w \<and>
           kept ok (sqlite_inv view p index ok) sqlite_own (sqlite_good view healthy index rel) w (hp_live (w_heap w) \<union> own_bytes b) w')
        (\<lambda>e w'. \<not> sqlite_good view healthy index rel w \<and> status_of (Inl e :: unit res) \<notin> {None, Some VICARL_ERR_NOT_FOUND} \<and>
           sqlite_chain view w' = sqlite_chain view w \<and>
           kept ok (sqlite_inv view p index ok) sqlite_own (sqlite_good view healthy index rel) w (hp_live (w_heap w)) w') w"
    unfolding outcome_def sqlite_handle_ops .
next
  fix w enc assume "sqlite_inv view p index ok w" "slice_wf enc" "sl_len enc < sqlite_lim" "length (sqlite_chain view w) + 2 < size_mod"
  from sqlite_append_law [OF A this] show "outcome (vicarl_store_append_segment (sqlite_handle A L sp opt) enc True)
        (\<lambda>r w'. r = (of_nat (length (sqlite_chain view w) + 1), sha256 (slice_bytes enc)) \<and>
           sqlite_chain view w' = sqlite_chain view w @ [slice_bytes enc] \<and>
           kept ok (sqlite_inv view p index ok) sqlite_own (sqlite_good view healthy index rel) w (hp_live (w_heap w)) w')
        (\<lambda>e w'. \<not> (sqlite_good view healthy index rel w \<and> sqlite_fits max_len index (sqlite_chain view w) (slice_bytes enc) \<and>
             next_segment (sqlite_chain view w) (slice_bytes enc)) \<and>
           sqlite_chain view w' = sqlite_chain view w \<and>
           kept ok (sqlite_inv view p index ok) sqlite_own (sqlite_good view healthy index rel) w (hp_live (w_heap w)) w') w"
    unfolding outcome_def sqlite_handle_ops .
qed

end

end
