(* ===== verification/Vicarl_SqliteOpen.thy ===== *)
theory Vicarl_SqliteOpen
  imports Vicarl_SqliteAppend
begin

text \<open>
  Opening and closing the SQLite store: the settings and tables are created one by one, the last segment
  becomes the tip; whatever fails, the connection is closed, no block is left behind and no row is touched.
\<close>

section \<open>The rows of the queries\<close>

lemma sint_of_nat_u64: "n < 2 ^ 63 \<Longrightarrow> sint (of_nat n :: u64) = int n"
  by (simp add: signed_of_nat signed_take_bit_int_eq_self)

lemma seg_rows_sorted: "length segs < 2 ^ 63 \<Longrightarrow> sorted (map (\<lambda>r. sint (sr_no r)) (seg_rows segs))"
proof -
  assume l: "length segs < 2 ^ 63"
  have "map (\<lambda>r. sint (sr_no r)) (seg_rows segs) = map (\<lambda>i. int (Suc i)) [0..<length segs]"
    unfolding seg_rows_def map_map by (rule map_cong) (use l in \<open>auto simp: seg_row_at_def sint_of_nat_u64 simp del: of_nat_Suc\<close>)
  then show ?thesis by (simp add: sorted_map)
qed

lemma select_tip_rows:
  assumes "seg_table db = seg_rows segs" "length segs < 2 ^ 63"
  shows "sql_rows SelectTip arg db = (if segs = [] then [] else [[SqlInt (of_nat (length segs)), SqlBlob (sha256 (last segs))]])"
proof (cases segs rule: rev_cases)
  case Nil
  with assms(1) show ?thesis by simp
next
  case (snoc xs x)
  have "sort_key (\<lambda>r. sint (sr_no r)) (seg_table db) = seg_rows xs @ [seg_row_at (length xs) x]"
    using sort_key_id_if_sorted [OF seg_rows_sorted [OF assms(2)]] by (simp add: assms(1) snoc seg_rows_snoc)
  with snoc show ?thesis by (simp add: seg_row_at_def)
qed

context sqlite_library
begin

section \<open>Opening\<close>

lemma tip_of_row_outcome:
  assumes r: "reach ok w0 M (set_stmt s (Some st) v) w" and s: "vw_stmts v s = None" and run: "sm_run st = Some ([SqlInt no, SqlBlob hash], rest)"
    and len: "length hash = 32"
  shows "outcome (tip_of_row L s ss) (\<lambda>x w'. x = ss\<lparr>sq_tip_no := no, sq_tip_hash := hash, sq_has_tip := True\<rparr> \<and> reach ok w0 M v w') E w"
proof -
  have st: "vw_stmts (view (w_lib w)) s = Some st" using reach_view [OF r] by simp
  have ne: "hash \<noteq> []" using len by auto
  have "sqlite3_column_int64 L s 0 (w_lib w) = no" using column_int64_law [OF st run, of 0 no] by simp
  moreover have "sqlite3_column_blob L s 1 (w_lib w) = Some hash \<and> sqlite3_column_bytes L s 1 (w_lib w) = 32"
    using column_blob_law [OF st run, of 1 hash] len ne by simp
  moreover have "slice_read \<lparr>sl_ptr = Some hash, sl_len = 32\<rparr> = Inr hash" using len by (simp add: slice_read_def)
  moreover have "reach ok w0 M v (set_lib (sqlite3_finalize L s (w_lib w)) w)" using finalize_reach [OF r _ s] by simp
  ultimately show ?thesis by (simp add: outcome_def tip_of_row_def bindr_def lib_get_def lib_do_def of_res_def retr_def)
qed

lemma no_tx_lost: "vw_conns v h = Some (p, None) \<Longrightarrow> tx_lost h v v' \<Longrightarrow> v' = v"
  using set_conn_idem by (fastforce simp: tx_lost_def)

lemma load_tip_outcome:
  assumes r: "reach ok w0 M v w" and c: "vw_conns v h = Some (p, None)" "sq_db ss0 = Some h"
    and db: "db_segments (vw_files v p) = Some (seg_rows segs)" and len: "length segs < 2 ^ 63"
    and ss: "ss = ss0\<lparr>sq_has_tip := segs \<noteq> [], sq_tip_no := of_nat (length segs), sq_tip_hash := tip_hash_of segs\<rparr>"
  shows "outcome (load_tip L ss0) (\<lambda>x w'. x = ss \<and> reach ok w0 M v w')
    (\<lambda>e w'. sql_error e \<and> \<not> healthy (w_lib w0) \<and> reach ok w0 M v w') w"
    (is "outcome _ ?Q ?E _")
proof -
  let ?ss = "ss0\<lparr>sq_has_tip := False, sq_tip_no := 0, sq_tip_hash := zero_hash\<rparr>" and ?st = "fresh_stmt h SelectTip"
  let ?row = "[SqlInt (of_nat (length segs)), SqlBlob (sha256 (last segs))]"
  let ?rows = "if segs = [] then [] else [?row]"
  have cur: "current_db v (p, None) = vw_files v p" by (simp add: current_db_def)
  let ?tail = "\<lambda>st. bindr (lib_call (sqlite3_step L st)) (\<lambda>rc.
      if rc = SQLITE_ROW then tip_of_row L st ?ss
      else
        bindr (lib_do (sqlite3_finalize L st)) (\<lambda>_.
        if rc = SQLITE_DONE then retr (?ss\<lparr>sq_has_tip := False\<rparr>) else sqlerr L (Some h) ''step tip''))"
  have tail: "outcome (?tail s) ?Q ?E w1" if s: "vw_stmts v s = None" and r1: "reach ok w0 M (set_stmt s (Some ?st) v) w1" for s w1
  proof (rule outcome_bindr, rule outcome_mono [OF select_outcome [OF r1 c(1), of ?rows]])
    show "case sm_run ?st of None \<Rightarrow> rows_determined (sm_sql ?st) (sm_args ?st) (current_db v (p, None)) \<and>
        ?rows = sql_rows (sm_sql ?st) (sm_args ?st) (current_db v (p, None)) | Some (x, rest) \<Rightarrow> ?rows = rest"
      using select_tip_rows [OF _ len, of "vw_files v p"] db by (simp add: cur seg_table_def del: sql_rows.simps)
  next
    fix rc w2
    assume "rc = SQLITE_ROW \<and> (\<exists>x rest. ?rows = x # rest \<and> reach ok w0 M (set_stmt s (Some (?st\<lparr>sm_run := Some (x, rest)\<rparr>)) v) w2) \<or>
       rc = SQLITE_DONE \<and> ?rows = [] \<and> (\<exists>st'. reach ok w0 M (set_stmt s (Some st') v) w2) \<or>
       rc \<notin> {SQLITE_ROW, SQLITE_DONE} \<and> \<not> healthy (w_lib w0) \<and> (\<exists>st' v'. tx_lost h v v' \<and> reach ok w0 M (set_stmt s (Some st') v') w2)"
    then consider (row) "rc = SQLITE_ROW" "segs \<noteq> []" "reach ok w0 M (set_stmt s (Some (?st\<lparr>sm_run := Some (?row, [])\<rparr>)) v) w2"
      | (fin) st' where "rc = SQLITE_DONE" "segs = []" "reach ok w0 M (set_stmt s (Some st') v) w2"
      | (err) st' where "rc \<notin> {SQLITE_ROW, SQLITE_DONE}" "\<not> healthy (w_lib w0)" "reach ok w0 M (set_stmt s (Some st') v) w2"
      using no_tx_lost [OF c(1)] by (auto split: if_splits)
    then show "outcome (if rc = SQLITE_ROW then tip_of_row L s ?ss
      else bindr (lib_do (sqlite3_finalize L s)) (\<lambda>_.
        if rc = SQLITE_DONE then retr (?ss\<lparr>sq_has_tip := False\<rparr>) else sqlerr L (Some h) ''step tip'')) ?Q ?E w2"
    proof cases
      case row
      have "outcome (tip_of_row L s ?ss) ?Q ?E w2"
        by (rule outcome_mono [OF tip_of_row_outcome [OF row(3) s _ sha256_length, of "of_nat (length segs)" "last segs" "[]"]])
           (use row(2) in \<open>simp_all add: ss tip_hash_of_def\<close>)
      with row(1) show ?thesis by simp
    next
      case fin
      have "reach ok w0 M v (set_lib (sqlite3_finalize L s (w_lib w2)) w2)" using finalize_reach [OF fin(3) _ s] by simp
      with fin(1,2) show ?thesis by (simp add: outcome_def bindr_def lib_do_def retr_def ss tip_hash_of_def)
    next
      case err
      have "reach ok w0 M v (set_lib (sqlite3_finalize L s (w_lib w2)) w2)" using finalize_reach [OF err(3) _ s] by simp
      with err(1,2) show ?thesis by (simp add: outcome_def bindr_def lib_do_def sqlerr_def Let_def sql_error_def fail_with_def)
    qed
  qed simp_all
  have "outcome (bindr (prepare_or_fail L (Some h) (sql_text SelectTip) ''prepare tip'') ?tail) ?Q ?E w"
  proof (rule outcome_bindr, rule outcome_mono [OF prepare_or_fail_outcome [OF r c(1) refl]])
    fix s w1 assume "sql_ready SelectTip (current_db v (p, None)) \<and> vw_stmts v s = None \<and> reach ok w0 M (set_stmt s (Some ?st) v) w1"
    then show "outcome (?tail s) ?Q ?E w1" using tail by blast
  next
    fix e w1 assume "sql_error e \<and> \<not> (healthy (w_lib w0) \<and> sql_ready SelectTip (current_db v (p, None))) \<and> (\<exists>v'. tx_lost h v v' \<and> reach ok w0 M v' w1)"
    then show "?E e w1" using db no_tx_lost [OF c(1)] by (auto simp: cur)
  qed
  moreover have "sq_db ?ss = Some h" using c(2) by simp
  ultimately show ?thesis unfolding load_tip_def Let_def by (simp only:)
qed

end

text \<open>The commands of \<^verbatim>\<open>apply_pragmas\<close> and \<^verbatim>\<open>ensure_schema\<close>, one after the other.\<close>

fun exec_all :: "'d sqlite3_api \<Rightarrow> dbh \<Rightarrow> sql_command list \<Rightarrow> ('d sqlite_world, unit) vm" where
  "exec_all L h [] = retr ()"
| "exec_all L h (c # cs) = bindr (exec_sql L h (command_text c)) (\<lambda>_. exec_all L h cs)"

definition pragma_commands :: "vicarl_store_options option \<Rightarrow> sql_command list" where
  "pragma_commands opt =
     [Pragma (case opt of Some x \<Rightarrow> if sqlite_wal x \<noteq> 0 then ''journal_mode=WAL'' else ''journal_mode=DELETE'' | None \<Rightarrow> ''journal_mode=DELETE''),
      Pragma (case opt of None \<Rightarrow> ''synchronous=NORMAL'' | Some x \<Rightarrow>
        if sqlite_synchronous x = 0 then ''synchronous=OFF'' else if sqlite_synchronous x = 2 then ''synchronous=FULL'' else ''synchronous=NORMAL''),
      Pragma ''foreign_keys=ON'']"

definition schema_commands :: "bool \<Rightarrow> sql_command list" where
  "schema_commands index =
     [CreateSegments, CreateIndex ''idx_segments_created'' ''segments'' ''created_ms''] @
     (if index then
        [CreateRecords, CreateIndex ''idx_records_segment'' ''records'' ''segment_no'', CreateIndex ''idx_records_ns'' ''records'' ''namespace'',
         CreateIndex ''idx_records_schema'' ''records'' ''schema'', CreateIndex ''idx_records_author'' ''records'' ''author'',
         CreateIndex ''idx_records_time'' ''records'' ''timestamp_ms'']
      else [])"

lemma bindr_retr_left: "bindr (retr x) f = f x"
  by (rule ext) (simp add: bindr_retr)

lemma bindr_retr_right: "bindr m retr = m"
  by (rule ext) (simp add: bindr_def retr_def split: prod.splits sum.splits)

lemma bindr_bindr: "bindr (bindr m f) g = bindr m (\<lambda>x. bindr (f x) g)"
  by (rule ext) (simp add: bindr_def split: prod.splits sum.splits)

lemma apply_pragmas_all: "apply_pragmas L h opt = bindr (exec_all L h (pragma_commands opt)) (\<lambda>_. lib_do (sqlite3_busy_timeout L h 3000))"
  by (cases opt) (simp_all add: apply_pragmas_def pragma_commands_def command_text.simps Let_def bindr_bindr bindr_retr_left)

lemma ensure_schema_all: "ensure_schema L h index = exec_all L h (schema_commands index)"
  by (cases index) (simp_all add: ensure_schema_def schema_commands_def command_text.simps(7) bindr_retr_right)

definition plain_commands :: "sql_command set" where
  "plain_commands = set store_commands - {Begin, Commit, Rollback}"

lemma open_commands_plain: "set (pragma_commands opt) \<subseteq> plain_commands" "set (schema_commands index) \<subseteq> plain_commands"
  by (auto simp: pragma_commands_def schema_commands_def plain_commands_def store_commands_def split: option.splits)

text \<open>Creating tables that are there changes nothing, and no row is ever touched.\<close>

lemma fold_create:
  "seg_table (fold create_in cs db) = seg_table db" "rec_table (fold create_in cs db) = rec_table db"
  "db_segments (fold create_in cs db) = (if CreateSegments \<in> set cs then Some (seg_table db) else db_segments db)"
  "db_records (fold create_in cs db) = (if CreateRecords \<in> set cs then Some (rec_table db) else db_records db)"
proof -
  have one: "seg_table (create_in c db) = seg_table db" "rec_table (create_in c db) = rec_table db"
    "db_segments (create_in c db) = (if c = CreateSegments then Some (seg_table db) else db_segments db)"
    "db_records (create_in c db) = (if c = CreateRecords then Some (rec_table db) else db_records db)" for c db
    by (cases c; simp add: seg_table_def rec_table_def)+
  show "seg_table (fold create_in cs db) = seg_table db" by (induction cs arbitrary: db) (simp_all add: one del: create_in.simps)
  show "rec_table (fold create_in cs db) = rec_table db" by (induction cs arbitrary: db) (simp_all add: one del: create_in.simps)
  show "db_segments (fold create_in cs db) = (if CreateSegments \<in> set cs then Some (seg_table db) else db_segments db)"
    by (induction cs arbitrary: db) (simp_all add: one del: create_in.simps)
  show "db_records (fold create_in cs db) = (if CreateRecords \<in> set cs then Some (rec_table db) else db_records db)"
    by (induction cs arbitrary: db) (simp_all add: one del: create_in.simps)
qed

lemma set_file_same [simp]: "set_file p (vw_files v p) v = v"
  by (simp add: set_file_def)

context sqlite_library
begin

lemma exec_plain:
  assumes r: "reach ok w0 M v w" and c: "vw_conns v h = Some (p, None)" and cmd: "cmd \<in> plain_commands"
  shows "outcome (exec_sql L h (command_text cmd))
    (\<lambda>_ w'. reach ok w0 M (set_file p (create_in cmd (vw_files v p)) v) w') (\<lambda>e w'. sql_error e \<and> \<not> healthy (w_lib w0) \<and> reach ok w0 M v w') w"
proof (rule outcome_mono [OF exec_outcome [OF r _ refl c]])
  show "cmd \<in> set store_commands" using cmd by (simp add: plain_commands_def)
  have eff: "exec_allowed cmd None" "exec_effect cmd h (p, None) v = set_file p (create_in cmd (vw_files v p)) v"
    using cmd by (cases cmd; simp add: plain_commands_def set_current_def current_db_def)+
  fix x w' assume "exec_allowed cmd (snd (p, None :: sqldb option)) \<and> reach ok w0 M (exec_effect cmd h (p, None) v) w'"
  then show "reach ok w0 M (set_file p (create_in cmd (vw_files v p)) v) w'" by (simp add: eff)
next
  fix e w' assume a: "sql_error e \<and> \<not> (healthy (w_lib w0) \<and> exec_allowed cmd (snd (p, None :: sqldb option))) \<and> (\<exists>v'. tx_lost h v v' \<and> reach ok w0 M v' w')"
  have "exec_allowed cmd None" using cmd by (cases cmd) (simp_all add: plain_commands_def)
  with a show "sql_error e \<and> \<not> healthy (w_lib w0) \<and> reach ok w0 M v w'" using no_tx_lost [OF c] by auto
qed

lemma exec_all_outcome:
  assumes r: "reach ok w0 M v w" and c: "vw_conns v h = Some (p, None)" and cmds: "set cmds \<subseteq> plain_commands"
  shows "outcome (exec_all L h cmds)
    (\<lambda>_ w'. reach ok w0 M (set_file p (fold create_in cmds (vw_files v p)) v) w')
    (\<lambda>e w'. sql_error e \<and> \<not> healthy (w_lib w0) \<and> (\<exists>cs. reach ok w0 M (set_file p (fold create_in cs (vw_files v p)) v) w')) w"
  using assms
proof (induction cmds arbitrary: v w)
  case Nil
  then show ?case by (simp add: outcome_retr)
next
  case (Cons cmd cmds)
  let ?v = "set_file p (create_in cmd (vw_files v p)) v"
  let ?E = "\<lambda>e w'. sql_error e \<and> \<not> healthy (w_lib w0) \<and> (\<exists>cs. reach ok w0 M (set_file p (fold create_in cs (vw_files v p)) v) w')"
  have "outcome (bindr (exec_sql L h (command_text cmd)) (\<lambda>_. exec_all L h cmds))
    (\<lambda>_ w'. reach ok w0 M (set_file p (fold create_in (cmd # cmds) (vw_files v p)) v) w') ?E w"
  proof (rule outcome_bindr, rule outcome_mono [OF exec_plain [OF Cons.prems(1,2)]])
    fix x w1 assume "reach ok w0 M ?v w1"
    moreover have "vw_conns ?v h = Some (p, None)" "set cmds \<subseteq> plain_commands" using Cons.prems by simp_all
    ultimately have "outcome (exec_all L h cmds) (\<lambda>_ w'. reach ok w0 M (set_file p (fold create_in cmds (vw_files ?v p)) ?v) w')
      (\<lambda>e w'. sql_error e \<and> \<not> healthy (w_lib w0) \<and> (\<exists>cs. reach ok w0 M (set_file p (fold create_in cs (vw_files ?v p)) ?v) w')) w1"
      by (rule Cons.IH)
    then show "outcome (exec_all L h cmds) (\<lambda>_ w'. reach ok w0 M (set_file p (fold create_in (cmd # cmds) (vw_files v p)) v) w') ?E w1"
    proof (rule outcome_mono)
      fix e w' assume "sql_error e \<and> \<not> healthy (w_lib w0) \<and> (\<exists>cs. reach ok w0 M (set_file p (fold create_in cs (vw_files ?v p)) ?v) w')"
      then obtain cs where e: "sql_error e" "\<not> healthy (w_lib w0)" "reach ok w0 M (set_file p (fold create_in cs (vw_files ?v p)) ?v) w'" by blast
      have "reach ok w0 M (set_file p (fold create_in (cmd # cs) (vw_files v p)) v) w'" using e(3) by simp
      with e show "?E e w'" by blast
    qed simp
  next
    fix e w1 assume e: "sql_error e \<and> \<not> healthy (w_lib w0) \<and> reach ok w0 M v w1"
    have "reach ok w0 M (set_file p (fold create_in [] (vw_files v p)) v) w1" using e by simp
    with e show "?E e w1" by blast
  qed (use Cons.prems in simp)
  then show ?case by simp
qed

lemma prepare_file_outcome:
  assumes r: "reach ok w0 M v w" and c: "vw_conns v h = Some (p, None)"
  shows "outcome (bindr (apply_pragmas L h opt) (\<lambda>_. ensure_schema L h index))
    (\<lambda>_ w'. reach ok w0 M (set_file p (fold create_in (pragma_commands opt @ schema_commands index) (vw_files v p)) v) w')
    (\<lambda>e w'. sql_error e \<and> \<not> healthy (w_lib w0) \<and> (\<exists>cs. reach ok w0 M (set_file p (fold create_in cs (vw_files v p)) v) w')) w"
    (is "outcome _ ?Q ?E _")
  unfolding apply_pragmas_all ensure_schema_all bindr_bindr
proof (rule outcome_bindr, rule outcome_mono [OF exec_all_outcome [OF r c open_commands_plain(1)]])
  let ?v = "set_file p (fold create_in (pragma_commands opt) (vw_files v p)) v"
  fix x w1 assume 1: "reach ok w0 M ?v w1"
  have r2: "reach ok w0 M ?v (set_lib (sqlite3_busy_timeout L h 3000 (w_lib w1)) w1)"
    by (rule reach_lib [OF 1]) (use 1 timeout_law in \<open>simp_all add: reach_def\<close>)
  have c2: "vw_conns ?v h = Some (p, None)" using c by simp
  have "outcome (exec_all L h (schema_commands index)) ?Q ?E (set_lib (sqlite3_busy_timeout L h 3000 (w_lib w1)) w1)"
  proof (rule outcome_mono [OF exec_all_outcome [OF r2 c2 open_commands_plain(2)]])
    fix e w' assume "sql_error e \<and> \<not> healthy (w_lib w0) \<and> (\<exists>cs. reach ok w0 M (set_file p (fold create_in cs (vw_files ?v p)) ?v) w')"
    then obtain cs where e: "sql_error e" "\<not> healthy (w_lib w0)" "reach ok w0 M (set_file p (fold create_in cs (vw_files ?v p)) ?v) w'" by blast
    have "reach ok w0 M (set_file p (fold create_in (pragma_commands opt @ cs) (vw_files v p)) v) w'" using e(3) by simp
    with e show "?E e w'" by blast
  qed simp
  then show "outcome (bindr (lib_do (sqlite3_busy_timeout L h 3000)) (\<lambda>_. exec_all L h (schema_commands index))) ?Q ?E w1"
    by (intro outcome_bindr outcome_lib_do)
qed blast

end

lemma set_conn_file [simp]: "set_conn h c (set_file p db v) = set_file p db (set_conn h c v)"
  by (simp add: set_conn_def set_file_def)

context sqlite_library
begin

lemma close_db_reach:
  assumes r: "reach ok w0 M v w" and h: "vw_conns v h \<noteq> None" "idle h v"
  shows "reach ok w0 M (set_conn h None v) (close_db L h w)"
proof -
  have "view (sqlite3_close L h (w_lib w)) = set_conn h None v \<and> (healthy (w_lib w) \<longrightarrow> healthy (sqlite3_close L h (w_lib w)))"
    using close_law [of "w_lib w" h] h reach_view [OF r] by (auto simp: idle_def)
  then show ?thesis unfolding close_db_def lib_do_def snd_conv by (intro reach_lib [OF r]) simp_all
qed

text \<open>The errors of opening: of the library or out of memory, with nothing done but empty tables created, and the connection closed.\<close>

definition open_failed :: "(heap \<Rightarrow> bool) \<Rightarrow> bool \<Rightarrow> string \<Rightarrow> 'd sqlite_world \<Rightarrow> verror \<Rightarrow> 'd sqlite_world \<Rightarrow> bool" where
  "open_failed ok rel p w e w' \<longleftrightarrow> (sql_error e \<or> e = err_oom) \<and> \<not> (rel \<and> healthy (w_lib w)) \<and>
     (\<exists>cs. reach ok w (hp_live (w_heap w)) (set_file p (fold create_in cs (vw_files (view (w_lib w)) p)) (view (w_lib w))) w')"

lemma open_setup_outcome:
  assumes A: "alloc_rel A ok rel" and v: "v = view (w_lib w)" "vw_conns v h = None" "idle h v" and M: "M = hp_live (w_heap w)"
    and r: "reach ok w M (set_conn h (Some (p, None)) v) w1"
  shows "outcome (open_setup A L h opt index)
    (\<lambda>sp w'. sp \<notin> M \<and> reach ok w (insert sp M) (set_file p (fold create_in (pragma_commands opt @ schema_commands index) (vw_files v p)) (set_conn h (Some (p, None)) v)) w')
    (open_failed ok rel p w) w1"
proof -
  let ?v = "set_conn h (Some (p, None)) v"
  have close: "reach ok w M (set_file p db v) (close_db L h w')" if "reach ok w M (set_file p db ?v) w'" for db w'
    using close_db_reach [OF that, of h] v(2,3) set_conn_idem [of v h None] by (simp add: idle_def)
  have c: "vw_conns ?v h = Some (p, None)" by simp
  show ?thesis
    unfolding open_setup_def
  proof (rule outcome_on_error, unfold bindr_bindr [symmetric], rule outcome_bindr, rule outcome_mono [OF prepare_file_outcome [OF r c]])
    let ?db = "fold create_in (pragma_commands opt @ schema_commands index) (vw_files ?v p)"
    fix x w2 assume 2: "reach ok w M (set_file p ?db ?v) w2"
    have "outcome (calloc_or_oom A 1 sizeof_sqlite_store) (\<lambda>sp g. sp \<notin> M \<and> heap_to ok (w_heap w2) (insert sp M) g)
        (\<lambda>e g. (e = err_oom \<and> \<not> rel) \<and> heap_to ok (w_heap w2) M g) (w_heap w2)"
      by (rule outcome_mono [OF calloc_or_oom_outcome [OF A]]) (use reach_ok [OF 2] in \<open>auto simp: sizeof_sqlite_store_def size_mod_def\<close>)
    note alloc = outcome_reach_heap [OF 2 this]
    show "outcome (on_heap (calloc_or_oom A 1 sizeof_sqlite_store))
      (\<lambda>sp w'. sp \<notin> M \<and> reach ok w (insert sp M) (set_file p (fold create_in (pragma_commands opt @ schema_commands index) (vw_files v p)) ?v) w')
      (\<lambda>e w'. open_failed ok rel p w e (close_db L h w')) w2"
    proof (rule outcome_mono [OF alloc])
      fix e w' assume e: "(e = err_oom \<and> \<not> rel) \<and> reach ok w M (set_file p ?db ?v) w'"
      then have "reach ok w M (set_file p ?db v) (close_db L h w')" using close by blast
      then have "reach ok w M (set_file p (fold create_in (pragma_commands opt @ schema_commands index) (vw_files v p)) v) (close_db L h w')" by simp
      with e show "open_failed ok rel p w e (close_db L h w')" unfolding open_failed_def v(1) M by blast
    qed simp
  next
    fix e w2 assume "sql_error e \<and> \<not> healthy (w_lib w) \<and> (\<exists>cs. reach ok w M (set_file p (fold create_in cs (vw_files ?v p)) ?v) w2)"
    then obtain cs where e: "sql_error e" "\<not> healthy (w_lib w)" "reach ok w M (set_file p (fold create_in cs (vw_files v p)) ?v) w2" by auto
    from close [OF e(3)] e(1,2) show "open_failed ok rel p w e (close_db L h w2)" unfolding open_failed_def v(1) M by auto
  qed
qed

definition sqlite_opened :: "(heap \<Rightarrow> bool) \<Rightarrow> bool \<Rightarrow> bool \<Rightarrow> vicarl_allocator \<Rightarrow> vicarl_store_options \<Rightarrow> string \<Rightarrow> 'd sqlite_world \<Rightarrow> bytes list \<Rightarrow>
    ('d sqlite_env, 'u) vicarl_store \<Rightarrow> 'd sqlite_world \<Rightarrow> bool" where
  "sqlite_opened ok index rel A opt p w segs st w' \<longleftrightarrow> Some st = sqlite_handle A L (st_ptr st) opt \<and> sqlite_inv view p index ok w' \<and>
     sqlite_chain view w' = segs \<and> heap_to ok (w_heap w) (hp_live (w_heap w) \<union> insert (st_ptr st) (sqlite_own w')) (w_heap w') \<and>
     insert (st_ptr st) (sqlite_own w') \<inter> hp_live (w_heap w) = {} \<and> st_ptr st \<notin> sqlite_own w' \<and>
     (rel \<and> healthy (w_lib w) \<and> (index \<longrightarrow> rec_table (vw_files (view (w_lib w)) p) = chain_index segs) \<longrightarrow> sqlite_good view healthy index rel w')"

lemma store_new_outcome:
  assumes A: "alloc_rel A ok rel" and w: "v = view (w_lib w)" "vw_conns v h = None" "idle h v" "M = hp_live (w_heap w)"
    and r: "reach ok w (insert sp M) (set_file p db' (set_conn h (Some (p, None)) v)) w2" and sp: "sp \<notin> M"
    and db': "db' = fold create_in cs (vw_files v p)" "CreateSegments \<in> set cs" "index \<longrightarrow> CreateRecords \<in> set cs"
    and segs: "seg_table (vw_files v p) = seg_rows segs" "chain_ok segs"
    and ss: "ss = \<lparr>sq_ptr = sp, sq_db = Some h, sq_tip_no = of_nat (length segs), sq_tip_hash = tip_hash_of segs, sq_has_tip = (segs \<noteq> []), record_index_enabled = index\<rparr>"
  shows "outcome (\<lambda>w. case vicarl__store_new A (Some (SQLITE_VT A L)) opt (w_heap w) of
       (None, h') \<Rightarrow> (Inl err_oom, w\<lparr>w_heap := h'\<rparr>) | (Some store, h') \<Rightarrow> (Inr store, set_sqlite (Some ss) (w\<lparr>w_heap := h'\<rparr>)))
    (sqlite_opened ok index rel A (case opt of None \<Rightarrow> zero_options | Some x \<Rightarrow> x) p w segs)
    (\<lambda>e w'. e = err_oom \<and> \<not> rel \<and> reach ok w (insert sp M) (set_file p db' (set_conn h (Some (p, None)) v)) w') w2"
proof -
  let ?v' = "set_file p db' (set_conn h (Some (p, None)) v)"
  have step: "heap_to ok (w_heap w2) (insert sp M) (w_heap w2)" using reach_ok [OF r] by simp
  from A step show ?thesis
  proof (cases rule: calloc_stepE [where c = 1 and s = sizeof_store])
    case (fail g)
    then have "reach ok w (insert sp M) ?v' (w2\<lparr>w_heap := g\<rparr>)" by (intro reach_heap [OF r])
    moreover have "\<not> rel" using fail(2) by (simp add: sizeof_store_def size_mod_def)
    ultimately show ?thesis using fail(1) by (simp add: outcome_def vicarl__store_new_def)
  next
    case (new q g)
    let ?w = "set_sqlite (Some ss) (w2\<lparr>w_heap := g\<rparr>)"
    have lib: "view (w_lib w2) = ?v'" "healthy (w_lib w) \<longrightarrow> healthy (w_lib w2)" using r by (simp_all add: reach_def)
    have "heap_to ok (w_heap w) (insert sp M) (w_heap w2)" using r by (simp add: reach_def)
    note heap = heap_to_trans [OF this new(3)]
    have dbs: "db_segments db' = Some (seg_rows segs)" "index \<longrightarrow> db_records db' = Some (rec_table (vw_files v p))"
      using db' segs(1) by (simp_all add: fold_create)
    have at: "sqlite_at (view (w_lib ?w)) ss h p None segs"
      using w(2,3) dbs(1) segs(2) by (simp add: lib(1) sqlite_at_def ss tip_is_def chain_db_def idle_def)
    have impl: "se_impl (w_env ?w) = Some ss" by simp
    have inv: "sqlite_inv view p index ok ?w"
      by (rule sqlite_invI [where view = view and w = ?w, OF _ impl _ _ at]) (use heap in \<open>simp_all add: heap_to_def ss\<close>)
    note chain = sqlite_db_at [where view = view and w = ?w, OF impl at]
    have own: "sqlite_own ?w = {sp}" by (simp add: sqlite_own_def ss)
    have "sqlite_good view healthy index rel ?w" if "rel" "healthy (w_lib w)" "index \<longrightarrow> rec_table (vw_files (view (w_lib w)) p) = chain_index segs"
      using chain that lib dbs db_chain_rows [of segs db'] segs(2) by (auto simp: sqlite_good_def w(1) chain_db_def)
    then have "sqlite_opened ok index rel A (case opt of None \<Rightarrow> zero_options | Some x \<Rightarrow> x) p w segs
        \<lparr>st_ptr = q, st_vt = Some (SQLITE_VT A L), st_opt = (case opt of None \<Rightarrow> zero_options | Some x \<Rightarrow> x)\<rparr> ?w"
      using inv chain heap new(2) sp own by (simp add: sqlite_opened_def sqlite_handle_def w(4))
    then show ?thesis using new(1) by (simp add: outcome_def vicarl__store_new_def)
  qed
qed


lemma open_attach_outcome:
  assumes A: "alloc_rel A ok rel" and w: "v = view (w_lib w)" "vw_conns v h = None" "idle h v" "M = hp_live (w_heap w)"
    and r: "reach ok w (insert sp M) (set_file p db' (set_conn h (Some (p, None)) v)) w2" and sp: "sp \<notin> M"
    and db': "db' = fold create_in cs (vw_files v p)" "CreateSegments \<in> set cs" "index \<longrightarrow> CreateRecords \<in> set cs"
    and segs: "seg_table (vw_files v p) = seg_rows segs" "chain_ok segs" "length segs < 2 ^ 63"
  shows "outcome (open_attach A L h opt index sp :: ('d sqlite_world, ('d sqlite_env, 'u) vicarl_store) vm)
    (sqlite_opened ok index rel A (case opt of None \<Rightarrow> zero_options | Some x \<Rightarrow> x) p w segs) (open_failed ok rel p w) w2"
    (is "outcome _ ?Q _ _")
proof -
  let ?new = "\<lambda>ss (w :: 'd sqlite_world). case vicarl__store_new A (Some (SQLITE_VT A L :: ('d sqlite_env, 'u) store_vtable)) opt (w_heap w) of
      (None, h') \<Rightarrow> (Inl err_oom, w\<lparr>w_heap := h'\<rparr>) | (Some store, h') \<Rightarrow> (Inr store, set_sqlite (Some ss) (w\<lparr>w_heap := h'\<rparr>))"
  let ?v' = "set_file p db' (set_conn h (Some (p, None)) v)" and ?close = "\<lambda>w. upd_heap (vicarl__free A (Some sp)) (close_db L h w)"
  let ?init = "\<lparr>sq_ptr = sp, sq_db = Some h, sq_tip_no = 0, sq_tip_hash = zero_hash, sq_has_tip = False, record_index_enabled = index\<rparr>"
  let ?ss = "\<lparr>sq_ptr = sp, sq_db = Some h, sq_tip_no = of_nat (length segs), sq_tip_hash = tip_hash_of segs, sq_has_tip = (segs \<noteq> []), record_index_enabled = index\<rparr>"
  have failed: "open_failed ok rel p w e (?close w')"
    if e: "sql_error e \<or> e = err_oom" "\<not> (rel \<and> healthy (w_lib w))" and r': "reach ok w (insert sp M) ?v' w'" for e w'
  proof -
    have "vw_conns ?v' h \<noteq> None" "idle h ?v'" using w(3) by (simp_all add: idle_def)
    from close_db_reach [OF r' this] have c: "reach ok w (insert sp M) (set_file p db' v) (close_db L h w')"
      using set_conn_idem [OF w(2)] by simp
    have "heap_to ok (w_heap (close_db L h w')) M (vicarl__free A (Some sp) (w_heap (close_db L h w')))"
      using free_step_insert [OF A _ sp] reach_ok [OF c] by simp
    then have "reach ok w M (set_file p db' v) (?close w')" by (rule reach_upd_heap [OF c])
    with e show ?thesis unfolding open_failed_def w(1,4) db'(1) by blast
  qed
  have files: "db_segments (vw_files ?v' p) = Some (seg_rows segs)" using db' segs(1) by (simp add: fold_create)
  have conn: "vw_conns ?v' h = Some (p, None)" "sq_db ?init = Some h" by simp_all
  have new: "outcome (?new x) ?Q (\<lambda>e w'. open_failed ok rel p w e (?close w')) w3"
    if x: "x = ?init\<lparr>sq_has_tip := segs \<noteq> [], sq_tip_no := of_nat (length segs), sq_tip_hash := tip_hash_of segs\<rparr> \<and> reach ok w (insert sp M) ?v' w3" for x w3
  proof -
    have "outcome (?new ?ss) ?Q (\<lambda>e w'. open_failed ok rel p w e (?close w')) w3"
      by (rule outcome_mono [OF store_new_outcome [OF A w conjunct2 [OF x] sp db' segs(1,2) refl]], assumption, rule failed) auto
    moreover have "x = ?ss" using x by simp
    ultimately show ?thesis by (simp only:)
  qed
  have err: "open_failed ok rel p w e (?close w3)" if "sql_error e \<and> \<not> healthy (w_lib w) \<and> reach ok w (insert sp M) ?v' w3" for e w3
    by (rule failed) (use that in auto)
  show ?thesis
    unfolding open_attach_def
    by (rule outcome_on_error, rule outcome_bindr, rule outcome_mono [OF load_tip_outcome [OF r conn files segs(3) refl]], rule new, assumption, rule err)
qed

lemma sqlite_open_outcome:
  assumes A: "alloc_rel A ok rel" and okh: "ok (w_heap w)" and p: "p \<noteq> []"
    and segs: "seg_table (vw_files (view (w_lib w)) p) = seg_rows segs" "chain_ok segs" "length segs < 2 ^ 63"
    and index: "index = (case opt of None \<Rightarrow> False | Some x \<Rightarrow> enable_record_index x \<noteq> 0)"
  shows "outcome (vicarl_store_open_sqlite A L (Some p) opt True :: ('d sqlite_world, ('d sqlite_env, 'u) vicarl_store) vm)
    (sqlite_opened ok index rel A (case opt of None \<Rightarrow> zero_options | Some x \<Rightarrow> x) p w segs) (open_failed ok rel p w) w"
    (is "outcome _ ?Q ?E _")
proof -
  let ?v = "view (w_lib w)" and ?M = "hp_live (w_heap w)"
  note r0 = reach_start [where ok = ok and w = w, OF okh]
  have db: "CreateSegments \<in> set (pragma_commands opt @ schema_commands index)" "index \<longrightarrow> CreateRecords \<in> set (pragma_commands opt @ schema_commands index)"
    by (simp_all add: schema_commands_def)
  let ?go = "\<lambda>rc db. if rc \<noteq> SQLITE_OK then finally_do (case db of None \<Rightarrow> id | Some h \<Rightarrow> close_db L h) (sqlerr L db ''sqlite open failed'')
      else (case db of None \<Rightarrow> (failr (UB ''a NULL connection'') :: ('d sqlite_world, ('d sqlite_env, 'u) vicarl_store) vm) | Some h \<Rightarrow> bindr (open_setup A L h opt index) (open_attach A L h opt index))"
  have "outcome (bindr (lib_call (sqlite3_open L p)) (\<lambda>(rc, db). ?go rc db)) ?Q ?E w"
  proof (rule outcome_bindr, rule outcome_lib_call, unfold split_paired_all prod.case)
    fix rc opened d assume run: "sqlite3_open L p (w_lib w) = ((rc, opened), d)"
    note law = open_law [OF run]
    show "outcome (?go rc opened) ?Q ?E (set_lib d w)"
    proof (cases opened)
      case None
      then have "rc \<noteq> SQLITE_OK" "\<not> healthy (w_lib w)" "view d = ?v" using law by auto
      moreover from this have "reach ok w ?M ?v (set_lib d w)" by (intro reach_lib [OF r0]) auto
      then have "reach ok w ?M (set_file p (fold create_in [] (vw_files ?v p)) ?v) (set_lib d w)" by simp
      then have "open_failed ok rel p w e (set_lib d w)" if "sql_error e" for e using that calculation(2) unfolding open_failed_def by blast
      ultimately show ?thesis using None by (auto simp: outcome_def finally_do_def sqlerr_def Let_def sql_error_def fail_with_def)
    next
      case (Some h)
      have v: "vw_conns ?v h = None" "idle h ?v" "view d = set_conn h (Some (p, None)) ?v" using law Some by (auto simp: idle_def)
      have r1: "reach ok w ?M (set_conn h (Some (p, None)) ?v) (set_lib d w)" by (rule reach_lib [OF r0 v(3)]) (use law in auto)
      show ?thesis
      proof (cases "rc = SQLITE_OK")
        case False
        then have nh: "\<not> healthy (w_lib w)" using law by auto
        have "vw_conns (set_conn h (Some (p, None)) ?v) h \<noteq> None" "idle h (set_conn h (Some (p, None)) ?v)" using v(2) by (simp_all add: idle_def)
        from close_db_reach [OF r1 this] have "reach ok w ?M (set_file p (fold create_in [] (vw_files ?v p)) ?v) (close_db L h (set_lib d w))"
          using set_conn_idem [OF v(1)] by simp
        then have "open_failed ok rel p w e (close_db L h (set_lib d w))" if "sql_error e" for e using that nh unfolding open_failed_def by blast
        with False Some show ?thesis by (simp add: outcome_def finally_do_def sqlerr_def Let_def sql_error_def fail_with_def)
      next
        case True
        have "outcome (bindr (open_setup A L h opt index) (open_attach A L h opt index)) ?Q ?E (set_lib d w)"
        proof (rule outcome_bindr, rule outcome_mono [OF open_setup_outcome [OF A refl v(1,2) refl r1]])
          fix sp w2
          assume "sp \<notin> ?M \<and> reach ok w (insert sp ?M) (set_file p (fold create_in (pragma_commands opt @ schema_commands index) (vw_files ?v p)) (set_conn h (Some (p, None)) ?v)) w2"
          then show "outcome (open_attach A L h opt index sp) ?Q ?E w2"
            by (elim conjE) (rule open_attach_outcome [OF A refl v(1,2) refl _ _ refl db segs])
        qed
        with True Some show ?thesis by simp
      qed
    qed
  qed
  with p show ?thesis unfolding vicarl_store_open_sqlite_def Let_def index by simp
qed

end

section \<open>Closing\<close>

lemma sqlite_inv_rows:
  assumes "sqlite_inv view p index ok w"
  shows "seg_table (vw_files (view (w_lib w)) p) = seg_rows (sqlite_chain view w) \<and> chain_ok (sqlite_chain view w)"
  using assms by (rule sqlite_invE) (simp add: sqlite_at_def chain_db_def seg_table_def)

context sqlite_library
begin

lemma sqlite_close_effect:
  assumes A: "alloc_rel A ok rel" and w: "sqlite_inv view p index ok w" "sq \<notin> sqlite_own w" "sq \<in> hp_live (w_heap w)"
    "se_impl (w_env w) = Some ss" "sq_db ss = Some h" and w': "w' = vicarl_store_close A (sqlite_handle A L sq opt) w"
  shows "view (w_lib w') = set_conn h None (view (w_lib w))" "healthy (w_lib w) \<Longrightarrow> healthy (w_lib w')" "se_impl (w_env w') = None"
    "heap_to ok (w_heap w) (hp_live (w_heap w) - insert sq (sqlite_own w)) (w_heap w')"
proof -
  let ?M = "hp_live (w_heap w)"
  obtain tx where at: "ok (w_heap w)" "sq_ptr ss \<in> ?M" "sqlite_at (view (w_lib w)) ss h p tx (sqlite_chain view w)"
    using w(1,4,5) by (auto elim!: sqlite_invE simp: sqlite_at_def)
  have own: "sqlite_own w = {sq_ptr ss}" using w(4) by (simp add: sqlite_own_def)
  have c: "vw_conns (view (w_lib w)) h \<noteq> None" "idle h (view (w_lib w))" using at(3) by (auto simp: sqlite_at_def)
  note r = close_db_reach [OF reach_start [where ok = ok and w = w, OF at(1)] c]
  have g1: "heap_to ok (w_heap w) (?M - {sq_ptr ss}) (vicarl__free A (Some (sq_ptr ss)) (w_heap w))"
    using free_step [OF A heap_to_refl [of ok "w_heap w"] at(2)] at(1) by simp
  have g2: "heap_to ok (w_heap w) (?M - {sq_ptr ss} - {sq}) (vicarl__free A (Some sq) (vicarl__free A (Some (sq_ptr ss)) (w_heap w)))"
    using free_step [OF A g1, of sq] w(2,3) own by simp
  have run: "w' = upd_heap (vicarl__free A (Some sq)) (set_sqlite None (upd_heap (vicarl__free A (Some (sq_ptr ss))) (close_db L h w)))"
    using w(4,5) by (simp add: w' vicarl_store_close_def sqlite_handle_def SQLITE_VT_def sqlite_close_def close_db_def)
  show "view (w_lib w') = set_conn h None (view (w_lib w))" "healthy (w_lib w) \<Longrightarrow> healthy (w_lib w')" "se_impl (w_env w') = None"
    using r by (simp_all add: run reach_def set_sqlite_def upd_heap_def w_lib_def)
  have "w_heap (close_db L h w) = w_heap w" by (simp add: close_db_def lib_do_def)
  moreover have "?M - {sq_ptr ss} - {sq} = ?M - insert sq (sqlite_own w)" using own by auto
  ultimately show "heap_to ok (w_heap w) (?M - insert sq (sqlite_own w)) (w_heap w')" using g2 by (simp add: run upd_heap_def set_sqlite_def)
qed

end

end
