(* ===== verification/Vicarl_SqliteQuery.thy ===== *)
theory Vicarl_SqliteQuery
  imports Vicarl_SqliteOpen
begin

text \<open>
  Queries of the SQLite store: the loop over the rows ends; iterating shows the segments in order; a record is found by its
  identifier; the text of a record query fits its buffer and the rows are the records that match the filter.
\<close>

section \<open>Going through the rows of a query\<close>

fun visit_rows :: "('a \<Rightarrow> ('u, unit) vm) \<Rightarrow> 'a list \<Rightarrow> ('u, unit) vm" where
  "visit_rows g [] = retr ()"
| "visit_rows g (r # rs) = bindr (g r) (\<lambda>_. visit_rows g rs)"

lemma visit_rows_map: "visit_rows g (map f xs) = visit_rows (\<lambda>x. g (f x)) xs"
  by (induction xs) simp_all

context sqlite_library
begin

text \<open>
  The loop ends: either the callback saw all rows, or stopped at an error of its own; or the library failed after the first rows.
  The statement is finalized in all cases.
\<close>

definition rows_done :: "(heap \<Rightarrow> bool) \<Rightarrow> 'd sqlite_world \<Rightarrow> addr set \<Rightarrow> dbh \<Rightarrow> sql_view \<Rightarrow> ('r \<Rightarrow> ('u, unit) vm) \<Rightarrow> 'r list \<Rightarrow> 'u \<Rightarrow>
    (unit res \<times> 'd sqlite_world \<times> 'u) option \<Rightarrow> bool" where
  "rows_done ok w0 M h v g rows u res \<longleftrightarrow> (\<exists>r w' u'. res = Some (r, w', u') \<and>
     (visit_rows g rows u = (r, u') \<and> reach ok w0 M v w' \<or>
      \<not> healthy (w_lib w0) \<and> (\<exists>e k. r = Inl e \<and> sql_error e \<and> visit_rows g (take k rows) u = (Inr (), u')) \<and>
        (\<exists>v'. tx_lost h v v' \<and> reach ok w0 M v' w')))"

lemma rows_done_Cons:
  assumes "g r u = (Inr x, u1)" "rows_done ok w0 M h v g rows u1 res"
  shows "rows_done ok w0 M h v g (r # rows) u res"
proof -
  obtain a w' u' where res: "res = Some (a, w', u')" and
    c: "visit_rows g rows u1 = (a, u') \<and> reach ok w0 M v w' \<or>
      \<not> healthy (w_lib w0) \<and> (\<exists>e k. a = Inl e \<and> sql_error e \<and> visit_rows g (take k rows) u1 = (Inr (), u')) \<and> (\<exists>v'. tx_lost h v v' \<and> reach ok w0 M v' w')"
    using assms(2) unfolding rows_done_def by blast
  have "visit_rows g (r # rows) u = visit_rows g rows u1" "\<And>k. visit_rows g (take (Suc k) (r # rows)) u = visit_rows g (take k rows) u1"
    using assms(1) by (simp_all add: bindr_def)
  with c res show ?thesis unfolding rows_done_def by metis
qed

lemma rows_loop_error:
  assumes step: "sqlite3_step L s (w_lib w) = (rc, d)" and rc: "rc \<notin> {SQLITE_ROW, SQLITE_DONE}" and e: "\<not> healthy (w_lib w0)" "tx_lost h v v'"
    "reach ok w0 M (set_stmt s (Some st) v') (set_lib d w)" and s: "vw_stmts v s = None"
  shows "rows_done ok w0 M h v g rows u (rows_loop L (Some h) s col bad what f (w, u))"
proof -
  have "\<exists>e'. rows_loop L (Some h) s col bad what f (w, u) = Some (Inl e', set_lib (sqlite3_finalize L s d) w, u) \<and> sql_error e'"
    using step rc by (subst rows_loop.simps) (auto simp: Let_def sqlerr_def sql_error_def fail_with_def)
  moreover have "vw_stmts v' s = None" using e(2) s by (auto simp: tx_lost_def)
  then have "reach ok w0 M v' (set_lib (sqlite3_finalize L s d) w)" using finalize_reach [OF e(3)] by simp
  moreover have "visit_rows g (take 0 rows) u = (Inr (), u)" by (simp add: retr_def)
  ultimately show ?thesis using e(1,2) unfolding rows_done_def by blast
qed

lemma rows_loop_end:
  assumes r: "reach ok w0 M (set_stmt s (Some st) v) w" and s: "vw_stmts v s = None" and c: "vw_conns v h = Some c"
    and st: "sm_db st = h" "sm_sql st \<notin> {InsertSegment, InsertRecord}"
      "case sm_run st of None \<Rightarrow> rows_determined (sm_sql st) (sm_args st) (current_db v c) \<and>
        [] = sql_rows (sm_sql st) (sm_args st) (current_db v c) | Some (x, rest) \<Rightarrow> [] = rest"
  shows "rows_done ok w0 M h v g [] u (rows_loop L (Some h) s col bad what f (w, u))"
proof -
  obtain rc d where step: "sqlite3_step L s (w_lib w) = (rc, d)" by (cases "sqlite3_step L s (w_lib w)")
  note sel = select_outcome [OF r c st, unfolded outcome_def lib_call_def step prod.case sum.case]
  show ?thesis
  proof (cases "rc = SQLITE_DONE")
    case True
    then obtain st' where "reach ok w0 M (set_stmt s (Some st') v) (set_lib d w)" using sel by auto
    from finalize_reach [OF this _ s] have "reach ok w0 M v (set_lib (sqlite3_finalize L s d) w)" by simp
    moreover have "rows_loop L (Some h) s col bad what f (w, u) = Some (Inr (), set_lib (sqlite3_finalize L s d) w, u)"
      using step True by (subst rows_loop.simps) (simp add: Let_def)
    moreover have "visit_rows g [] u = (Inr (), u)" by (simp add: retr_def)
    ultimately show ?thesis unfolding rows_done_def by blast
  next
    case False
    then obtain st' v' where e: "rc \<notin> {SQLITE_ROW, SQLITE_DONE}" "\<not> healthy (w_lib w0)" "tx_lost h v v'" "reach ok w0 M (set_stmt s (Some st') v') (set_lib d w)"
      using sel by auto
    show ?thesis by (rule rows_loop_error [OF step e s])
  qed
qed

lemma rows_loop_done:
  assumes "reach ok w0 M (set_stmt s (Some st) v) w" and s: "vw_stmts v s = None" and c: "vw_conns v h = Some c" and "sm_db st = h"
    and "sm_sql st \<notin> {InsertSegment, InsertRecord}"
    and "case sm_run st of None \<Rightarrow> rows_determined (sm_sql st) (sm_args st) (current_db v c) \<and>
        rows = sql_rows (sm_sql st) (sm_args st) (current_db v c) | Some (x, rest) \<Rightarrow> rows = rest"
    and hash: "\<And>r. r \<in> set rows \<Longrightarrow> col < length r \<and> (\<exists>b. r ! col = SqlBlob b \<and> length b = 32)"
    and visit: "\<And>r b d st rest. r \<in> set rows \<Longrightarrow> r ! col = SqlBlob b \<Longrightarrow> vw_stmts (view d) s = Some st \<Longrightarrow> sm_run st = Some (r, rest) \<Longrightarrow> f b d = g r"
  shows "rows_done ok w0 M h v g rows u (rows_loop L (Some h) s col bad what f (w, u))"
  using assms(1,4-8)
proof (induction rows arbitrary: st w u)
  case (Cons r rows)
  obtain rc d where step: "sqlite3_step L s (w_lib w) = (rc, d)" by (cases "sqlite3_step L s (w_lib w)")
  note sel = select_outcome [OF Cons.prems(1) c Cons.prems(2-4), unfolded outcome_def lib_call_def step prod.case sum.case]
  have fin: "reach ok w0 M v (set_lib (sqlite3_finalize L s d) w)" if "reach ok w0 M (set_stmt s (Some st') v) (set_lib d w)" for st'
    using finalize_reach [OF that _ s] by simp
  show ?case
  proof (cases "rc = SQLITE_ROW")
    case True
    let ?st = "st\<lparr>sm_run := Some (r, rows)\<rparr>"
    have r1: "reach ok w0 M (set_stmt s (Some ?st) v) (set_lib d w)" using sel True by auto
    obtain b where b: "col < length r" "r ! col = SqlBlob b" "length b = 32" using Cons.prems(5) [of r] by auto
    have st: "vw_stmts (view d) s = Some ?st" using reach_view [OF r1] by simp
    have f: "f b d = g r" using Cons.prems(6) [OF _ b(2) st] by simp
    have col: "sqlite3_column_blob L s col d = Some b" "sqlite3_column_bytes L s col d = 32"
      using column_blob_law [OF st, of r rows col b] b by auto
    have rd: "slice_read \<lparr>sl_ptr = Some b, sl_len = 32\<rparr> = Inr b" using b(3) by (simp add: slice_read_def)
    obtain a u1 where cb: "g r u = (a, u1)" by (cases "g r u")
    show ?thesis
    proof (cases a)
      case (Inl e)
      then have "rows_loop L (Some h) s col bad what f (w, u) = Some (Inl e, set_lib (sqlite3_finalize L s d) w, u1)"
        using step True col rd f cb by (subst rows_loop.simps) (simp add: Let_def)
      moreover have "visit_rows g (r # rows) u = (Inl e, u1)" using cb Inl by (simp add: bindr_def)
      ultimately show ?thesis using fin [OF r1] unfolding rows_done_def by blast
    next
      case (Inr x)
      then have "rows_loop L (Some h) s col bad what f (w, u) = rows_loop L (Some h) s col bad what f (set_lib d w, u1)"
        using step True col rd f cb by (subst rows_loop.simps) (simp add: Let_def)
      moreover have "rows_done ok w0 M h v g rows u1 (rows_loop L (Some h) s col bad what f (set_lib d w, u1))"
        by (rule Cons.IH [OF r1]) (use Cons.prems in auto)
      ultimately show ?thesis using rows_done_Cons [of g r u x u1] cb Inr by simp
    qed
  next
    case False
    then obtain st' v' where e: "rc \<notin> {SQLITE_ROW, SQLITE_DONE}" "\<not> healthy (w_lib w0)" "tx_lost h v v'" "reach ok w0 M (set_stmt s (Some st') v') (set_lib d w)"
      using sel by auto
    show ?thesis by (rule rows_loop_error [OF step e s])
  qed
qed (rule rows_loop_end [OF _ s c]; assumption)

end

section \<open>Iterating over the segments\<close>

lemma filter_suffix:
  assumes "length segs < 2 ^ 63" "i < 2 ^ 63" "0 < i"
  shows "filter (\<lambda>r. sql_le (SqlInt (of_nat i)) (SqlInt (sr_no r))) (seg_rows segs) = drop (i - 1) (seg_rows segs)"
  using assms(1)
proof (induction segs rule: rev_induct)
  case (snoc bs segs)
  have "sint (of_nat (Suc (length segs)) :: u64) = int (Suc (length segs))" "sint (of_nat i :: u64) = int i"
    using snoc.prems assms(2) by (intro sint_of_nat_u64; simp)+
  with snoc assms(3) show ?case by (simp add: seg_rows_snoc seg_row_at_def drop_append del: of_nat_Suc)
qed simp

lemma select_from_rows:
  assumes "seg_table db = seg_rows segs" "length segs < 2 ^ 63" "i < 2 ^ 63" "0 < i"
  shows "sql_rows SelectFrom ((\<lambda>_. SqlNull)(1 := SqlInt (of_nat i))) db =
    map (\<lambda>(no, bs). [SqlInt no, SqlBlob (sha256 bs)]) (zip (map (\<lambda>j. of_nat (Suc j)) [i - 1..<length segs]) (drop (i - 1) segs))"
proof -
  let ?k = "i - 1" and ?key = "\<lambda>r. sint (sr_no r)"
  have "sorted (map ?key (drop ?k (seg_rows segs)))"
    using seg_rows_sorted [OF assms(2)] by (simp add: drop_map [symmetric] sorted_wrt_drop)
  then have "sort_key ?key (filter (\<lambda>r. sql_le (SqlInt (of_nat i)) (SqlInt (sr_no r))) (seg_table db)) = drop ?k (seg_rows segs)"
    unfolding assms(1) filter_suffix [OF assms(2-4)] by (rule sort_key_id_if_sorted)
  then have "sql_rows SelectFrom ((\<lambda>_. SqlNull)(1 := SqlInt (of_nat i))) db = map (\<lambda>r. [SqlInt (sr_no r), sr_hash r]) (drop ?k (seg_rows segs))"
    by (simp del: sql_le.simps)
  also have "\<dots> = map (\<lambda>(no, bs). [SqlInt no, SqlBlob (sha256 bs)]) (zip (map (\<lambda>j. of_nat (Suc j)) [?k..<length segs]) (drop ?k segs))"
    by (rule nth_equalityI) (simp_all add: seg_rows_nth seg_row_at_def)
  finally show ?thesis .
qed

lemma visit_iter_spec:
  "visit_rows (\<lambda>(no, bs). cb no (sha256 bs)) (zip (map (\<lambda>j. of_nat (Suc j)) [k..<k + length xs]) xs) = iter_spec cb (of_nat (Suc k)) xs"
proof (induction xs arbitrary: k)
  case (Cons x xs)
  have "[k..<k + length (x # xs)] = k # [Suc k..<Suc k + length xs]" by (simp add: upt_conv_Cons del: upt_Suc)
  then show ?case using Cons.IH [of "Suc k"] by (simp add: add.commute)
qed simp

context sqlite_library
begin

text \<open>Preparing and binding, then the rows.\<close>

lemma then_rows_done:
  assumes m: "outcome m P (\<lambda>e w'. sql_error e \<and> \<not> healthy (w_lib w0) \<and> (\<exists>v'. tx_lost h v v' \<and> reach ok w0 M v' w')) w"
    and F: "\<And>s w'. P s w' \<Longrightarrow> rows_done ok w0 M h v g rows u (F s (w', u))"
  shows "rows_done ok w0 M h v g rows u (then_rows m F (w, u))"
proof -
  obtain r w1 where run: "m w = (r, w1)" by (cases "m w")
  show ?thesis
  proof (cases r)
    case (Inl e)
    have e: "sql_error e \<and> \<not> healthy (w_lib w0) \<and> (\<exists>v'. tx_lost h v v' \<and> reach ok w0 M v' w1)" using outcome_Inl [OF m] run Inl by blast
    moreover have "then_rows m F (w, u) = Some (Inl e, w1, u)" using run Inl by (simp add: then_rows_def)
    moreover have "visit_rows g (take 0 rows) u = (Inr (), u)" by (simp add: retr_def)
    ultimately show ?thesis unfolding rows_done_def by blast
  next
    case (Inr s)
    have "P s w1" using outcome_Inr [OF m] run Inr by blast
    with run Inr show ?thesis by (simp add: then_rows_def F)
  qed
qed

lemma prepare_int_outcome:
  assumes r: "reach ok w0 M v w" and c: "vw_conns v h = Some c" and ready: "sql_ready q (current_db v c)"
    and st: "st = \<lparr>sm_db = h, sm_sql = q, sm_args = (\<lambda>_. SqlNull)(1 := SqlInt x), sm_run = None\<rparr>"
  shows "outcome (bindr (prepare_or_fail L (Some h) (sql_text q) what) (\<lambda>s. bindr (lib_do (sqlite3_bind_int64 L s 1 x)) (\<lambda>_. retr s)))
    (\<lambda>s w'. vw_stmts v s = None \<and> reach ok w0 M (set_stmt s (Some st) v) w')
    (\<lambda>e w'. sql_error e \<and> \<not> healthy (w_lib w0) \<and> (\<exists>v'. tx_lost h v v' \<and> reach ok w0 M v' w')) w"
    (is "outcome _ ?Q ?E _")
proof (rule outcome_bindr, rule outcome_mono [OF prepare_or_fail_outcome [OF r c refl]])
  fix s w1 assume 1: "sql_ready q (current_db v c) \<and> vw_stmts v s = None \<and> reach ok w0 M (set_stmt s (Some (fresh_stmt h q)) v) w1"
  have b1: "bound ok w0 M v s (fresh_stmt h q) (\<lambda>_. SqlNull) w1" using 1 by (intro boundI) simp_all
  show "outcome (bindr (lib_do (sqlite3_bind_int64 L s 1 x)) (\<lambda>_. retr s)) ?Q ?E w1"
  proof (rule outcome_bindr, rule outcome_mono [OF bound_int64 [OF b1]])
    fix y :: unit and w2 assume "bound ok w0 M v s (fresh_stmt h q) ((\<lambda>_. SqlNull)(1 := SqlInt x)) w2"
    then have "reach ok w0 M (set_stmt s (Some ((fresh_stmt h q)\<lparr>sm_args := (\<lambda>_. SqlNull)(1 := SqlInt x)\<rparr>)) v) w2" by (rule bound_ints) simp
    with 1 have "?Q s w2" by (simp add: st)
    then show "outcome (retr s) ?Q ?E w2" unfolding outcome_def retr_def prod.case sum.case .
  qed simp_all
qed (use ready in blast)

lemma rows_done_map: "rows_done ok w0 M h v g (map f xs) u res = rows_done ok w0 M h v (\<lambda>x. g (f x)) xs u res"
  unfolding rows_done_def take_map visit_rows_map ..

lemma iter_rows_done:
  assumes s: "vw_stmts v s = None" and r: "reach ok w0 M (set_stmt s (Some st) v) w" and c: "vw_conns v h = Some c"
    and st: "st = \<lparr>sm_db = h, sm_sql = SelectFrom, sm_args = args, sm_run = None\<rparr>"
    and rows: "sql_rows SelectFrom args (current_db v c) = map (\<lambda>(no, bs). [SqlInt no, SqlBlob (sha256 bs)]) xs"
  shows "rows_done ok w0 M h v (\<lambda>(no, bs). cb no (sha256 bs)) xs u
    (rows_loop L (Some h) s 1 bad what (\<lambda>hs d. cb (sqlite3_column_int64 L s 0 d) hs) (w, u))"
proof -
  let ?row = "\<lambda>(no, bs). [SqlInt no, SqlBlob (sha256 bs)]" and ?g = "\<lambda>r. cb (case r ! 0 of SqlInt no \<Rightarrow> no | _ \<Rightarrow> 0) (blob_bytes (r ! 1))"
  have "rows_done ok w0 M h v ?g (map ?row xs) u (rows_loop L (Some h) s 1 bad what (\<lambda>hs d. cb (sqlite3_column_int64 L s 0 d) hs) (w, u))"
  proof (rule rows_loop_done [where st = st and rows = "map ?row xs" and g = ?g, OF r s c])
    show "case sm_run st of None \<Rightarrow> rows_determined (sm_sql st) (sm_args st) (current_db v c) \<and>
        map ?row xs = sql_rows (sm_sql st) (sm_args st) (current_db v c) | Some (x, rest) \<Rightarrow> map ?row xs = rest"
      using rows by (simp add: st del: sql_rows.simps)
    fix r b d st rest assume "r \<in> set (map ?row xs)" "r ! 1 = SqlBlob b" "vw_stmts (view d) s = Some st" "sm_run st = Some (r, rest)"
    moreover from this(1) obtain no bs where r: "r = [SqlInt no, SqlBlob (sha256 bs)]" by auto
    ultimately show "cb (sqlite3_column_int64 L s 0 d) b = ?g r" using column_int64_law [of d s st r rest 0 no] by simp
  qed (auto simp: st)
  moreover have "(\<lambda>x. ?g (?row x)) = (\<lambda>(no, bs). cb no (sha256 bs))" by (auto simp: fun_eq_iff)
  ultimately show ?thesis unfolding rows_done_map by (simp only:)
qed

lemma iter_segments_done:
  assumes at: "ok (w_heap w)" "se_impl (w_env w) = Some ss" "sqlite_at (view (w_lib w)) ss h p None segs" and len: "length segs < 2 ^ 63" "i < 2 ^ 63"
  shows "rows_done ok w (hp_live (w_heap w)) h (view (w_lib w)) (\<lambda>(no, bs). cb no (sha256 bs))
      (zip (map (\<lambda>j. of_nat (Suc j)) [i - 1..<length segs]) (drop (i - 1) segs)) u (sqlite_iter_segments L (of_nat i) (Some cb) (w, u))"
proof -
  let ?v = "view (w_lib w)" and ?i = "max 1 i" and ?xs = "zip (map (\<lambda>j. of_nat (Suc j)) [i - 1..<length segs]) (drop (i - 1) segs)"
  have c: "vw_conns ?v h = Some (p, None)" "sq_db ss = Some h" and seg: "db_segments (current_db ?v (p, None)) = Some (seg_rows segs)"
    using at(3) by (simp_all add: sqlite_at_def chain_db_def current_db_def)
  have "sql_ready SelectFrom (current_db ?v (p, None))" using seg by simp
  note m = prepare_int_outcome [OF reach_start [where ok = ok and w = w, OF at(1)] c(1) this refl, where x = "of_nat ?i"]
  have rows: "sql_rows SelectFrom ((\<lambda>_. SqlNull)(1 := SqlInt (of_nat ?i))) (current_db ?v (p, None)) = map (\<lambda>(no, bs). [SqlInt no, SqlBlob (sha256 bs)]) ?xs"
    using select_from_rows [OF _ len(1), of "current_db ?v (p, None)" ?i] len(2) seg by (cases "i = 0") (simp_all add: seg_table_def max_def)
  have "rows_done ok w (hp_live (w_heap w)) h ?v (\<lambda>(no, bs). cb no (sha256 bs)) ?xs u
      (then_rows (bindr (prepare_or_fail L (Some h) (sql_text SelectFrom) ''prepare iter_segments'') (\<lambda>st.
          bindr (lib_do (sqlite3_bind_int64 L st 1 (of_nat ?i))) (\<lambda>_. retr st)))
        (\<lambda>st. rows_loop L (Some h) st 1 ''sqlite_iter_segments: invalid hash length'' ''step iter_segments''
          (\<lambda>hs d. cb (sqlite3_column_int64 L st 0 d) hs)) (w, u))"
    by (rule then_rows_done [OF m], elim conjE, rule iter_rows_done [OF _ _ c(1) refl rows])
  moreover have "(if of_nat i = (0 :: u64) then 1 else of_nat i) = (of_nat ?i :: u64)"
    using sint_of_nat_u64 [OF len(2)] by (cases "i = 0") (auto simp: max_def)
  ultimately show ?thesis unfolding sqlite_iter_segments_def option.case fst_conv at(2) Let_def c(2) by simp
qed

end

section \<open>Looking up a record\<close>

definition chain_records :: "bytes list \<Rightarrow> bytes list" where
  "chain_records segs = concat (map seg_records_of segs)"

lemma seg_record_length:
  assumes "r \<in> set (seg_records_of bs)" "length bs < size_mod"
  shows "length r \<le> length bs"
proof -
  obtain hdr rs hs sig where spec: "segment_spec bs = Inr (hdr, rs, hs, sig)" and r: "r \<in> slice_bytes ` set rs"
    using assms(1) by (cases "segment_spec bs") (auto simp: seg_records_of_def)
  with segment_spec_records [OF spec assms(2)] slice_wf_length show ?thesis by fastforce
qed

lemma chain_record_length: "chain_ok segs \<Longrightarrow> r \<in> set (chain_records segs) \<Longrightarrow> length r < size_mod"
proof -
  assume c: "chain_ok segs" and "r \<in> set (chain_records segs)"
  then obtain bs where bs: "bs \<in> set segs" "r \<in> set (seg_records_of bs)" by (auto simp: chain_records_def)
  have "length bs < size_mod" using c bs(1) by (auto simp: chain_ok_def seg_limit_def size_mod_def)
  with seg_record_length [OF bs(2)] show "length r < size_mod" by linarith
qed

lemma seg_index_map:
  assumes "\<And>i r. f (record_row no i r) = g r"
  shows "map f (seg_index no bs) = map g (seg_records_of bs)"
  by (rule nth_equalityI) (simp_all add: seg_index_def assms)

lemma select_record_rows:
  assumes "rec_table db = chain_index segs"
  shows "sql_rows SelectRecord arg db = map (\<lambda>r. [SqlBlob r]) (filter (\<lambda>r. arg 1 = SqlBlob (sha256 r)) (chain_records segs))"
proof -
  have "map (\<lambda>r. [rr_bytes r]) (filter (\<lambda>r. sql_eq (rr_id r) x) (chain_index segs)) =
      map (\<lambda>r. [SqlBlob r]) (filter (\<lambda>r. x = SqlBlob (sha256 r)) (chain_records segs))" for x
  proof (induction segs rule: rev_induct)
    case (snoc bs segs)
    have "map (\<lambda>r. (rr_id r, [rr_bytes r])) (seg_index no bs) = map (\<lambda>r. (SqlBlob (sha256 r), [SqlBlob r])) (seg_records_of bs)" for no
      by (rule seg_index_map) (simp add: record_row_def Let_def)
    then have "map snd (filter (\<lambda>y. sql_eq (fst y) x) (map (\<lambda>r. (rr_id r, [rr_bytes r])) (seg_index no bs))) =
        map snd (filter (\<lambda>y. sql_eq (fst y) x) (map (\<lambda>r. (SqlBlob (sha256 r), [SqlBlob r])) (seg_records_of bs)))" for no by (simp only:)
    then have "map (\<lambda>r. [rr_bytes r]) (filter (\<lambda>r. sql_eq (rr_id r) x) (seg_index no bs)) =
        map (\<lambda>r. [SqlBlob r]) (filter (\<lambda>r. x = SqlBlob (sha256 r)) (seg_records_of bs))" for no
      by (simp add: filter_map o_def sql_eq_def eq_commute)
    with snoc show ?case by (simp add: chain_index_snoc chain_records_def)
  qed (simp add: chain_records_def)
  with assms show ?thesis by simp
qed

context sqlite_library
begin

lemma get_record_outcome:
  assumes A: "alloc_rel A ok rel" and at: "ok (w_heap w)" "se_impl (w_env w) = Some ss" "sqlite_at (view (w_lib w)) ss h p None segs"
    and rec: "record_index_enabled ss" "db_records (vw_files (view (w_lib w)) p) = Some (chain_index segs)" and rid: "length rid = 32" "32 \<le> max_len"
  shows "outcome (sqlite_get_record A L (Some rid) True)
    (\<lambda>b w'. (\<exists>r \<in> set (chain_records segs). sha256 r = rid \<and> holds_bytes b r) \<and> own_bytes b \<inter> hp_live (w_heap w) = {} \<and>
       reach ok w (hp_live (w_heap w) \<union> own_bytes b) (view (w_lib w)) w')
    (\<lambda>e w'. (e = VErr VICARL_ERR_NOT_FOUND None \<and> (healthy (w_lib w) \<longrightarrow> rid \<notin> sha256 ` set (chain_records segs)) \<or>
         (sql_error e \<or> e = err_oom) \<and> \<not> (rel \<and> healthy (w_lib w))) \<and> reach ok w (hp_live (w_heap w)) (view (w_lib w)) w') w"
    (is "outcome _ ?Q ?E _")
proof -
  let ?v = "view (w_lib w)" and ?M = "hp_live (w_heap w)" and ?st = "fresh_stmt h SelectRecord"
  have c: "vw_conns ?v h = Some (p, None)" "sq_db ss = Some h" "chain_ok segs" using at(3) by (simp_all add: sqlite_at_def chain_db_def)
  have cur: "current_db ?v (p, None) = vw_files ?v p" by (simp add: current_db_def)
  let ?tail = "\<lambda>st. bindr (lib_call (sqlite3_step L st)) (\<lambda>rc.
      if rc = SQLITE_ROW then
        bindr (lib_get (sqlite3_column_blob L st 0)) (\<lambda>b. bindr (lib_get (sqlite3_column_bytes L st 0)) (\<lambda>n. copy_column A L st b n))
      else bindr (lib_do (sqlite3_finalize L st)) (\<lambda>_.
        if rc = SQLITE_DONE then failr (VErr VICARL_ERR_NOT_FOUND None) else sqlerr L (Some h) ''step get_record''))"
  have tail: "outcome (?tail s) ?Q ?E w2" if s: "vw_stmts ?v s = None" and b: "bound ok w ?M ?v s ?st ((\<lambda>_. SqlNull)(1 := SqlBlob rid)) w2" for s w2
  proof -
    obtain arg where arg: "binds (healthy (w_lib w)) max_len arg ((\<lambda>_. SqlNull)(1 := SqlBlob rid))" and r: "reach ok w ?M (set_stmt s (Some (?st\<lparr>sm_args := arg\<rparr>)) ?v) w2"
      using b by (auto simp: bound_def)
    let ?found = "filter (\<lambda>r. arg 1 = SqlBlob (sha256 r)) (chain_records segs)"
    let ?bs = "hd ?found"
    have arg1: "arg 1 = SqlBlob rid \<or> arg 1 = SqlNull \<and> \<not> healthy (w_lib w)" using binds_at [OF arg, of 1] rid by auto
    have rows: "sql_rows SelectRecord arg (vw_files ?v p) = map (\<lambda>r. [SqlBlob r]) ?found" by (rule select_record_rows) (use rec(2) in \<open>simp add: rec_table_def\<close>)
    have len: "length ?bs < size_mod" if "?found \<noteq> []" using chain_record_length [OF c(3)] hd_in_set [OF that] by auto
    let ?b = "if ?found = [] then [] else ?bs"
    have found: "map (\<lambda>r. [SqlBlob r]) ?found = [] \<or> map (\<lambda>r. [SqlBlob r]) ?found = [SqlBlob ?b] # map (\<lambda>r. [SqlBlob r]) (tl ?found)"
      by (cases ?found) simp_all
    have "outcome (?tail s)
      (\<lambda>b w'. map (\<lambda>r. [SqlBlob r]) ?found \<noteq> [] \<and> holds_bytes b ?b \<and> own_bytes b \<inter> ?M = {} \<and> reach ok w (?M \<union> own_bytes b) ?v w')
      (\<lambda>e w'. e = VErr VICARL_ERR_NOT_FOUND None \<and> map (\<lambda>r. [SqlBlob r]) ?found = [] \<and> reach ok w ?M ?v w' \<or>
       (sql_error e \<or> e = err_oom) \<and> \<not> (rel \<and> healthy (w_lib w)) \<and> (\<exists>v'. tx_lost h ?v v' \<and> reach ok w ?M v' w')) w2"
      by (rule fetch_outcome [OF A r s c(1) _ _ _ _ _ found]) (use rows cur len in \<open>simp_all add: size_mod_def del: sql_rows.simps\<close>)
    then show ?thesis
    proof (rule outcome_mono)
      fix b w' assume 1: "map (\<lambda>r. [SqlBlob r]) ?found \<noteq> [] \<and> holds_bytes b ?b \<and> own_bytes b \<inter> ?M = {} \<and> reach ok w (?M \<union> own_bytes b) ?v w'"
      then have "?found \<noteq> []" by simp
      from hd_in_set [OF this] have "?bs \<in> set (chain_records segs)" "sha256 ?bs = rid" using arg1 by auto
      with 1 show "?Q b w'" using \<open>?found \<noteq> []\<close> by auto
    next
      fix e w' assume "e = VErr VICARL_ERR_NOT_FOUND None \<and> map (\<lambda>r. [SqlBlob r]) ?found = [] \<and> reach ok w ?M ?v w' \<or>
       (sql_error e \<or> e = err_oom) \<and> \<not> (rel \<and> healthy (w_lib w)) \<and> (\<exists>v'. tx_lost h ?v v' \<and> reach ok w ?M v' w')"
      then show "?E e w'" using arg1 no_tx_lost [OF c(1)] by (auto simp: filter_empty_conv)
    qed
  qed
  have "outcome (bindr (prepare_or_fail L (Some h) (sql_text SelectRecord) ''prepare get_record'') (\<lambda>st. bindr (bind_blob L st 1 (slice_of rid)) (\<lambda>_. ?tail st))) ?Q ?E w"
  proof (rule outcome_bindr, rule outcome_mono [OF prepare_or_fail_outcome [OF reach_start [where ok = ok and w = w, OF at(1)] c(1) refl]])
    fix s w1 assume 1: "sql_ready SelectRecord (current_db ?v (p, None)) \<and> vw_stmts ?v s = None \<and> reach ok w ?M (set_stmt s (Some ?st) ?v) w1"
    have b1: "bound ok w ?M ?v s ?st (\<lambda>_. SqlNull) w1" using 1 by (intro boundI) simp_all
    show "outcome (bindr (bind_blob L s 1 (slice_of rid)) (\<lambda>_. ?tail s)) ?Q ?E w1"
    proof (rule outcome_bindr, rule outcome_mono [OF bound_blob [OF b1]])
      fix x :: unit and w2 assume "bound ok w ?M ?v s ?st ((\<lambda>_. SqlNull)(1 := blob_value (slice_of rid))) w2"
      with 1 tail show "outcome (?tail s) ?Q ?E w2" by simp
    qed (use rid in \<open>simp_all add: size_mod_def\<close>)
  next
    fix e w1 assume "sql_error e \<and> \<not> (healthy (w_lib w) \<and> sql_ready SelectRecord (current_db ?v (p, None))) \<and> (\<exists>v'. tx_lost h ?v v' \<and> reach ok w ?M v' w1)"
    then show "?E e w1" using rec(2) no_tx_lost [OF c(1)] by (auto simp: cur)
  qed
  then show ?thesis using rec(1) unfolding outcome_def sqlite_get_record_def option.case at(2) c(2) by simp
qed

end

section \<open>The text of a query\<close>

definition query_of :: "vicarl_record_filter option \<Rightarrow> sql" where
  "query_of flt =
     (case flt of
        None \<Rightarrow> SelectRecords False False False False False False
      | Some x \<Rightarrow> SelectRecords (filter_has_text (flt_namespace x)) (filter_has_text (flt_schema x)) (\<not> hash_is_zero32 (flt_author x))
          (time_from_ms x \<noteq> 0) (time_to_ms x \<noteq> 0) (flt_limit x \<noteq> 0))"

lemma strcat512_Inr: "length buf + length s < 512 \<Longrightarrow> strcat512 buf s = Inr (buf @ s)"
  by (simp add: strcat512_def)

lemma add_clause_Inr:
  "length buf + length c < 508 \<Longrightarrow>
     add_clause b c (Inr (buf, first)) = Inr (if b then (buf @ (if first then c else ''AND '' @ c), False) else (buf, first))"
  by (simp add: add_clause_def strcat512_Inr)

lemma conds_text_step:
  "conds_text (cs @ [(b, c)]) =
     conds_text cs @ (if b then (if filter fst cs = [] then ''WHERE '' else ''AND '') @ c else '''')"
  by (cases "filter fst cs") (simp_all add: conds_text_def)

lemma conds_text_Nil: "filter fst cs = [] \<Longrightarrow> conds_text cs = ''''"
  by (simp add: conds_text_def)

text \<open>One more condition: the buffer has the conditions so far, and \<^verbatim>\<open>first\<close> tells whether there is one.\<close>

definition clause_buf :: "bool \<Rightarrow> string \<Rightarrow> (bool \<times> string) list \<Rightarrow> (string \<times> bool) res" where
  "clause_buf any base cs =
     Inr (base @ (if filter fst cs = [] \<and> any then ''WHERE '' else '''') @ conds_text cs, filter fst cs = [])"

lemma add_clause_buf:
  assumes "length base + 6 + length (conds_text cs) + length c < 508" "b \<longrightarrow> any"
  shows "add_clause b c (clause_buf any base cs) = clause_buf any base (cs @ [(b, c)])"
proof (cases "filter fst cs = []")
  case True
  with assms conds_text_Nil [OF True] show ?thesis by (cases b) (simp_all add: clause_buf_def add_clause_Inr conds_text_step)
next
  case False
  with assms show ?thesis by (cases b) (simp_all add: clause_buf_def add_clause_Inr conds_text_step)
qed

lemma conds_text_length: "length (conds_text cs) \<le> 6 + sum_list (map (\<lambda>(b, c). 4 + length c) cs)"
proof (induction cs rule: rev_induct)
  case (snoc x cs)
  then show ?case by (cases x) (simp add: conds_text_step, simp add: conds_text_def)
qed (simp add: conds_text_def)

lemma query_clauses_text:
  assumes "length base \<le> 100"
  shows "query_clauses flt base = Inr (base @ conds_text
      [(filter_has_text (flt_namespace flt), ''namespace = ?1 ''), (filter_has_text (flt_schema flt), ''schema = ?2 ''),
       (\<not> hash_is_zero32 (flt_author flt), ''author = ?3 ''), (time_from_ms flt \<noteq> 0, ''timestamp_ms >= ?4 ''), (time_to_ms flt \<noteq> 0, ''timestamp_ms <= ?5 '')],
      \<not> (filter_has_text (flt_namespace flt) \<or> filter_has_text (flt_schema flt) \<or> \<not> hash_is_zero32 (flt_author flt) \<or> time_from_ms flt \<noteq> 0 \<or> time_to_ms flt \<noteq> 0))"
proof -
  define n s a f t where nsaft: "n = filter_has_text (flt_namespace flt)" "s = filter_has_text (flt_schema flt)" "a = (\<not> hash_is_zero32 (flt_author flt))"
    "f = (time_from_ms flt \<noteq> 0)" "t = (time_to_ms flt \<noteq> 0)"
  define any where "any = (n \<or> s \<or> a \<or> f \<or> t)"
  have start: "(case if any then strcat512 base ''WHERE '' else Inr base of Inl e \<Rightarrow> Inl e | Inr buf \<Rightarrow> Inr (buf, True)) = clause_buf any base []"
    using assms by (simp add: strcat512_Inr clause_buf_def conds_text_def)
  have l: "length (conds_text cs) \<le> 6 + sum_list (map (\<lambda>(b, c). 4 + length c) cs)" for cs by (rule conds_text_length)
  have "query_clauses flt base = clause_buf any base [(n, ''namespace = ?1 ''), (s, ''schema = ?2 ''), (a, ''author = ?3 ''), (f, ''timestamp_ms >= ?4 ''), (t, ''timestamp_ms <= ?5 '')]"
    unfolding query_clauses_def Let_def nsaft(1-5) [symmetric] any_def [symmetric] start
    using assms l [of "[]"] l [of "[(n, ''namespace = ?1 '')]"] l [of "[(n, ''namespace = ?1 ''), (s, ''schema = ?2 '')]"]
      l [of "[(n, ''namespace = ?1 ''), (s, ''schema = ?2 ''), (a, ''author = ?3 '')]"]
      l [of "[(n, ''namespace = ?1 ''), (s, ''schema = ?2 ''), (a, ''author = ?3 ''), (f, ''timestamp_ms >= ?4 '')]"]
    by (simp add: add_clause_buf any_def)
  moreover have "filter fst [(n, ''namespace = ?1 ''), (s, ''schema = ?2 ''), (a, ''author = ?3 ''), (f, ''timestamp_ms >= ?4 ''), (t, ''timestamp_ms <= ?5 '')] = [] \<longleftrightarrow> \<not> any"
    by (auto simp: any_def)
  then have "clause_buf any base [(n, ''namespace = ?1 ''), (s, ''schema = ?2 ''), (a, ''author = ?3 ''), (f, ''timestamp_ms >= ?4 ''), (t, ''timestamp_ms <= ?5 '')] =
      Inr (base @ conds_text [(n, ''namespace = ?1 ''), (s, ''schema = ?2 ''), (a, ''author = ?3 ''), (f, ''timestamp_ms >= ?4 ''), (t, ''timestamp_ms <= ?5 '')], \<not> any)"
    unfolding clause_buf_def by (cases any) (simp_all only: simp_thms if_True if_False append_Nil)
  ultimately show ?thesis by (simp only: nsaft any_def)
qed

lemma build_query_text: "build_query flt = Inr (sql_text (query_of flt))"
proof -
  let ?base = "''SELECT record_id, segment_no, idx_in_segment FROM records ''"
  have base: "strcat512 '''' ?base = Inr ?base" "length ?base \<le> 100" by (simp_all add: strcat512_Inr)
  show ?thesis
  proof (cases flt)
    case None
    then show ?thesis by (simp add: build_query_def query_of_def query_limit_def strcat512_def sql_text.simps conds_text_def)
  next
    case (Some x)
    let ?cs = "[(filter_has_text (flt_namespace x), ''namespace = ?1 ''), (filter_has_text (flt_schema x), ''schema = ?2 ''),
       (\<not> hash_is_zero32 (flt_author x), ''author = ?3 ''), (time_from_ms x \<noteq> 0, ''timestamp_ms >= ?4 ''), (time_to_ms x \<noteq> 0, ''timestamp_ms <= ?5 '')]"
    have len: "length (conds_text ?cs) \<le> 120" using conds_text_length [of ?cs] by simp
    have lim: "query_limit flt > 0 \<longleftrightarrow> flt_limit x \<noteq> 0" using Some by (simp add: query_limit_def word_gt_0)
    have fits: "strcat512 (?base @ conds_text ?cs) ''ORDER BY segment_no ASC, idx_in_segment ASC '' = Inr (?base @ conds_text ?cs @ ''ORDER BY segment_no ASC, idx_in_segment ASC '')"
      "strcat512 (?base @ conds_text ?cs @ ''ORDER BY segment_no ASC, idx_in_segment ASC '') (if flt_limit x \<noteq> 0 then ''LIMIT ?6;'' else '';'') =
        Inr (?base @ conds_text ?cs @ ''ORDER BY segment_no ASC, idx_in_segment ASC '' @ (if flt_limit x \<noteq> 0 then ''LIMIT ?6;'' else '';''))"
      using len by (simp_all add: strcat512_Inr)
    show ?thesis
      unfolding build_query_def base(1) sum.case Some option.case query_clauses_text [OF base(2)] prod.case lim [unfolded Some] fits query_of_def sql_text.simps ..
  qed
qed

section \<open>The rows of a query\<close>

text \<open>The records of a chain with their segment and place, and when a record matches a filter.\<close>

definition seg_refs :: "nat \<Rightarrow> bytes \<Rightarrow> (nat \<times> nat \<times> bytes) list" where
  "seg_refs no bs = map (\<lambda>j. (no, j, seg_records_of bs ! j)) [0..<length (seg_records_of bs)]"

definition chain_refs :: "bytes list \<Rightarrow> (nat \<times> nat \<times> bytes) list" where
  "chain_refs segs = concat (map (\<lambda>i. seg_refs (Suc i) (segs ! i)) [0..<length segs])"

definition meta_of :: "bytes \<Rightarrow> vicarl_record_meta" where
  "meta_of r = fst (projr (record_spec r))"

definition record_matches :: "vicarl_record_filter option \<Rightarrow> bytes \<Rightarrow> bool" where
  "record_matches flt r =
     (case flt of
        None \<Rightarrow> True
      | Some x \<Rightarrow>
          (filter_has_text (flt_namespace x) \<longrightarrow> slice_bytes (namespace_utf8 (meta_of r)) = slice_bytes (flt_namespace x)) \<and>
          (filter_has_text (flt_schema x) \<longrightarrow> slice_bytes (schema_utf8 (meta_of r)) = slice_bytes (flt_schema x)) \<and>
          (\<not> hash_is_zero32 (flt_author x) \<longrightarrow> author (meta_of r) = flt_author x) \<and>
          (time_from_ms x \<noteq> 0 \<longrightarrow> time_from_ms x \<le> timestamp_ms (meta_of r)) \<and>
          (time_to_ms x \<noteq> 0 \<longrightarrow> timestamp_ms (meta_of r) \<le> time_to_ms x))"

definition query_spec :: "vicarl_record_filter option \<Rightarrow> bytes list \<Rightarrow> (nat \<times> nat \<times> bytes) list" where
  "query_spec flt segs =
     (let found = filter (\<lambda>(no, j, r). record_matches flt r) (chain_refs segs) in
      if query_limit flt \<noteq> 0 then take (unat (query_limit flt)) found else found)"

lemma chain_refs_snoc: "chain_refs (segs @ [bs]) = chain_refs segs @ seg_refs (Suc (length segs)) bs"
  by (auto simp: chain_refs_def nth_append intro!: arg_cong [where f = concat])

lemma chain_refs_Nil [simp]: "chain_refs [] = []"
  by (simp add: chain_refs_def)

lemma chain_index_refs: "chain_index segs = map (\<lambda>(no, j, r). record_row (of_nat no) j r) (chain_refs segs)"
  by (induction segs rule: rev_induct) (simp_all add: chain_index_snoc chain_refs_snoc seg_index_def seg_refs_def)

lemma chain_refs_record: "map (\<lambda>(no, j, r). r) (chain_refs segs) = chain_records segs"
  by (induction segs rule: rev_induct) (simp_all add: chain_refs_snoc seg_refs_def chain_records_def o_def, simp add: map_nth)

lemma chain_refs_bounds:
  assumes "chain_ok segs" "(no, j, r) \<in> set (chain_refs segs)"
  shows "0 < no \<and> no \<le> length segs \<and> j < 2 ^ 59 \<and> r \<in> set (chain_records segs)"
proof -
  obtain i where i: "i < length segs" "(no, j, r) \<in> set (seg_refs (Suc i) (segs ! i))" using assms(2) by (auto simp: chain_refs_def)
  have bs: "length (segs ! i) < seg_limit" using assms(1) i(1) by (auto simp: chain_ok_def)
  have "length (seg_records_of (segs ! i)) \<le> length (segs ! i)"
  proof (cases "segment_spec (segs ! i)")
    case (Inr x)
    then obtain hdr rs hs sig where x: "segment_spec (segs ! i) = Inr (hdr, rs, hs, sig)" by (cases x) auto
    then show ?thesis using segment_spec_records [OF x] bs by (simp add: seg_records_of_def seg_limit_def size_mod_def)
  qed (simp add: seg_records_of_def)
  moreover have "r \<in> set (chain_records segs)"
  proof -
    have "r \<in> (\<lambda>(no, j, r). r) ` set (chain_refs segs)" using assms(2) by force
    then show ?thesis unfolding chain_refs_record [symmetric] by simp
  qed
  ultimately show ?thesis using i bs by (auto simp: seg_refs_def seg_limit_def)
qed

lemma chain_refs_sorted: "sorted_wrt (<) (map (\<lambda>(no, j, r). (int no, int j)) (chain_refs segs))"
proof (induction segs rule: rev_induct)
  case (snoc bs segs)
  have "map (\<lambda>(no, j, r). (int no, int j)) (seg_refs no bs) = map (\<lambda>j. (int no, int j)) [0..<length (seg_records_of bs)]" for no
    by (simp add: seg_refs_def)
  then have "sorted_wrt (<) (map (\<lambda>(no, j, r). (int no, int j)) (seg_refs no bs))" for no
    by (simp add: sorted_wrt_map sorted_wrt_iff_nth_less)
  moreover have "no \<le> length segs" if "(no, j, r) \<in> set (chain_refs segs)" for no j r
    using that by (auto simp: chain_refs_def seg_refs_def)
  ultimately show ?case using snoc by (fastforce simp: chain_refs_snoc sorted_wrt_append seg_refs_def)
qed simp

lemma row_key_of:
  assumes "chain_ok segs" "length segs < 2 ^ 63" "(no, j, r) \<in> set (chain_refs segs)"
  shows "row_key (record_row (of_nat no) j r) = (int no, int j)"
  using chain_refs_bounds [OF assms(1,3)] assms(2) by (simp add: row_key_def record_row_def Let_def sint_of_nat_u64)

lemma chain_index_sorted:
  assumes "chain_ok segs" "length segs < 2 ^ 63"
  shows "sorted (map row_key (chain_index segs)) \<and> distinct (map row_key (chain_index segs))"
proof -
  have "map row_key (chain_index segs) = map (\<lambda>(no, j, r). (int no, int j)) (chain_refs segs)"
    unfolding chain_index_refs map_map by (rule map_cong) (use row_key_of [OF assms] in auto)
  with chain_refs_sorted [of segs] show ?thesis by (simp add: strict_sorted_iff)
qed

definition filter_args :: "vicarl_record_filter option \<Rightarrow> nat \<Rightarrow> sql_value" where
  "filter_args flt =
     (case flt of
        None \<Rightarrow> (\<lambda>_. SqlNull)
      | Some x \<Rightarrow> (\<lambda>_. SqlNull)(
          1 := if filter_has_text (flt_namespace x) then text_value (flt_namespace x) else SqlNull,
          2 := if filter_has_text (flt_schema x) then text_value (flt_schema x) else SqlNull,
          3 := if \<not> hash_is_zero32 (flt_author x) then SqlBlob (flt_author x) else SqlNull,
          4 := if time_from_ms x \<noteq> 0 then SqlInt (time_from_ms x) else SqlNull,
          5 := if time_to_ms x \<noteq> 0 then SqlInt (time_to_ms x) else SqlNull,
          6 := if query_limit flt > 0 then SqlInt (ucast (query_limit flt)) else SqlNull))"

text \<open>
  What a query relies on: the records of the chain decode; texts have no NUL byte; times are below \<open>2 ^ 63\<close>, where the
  signed comparison of the database agrees with the unsigned one; the texts of the filter are readable and not too long.
\<close>

definition query_record_ok :: "bytes \<Rightarrow> bool" where
  "query_record_ok r \<longleftrightarrow> (\<exists>f. record_spec r = Inr f) \<and> timestamp_ms (meta_of r) < 2 ^ 63 \<and>
     0 \<notin> set (slice_bytes (namespace_utf8 (meta_of r))) \<and> 0 \<notin> set (slice_bytes (schema_utf8 (meta_of r)))"

definition query_filter_ok :: "nat \<Rightarrow> vicarl_record_filter \<Rightarrow> bool" where
  "query_filter_ok m x \<longleftrightarrow> slice_wf (flt_namespace x) \<and> sl_len (flt_namespace x) \<le> m \<and> 0 \<notin> set (slice_bytes (flt_namespace x)) \<and>
     slice_wf (flt_schema x) \<and> sl_len (flt_schema x) \<le> m \<and> 0 \<notin> set (slice_bytes (flt_schema x)) \<and>
     length (flt_author x) = 32 \<and> 32 \<le> m \<and> time_from_ms x < 2 ^ 63 \<and> time_to_ms x < 2 ^ 63"

definition query_ok :: "nat \<Rightarrow> vicarl_record_filter option \<Rightarrow> bytes list \<Rightarrow> bool" where
  "query_ok m flt segs \<longleftrightarrow> (\<forall>r \<in> set (chain_records segs). query_record_ok r) \<and> (case flt of None \<Rightarrow> True | Some x \<Rightarrow> query_filter_ok m x)"

lemma sql_le_small: "x < 2 ^ 63 \<Longrightarrow> y < 2 ^ 63 \<Longrightarrow> sql_le (SqlInt x) (SqlInt y) \<longleftrightarrow> x \<le> y" for x y :: u64
proof -
  assume "x < 2 ^ 63" "y < 2 ^ 63"
  then have "unat x < 2 ^ 63" "unat y < 2 ^ 63" by (simp_all add: word_less_nat_alt)
  then have "sint x = int (unat x)" "sint y = int (unat y)" using sint_of_nat_u64 [of "unat x"] sint_of_nat_u64 [of "unat y"] by simp_all
  then show "sql_le (SqlInt x) (SqlInt y) \<longleftrightarrow> x \<le> y" by (simp add: word_le_def)
qed

lemma sint_ucast_u32: "sint (ucast (y :: u32) :: u64) = int (unat y)"
proof -
  have "unat y < 2 ^ 63" using unsigned_less [where ?'a = nat, of y] by simp
  then have "sint (of_nat (unat y) :: u64) = int (unat y)" by (rule sint_of_nat_u64)
  then show ?thesis by (simp add: of_nat_unat)
qed

text \<open>The conditions of a query on one row.\<close>

definition row_cond :: "bool \<Rightarrow> bool \<Rightarrow> bool \<Rightarrow> bool \<Rightarrow> bool \<Rightarrow> (nat \<Rightarrow> sql_value) \<Rightarrow> rec_row \<Rightarrow> bool" where
  "row_cond n s a f t arg r \<longleftrightarrow> (n \<longrightarrow> sql_eq (rr_namespace r) (arg 1)) \<and> (s \<longrightarrow> sql_eq (rr_schema r) (arg 2)) \<and>
     (a \<longrightarrow> sql_eq (rr_author r) (arg 3)) \<and> (f \<longrightarrow> sql_le (arg 4) (rr_time r)) \<and> (t \<longrightarrow> sql_le (rr_time r) (arg 5))"

lemma record_row_texts:
  assumes "query_record_ok r" "length r < size_mod"
  shows "rr_namespace (record_row no j r) = SqlText (slice_bytes (namespace_utf8 (meta_of r)))"
    "rr_schema (record_row no j r) = SqlText (slice_bytes (schema_utf8 (meta_of r)))"
proof -
  obtain meta pl hs sg where spec: "record_spec r = Inr (meta, pl, hs, sg)" using assms(1) by (auto simp: query_record_ok_def)
  have "sl_ptr (namespace_utf8 meta) \<noteq> None" "sl_ptr (schema_utf8 meta) \<noteq> None" using record_spec_meta [OF spec assms(2)] by simp_all
  then show "rr_namespace (record_row no j r) = SqlText (slice_bytes (namespace_utf8 (meta_of r)))"
    "rr_schema (record_row no j r) = SqlText (slice_bytes (schema_utf8 (meta_of r)))"
    using spec by (simp_all add: record_row_def meta_of_def text_value_ptr)
qed

lemma row_cond_matches:
  assumes "query_record_ok r" "length r < size_mod" "query_filter_ok m x"
  shows "row_cond (filter_has_text (flt_namespace x)) (filter_has_text (flt_schema x)) (\<not> hash_is_zero32 (flt_author x))
      (time_from_ms x \<noteq> 0) (time_to_ms x \<noteq> 0) (filter_args (Some x)) (record_row no j r) \<longleftrightarrow> record_matches (Some x) r"
proof -
  let ?row = "record_row no j r"
  have "sql_eq (rr_namespace ?row) (text_value (flt_namespace x)) \<longleftrightarrow> slice_bytes (namespace_utf8 (meta_of r)) = slice_bytes (flt_namespace x)"
    if "filter_has_text (flt_namespace x)" using that by (simp add: record_row_texts [OF assms(1,2)] filter_has_text_def text_value_ptr sql_eq_def)
  moreover have "sql_eq (rr_schema ?row) (text_value (flt_schema x)) \<longleftrightarrow> slice_bytes (schema_utf8 (meta_of r)) = slice_bytes (flt_schema x)"
    if "filter_has_text (flt_schema x)" using that by (simp add: record_row_texts [OF assms(1,2)] filter_has_text_def text_value_ptr sql_eq_def)
  moreover have "sql_eq (rr_author ?row) (SqlBlob (flt_author x)) \<longleftrightarrow> author (meta_of r) = flt_author x"
    by (simp add: record_row_def Let_def meta_of_def sql_eq_def)
  moreover have "rr_time ?row = SqlInt (timestamp_ms (meta_of r))" by (simp add: record_row_def Let_def meta_of_def)
  moreover have "timestamp_ms (meta_of r) < 2 ^ 63" "time_from_ms x < 2 ^ 63" "time_to_ms x < 2 ^ 63"
    using assms(1,3) by (simp_all add: query_record_ok_def query_filter_ok_def)
  ultimately show ?thesis
    using sql_le_small [of "time_from_ms x" "timestamp_ms (meta_of r)"] sql_le_small [of "timestamp_ms (meta_of r)" "time_to_ms x"]
    unfolding row_cond_def record_matches_def filter_args_def option.case by (simp del: sql_le.simps)
qed

lemma query_rows:
  assumes db: "rec_table db = chain_index segs" and segs: "chain_ok segs" "length segs < 2 ^ 63" and ok: "query_ok m flt segs"
  shows "sql_rows (query_of flt) (filter_args flt) db = map (\<lambda>(no, j, r). [SqlBlob (sha256 r), SqlInt (of_nat no), SqlInt (of_nat j)]) (query_spec flt segs)"
    "rows_determined (query_of flt) (filter_args flt) db"
proof -
  let ?row = "\<lambda>(no, j, r). record_row (of_nat no) j r" and ?out = "\<lambda>r. [rr_id r, rr_no r, rr_idx r]"
  have "\<exists>n s a f t l. query_of flt = SelectRecords n s a f t l" by (cases flt) (auto simp: query_of_def)
  then obtain n s a f t l where q: "query_of flt = SelectRecords n s a f t l" by blast
  let ?P = "row_cond n s a f t (filter_args flt)"
  have rec: "query_record_ok r \<and> length r < size_mod" if "(no, j, r) \<in> set (chain_refs segs)" for no j r
    using chain_refs_bounds [OF segs(1) that] chain_record_length [OF segs(1)] ok by (auto simp: query_ok_def)
  have "?P (?row x) \<longleftrightarrow> record_matches flt (snd (snd x))" if "x \<in> set (chain_refs segs)" for x
  proof (cases flt)
    case None
    then show ?thesis using q by (simp add: query_of_def row_cond_def record_matches_def)
  next
    case (Some y)
    obtain no j r where x: "x = (no, j, r)" by (cases x)
    have "query_filter_ok m y" using ok Some by (simp add: query_ok_def)
    from row_cond_matches [OF _ _ this, of r "of_nat no" j] rec [of no j r] that x q Some show ?thesis by (simp add: query_of_def)
  qed
  then have found: "filter ?P (chain_index segs) = map ?row (filter (\<lambda>(no, j, r). record_matches flt r) (chain_refs segs))"
    unfolding chain_index_refs filter_map o_def by (intro arg_cong [where f = "map ?row"] filter_cong) (auto simp: case_prod_beta)
  have "sorted (map row_key (filter ?P (chain_index segs)))"
    using chain_index_sorted [OF segs] by (simp add: sorted_filter)
  then have sorted: "sort_key row_key (filter ?P (rec_table db)) = filter ?P (chain_index segs)" unfolding db by (rule sort_key_id_if_sorted)
  have lim: "l = (query_limit flt \<noteq> 0) \<and> (l \<longrightarrow> nat (int_of (filter_args flt 6)) = unat (query_limit flt))"
  proof -
    have "sint (ucast (y :: u32) :: u64) = int (unat y)" for y by (rule sint_ucast_u32)
    then show ?thesis using q by (cases flt) (auto simp: query_of_def query_limit_def filter_args_def word_gt_0)
  qed
  have "sql_rows (query_of flt) (filter_args flt) db = map ?out (if l then take (nat (int_of (filter_args flt 6))) (filter ?P (chain_index segs)) else filter ?P (chain_index segs))"
    using sorted by (simp add: q row_cond_def [abs_def])
  also have "\<dots> = map (\<lambda>x. ?out (?row x)) (query_spec flt segs)"
    using lim unfolding found query_spec_def Let_def by (simp add: take_map o_def)
  also have "\<dots> = map (\<lambda>(no, j, r). [SqlBlob (sha256 r), SqlInt (of_nat no), SqlInt (of_nat j)]) (query_spec flt segs)"
    by (rule map_cong) (auto simp: record_row_def Let_def)
  finally show "sql_rows (query_of flt) (filter_args flt) db = map (\<lambda>(no, j, r). [SqlBlob (sha256 r), SqlInt (of_nat no), SqlInt (of_nat j)]) (query_spec flt segs)" .
  have free: "nul_free (rr_namespace r) \<and> nul_free (rr_schema r)" if "r \<in> set (rec_table db)" for r
    using that rec record_row_texts unfolding db chain_index_refs by (fastforce simp: query_record_ok_def)
  have "(n \<longrightarrow> nul_free (filter_args flt 1)) \<and> (s \<longrightarrow> nul_free (filter_args flt 2))"
    using ok q by (cases flt) (auto simp: query_of_def filter_args_def query_ok_def query_filter_ok_def text_value_ptr filter_has_text_def)
  with free chain_index_sorted [OF segs] show "rows_determined (query_of flt) (filter_args flt) db" by (simp add: q db)
qed

context sqlite_library
begin

lemma bound_if:
  assumes "b \<Longrightarrow> outcome m (\<lambda>_. bound ok w0 M v s st (val(i := x))) E w" "bound ok w0 M v s st val w" "val i = SqlNull"
  shows "outcome (if b then m else retr ()) (\<lambda>_. bound ok w0 M v s st (val(i := if b then x else SqlNull))) E w"
  using assms by (cases b) (auto simp: fun_upd_idem intro!: outcome_retr)

lemma bind_filter_outcome:
  assumes b: "bound ok w0 M v s st (\<lambda>_. SqlNull) w" and st: "sm_run st = None" and ok: "case flt of None \<Rightarrow> True | Some x \<Rightarrow> query_filter_ok max_len x"
  shows "outcome (bind_filter L s flt) (\<lambda>_. bound ok w0 M v s st (filter_args flt)) E w"
proof (cases flt)
  case None
  with b show ?thesis by (simp add: bind_filter_def filter_args_def outcome_retr)
next
  case (Some x)
  have q: "query_filter_ok max_len x" using ok Some by simp
  have wf: "slice_wf (flt_namespace x)" "sl_len (flt_namespace x) < 2 ^ 31" "slice_wf (flt_schema x)" "sl_len (flt_schema x) < 2 ^ 31"
    "slice_wf (slice_of (flt_author x))" "sl_len (slice_of (flt_author x)) < 2 ^ 31"
    using q max_len_le by (simp_all add: query_filter_ok_def size_mod_def)
  let ?N = "\<lambda>_ :: nat. SqlNull" and ?n = "filter_has_text (flt_namespace x)" and ?s = "filter_has_text (flt_schema x)" and ?a = "\<not> hash_is_zero32 (flt_author x)"
  let ?B = "\<lambda>val. bound ok w0 M v s st val" and ?or = "\<lambda>c y. if c then y else SqlNull"
  let ?V2 = "?N(1 := ?or ?n (text_value (flt_namespace x)), 2 := ?or ?s (text_value (flt_schema x)))"
  let ?V4 = "?V2(3 := ?or ?a (SqlBlob (flt_author x)), 4 := ?or (time_from_ms x \<noteq> 0) (SqlInt (time_from_ms x)))"
  let ?m6 = "if query_limit (Some x) > 0 then lib_do (sqlite3_bind_int64 L s 6 (ucast (query_limit (Some x)))) else retr ()"
  let ?m5 = "bindr (if time_to_ms x \<noteq> 0 then lib_do (sqlite3_bind_int64 L s 5 (time_to_ms x)) else retr ()) (\<lambda>_. ?m6)"
  let ?m4 = "bindr (if time_from_ms x \<noteq> 0 then lib_do (sqlite3_bind_int64 L s 4 (time_from_ms x)) else retr ()) (\<lambda>_. ?m5)"
  let ?m3 = "bindr (if ?a then bind_blob L s 3 (slice_of (flt_author x)) else retr ()) (\<lambda>_. ?m4)"
  have args: "filter_args flt = ?V4(5 := ?or (time_to_ms x \<noteq> 0) (SqlInt (time_to_ms x)), 6 := ?or (query_limit (Some x) > 0) (SqlInt (ucast (query_limit (Some x)))))"
    by (simp add: filter_args_def Some)
  have m5: "outcome ?m5 (\<lambda>_. ?B (filter_args flt)) E w'" if "?B ?V4 w'" for w'
    by (rule outcome_then [OF bound_if [OF bound_int64 [OF that st] that]], simp)
       (unfold args, rule bound_if [OF bound_int64 [OF _ st]], assumption, assumption, simp)
  have m3: "outcome ?m3 (\<lambda>_. ?B (filter_args flt)) E w'" if "?B ?V2 w'" for w'
    by (rule outcome_then [OF bound_if [OF bound_blob [OF that _ st wf(5,6), unfolded blob_value_of] that]], simp, simp)
       (rule outcome_then [OF bound_if [OF bound_int64 [OF _ st]]], assumption, assumption, simp, rule m5)
  have "outcome (bindr (if ?n then bind_text L s 1 (flt_namespace x) else retr ()) (\<lambda>_. bindr (if ?s then bind_text L s 2 (flt_schema x) else retr ()) (\<lambda>_. ?m3)))
      (\<lambda>_. ?B (filter_args flt)) E w"
    by (rule outcome_then [OF bound_if [OF bound_text [OF b _ st wf(1,2)] b]], simp, simp)
       (rule outcome_then [OF bound_if [OF bound_text [OF _ _ st wf(3,4)]]], assumption, simp, assumption, simp, rule m3)
  then show ?thesis unfolding bind_filter_def Some option.case .
qed


lemma query_rows_done:
  fixes cb :: "'u record_iter_fn"
  assumes s: "vw_stmts v s = None" and r: "reach ok w0 M (set_stmt s (Some st) v) w" and c: "vw_conns v h = Some c"
    and st: "st = \<lparr>sm_db = h, sm_sql = q, sm_args = args, sm_run = None\<rparr>" "q \<notin> {InsertSegment, InsertRecord}"
    and rows: "sql_rows q args (current_db v c) = map (\<lambda>(no, j, r). [SqlBlob (sha256 r), SqlInt (of_nat no), SqlInt (of_nat j)]) xs"
      "rows_determined q args (current_db v c)"
  shows "rows_done ok w0 M h v (\<lambda>(no, j, r). cb (sha256 r) (of_nat no) (of_nat j)) xs u
    (rows_loop L (Some h) s 0 bad what (\<lambda>rid d. cb rid (sqlite3_column_int64 L s 1 d) (ucast (sqlite3_column_int64 L s 2 d))) (w, u))"
proof -
  let ?row = "\<lambda>(no, j, r). [SqlBlob (sha256 r), SqlInt (of_nat no :: u64), SqlInt (of_nat j :: u64)]"
  let ?int = "\<lambda>x. case x of SqlInt y \<Rightarrow> y | _ \<Rightarrow> 0"
  let ?g = "\<lambda>r. cb (blob_bytes (r ! 0)) (?int (r ! 1)) (ucast (?int (r ! 2)) :: u32)"
  have "rows_done ok w0 M h v ?g (map ?row xs) u
      (rows_loop L (Some h) s 0 bad what (\<lambda>rid d. cb rid (sqlite3_column_int64 L s 1 d) (ucast (sqlite3_column_int64 L s 2 d))) (w, u))"
  proof (rule rows_loop_done [where st = st and rows = "map ?row xs" and g = ?g, OF r s c])
    show "case sm_run st of None \<Rightarrow> rows_determined (sm_sql st) (sm_args st) (current_db v c) \<and>
        map ?row xs = sql_rows (sm_sql st) (sm_args st) (current_db v c) | Some (x, rest) \<Rightarrow> map ?row xs = rest"
      using rows by (simp add: st)
    fix r b d st rest assume a: "r \<in> set (map ?row xs)" "r ! 0 = SqlBlob b" "vw_stmts (view d) s = Some st" "sm_run st = Some (r, rest)"
    obtain no j x where r: "r = [SqlBlob (sha256 x), SqlInt (of_nat no), SqlInt (of_nat j)]" using a(1) by auto
    show "cb b (sqlite3_column_int64 L s 1 d) (ucast (sqlite3_column_int64 L s 2 d)) = ?g r"
      using a r column_int64_law [OF a(3,4), of 1 "of_nat no"] column_int64_law [OF a(3,4), of 2 "of_nat j"] by simp
  qed (use st in auto)
  moreover have "(ucast (of_nat j :: u64) :: u32) = of_nat j" for j by transfer simp
  then have "(\<lambda>x. ?g (?row x)) = (\<lambda>(no, j, r). cb (sha256 r) (of_nat no) (of_nat j))" by (auto simp: fun_eq_iff)
  ultimately show ?thesis unfolding rows_done_map by (simp only:)
qed

lemma query_records_done:
  assumes at: "ok (w_heap w)" "se_impl (w_env w) = Some ss" "sqlite_at (view (w_lib w)) ss h p None segs" and len: "length segs < 2 ^ 63"
    and rec: "record_index_enabled ss" "db_records (vw_files (view (w_lib w)) p) = Some (chain_index segs)"
    and ok: "query_ok max_len flt segs" and good: "healthy (w_lib w)"
  shows "rows_done ok w (hp_live (w_heap w)) h (view (w_lib w)) (\<lambda>(no, j, r). cb (sha256 r) (of_nat no) (of_nat j)) (query_spec flt segs) u
    (sqlite_query_records L flt (Some cb) (w, u))"
proof -
  let ?v = "view (w_lib w)" and ?M = "hp_live (w_heap w)" and ?q = "query_of flt" and ?st = "fresh_stmt h (query_of flt)"
  have c: "vw_conns ?v h = Some (p, None)" "sq_db ss = Some h" "chain_ok segs" using at(3) by (simp_all add: sqlite_at_def chain_db_def)
  have tab: "rec_table (current_db ?v (p, None)) = chain_index segs" "db_records (current_db ?v (p, None)) \<noteq> None"
    using rec(2) by (simp_all add: current_db_def rec_table_def)
  have flt: "case flt of None \<Rightarrow> True | Some x \<Rightarrow> query_filter_ok max_len x" using ok by (simp add: query_ok_def)
  have q: "?q \<notin> {InsertSegment, InsertRecord}" "sql_ready ?q (current_db ?v (p, None))" using tab(2) by (cases flt; simp add: query_of_def)+
  have short: "is_int (filter_args flt i) \<or> value_size (filter_args flt i) \<le> max_len" for i
    using flt slice_wf_length by (cases flt) (auto simp: filter_args_def query_filter_ok_def text_value_ptr filter_has_text_def)
  let ?P = "\<lambda>s w'. vw_stmts ?v s = None \<and> reach ok w ?M (set_stmt s (Some (?st\<lparr>sm_args := filter_args flt\<rparr>)) ?v) w'"
  let ?E = "\<lambda>e w'. sql_error e \<and> \<not> healthy (w_lib w) \<and> (\<exists>v'. tx_lost h ?v v' \<and> reach ok w ?M v' w')"
  have m: "outcome (bindr (of_res (build_query flt)) (\<lambda>sql. bindr (prepare_or_fail L (Some h) sql ''prepare query_records'') (\<lambda>st.
      bindr (bind_filter L st flt) (\<lambda>_. retr st)))) ?P ?E w"
  proof -
    have "outcome (bindr (prepare_or_fail L (Some h) (sql_text ?q) ''prepare query_records'') (\<lambda>st. bindr (bind_filter L st flt) (\<lambda>_. retr st))) ?P ?E w"
    proof (rule outcome_bindr, rule outcome_mono [OF prepare_or_fail_outcome [OF reach_start [where ok = ok and w = w, OF at(1)] c(1) refl]])
      fix s w1 assume 1: "sql_ready ?q (current_db ?v (p, None)) \<and> vw_stmts ?v s = None \<and> reach ok w ?M (set_stmt s (Some ?st) ?v) w1"
      have b1: "bound ok w ?M ?v s ?st (\<lambda>_. SqlNull) w1" using 1 by (intro boundI) simp_all
      show "outcome (bindr (bind_filter L s flt) (\<lambda>_. retr s)) ?P ?E w1"
      proof (rule outcome_then [OF bind_filter_outcome [OF b1 _ flt]])
        fix w2 assume "bound ok w ?M ?v s ?st (filter_args flt) w2"
        then obtain arg where "binds (healthy (w_lib w)) max_len arg (filter_args flt)" "reach ok w ?M (set_stmt s (Some (?st\<lparr>sm_args := arg\<rparr>)) ?v) w2"
          by (auto simp: bound_def)
        moreover from this(1) have "arg = filter_args flt" by (rule binds_eq [OF _ good]) (rule short)
        ultimately have "?P s w2" using 1 by blast
        then show "outcome (retr s) ?P ?E w2" unfolding outcome_def retr_def prod.case sum.case .
      qed simp
    qed (use q(2) in blast)
    then show ?thesis unfolding build_query_text of_res_def outcome_def bindr_def by simp
  qed
  have "rows_done ok w ?M h ?v (\<lambda>(no, j, r). cb (sha256 r) (of_nat no) (of_nat j)) (query_spec flt segs) u
      (then_rows (bindr (of_res (build_query flt)) (\<lambda>sql. bindr (prepare_or_fail L (Some h) sql ''prepare query_records'') (\<lambda>st.
          bindr (bind_filter L st flt) (\<lambda>_. retr st))))
        (\<lambda>st. rows_loop L (Some h) st 0 ''sqlite_query_records: invalid record_id length'' ''step query_records''
          (\<lambda>rid d. cb rid (sqlite3_column_int64 L st 1 d) (ucast (sqlite3_column_int64 L st 2 d)))) (w, u))"
  proof (rule then_rows_done [OF m])
    fix s w1 assume 1: "?P s w1"
    have "?st\<lparr>sm_args := filter_args flt\<rparr> = \<lparr>sm_db = h, sm_sql = ?q, sm_args = filter_args flt, sm_run = None\<rparr>" by simp
    from query_rows_done [OF _ _ c(1) this q(1) query_rows [OF tab(1) c(3) len ok], of s ok w ?M w1 cb u] 1
    show "rows_done ok w ?M h ?v (\<lambda>(no, j, r). cb (sha256 r) (of_nat no) (of_nat j)) (query_spec flt segs) u
      (rows_loop L (Some h) s 0 ''sqlite_query_records: invalid record_id length'' ''step query_records''
          (\<lambda>rid d. cb rid (sqlite3_column_int64 L s 1 d) (ucast (sqlite3_column_int64 L s 2 d))) (w1, u))" by blast
  qed
  then show ?thesis using rec(1) unfolding sqlite_query_records_def option.case fst_conv at(2) c(2) by simp
qed

end

end
