(* ===== verification/Vicarl_SqlSim.thy ===== *)
theory Vicarl_SqlSim
  imports Vicarl_Sql "HOL-Library.AList"
begin

text \<open>
  A small database engine that keeps the contract of the library. It executes the statements of the store, keeps the
  tables in association lists, and fails as a script tells it to: a call that may fail takes the next event of the script, works, fails,
  or fails and rolls back the open transaction. The witnesses of the development run the store on it.
\<close>

datatype sim_event = Works | Fails | FailsRollback

record sim =
  sim_files :: "(string \<times> sqldb) list"
  sim_conns :: "(dbh \<times> conn) list"
  sim_stmts :: "(stmth \<times> sql_stmt) list"
  sim_script :: "sim_event list"

definition sim_max :: nat where
  "sim_max = 1000000000"

definition sim_view :: "sim \<Rightarrow> sql_view" where
  "sim_view d = \<lparr>vw_files = (\<lambda>p. case map_of (sim_files d) p of None \<Rightarrow> empty_db | Some db \<Rightarrow> db),
     vw_conns = map_of (sim_conns d), vw_stmts = map_of (sim_stmts d)\<rparr>"

definition sim_healthy :: "sim \<Rightarrow> bool" where
  "sim_healthy d \<longleftrightarrow> list_all (\<lambda>e. e = Works) (sim_script d)"

definition sim_event_of :: "sim \<Rightarrow> sim_event" where
  "sim_event_of d = (case sim_script d of [] \<Rightarrow> Works | e # _ \<Rightarrow> e)"

definition sim_tick :: "sim \<Rightarrow> sim" where
  "sim_tick d = d\<lparr>sim_script := tl (sim_script d)\<rparr>"

definition sim_set_conn :: "dbh \<Rightarrow> conn option \<Rightarrow> sim \<Rightarrow> sim" where
  "sim_set_conn h c d = d\<lparr>sim_conns := (case c of None \<Rightarrow> AList.delete h (sim_conns d) | Some x \<Rightarrow> AList.update h x (sim_conns d))\<rparr>"

definition sim_set_stmt :: "stmth \<Rightarrow> sql_stmt option \<Rightarrow> sim \<Rightarrow> sim" where
  "sim_set_stmt s st d = d\<lparr>sim_stmts := (case st of None \<Rightarrow> AList.delete s (sim_stmts d) | Some x \<Rightarrow> AList.update s x (sim_stmts d))\<rparr>"

definition sim_set_file :: "string \<Rightarrow> sqldb \<Rightarrow> sim \<Rightarrow> sim" where
  "sim_set_file p db d = d\<lparr>sim_files := AList.update p db (sim_files d)\<rparr>"

definition sim_set_current :: "dbh \<Rightarrow> conn \<Rightarrow> sqldb \<Rightarrow> sim \<Rightarrow> sim" where
  "sim_set_current h c db d = (case snd c of None \<Rightarrow> sim_set_file (fst c) db d | Some _ \<Rightarrow> sim_set_conn h (Some (fst c, Some db)) d)"

text \<open>What a failing call leaves behind.\<close>

definition sim_lose :: "sim_event \<Rightarrow> dbh \<Rightarrow> sim \<Rightarrow> sim" where
  "sim_lose e h d = (if e = FailsRollback then (case map_of (sim_conns d) h of None \<Rightarrow> d | Some c \<Rightarrow> sim_set_conn h (Some (fst c, None)) d) else d)"

definition fresh_key :: "nat list \<Rightarrow> nat" where
  "fresh_key ks = Suc (fold max ks 0)"

definition sim_open :: "string \<Rightarrow> sim \<Rightarrow> (sqlite_rc \<times> dbh option) \<times> sim" where
  "sim_open path d =
     (let h = fresh_key (map fst (sim_conns d) @ map (sm_db \<circ> snd) (sim_stmts d)) in
      case sim_event_of d of
        Works \<Rightarrow> ((SQLITE_OK, Some h), sim_set_conn h (Some (path, None)) (sim_tick d))
      | Fails \<Rightarrow> ((SQLITE_FAILED 14, Some h), sim_set_conn h (Some (path, None)) (sim_tick d))
      | FailsRollback \<Rightarrow> ((SQLITE_FAILED 7, None), sim_tick d))"

fun sim_effect :: "sql_command \<Rightarrow> dbh \<Rightarrow> conn \<Rightarrow> sim \<Rightarrow> sim" where
  "sim_effect Begin h c d = sim_set_conn h (Some (fst c, Some (vw_files (sim_view d) (fst c)))) d"
| "sim_effect Commit h c d = sim_set_conn h (Some (fst c, None)) (sim_set_file (fst c) (current_db (sim_view d) c) d)"
| "sim_effect Rollback h c d = sim_set_conn h (Some (fst c, None)) d"
| "sim_effect (Pragma p) h c d = d"
| "sim_effect cmd h c d = sim_set_current h c (create_in cmd (current_db (sim_view d) c)) d"

definition sim_exec :: "dbh \<Rightarrow> string \<Rightarrow> sim \<Rightarrow> (sqlite_rc \<times> string option) \<times> sim" where
  "sim_exec h txt d =
     (case (find (\<lambda>cmd. command_text cmd = txt) store_commands, map_of (sim_conns d) h) of
        (Some cmd, Some c) \<Rightarrow>
          (if sim_event_of d = Works \<and> exec_allowed cmd (snd c) then ((SQLITE_OK, None), sim_effect cmd h c (sim_tick d))
           else ((SQLITE_FAILED 1, Some ''failed''), sim_lose (sim_event_of d) h (sim_tick d)))
      | _ \<Rightarrow> ((SQLITE_FAILED 21, None), d))"

text \<open>A statement from its text: the parameters of the last one are numbered.\<close>

definition sim_parse :: "string \<Rightarrow> sql option" where
  "sim_parse txt =
     (case find (\<lambda>q. sql_text q = txt) [SelectTip, SelectBytes, SelectFrom, SelectRecord, InsertSegment, InsertRecord] of
        Some q \<Rightarrow> Some q
      | None \<Rightarrow>
          (let has = (\<lambda>c. c \<in> set txt);
               q = SelectRecords (has CHR ''1'') (has CHR ''2'') (has CHR ''3'') (has CHR ''4'') (has CHR ''5'') (has CHR ''6'')
           in if sql_text q = txt then Some q else None))"

definition sim_prepare :: "dbh \<Rightarrow> string \<Rightarrow> sim \<Rightarrow> (sqlite_rc \<times> stmth) \<times> sim" where
  "sim_prepare h txt d =
     (let s = fresh_key (map fst (sim_stmts d)) in
      case (sim_parse txt, map_of (sim_conns d) h) of
        (Some q, Some c) \<Rightarrow>
          (if sim_event_of d = Works \<and> sql_ready q (current_db (sim_view d) c)
           then ((SQLITE_OK, s), sim_set_stmt s (Some \<lparr>sm_db = h, sm_sql = q, sm_args = (\<lambda>_. SqlNull), sm_run = None\<rparr>) (sim_tick d))
           else ((SQLITE_FAILED 1, 0), sim_lose (sim_event_of d) h (sim_tick d)))
      | _ \<Rightarrow> ((SQLITE_FAILED 21, 0), d))"

definition sim_bind :: "stmth \<Rightarrow> nat \<Rightarrow> sql_value \<Rightarrow> sim \<Rightarrow> sim" where
  "sim_bind s i x d =
     (case map_of (sim_stmts d) s of None \<Rightarrow> d | Some st \<Rightarrow> sim_set_stmt s (Some (st\<lparr>sm_args := (sm_args st)(i := x)\<rparr>)) d)"

definition sim_bind_bytes :: "(bytes \<Rightarrow> sql_value) \<Rightarrow> stmth \<Rightarrow> nat \<Rightarrow> bytes option \<Rightarrow> sim \<Rightarrow> sim" where
  "sim_bind_bytes mk s i b d =
     (if sim_event_of d = Works \<and> (case b of None \<Rightarrow> True | Some bs \<Rightarrow> length bs \<le> sim_max)
      then sim_bind s i (opt_value mk b) (sim_tick d) else sim_tick d)"

definition sim_set_run :: "stmth \<Rightarrow> sql_stmt \<Rightarrow> (sql_value list \<times> sql_value list list) option \<Rightarrow> sim \<Rightarrow> sim" where
  "sim_set_run s st r d = sim_set_stmt s (Some (st\<lparr>sm_run := r\<rparr>)) d"

definition sim_insert :: "stmth \<Rightarrow> sql_stmt \<Rightarrow> conn \<Rightarrow> sim \<Rightarrow> sqlite_rc \<times> sim" where
  "sim_insert s st c d =
     (let db = current_db (sim_view d) c in
      case sql_effect (sm_sql st) (sm_args st) db of
        Some db' \<Rightarrow>
          (if foreign_ok (sm_sql st) (sm_args st) db \<and> row_size (sm_sql st) (sm_args st) \<le> sim_max
           then (SQLITE_DONE, sim_set_run s st None (sim_set_current (sm_db st) c db' d))
           else (SQLITE_FAILED 19, sim_set_run s st None d))
      | None \<Rightarrow> (SQLITE_FAILED 19, sim_set_run s st None d))"

definition sim_select :: "stmth \<Rightarrow> sql_stmt \<Rightarrow> conn \<Rightarrow> sim \<Rightarrow> sqlite_rc \<times> sim" where
  "sim_select s st c d =
     (case (case sm_run st of None \<Rightarrow> sql_rows (sm_sql st) (sm_args st) (current_db (sim_view d) c) | Some (r, rest) \<Rightarrow> rest) of
        [] \<Rightarrow> (SQLITE_DONE, sim_set_run s st (Some ([], [])) d)
      | r # rest \<Rightarrow> (SQLITE_ROW, sim_set_run s st (Some (r, rest)) d))"

definition sim_step :: "stmth \<Rightarrow> sim \<Rightarrow> sqlite_rc \<times> sim" where
  "sim_step s d =
     (case map_of (sim_stmts d) s of
        None \<Rightarrow> (SQLITE_FAILED 21, d)
      | Some st \<Rightarrow>
          (case map_of (sim_conns d) (sm_db st) of
             None \<Rightarrow> (SQLITE_FAILED 21, d)
           | Some c \<Rightarrow>
               if sim_event_of d \<noteq> Works then (SQLITE_FAILED 10, sim_set_run s st None (sim_lose (sim_event_of d) (sm_db st) (sim_tick d)))
               else if sm_sql st \<in> {InsertSegment, InsertRecord} then sim_insert s st c (sim_tick d)
               else sim_select s st c (sim_tick d)))"

definition sim_column :: "stmth \<Rightarrow> nat \<Rightarrow> sim \<Rightarrow> sql_value" where
  "sim_column s i d =
     (case map_of (sim_stmts d) s of
        None \<Rightarrow> SqlNull
      | Some st \<Rightarrow> (case sm_run st of None \<Rightarrow> SqlNull | Some (r, rest) \<Rightarrow> if i < length r then r ! i else SqlNull))"

fun value_bytes :: "sql_value \<Rightarrow> bytes" where
  "value_bytes (SqlBlob b) = b"
| "value_bytes (SqlText t) = t"
| "value_bytes _ = []"

definition sim_api :: "sim sqlite3_api" where
  "sim_api =
     \<lparr>sqlite3_open = sim_open, sqlite3_close = (\<lambda>h. sim_set_conn h None), sqlite3_errmsg = (\<lambda>h d. Some ''not an error''),
      sqlite3_exec = sim_exec, sqlite3_free = (\<lambda>m d. d), sqlite3_busy_timeout = (\<lambda>h ms d. d), sqlite3_prepare_v2 = sim_prepare,
      sqlite3_bind_int64 = (\<lambda>s i x. sim_bind s i (SqlInt x)), sqlite3_bind_blob = sim_bind_bytes SqlBlob,
      sqlite3_bind_text = sim_bind_bytes SqlText, sqlite3_step = sim_step,
      sqlite3_column_int64 = (\<lambda>s i d. case sim_column s i d of SqlInt x \<Rightarrow> x | _ \<Rightarrow> 0),
      sqlite3_column_blob = (\<lambda>s i d. let b = value_bytes (sim_column s i d) in if b = [] then None else Some b),
      sqlite3_column_bytes = (\<lambda>s i d. int (length (value_bytes (sim_column s i d)))),
      sqlite3_reset = (\<lambda>s d. case map_of (sim_stmts d) s of None \<Rightarrow> d | Some st \<Rightarrow> sim_set_run s st None d),
      sqlite3_clear_bindings = (\<lambda>s d. case map_of (sim_stmts d) s of None \<Rightarrow> d | Some st \<Rightarrow> sim_set_stmt s (Some (st\<lparr>sm_args := (\<lambda>_. SqlNull)\<rparr>)) d),
      sqlite3_finalize = (\<lambda>s. sim_set_stmt s None)\<rparr>"

section \<open>The engine keeps the contract\<close>

lemma fresh_key: "fresh_key ks \<notin> set ks"
proof -
  have "k \<le> fold max ks m \<or> k > fold max ks m \<Longrightarrow> m \<le> fold max ks m \<and> (\<forall>k \<in> set ks. k \<le> fold max ks m)" for k m :: nat
    by (induction ks arbitrary: m) (auto intro: max.coboundedI1 max.boundedE le_max_iff_disj)
  then show ?thesis unfolding fresh_key_def by (metis Suc_n_not_le_n linorder_le_less_linear)
qed

lemma sim_view_updates [simp]:
  "sim_view (sim_set_conn h c d) = set_conn h c (sim_view d)"
  "sim_view (sim_set_stmt s st d) = set_stmt s st (sim_view d)"
  "sim_view (sim_set_file p db d) = set_file p db (sim_view d)"
  "sim_view (sim_set_current h cn db d) = set_current h cn db (sim_view d)"
  "sim_view (sim_tick d) = sim_view d"
  "sim_view (sim_set_run s st' r d) = set_stmt s (Some (st'\<lparr>sm_run := r\<rparr>)) (sim_view d)"
  by (auto simp: sim_view_def sim_set_conn_def sim_set_stmt_def sim_set_file_def sim_set_current_def set_current_def sim_set_run_def
      sim_tick_def set_conn_def set_stmt_def set_file_def delete_conv' update_conv' fun_eq_iff split: option.splits)

lemma sim_script_updates [simp]:
  "sim_script (sim_set_conn h c d) = sim_script d" "sim_script (sim_set_stmt s st d) = sim_script d"
  "sim_script (sim_set_file p db d) = sim_script d" "sim_script (sim_set_current h cn db d) = sim_script d"
  "sim_script (sim_set_run s st' r d) = sim_script d" "sim_script (sim_lose e h d) = sim_script d"
  "sim_script (sim_tick d) = tl (sim_script d)"
  by (simp_all add: sim_set_conn_def sim_set_stmt_def sim_set_file_def sim_set_current_def sim_set_run_def sim_lose_def sim_tick_def split: option.splits)

lemma sim_view_maps [simp]: "vw_conns (sim_view d) = map_of (sim_conns d)" "vw_stmts (sim_view d) = map_of (sim_stmts d)"
  by (simp_all add: sim_view_def)

lemma sim_healthy_tick: "sim_healthy d \<Longrightarrow> sim_event_of d = Works \<and> list_all (\<lambda>e. e = Works) (tl (sim_script d))"
  by (cases "sim_script d") (auto simp: sim_healthy_def sim_event_of_def)

lemma sim_lose_view: "tx_lost h (sim_view d) (sim_view (sim_lose e h d))"
  by (auto simp: sim_lose_def tx_lost_def split: option.splits)

lemma sim_effect_view: "sim_view (sim_effect cmd h c d) = exec_effect cmd h c (sim_view d)" "sim_script (sim_effect cmd h c d) = sim_script d"
  by (cases cmd; simp)+

lemma command_texts_distinct: "distinct (map command_text store_commands)"
  unfolding store_commands_def command_text.simps list.map by code_simp

lemma find_text: "distinct (map f xs) \<Longrightarrow> x \<in> set xs \<Longrightarrow> find (\<lambda>c. f c = f x) xs = Some x"
  by (induction xs) (auto simp: image_iff)

lemma conds_text_char:
  assumes "c \<notin> set ''WHERE AND ''"
  shows "c \<in> set (conds_text cs) \<longleftrightarrow> (\<exists>x \<in> set cs. fst x \<and> c \<in> set (snd x))"
proof -
  have sep: "c \<notin> set ''WHERE ''" "c \<notin> set ''AND ''" using assms by auto
  have "c \<in> set (conds_text cs) \<longleftrightarrow> (\<exists>d \<in> set (map snd (filter fst cs)). c \<in> set d)"
    unfolding conds_text_def using sep by (cases "map snd (filter fst cs)") auto
  then show ?thesis by force
qed

lemma select_records_char:
  assumes "c \<notin> set ''WHERE AND ''" "c \<notin> set ''SELECT record_id, segment_no, idx_in_segment FROM records ''"
    "c \<notin> set ''ORDER BY segment_no ASC, idx_in_segment ASC ''" "c \<noteq> CHR '';''"
  shows "c \<in> set (sql_text (SelectRecords n s a f t l)) \<longleftrightarrow>
    (n \<and> c \<in> set ''namespace = ?1 '' \<or> s \<and> c \<in> set ''schema = ?2 '' \<or> a \<and> c \<in> set ''author = ?3 '' \<or>
     f \<and> c \<in> set ''timestamp_ms >= ?4 '' \<or> t \<and> c \<in> set ''timestamp_ms <= ?5 '' \<or> l \<and> c \<in> set ''LIMIT ?6;'')"
  unfolding sql_text.simps set_append Un_iff conds_text_char [OF assms(1)] using assms(2-4) by auto

lemma select_records_params:
  "CHR ''1'' \<in> set (sql_text (SelectRecords n s a f t l)) \<longleftrightarrow> n" "CHR ''2'' \<in> set (sql_text (SelectRecords n s a f t l)) \<longleftrightarrow> s"
  "CHR ''3'' \<in> set (sql_text (SelectRecords n s a f t l)) \<longleftrightarrow> a" "CHR ''4'' \<in> set (sql_text (SelectRecords n s a f t l)) \<longleftrightarrow> f"
  "CHR ''5'' \<in> set (sql_text (SelectRecords n s a f t l)) \<longleftrightarrow> t" "CHR ''6'' \<in> set (sql_text (SelectRecords n s a f t l)) \<longleftrightarrow> l"
  by (subst select_records_char; simp)+

definition fixed_sqls :: "sql list" where
  "fixed_sqls = [SelectTip, SelectBytes, SelectFrom, SelectRecord, InsertSegment, InsertRecord]"

lemma fixed_texts:
  "distinct (map sql_text fixed_sqls)" "list_all (\<lambda>q. take 17 (sql_text q) \<noteq> ''SELECT record_id,'') fixed_sqls"
  unfolding fixed_sqls_def list.map list.pred_inject sql_text.simps by code_simp+

lemma sim_parse_text: "sim_parse (sql_text q) = Some q"
proof (cases "q \<in> set fixed_sqls")
  case True
  then have "find (\<lambda>q'. sql_text q' = sql_text q) fixed_sqls = Some q" by (rule find_text [OF fixed_texts(1)])
  then show ?thesis by (simp add: sim_parse_def fixed_sqls_def)
next
  case False
  then obtain n s a f t l where q: "q = SelectRecords n s a f t l" by (cases q) (auto simp: fixed_sqls_def)
  have "take 17 (sql_text q) = ''SELECT record_id,''" by (simp add: q sql_text.simps)
  then have "find (\<lambda>q'. sql_text q' = sql_text q) fixed_sqls = None" using fixed_texts(2) by (auto simp: find_None_iff list_all_iff)
  then show ?thesis by (simp add: sim_parse_def Let_def q select_records_params fixed_sqls_def)
qed

lemma sim_open_law:
  assumes "sim_open path d = ((rc, opened), d')"
  shows "(sim_healthy d \<longrightarrow> sim_healthy d' \<and> rc = SQLITE_OK) \<and> (rc = SQLITE_OK \<longrightarrow> opened \<noteq> None) \<and>
      (case opened of None \<Rightarrow> sim_view d' = sim_view d
       | Some h \<Rightarrow> vw_conns (sim_view d) h = None \<and> (\<forall>s st. vw_stmts (sim_view d) s = Some st \<longrightarrow> sm_db st \<noteq> h) \<and>
           sim_view d' = set_conn h (Some (path, None)) (sim_view d))"
proof -
  let ?ks = "map fst (sim_conns d) @ map (sm_db \<circ> snd) (sim_stmts d)"
  have "map_of (sim_conns d) (fresh_key ?ks) = None" using fresh_key [of ?ks] by (auto simp: map_of_eq_None_iff)
  moreover have "sm_db st \<noteq> fresh_key ?ks" if "map_of (sim_stmts d) s = Some st" for s st
    using fresh_key [of ?ks] map_of_SomeD [OF that] by (auto simp: image_iff)
  ultimately show ?thesis using assms sim_healthy_tick [of d]
    by (auto simp: sim_open_def Let_def sim_healthy_def split: sim_event.splits)
qed

lemma sim_exec_law:
  assumes cmd: "cmd \<in> set store_commands" "vw_conns (sim_view d) h = Some c" "sim_exec h (command_text cmd) d = ((rc, err), d')"
  shows "(sim_healthy d \<longrightarrow> sim_healthy d') \<and>
      (if rc = SQLITE_OK then exec_allowed cmd (snd c) \<and> sim_view d' = exec_effect cmd h c (sim_view d)
       else \<not> (sim_healthy d \<and> exec_allowed cmd (snd c)) \<and> tx_lost h (sim_view d) (sim_view d'))"
  using cmd(2,3) sim_healthy_tick [of d] sim_lose_view [of h "sim_tick d"]
  by (auto simp: sim_exec_def find_text [OF command_texts_distinct cmd(1)] sim_healthy_def sim_effect_view split: if_splits)

lemma sim_prepare_law:
  assumes "vw_conns (sim_view d) h = Some c" "sim_prepare h (sql_text q) d = ((rc, s), d')"
  shows "(sim_healthy d \<longrightarrow> sim_healthy d') \<and>
      (if rc = SQLITE_OK
       then sql_ready q (current_db (sim_view d) c) \<and> vw_stmts (sim_view d) s = None \<and>
         sim_view d' = set_stmt s (Some \<lparr>sm_db = h, sm_sql = q, sm_args = (\<lambda>_. SqlNull), sm_run = None\<rparr>) (sim_view d)
       else \<not> (sim_healthy d \<and> sql_ready q (current_db (sim_view d) c)) \<and> tx_lost h (sim_view d) (sim_view d'))"
  using assms sim_healthy_tick [of d] sim_lose_view [of h "sim_tick d"] fresh_key [of "map fst (sim_stmts d)"]
  by (auto simp: sim_prepare_def Let_def sim_parse_text sim_healthy_def map_of_eq_None_iff split: if_splits)

lemma sim_bind_bytes_law:
  assumes "vw_stmts (sim_view d) s = Some st" "sm_run st = None"
  shows "(sim_view (sim_bind_bytes mk s i b d) = set_stmt s (Some (st\<lparr>sm_args := (sm_args st)(i := opt_value mk b)\<rparr>)) (sim_view d) \<and>
         (\<forall>bs. b = Some bs \<longrightarrow> length bs \<le> sim_max) \<or>
       sim_view (sim_bind_bytes mk s i b d) = sim_view d \<and> \<not> (sim_healthy d \<and> (\<forall>bs. b = Some bs \<longrightarrow> length bs \<le> sim_max))) \<and>
      (sim_healthy d \<longrightarrow> sim_healthy (sim_bind_bytes mk s i b d))"
proof -
  have st: "map_of (sim_stmts (sim_tick d)) s = Some st" using assms by (simp add: sim_tick_def)
  show ?thesis using sim_healthy_tick [of d] st
    by (auto simp: sim_bind_bytes_def sim_bind_def sim_healthy_def split: option.splits)
qed

lemma sim_step_lost:
  assumes "map_of (sim_stmts d) s = Some st" "map_of (sim_conns d) (sm_db st) = Some c" "sim_event_of d \<noteq> Works"
  shows "\<exists>run v. tx_lost (sm_db st) (sim_view d) v \<and> sim_view (snd (sim_step s d)) = set_stmt s (Some (st\<lparr>sm_run := run\<rparr>)) v"
    "fst (sim_step s d) = SQLITE_FAILED 10"
  using assms sim_lose_view [of "sm_db st" "sim_tick d" "sim_event_of d"] by (auto simp: sim_step_def)

lemma sim_select_law:
  assumes st: "vw_stmts (sim_view d) s = Some st" "vw_conns (sim_view d) (sm_db st) = Some c" "sm_sql st \<notin> {InsertSegment, InsertRecord}"
    and rows: "case sm_run st of None \<Rightarrow> rows_determined (sm_sql st) (sm_args st) (current_db (sim_view d) c) \<and>
        rows = sql_rows (sm_sql st) (sm_args st) (current_db (sim_view d) c) | Some (r, rest) \<Rightarrow> rows = rest"
    and run: "sim_step s d = (rc, d')"
  shows "(sim_healthy d \<longrightarrow> sim_healthy d') \<and>
      (if rc = SQLITE_ROW then \<exists>r rest. rows = r # rest \<and> sim_view d' = set_stmt s (Some (st\<lparr>sm_run := Some (r, rest)\<rparr>)) (sim_view d)
       else if rc = SQLITE_DONE then rows = [] \<and> (\<exists>run. sim_view d' = set_stmt s (Some (st\<lparr>sm_run := run\<rparr>)) (sim_view d))
       else \<not> sim_healthy d \<and> (\<exists>run v. tx_lost (sm_db st) (sim_view d) v \<and> sim_view d' = set_stmt s (Some (st\<lparr>sm_run := run\<rparr>)) v))"
proof (cases "sim_event_of d = Works")
  case True
  have cur: "current_db (sim_view (sim_tick d)) c = current_db (sim_view d) c" by simp
  have "sim_step s d = sim_select s st c (sim_tick d)" using True st by (simp add: sim_step_def)
  moreover have "(case sm_run st of None \<Rightarrow> sql_rows (sm_sql st) (sm_args st) (current_db (sim_view (sim_tick d)) c) | Some (r, rest) \<Rightarrow> rest) = rows"
    using rows cur by (auto split: option.splits)
  ultimately have "(rc, d') = (case rows of [] \<Rightarrow> (SQLITE_DONE, sim_set_run s st (Some ([], [])) (sim_tick d))
      | r # rest \<Rightarrow> (SQLITE_ROW, sim_set_run s st (Some (r, rest)) (sim_tick d)))" using run by (simp add: sim_select_def)
  then show ?thesis using sim_healthy_tick [of d] by (cases rows) (auto simp: sim_healthy_def)
next
  case False
  with sim_step_lost [of d s st c] st run sim_healthy_tick [of d] show ?thesis by auto
qed

lemma sim_insert_law:
  assumes st: "vw_stmts (sim_view d) s = Some st" "vw_conns (sim_view d) (sm_db st) = Some (p, Some db)" "sm_sql st \<in> {InsertSegment, InsertRecord}"
    and run: "sim_step s d = (rc, d')"
  shows "(sim_healthy d \<longrightarrow> sim_healthy d') \<and>
      (if rc = SQLITE_DONE
       then \<exists>db' run. sql_effect (sm_sql st) (sm_args st) db = Some db' \<and>
         sim_view d' = set_stmt s (Some (st\<lparr>sm_run := run\<rparr>)) (set_conn (sm_db st) (Some (p, Some db')) (sim_view d))
       else \<not> (sim_healthy d \<and> sql_effect (sm_sql st) (sm_args st) db \<noteq> None \<and> foreign_ok (sm_sql st) (sm_args st) db \<and>
              row_size (sm_sql st) (sm_args st) \<le> sim_max) \<and>
         (\<exists>run v. tx_lost (sm_db st) (sim_view d) v \<and> sim_view d' = set_stmt s (Some (st\<lparr>sm_run := run\<rparr>)) v))"
proof (cases "sim_event_of d = Works")
  case True
  have cur: "current_db v (p, Some db) = db" for v by (simp add: current_db_def)
  have lost: "\<exists>run v. tx_lost (sm_db st) (sim_view d) v \<and> set_stmt s (Some (st\<lparr>sm_run := None\<rparr>)) (sim_view d) = set_stmt s (Some (st\<lparr>sm_run := run\<rparr>)) v"
    by (intro exI [of _ None] exI [of _ "sim_view d"]) (simp add: tx_lost_def)
  have "(rc, d') = sim_insert s st (p, Some db) (sim_tick d)" using True st run by (auto simp: sim_step_def)
  then show ?thesis using sim_healthy_tick [of d] lost
    by (auto simp: sim_insert_def Let_def cur sim_healthy_def set_current_def split: option.splits if_splits)
next
  case False
  have "map_of (sim_stmts d) s = Some st" "map_of (sim_conns d) (sm_db st) = Some (p, Some db)" using st by simp_all
  from sim_step_lost [OF this False] run sim_healthy_tick [of d] False show ?thesis by auto
qed

interpretation sim: sqlite_library sim_api sim_view sim_healthy sim_max
proof
  show "sim_max < 2 ^ 31" by (simp add: sim_max_def)
next
  fix path d rc opened d' assume "sqlite3_open sim_api path d = ((rc, opened), d')"
  then show "(sim_healthy d \<longrightarrow> sim_healthy d' \<and> rc = SQLITE_OK) \<and> (rc = SQLITE_OK \<longrightarrow> opened \<noteq> None) \<and>
      (case opened of None \<Rightarrow> sim_view d' = sim_view d
       | Some h \<Rightarrow> vw_conns (sim_view d) h = None \<and> (\<forall>s st. vw_stmts (sim_view d) s = Some st \<longrightarrow> sm_db st \<noteq> h) \<and>
           sim_view d' = set_conn h (Some (path, None)) (sim_view d))"
    by (intro sim_open_law) (simp add: sim_api_def)
next
  fix cmd d h c rc err d'
  assume "cmd \<in> set store_commands" "vw_conns (sim_view d) h = Some c" "sqlite3_exec sim_api h (command_text cmd) d = ((rc, err), d')"
  then show "(sim_healthy d \<longrightarrow> sim_healthy d') \<and>
      (if rc = SQLITE_OK then exec_allowed cmd (snd c) \<and> sim_view d' = exec_effect cmd h c (sim_view d)
       else \<not> (sim_healthy d \<and> exec_allowed cmd (snd c)) \<and> tx_lost h (sim_view d) (sim_view d'))"
    by (intro sim_exec_law) (simp_all add: sim_api_def)
next
  fix d h c q rc s d'
  assume "vw_conns (sim_view d) h = Some c" "sqlite3_prepare_v2 sim_api h (sql_text q) d = ((rc, s), d')"
  then show "(sim_healthy d \<longrightarrow> sim_healthy d') \<and>
      (if rc = SQLITE_OK
       then sql_ready q (current_db (sim_view d) c) \<and> vw_stmts (sim_view d) s = None \<and>
         sim_view d' = set_stmt s (Some \<lparr>sm_db = h, sm_sql = q, sm_args = (\<lambda>_. SqlNull), sm_run = None\<rparr>) (sim_view d)
       else \<not> (sim_healthy d \<and> sql_ready q (current_db (sim_view d) c)) \<and> tx_lost h (sim_view d) (sim_view d'))"
    by (intro sim_prepare_law) (simp_all add: sim_api_def)
next
  fix d s st c rows rc d'
  assume "vw_stmts (sim_view d) s = Some st" "vw_conns (sim_view d) (sm_db st) = Some c" "sm_sql st \<notin> {InsertSegment, InsertRecord}"
    "case sm_run st of None \<Rightarrow> rows_determined (sm_sql st) (sm_args st) (current_db (sim_view d) c) \<and>
        rows = sql_rows (sm_sql st) (sm_args st) (current_db (sim_view d) c) | Some (r, rest) \<Rightarrow> rows = rest"
    "sqlite3_step sim_api s d = (rc, d')"
  then show "(sim_healthy d \<longrightarrow> sim_healthy d') \<and>
      (if rc = SQLITE_ROW then \<exists>r rest. rows = r # rest \<and> sim_view d' = set_stmt s (Some (st\<lparr>sm_run := Some (r, rest)\<rparr>)) (sim_view d)
       else if rc = SQLITE_DONE then rows = [] \<and> (\<exists>run. sim_view d' = set_stmt s (Some (st\<lparr>sm_run := run\<rparr>)) (sim_view d))
       else \<not> sim_healthy d \<and> (\<exists>run v. tx_lost (sm_db st) (sim_view d) v \<and> sim_view d' = set_stmt s (Some (st\<lparr>sm_run := run\<rparr>)) v))"
    by (intro sim_select_law) (simp_all add: sim_api_def)
next
  fix d s st p db rc d'
  assume "vw_stmts (sim_view d) s = Some st" "vw_conns (sim_view d) (sm_db st) = Some (p, Some db)" "sm_sql st \<in> {InsertSegment, InsertRecord}"
    "sqlite3_step sim_api s d = (rc, d')"
  then show "(sim_healthy d \<longrightarrow> sim_healthy d') \<and>
      (if rc = SQLITE_DONE
       then \<exists>db' run. sql_effect (sm_sql st) (sm_args st) db = Some db' \<and>
         sim_view d' = set_stmt s (Some (st\<lparr>sm_run := run\<rparr>)) (set_conn (sm_db st) (Some (p, Some db')) (sim_view d))
       else \<not> (sim_healthy d \<and> sql_effect (sm_sql st) (sm_args st) db \<noteq> None \<and> foreign_ok (sm_sql st) (sm_args st) db \<and>
              row_size (sm_sql st) (sm_args st) \<le> sim_max) \<and>
         (\<exists>run v. tx_lost (sm_db st) (sim_view d) v \<and> sim_view d' = set_stmt s (Some (st\<lparr>sm_run := run\<rparr>)) v))"
    by (intro sim_insert_law) (simp_all add: sim_api_def)
next
  fix d s st i b assume st: "vw_stmts (sim_view d) s = Some st" "sm_run st = None"
  show "(sim_view (sqlite3_bind_blob sim_api s i b d) = set_stmt s (Some (st\<lparr>sm_args := (sm_args st)(i := opt_value SqlBlob b)\<rparr>)) (sim_view d) \<and>
         (\<forall>bs. b = Some bs \<longrightarrow> length bs \<le> sim_max) \<or>
       sim_view (sqlite3_bind_blob sim_api s i b d) = sim_view d \<and> \<not> (sim_healthy d \<and> (\<forall>bs. b = Some bs \<longrightarrow> length bs \<le> sim_max))) \<and>
      (sim_healthy d \<longrightarrow> sim_healthy (sqlite3_bind_blob sim_api s i b d))"
    using sim_bind_bytes_law [OF st, where mk = SqlBlob] by (simp add: sim_api_def)
  show "(sim_view (sqlite3_bind_text sim_api s i b d) = set_stmt s (Some (st\<lparr>sm_args := (sm_args st)(i := opt_value SqlText b)\<rparr>)) (sim_view d) \<and>
         (\<forall>bs. b = Some bs \<longrightarrow> length bs \<le> sim_max) \<or>
       sim_view (sqlite3_bind_text sim_api s i b d) = sim_view d \<and> \<not> (sim_healthy d \<and> (\<forall>bs. b = Some bs \<longrightarrow> length bs \<le> sim_max))) \<and>
      (sim_healthy d \<longrightarrow> sim_healthy (sqlite3_bind_text sim_api s i b d))"
    using sim_bind_bytes_law [OF st, where mk = SqlText] by (simp add: sim_api_def)
qed (simp_all add: sim_api_def sim_healthy_def sim_bind_def sim_column_def)

end
