(* ===== verification/Vicarl_SqliteStore.thy ===== *)
theory Vicarl_SqliteStore
  imports Vicarl_SqliteQuery Vicarl_SqlSim
begin

text \<open>
  The SQLite store as a whole: a store on the simulated library, the store as an instance of the contract
  \<^verbatim>\<open>segment_store\<close>, and the properties of its operations on every library that keeps the contract.
\<close>

section \<open>A store for examples\<close>

text \<open>A store on the simulated library, in the file \<open>d\<close>, with the chain \<open>segs\<close>.\<close>

definition sim_store :: "bytes list \<Rightarrow> bool \<Rightarrow> sim_event list \<Rightarrow> sim sqlite_world" where
  "sim_store segs index script =
     \<lparr>w_heap = \<lparr>hp_next = 2, hp_live = {1}, hp_bad = False, hp_oom = []\<rparr>,
      w_env = \<lparr>se_impl = Some \<lparr>sq_ptr = 1, sq_db = Some 1, sq_tip_no = of_nat (length segs), sq_tip_hash = tip_hash_of segs,
                 sq_has_tip = (segs \<noteq> []), record_index_enabled = index\<rparr>,
               se_lib = \<lparr>sim_files = [(''d'', \<lparr>db_segments = Some (seg_rows segs), db_records = Some (chain_index segs)\<rparr>)],
                  sim_conns = [(1, (''d'', None))], sim_stmts = [], sim_script = script\<rparr>\<rparr>\<rparr>"

lemma sim_store_at:
  assumes "chain_ok segs"
  shows "sqlite_inv sim_view ''d'' index heap_plenty (sim_store segs index script)" "sqlite_chain sim_view (sim_store segs index script) = segs"
    "list_all (\<lambda>e. e = Works) script \<Longrightarrow> sqlite_good sim_view sim_healthy index True (sim_store segs index script)"
proof -
  let ?w = "sim_store segs index script"
  let ?ss = "\<lparr>sq_ptr = 1, sq_db = Some 1, sq_tip_no = of_nat (length segs), sq_tip_hash = tip_hash_of segs, sq_has_tip = (segs \<noteq> []), record_index_enabled = index\<rparr>"
  have impl: "se_impl (w_env ?w) = Some ?ss" by (simp add: sim_store_def)
  have at: "sqlite_at (sim_view (w_lib ?w)) ?ss 1 ''d'' None segs"
    using assms by (simp add: sim_store_def w_lib_def sqlite_at_def sim_view_def idle_def tip_is_def chain_db_def)
  show "sqlite_inv sim_view ''d'' index heap_plenty ?w"
    by (rule sqlite_invI [where view = sim_view and w = ?w, OF _ impl _ _ at]) (simp_all add: sim_store_def heap_plenty_def heap_wf_def)
  note db = sqlite_db_at [where view = sim_view and w = ?w, OF impl at]
  then show "sqlite_chain sim_view ?w = segs" by simp
  have "db_chain (vw_files (sim_view (w_lib ?w)) ''d'') = segs" by (rule db_chain_rows) (use at in \<open>simp add: sqlite_at_def\<close>)
  moreover assume "list_all (\<lambda>e. e = Works) script"
  ultimately show "sqlite_good sim_view sim_healthy index True ?w"
    using db by (auto simp: sqlite_good_def sim_healthy_def sim_store_def w_lib_def sim_view_def)
qed

text \<open>A segment with one record.\<close>

definition sample_segment :: bytes where
  "sample_segment = segment_wire \<lparr>segment_no = 1, prev_segment_hash = zero_hash, record_count = 1, records_merkle_root = zero_hash, hdr_timestamp_ms = 0\<rparr>
     [sample_record] None"

lemma sample_segment_records: "seg_records_of sample_segment = [sample_record]"
proof -
  let ?h = "\<lparr>segment_no = 1, prev_segment_hash = zero_hash, record_count = 1, records_merkle_root = zero_hash, hdr_timestamp_ms = 0\<rparr>"
  have "\<exists>rs. segment_spec (segment_wire ?h [sample_record] None) = Inr (?h, rs, False, replicate 64 0) \<and> map slice_bytes rs = [sample_record]"
    using segment_spec_wire [of ?h "[sample_record]" None] sample_record_size by (simp add: hdr_wf_def sig_wf_def count_ok_def size_mod_def)
  then show ?thesis by (auto simp: seg_records_of_def sample_segment_def)
qed

lemma sample_segment_size: "length sample_segment < 300"
  using sample_record_size by (simp add: sample_segment_def segment_wire_def VICARL_SEG_MAGIC_def leb128_small ldbytes_def)

lemma sample_chain_ok: "chain_ok []" "chain_ok [sample_segment]"
  using sample_segment_size by (simp_all add: chain_ok_def size_mod_def seg_limit_def)

lemma sample_refs: "chain_refs [sample_segment] = [(1, 0, sample_record)]" "chain_records [sample_segment] = [sample_record]"
  by (simp_all add: chain_refs_def seg_refs_def chain_records_def sample_segment_records)

lemma sample_query_record: "query_record_ok sample_record" and sample_meta: "timestamp_ms (meta_of sample_record) = 2"
  using record_spec_wire [of "\<lparr>namespace_utf8 = slice_of [], schema_utf8 = slice_of [], author = replicate 32 0, seq = 1, timestamp_ms = 2\<rparr>" "slice_of [7]" None]
  by (auto simp: query_record_ok_def meta_of_def sample_record_def meta_wf_def sig_wf_def size_mod_def fields_match_def)

lemma genesis_records: "seg_records_of genesis = []"
  using genesis_spec by (auto simp: seg_records_of_def)

lemma genesis_fits: "sqlite_fits sim_max index [] genesis"
  using genesis_size by (simp add: sqlite_fits_def index_fits_def genesis_records seg_index_def sim_max_def)

section \<open>The stores on the simulated library\<close>

interpretation sqlite_libc: segment_store heap_wf "sqlite_handle default_allocator sim_api p opt" "sqlite_inv sim_view fl index heap_wf" sqlite_own
  "sqlite_good sim_view sim_healthy index False" "sqlite_chain sim_view" sqlite_lim "sqlite_fits sim_max index"
  for p opt fl index
  by (rule sqlite_library.sqlite_segment_store [OF sim.sqlite_library_axioms libc_contract])

interpretation sqlite_plenty: segment_store heap_plenty "sqlite_handle default_allocator sim_api p opt" "sqlite_inv sim_view fl index heap_plenty" sqlite_own
  "sqlite_good sim_view sim_healthy index True" "sqlite_chain sim_view" sqlite_lim "sqlite_fits sim_max index"
  for p opt fl index
  by (rule sqlite_library.sqlite_segment_store [OF sim.sqlite_library_axioms libc_reliable])

section \<open>The index in order\<close>

text \<open>No transaction is left over and the index has exactly the records of the chain; the library may still fail.\<close>

definition index_in_order :: "('d \<Rightarrow> sql_view) \<Rightarrow> 'd sqlite_world \<Rightarrow> bool" where
  "index_in_order view w \<longleftrightarrow> (\<exists>db. sqlite_db view w = Some (db, True) \<and> db_records db = Some (chain_index (db_chain db)))"

lemma good_in_order: "sqlite_good view healthy True rel w \<Longrightarrow> index_in_order view w"
  by (auto simp: sqlite_good_def index_in_order_def)

lemma in_orderE:
  assumes "sqlite_inv view file index ok w" "index_in_order view w"
  obtains ss h where "ok (w_heap w)" "se_impl (w_env w) = Some ss" "sq_ptr ss \<in> hp_live (w_heap w)" "record_index_enabled ss = index"
    "sqlite_at (view (w_lib w)) ss h file None (sqlite_chain view w)"
    "db_records (vw_files (view (w_lib w)) file) = Some (chain_index (sqlite_chain view w))"
proof (rule sqlite_invE [OF assms(1)])
  fix ss h tx
  assume a: "ok (w_heap w)" "se_impl (w_env w) = Some ss" "sq_ptr ss \<in> hp_live (w_heap w)" "record_index_enabled ss = index"
    "sqlite_at (view (w_lib w)) ss h file tx (sqlite_chain view w)" "sqlite_db view w = Some (vw_files (view (w_lib w)) file, tx = None)"
  then have "tx = None" "db_records (vw_files (view (w_lib w)) file) = Some (chain_index (sqlite_chain view w))"
    using assms(2) by (auto simp: index_in_order_def sqlite_chain_def)
  with a show thesis using that by simp
qed

context sqlite_library
begin

lemma kept_same:
  assumes "se_impl (w_env w) = Some ss" "sqlite_at (view (w_lib w)) ss h file tx segs" "record_index_enabled ss = index"
    and r: "reach ok w M v' w'" and lost: "tx_lost h (view (w_lib w)) v'" and "sq_ptr ss \<in> M"
  shows "sqlite_inv view file index ok w'" "sqlite_chain view w' = segs" "sqlite_good view healthy index rel w \<Longrightarrow> sqlite_good view healthy index rel w'"
    "hp_live (w_heap w') = M"
proof -
  from kept_reach [OF assms(1-3) r lost assms(6), of rel]
  show "sqlite_inv view file index ok w'" "sqlite_chain view w' = segs" "sqlite_good view healthy index rel w \<Longrightarrow> sqlite_good view healthy index rel w'"
    "hp_live (w_heap w') = M" by (auto simp: kept_def heap_to_def)
qed

end

section \<open>Properties\<close>

text \<open>C9. Appending to the SQLite store is atomic on every library that keeps its contract, whatever call fails and wherever:
  \<^verbatim>\<open>vicarl_store_append_segment\<close> either returns the number and the hash of the segment and the committed chain is
  longer by exactly this segment, or it returns an error and the committed chain is as it was. In both cases the store is consistent
  (its tip in memory is the last committed segment, no statement is left open, the index if any and in good order has exactly
  the records of the chain) and no block is leaked. In good order (library and memory work, no transaction left over) a
  segment that continues the chain and fits the limits of the library is never refused.\<close>
theorem sqlite_append_atomic:
  assumes "sqlite_library L view healthy max_len" and "alloc_rel A ok rel" and "sqlite_inv view file index ok w"
    and "slice_wf enc" and "sl_len enc < sqlite_lim" and "length (sqlite_chain view w) + 2 < size_mod"
  shows "outcome (vicarl_store_append_segment (sqlite_handle A L p opt) enc True)
    (\<lambda>r w'. r = (of_nat (length (sqlite_chain view w) + 1), sha256 (slice_bytes enc)) \<and>
       sqlite_chain view w' = sqlite_chain view w @ [slice_bytes enc] \<and> sqlite_inv view file index ok w' \<and>
       (sqlite_good view healthy index rel w \<longrightarrow> sqlite_good view healthy index rel w') \<and> hp_live (w_heap w') = hp_live (w_heap w))
    (\<lambda>e w'. \<not> (sqlite_good view healthy index rel w \<and> sqlite_fits max_len index (sqlite_chain view w) (slice_bytes enc) \<and>
         next_segment (sqlite_chain view w) (slice_bytes enc)) \<and>
       sqlite_chain view w' = sqlite_chain view w \<and> sqlite_inv view file index ok w' \<and>
       (sqlite_good view healthy index rel w \<longrightarrow> sqlite_good view healthy index rel w') \<and> hp_live (w_heap w') = hp_live (w_heap w)) w"
  by (rule outcome_mono [OF segment_store.append_law [OF sqlite_library.sqlite_segment_store [OF assms(1,2)] assms(3-6)]])
     (simp_all add: kept_def heap_to_def)

theorem sqlite_append_atomic_witness:
  "(\<exists>w'. vicarl_store_append_segment (sqlite_handle default_allocator sim_api 9 zero_options) (slice_of genesis) True (sim_store [] True []) =
      (Inr (1, sha256 genesis), w') \<and> sqlite_chain sim_view w' = [genesis]) \<and>
   (\<exists>r w'. vicarl_store_append_segment (sqlite_handle default_allocator sim_api 9 zero_options) (slice_of genesis) True (sim_store [] True [Works, Fails, FailsRollback]) =
      (r, w') \<and> sqlite_chain sim_view w' \<in> {[], [genesis]})"
proof -
  note at = sim_store_at [OF sample_chain_ok(1), where index = True]
  have inv: "sqlite_inv sim_view ''d'' True heap_plenty (sim_store [] True script)" for script by (rule at(1))
  let ?s = "sqlite_handle default_allocator sim_api 9 zero_options :: (sim sqlite_env, unit) vicarl_store option"
  have pre: "slice_wf (slice_of genesis)" "sl_len (slice_of genesis) < sqlite_lim" "length (sqlite_chain sim_view (sim_store [] True script)) + 2 < size_mod" for script
    using genesis_size by (simp_all add: size_mod_def sqlite_lim_def at(2))
  note run = sqlite_append_atomic [OF sim.sqlite_library_axioms libc_reliable inv pre, where p = 9 and opt = zero_options]
  have "\<exists>w'. vicarl_store_append_segment ?s (slice_of genesis) True (sim_store [] True []) = (Inr (1, sha256 genesis), w') \<and> sqlite_chain sim_view w' = [genesis]"
    using run [of "[]"] genesis_next genesis_fits [of True] at(3) [of "[]"]
    by (auto simp: outcome_def at(2) split: prod.splits sum.splits)
  moreover have "\<exists>r w'. vicarl_store_append_segment ?s (slice_of genesis) True (sim_store [] True [Works, Fails, FailsRollback]) = (r, w') \<and> sqlite_chain sim_view w' \<in> {[], [genesis]}"
    using run [of "[Works, Fails, FailsRollback]"] by (auto simp: outcome_def at(2) split: prod.splits sum.splits)
  ultimately show ?thesis by simp
qed

text \<open>C15. Restart: whatever a consistent SQLite store has committed is found again by \<^verbatim>\<open>vicarl_store_open_sqlite\<close> on the same file, in a new
  process or after a crash, whatever options it is opened with: the tables and settings are created only where missing, the last segment becomes the tip and
  the chain is the same. The caller owns exactly the blocks of the new store. Opening fails only when a call of the library or an allocation
  does; then the connection is closed, no row of any file has changed and no block is left behind. When nothing fails
  and the index, if asked for, was in order, the new store is in good order.\<close>
theorem sqlite_restart:
  fixes opt :: vicarl_store_options
  assumes "sqlite_library L view healthy max_len" and "alloc_rel A ok rel" and "sqlite_inv view file index ok w" and "file \<noteq> []"
    and "length (sqlite_chain view w) < 2 ^ 63" and "ok (w_heap w1)" and "vw_files (view (w_lib w1)) file = vw_files (view (w_lib w)) file"
  shows "outcome (vicarl_store_open_sqlite A L (Some file) (Some opt) True)
    (\<lambda>st w'. Some st = sqlite_handle A L (st_ptr st) opt \<and> sqlite_inv view file (enable_record_index opt \<noteq> 0) ok w' \<and> sqlite_chain view w' = sqlite_chain view w \<and>
       hp_live (w_heap w') = hp_live (w_heap w1) \<union> {st_ptr st} \<union> sqlite_own w' \<and> ({st_ptr st} \<union> sqlite_own w') \<inter> hp_live (w_heap w1) = {} \<and>
       (rel \<and> healthy (w_lib w1) \<and> (enable_record_index opt \<noteq> 0 \<longrightarrow> index_in_order view w) \<longrightarrow> sqlite_good view healthy (enable_record_index opt \<noteq> 0) rel w'))
    (\<lambda>e w'. (sql_error e \<or> e = err_oom) \<and> \<not> (rel \<and> healthy (w_lib w1)) \<and> hp_live (w_heap w') = hp_live (w_heap w1) \<and>
       vw_conns (view (w_lib w')) = vw_conns (view (w_lib w1)) \<and>
       (\<forall>q. seg_table (vw_files (view (w_lib w')) q) = seg_table (vw_files (view (w_lib w1)) q) \<and>
          rec_table (vw_files (view (w_lib w')) q) = rec_table (vw_files (view (w_lib w1)) q))) w1"
proof -
  let ?segs = "sqlite_chain view w"
  have rows: "seg_table (vw_files (view (w_lib w1)) file) = seg_rows ?segs" "chain_ok ?segs"
    using sqlite_inv_rows [OF assms(3)] assms(7) by simp_all
  have index: "rec_table (vw_files (view (w_lib w1)) file) = chain_index ?segs" if "index_in_order view w"
    by (rule in_orderE [OF assms(3) that]) (use assms(7) in \<open>simp add: rec_table_def\<close>)
  show ?thesis
  proof (rule outcome_mono [OF sqlite_library.sqlite_open_outcome [OF assms(1,2,6,4) rows assms(5) refl, where opt = "Some opt"]], goal_cases)
    case (1 st w')
    then show ?case using index by (auto simp: sqlite_library.sqlite_opened_def [OF assms(1)] heap_to_def)
  next
    case (2 e w')
    then obtain cs where "(sql_error e \<or> e = err_oom) \<and> \<not> (rel \<and> healthy (w_lib w1))"
      and r: "heap_to ok (w_heap w1) (hp_live (w_heap w1)) (w_heap w')"
        "view (w_lib w') = set_file file (fold create_in cs (vw_files (view (w_lib w1)) file)) (view (w_lib w1))"
      by (auto simp: sqlite_library.open_failed_def [OF assms(1)] sqlite_library.reach_def [OF assms(1)])
    then show ?case by (auto simp: heap_to_def set_file_def fold_create)
  qed
qed

theorem sqlite_restart_witness:
  "\<exists>st w'. vicarl_store_open_sqlite default_allocator sim_api (Some ''d'') (Some zero_options) True (sim_store [sample_segment] True []) = (Inr st, w') \<and>
     sqlite_inv sim_view ''d'' False heap_plenty w' \<and> sqlite_chain sim_view w' = [sample_segment]"
proof -
  let ?w = "sim_store [sample_segment] True []"
  note at = sim_store_at [OF sample_chain_ok(2), where index = True and script = "[]"]
  have pre: "length (sqlite_chain sim_view ?w) < 2 ^ 63" "heap_plenty (w_heap ?w)" "sim_healthy (w_lib ?w)"
    using at(2) by (simp_all add: sim_store_def heap_plenty_def heap_wf_def sim_healthy_def w_lib_def)
  have "enable_record_index zero_options = 0" by (simp add: zero_options_def)
  with sqlite_restart [OF sim.sqlite_library_axioms libc_reliable at(1) _ pre(1,2) refl, of zero_options] pre(3) at(2)
  show ?thesis by (auto simp: outcome_def split: prod.splits sum.splits)
qed

text \<open>C19. Records are found by their identifier: on a store whose index is in order, \<^verbatim>\<open>vicarl_store_get_record\<close> returns, in a block of the caller, exactly
  the bytes of a record of the chain with this identifier. When the library works it reports not-found only for identifiers of no
  record of the chain; any other error is an error of the library or of memory. The store is as before and nothing is leaked.\<close>
theorem sqlite_get_record_correct:
  assumes "sqlite_library L view healthy max_len" and "alloc_rel A ok rel" and "sqlite_inv view file True ok w" and "index_in_order view w"
    and "length rid = 32" and "32 \<le> max_len"
  shows "outcome (vicarl_store_get_record (sqlite_handle A L p opt) (Some rid) True)
    (\<lambda>b w'. (\<exists>r \<in> set (chain_records (sqlite_chain view w)). sha256 r = rid \<and> holds_bytes b r) \<and> own_bytes b \<inter> hp_live (w_heap w) = {} \<and>
       hp_live (w_heap w') = hp_live (w_heap w) \<union> own_bytes b \<and> sqlite_chain view w' = sqlite_chain view w \<and> sqlite_inv view file True ok w')
    (\<lambda>e w'. (e = VErr VICARL_ERR_NOT_FOUND None \<and> (healthy (w_lib w) \<longrightarrow> rid \<notin> sha256 ` set (chain_records (sqlite_chain view w))) \<or>
         (sql_error e \<or> e = err_oom) \<and> \<not> (rel \<and> healthy (w_lib w))) \<and>
       hp_live (w_heap w') = hp_live (w_heap w) \<and> sqlite_chain view w' = sqlite_chain view w \<and> sqlite_inv view file True ok w') w"
proof (rule in_orderE [OF assms(3,4)])
  let ?segs = "sqlite_chain view w" and ?M = "hp_live (w_heap w)"
  fix ss h
  assume at: "ok (w_heap w)" "se_impl (w_env w) = Some ss" "sq_ptr ss \<in> ?M" "record_index_enabled ss = True"
    "sqlite_at (view (w_lib w)) ss h file None ?segs" "db_records (vw_files (view (w_lib w)) file) = Some (chain_index ?segs)"
  have rec: "record_index_enabled ss" using at(4) by simp
  have same: "sqlite_inv view file True ok w' \<and> sqlite_chain view w' = ?segs \<and> hp_live (w_heap w') = M"
    if "sqlite_library.reach view healthy ok w M (view (w_lib w)) w'" "sq_ptr ss \<in> M" for M w'
    using sqlite_library.kept_same [OF assms(1) at(2,5,4) that(1) _ that(2)] by (simp add: tx_lost_def)
  show ?thesis
    unfolding sqlite_handle_ops
    by (rule outcome_mono [OF sqlite_library.get_record_outcome [OF assms(1,2) at(1,2,5) rec at(6) assms(5,6)]]) (use same at(3) in blast)+
qed

theorem sqlite_get_record_correct_witness:
  "\<exists>b w'. vicarl_store_get_record (sqlite_handle default_allocator sim_api 9 zero_options) (Some (sha256 sample_record)) True
       (sim_store [sample_segment] True []) = (Inr b, w') \<and> by_data b = sample_record"
proof -
  let ?w = "sim_store [sample_segment] True []"
  note at = sim_store_at [OF sample_chain_ok(2), where index = True and script = "[]"]
  have good: "sqlite_good sim_view sim_healthy True True ?w" using at(3) by simp
  have "index_in_order sim_view ?w" "sim_healthy (w_lib ?w)" using good_in_order [OF good] good by (auto simp: sqlite_good_def)
  with sqlite_get_record_correct [OF sim.sqlite_library_axioms libc_reliable at(1) _ sha256_length [of sample_record], where p = 9 and opt = zero_options] at(2)
  show ?thesis by (auto simp: outcome_def sample_refs holds_bytes_def sim_max_def split: prod.splits sum.splits)
qed

text \<open>C32. Iterating over the SQLite store ends and is complete: while no transaction is left over, \<^verbatim>\<open>vicarl_store_iter_segments\<close> from
  segment \<open>i\<close> (zero counts as one) calls the callback with the number and the hash of every segment from \<open>i\<close> to the tip, in order,
  and stops early only when the callback fails, whose status it returns, or when the library fails,
  which is reported as an error after the callback has seen the first of these segments. The store and the heap are as before.\<close>
theorem sqlite_iter_complete:
  fixes cb :: "'u segment_iter_fn"
  assumes "sqlite_library L view healthy max_len" and "sqlite_inv view file index ok w" and "sqlite_db view w = Some (db, True)"
    and "length (sqlite_chain view w) < 2 ^ 63" and "i < 2 ^ 63"
  shows "\<exists>r w' u'. vicarl_store_iter_segments (sqlite_handle A L p opt) (of_nat i) (Some cb) (w, u) = Some (r, w', u') \<and>
    (iter_spec cb (of_nat (max 1 i)) (drop (i - 1) (sqlite_chain view w)) u = (r, u') \<or>
     \<not> healthy (w_lib w) \<and> (\<exists>e k. r = Inl e \<and> sql_error e \<and> iter_spec cb (of_nat (max 1 i)) (take k (drop (i - 1) (sqlite_chain view w))) u = (Inr (), u'))) \<and>
    sqlite_chain view w' = sqlite_chain view w \<and> sqlite_inv view file index ok w' \<and> hp_live (w_heap w') = hp_live (w_heap w)"
proof (rule sqlite_invE [OF assms(2)])
  let ?segs = "sqlite_chain view w" and ?M = "hp_live (w_heap w)" and ?v = "view (w_lib w)"
  let ?xs = "drop (i - 1) ?segs"
  let ?rows = "zip (map (\<lambda>j. of_nat (Suc j) :: u64) [i - 1..<length ?segs]) ?xs"
  fix ss h tx
  assume at: "ok (w_heap w)" "se_impl (w_env w) = Some ss" "sq_ptr ss \<in> ?M" "record_index_enabled ss = index"
    "sqlite_at ?v ss h file tx ?segs" "sqlite_db view w = Some (vw_files ?v file, tx = None)"
  then have at': "sqlite_at ?v ss h file None ?segs" using assms(3) by simp
  have visit: "visit_rows (\<lambda>(no, bs). cb no (sha256 bs)) (take k ?rows) = iter_spec cb (of_nat (max 1 i)) (take k ?xs)" for k
  proof -
    have "take k ?rows = zip (map (\<lambda>j. of_nat (Suc j) :: u64) [i - 1..<i - 1 + length (take k ?xs)]) (take k ?xs)"
    proof (cases "i - 1 \<le> length ?segs")
      case True
      then have "take k [i - 1..<length ?segs] = [i - 1..<i - 1 + length (take k ?xs)]" by (simp add: take_upt min_def)
      then show ?thesis by (simp add: take_zip take_map)
    qed simp
    moreover have "Suc (i - 1) = max 1 i" by auto
    ultimately show ?thesis by (simp only: visit_iter_spec)
  qed
  have all: "take (length ?segs) ?rows = ?rows" "take (length ?segs) ?xs = ?xs" by auto
  have same: "sqlite_inv view file index ok w' \<and> sqlite_chain view w' = ?segs \<and> hp_live (w_heap w') = ?M"
    if "sqlite_library.reach view healthy ok w ?M v' w'" "tx_lost h ?v v'" for v' w'
    using sqlite_library.kept_same [OF assms(1) at(2) at' at(4) that at(3)] by simp
  have "tx_lost h ?v ?v" by (simp add: tx_lost_def)
  with sqlite_library.iter_segments_done [where view = view and w = w and ok = ok and L = L, OF assms(1) at(1,2) at' assms(4,5), where cb = cb and u = u] same visit visit [of "length ?segs", unfolded all]
  show ?thesis unfolding sqlite_library.rows_done_def [OF assms(1)] sqlite_handle_ops by metis
qed

theorem sqlite_iter_complete_witness:
  "(\<exists>w'. vicarl_store_iter_segments (sqlite_handle default_allocator sim_api 9 zero_options) 0
       (Some (\<lambda>no h u. (Inr (), u @ [(no, h)]))) (sim_store [sample_segment] True [], []) = Some (Inr (), w', [(1, sha256 sample_segment)]))"
proof -
  let ?w = "sim_store [sample_segment] True []"
  note at = sim_store_at [OF sample_chain_ok(2), where index = True and script = "[]"]
  have good: "sqlite_good sim_view sim_healthy True True ?w" using at(3) by simp
  then obtain db where "sqlite_db sim_view ?w = Some (db, True)" "sim_healthy (w_lib ?w)" by (auto simp: sqlite_good_def)
  with sqlite_iter_complete [OF sim.sqlite_library_axioms at(1), of db 0 default_allocator 9 zero_options "\<lambda>no h u. (Inr (), u @ [(no, h)])" "[]"] at(2)
  show ?thesis by (auto simp: bindr_def retr_def)
qed

text \<open>C14. Record queries: on a store in good order, \<^verbatim>\<open>vicarl_store_query_records\<close> calls the callback with the identifier, the segment and
  the place of exactly the records of the chain that match the filter, in the order of the chain, at most as many as the limit
  allows, and stops early only when the callback fails. So the SQL text built for the filter, the parameters bound and the index together mean the
  filter. The store and the heap are as before. (Texts without NUL bytes and times below 2^63.)\<close>
theorem sqlite_query_correct:
  fixes cb :: "'u record_iter_fn"
  assumes "sqlite_library L view healthy max_len" and "sqlite_inv view file True ok w" and "sqlite_good view healthy True rel w"
    and "length (sqlite_chain view w) < 2 ^ 63" and "query_ok max_len flt (sqlite_chain view w)"
  shows "\<exists>r w' u'. vicarl_store_query_records (sqlite_handle A L p opt) flt (Some cb) (w, u) = Some (r, w', u') \<and>
    visit_rows (\<lambda>(no, j, rec). cb (sha256 rec) (of_nat no) (of_nat j)) (query_spec flt (sqlite_chain view w)) u = (r, u') \<and>
    sqlite_chain view w' = sqlite_chain view w \<and> sqlite_inv view file True ok w' \<and> sqlite_good view healthy True rel w' \<and> hp_live (w_heap w') = hp_live (w_heap w)"
proof (rule in_orderE [OF assms(2) good_in_order [OF assms(3)]])
  let ?segs = "sqlite_chain view w" and ?M = "hp_live (w_heap w)" and ?v = "view (w_lib w)"
  fix ss h
  assume at: "ok (w_heap w)" "se_impl (w_env w) = Some ss" "sq_ptr ss \<in> ?M" "record_index_enabled ss = True"
    "sqlite_at ?v ss h file None ?segs" "db_records (vw_files ?v file) = Some (chain_index ?segs)"
  have rec: "record_index_enabled ss" "healthy (w_lib w)" using at(4) assms(3) by (auto simp: sqlite_good_def)
  from sqlite_library.query_records_done [where view = view and healthy = healthy and w = w and ok = ok and L = L and flt = flt, OF assms(1) at(1,2,5) assms(4) rec(1) at(6) assms(5) rec(2), where cb = cb and u = u] rec(2)
  obtain r w' u' where run: "sqlite_query_records L flt (Some cb) (w, u) = Some (r, w', u')"
    "visit_rows (\<lambda>(no, j, rec). cb (sha256 rec) (of_nat no) (of_nat j)) (query_spec flt ?segs) u = (r, u')"
    "sqlite_library.reach view healthy ok w ?M ?v w'" unfolding sqlite_library.rows_done_def [OF assms(1)] by blast
  have "tx_lost h ?v ?v" by (simp add: tx_lost_def)
  from sqlite_library.kept_same [OF assms(1) at(2,5,4) run(3) this at(3)] assms(3) run(1,2) show ?thesis unfolding sqlite_handle_ops by blast
qed

theorem sqlite_query_correct_witness:
  "\<exists>w'. vicarl_store_query_records (sqlite_handle default_allocator sim_api 9 zero_options)
       (Some \<lparr>flt_namespace = slice_of [], flt_schema = slice_of [], flt_author = replicate 32 0, time_from_ms = 1, time_to_ms = 0, flt_limit = 5\<rparr>)
       (Some (\<lambda>rid no i u. (Inr (), u @ [(rid, no, i)]))) (sim_store [sample_segment] True [], []) = Some (Inr (), w', [(sha256 sample_record, 1, 0)])"
proof -
  let ?w = "sim_store [sample_segment] True []"
  let ?f = "\<lparr>flt_namespace = slice_of [], flt_schema = slice_of [], flt_author = replicate 32 0, time_from_ms = 1, time_to_ms = 0, flt_limit = 5\<rparr>"
  note at = sim_store_at [OF sample_chain_ok(2), where index = True and script = "[]"]
  have good: "sqlite_good sim_view sim_healthy True True ?w" using at(3) by simp
  have ok: "query_ok sim_max (Some ?f) [sample_segment]" by (simp add: query_ok_def query_filter_ok_def sample_refs sample_query_record sim_max_def size_mod_def)
  have "record_matches (Some ?f) sample_record" by (simp add: record_matches_def filter_has_text_def sample_meta hash_is_zero32_def zero_hash_def)
  then have "query_spec (Some ?f) [sample_segment] = [(1, 0, sample_record)]" by (simp add: query_spec_def query_limit_def sample_refs)
  with sqlite_query_correct [OF sim.sqlite_library_axioms at(1) good, of "Some ?f" default_allocator 9 zero_options "\<lambda>rid no i u. (Inr (), u @ [(rid, no, i)])" "[]"] at(2) ok
  show ?thesis by (auto simp: bindr_def retr_def)
qed

text \<open>C33. The text of a record query fits its buffer: for every filter the calls of \<^verbatim>\<open>strcpy\<close> and \<^verbatim>\<open>strcat\<close> that put the query together stay within the
  512 bytes of \<^verbatim>\<open>sql\<close>, including the final NUL, and the result is the statement that has exactly the conditions of the filter, joined by
  \<^verbatim>\<open>WHERE\<close> and \<^verbatim>\<open>AND\<close> in the right places.\<close>
theorem sqlite_query_text_fits:
  "\<exists>sql. build_query flt = Inr sql \<and> length sql < 512 \<and> sql = sql_text (query_of flt)"
proof -
  have "\<exists>a b. strcat512 a b = Inr (sql_text (query_of flt))"
    using build_query_text [of flt] unfolding build_query_def by (auto split: sum.splits prod.splits)
  then have "length (sql_text (query_of flt)) < 512" by (auto simp: strcat512_def simp flip: length_append split: if_splits)
  with build_query_text show ?thesis by blast
qed

end
