(* ===== verification/Vicarl_LedgerSqlite.thy ===== *)
theory Vicarl_LedgerSqlite
  imports Vicarl_SqliteStore Vicarl_LedgerLog
begin

text \<open>
  The ledger of \<^verbatim>\<open>src/ledger/ledger.c\<close> on the SQLite store of \<^verbatim>\<open>src/store/store_sqlite.c\<close>: sequences of operations, and the life of a ledger
  from opening the database to closing it.
\<close>

section \<open>Ledgers on the SQLite store\<close>

definition on_sqlite :: "vicarl_allocator \<Rightarrow> 'd sqlite3_api \<Rightarrow> ('d \<Rightarrow> sql_view) \<Rightarrow> string \<Rightarrow> bool \<Rightarrow> (heap \<Rightarrow> bool) \<Rightarrow>
    ('d sqlite_env, 'u) vicarl_ledger \<Rightarrow> 'd sqlite_world \<Rightarrow> bool" where
  "on_sqlite A L view file index ok l w \<longleftrightarrow>
     (\<exists>p opt. lg_store l = sqlite_handle A L p opt) \<and> ledger_inv (sqlite_inv view file index ok) sqlite_own l w"

lemma on_sqliteE:
  assumes "on_sqlite A L view file index ok l w"
  obtains p opt where "lg_store l = sqlite_handle A L p opt" "ledger_inv (sqlite_inv view file index ok) sqlite_own l w"
  using assms by (auto simp: on_sqlite_def)

lemma on_sqlite_kept:
  "on_sqlite A L view file index ok l w \<Longrightarrow> ledger_kept (sqlite_inv view file index ok) sqlite_own good l w l' w' \<Longrightarrow> on_sqlite A L view file index ok l' w'"
  by (auto simp: on_sqlite_def ledger_kept_def)

text \<open>Sequences of operations; a segment the SQLite store can be handed has fewer than \<open>2 ^ 31\<close> bytes.\<close>

inductive sqlite_run :: "vicarl_allocator \<Rightarrow> ('d \<Rightarrow> sql_view) \<Rightarrow> ('d sqlite_env, 'u) ledger_state \<Rightarrow> ('d sqlite_env, 'u) ledger_state \<Rightarrow> bool" for A view where
  sqlite_run_refl: "sqlite_run A view s s"
| sqlite_run_step: "sqlite_run A view s t \<Longrightarrow> room_for (sqlite_chain view) sqlite_lim op t \<Longrightarrow> ledger_step A t op u \<Longrightarrow> sqlite_run A view s u"

text \<open>What a sequence of operations keeps from the ledger \<open>l0\<close> in the world \<open>w0\<close>, in every state it reaches.\<close>

definition sqlite_grown :: "vicarl_allocator \<Rightarrow> 'd sqlite3_api \<Rightarrow> ('d \<Rightarrow> sql_view) \<Rightarrow> ('d \<Rightarrow> bool) \<Rightarrow> string \<Rightarrow> bool \<Rightarrow> (heap \<Rightarrow> bool) \<Rightarrow> bool \<Rightarrow>
    ('d sqlite_env, 'u) vicarl_ledger \<Rightarrow> 'd sqlite_world \<Rightarrow> ('d sqlite_env, 'u) ledger_state \<Rightarrow> bool" where
  "sqlite_grown A L view healthy file index ok rel l0 w0 s \<longleftrightarrow>
     (\<exists>w l. s = (w, Some l) \<and> on_sqlite A L view file index ok l w \<and>
        ledger_kept (sqlite_inv view file index ok) sqlite_own (sqlite_good view healthy index rel) l0 w0 l w \<and> ledger_grows (sqlite_chain view) l0 w0 l w)"

lemma ledger_kept_trans:
  assumes "ledger_kept Inv own good l w l1 w1" "ledger_kept Inv own good l1 w1 l2 w2"
  shows "ledger_kept Inv own good l w l2 w2"
  using assms unfolding ledger_kept_def ledger_inv_def by (elim conjE) (intro conjI; (simp; fail)?; fastforce)

lemma ledger_grows_trans:
  "ledger_grows chain l w l1 w1 \<Longrightarrow> ledger_grows chain l1 w1 l2 w2 \<Longrightarrow> lg_opt l1 = lg_opt l \<Longrightarrow> ledger_grows chain l w l2 w2"
  by (auto simp: ledger_grows_def strict_of_def intro: prefix_order.trans)

lemma sqlite_run_grown:
  assumes "sqlite_run A view s t" "sqlite_library L view healthy max_len" "alloc_rel A ok rel" "s = (w0, Some l0)" "on_sqlite A L view file index ok l0 w0"
  shows "sqlite_grown A L view healthy file index ok rel l0 w0 t"
  using assms
proof (induction rule: sqlite_run.induct)
  case (sqlite_run_refl s)
  then have "ledger_kept (sqlite_inv view file index ok) sqlite_own (sqlite_good view healthy index rel) l0 w0 l0 w0"
    by (auto simp: ledger_kept_def on_sqlite_def ledger_inv_def)
  with sqlite_run_refl show ?case by (simp add: sqlite_grown_def ledger_grows_def)
next
  case (sqlite_run_step s t op u)
  then obtain w l where t: "t = (w, Some l)" and on: "on_sqlite A L view file index ok l w"
    and k: "ledger_kept (sqlite_inv view file index ok) sqlite_own (sqlite_good view healthy index rel) l0 w0 l w" "ledger_grows (sqlite_chain view) l0 w0 l w"
    by (auto simp: sqlite_grown_def)
  obtain p opt where st: "lg_store l = sqlite_handle A L p opt" "ledger_inv (sqlite_inv view file index ok) sqlite_own l w" using on by (rule on_sqliteE)
  obtain w' l' where u: "u = (w', Some l')" "ledger_kept (sqlite_inv view file index ok) sqlite_own (sqlite_good view healthy index rel) l w l' w'"
    "ledger_grows (sqlite_chain view) l w l' w'"
    using segment_store.step_state [OF sqlite_library.sqlite_segment_store [OF sqlite_run_step.prems(1,2)] sqlite_run_step.prems(2) st] sqlite_run_step.hyps t by blast
  have "lg_opt l = lg_opt l0" using k(1) by (simp add: ledger_kept_def)
  with u k ledger_kept_trans ledger_grows_trans on_sqlite_kept [OF on u(2)] show ?case unfolding sqlite_grown_def by metis
qed

section \<open>Opening and closing\<close>

lemma sqlite_ledger_open_outcome:
  fixes open_log :: "string option \<Rightarrow> vicarl_store_options option \<Rightarrow> bool \<Rightarrow> ('d sqlite_world, ('d sqlite_env, 'u) vicarl_store) vm"
  assumes lib: "sqlite_library L view healthy max_len" and A: "alloc_rel A ok rel" and w: "ok (w_heap w)" and ne: "file \<noteq> []"
    and segs: "seg_table (vw_files (view (w_lib w)) file) = seg_rows segs" "chain_ok segs" "length segs < 2 ^ 63"
    and kind: "lo_store_kind (effective_options opt) = VICARL_STORE_SQLITE"
    and index: "index = (enable_record_index (lo_store_options (effective_options opt)) \<noteq> 0)"
  shows "outcome (vicarl_ledger_open A (vicarl_store_open_sqlite A L) open_log (Some file) opt True)
    (\<lambda>l w'. on_sqlite A L view file index ok l w' \<and> lg_opt l = effective_options opt \<and> lg_buf l = [] \<and> sqlite_chain view w' = segs \<and>
       hp_live (w_heap w') = hp_live (w_heap w) \<union> own_ledger l \<union> insert (st_ptr (the (lg_store l))) (sqlite_own w') \<and> hp_bad (w_heap w') = hp_bad (w_heap w) \<and>
       (own_ledger l \<union> insert (st_ptr (the (lg_store l))) (sqlite_own w')) \<inter> hp_live (w_heap w) = {} \<and>
       st_ptr (the (lg_store l)) \<notin> sqlite_own w' \<union> own_ledger l)
    (\<lambda>e w'. hp_live (w_heap w') = hp_live (w_heap w) \<and> (sql_error e \<or> e = err_oom) \<and> \<not> (rel \<and> healthy (w_lib w))) w"
    (is "outcome _ ?Q ?E w")
proof -
  let ?L = "hp_live (w_heap w)" and ?o = "effective_options opt"
  let ?Opened = "\<lambda>h1 st w'. sqlite_library.sqlite_opened L view healthy ok index rel A (lo_store_options ?o) file (w\<lparr>w_heap := h1\<rparr>) segs st w'"
  let ?F = "\<lambda>e. (sql_error e \<or> e = err_oom) \<and> \<not> (rel \<and> healthy (w_lib w))"
  have store: "outcome ((if lo_store_kind ?o = VICARL_STORE_SQLITE then vicarl_store_open_sqlite A L else open_log) (Some file) (Some (lo_store_options ?o)) True)
      (?Opened h1) (\<lambda>e w'. heap_to ok h1 (hp_live h1) (w_heap w') \<and> ?F e) (w\<lparr>w_heap := h1\<rparr>)"
    if h1: "heap_to ok (w_heap w) (insert lp ?L) h1" for lp h1
  proof -
    have pre: "ok (w_heap (w\<lparr>w_heap := h1\<rparr>))" "seg_table (vw_files (view (w_lib (w\<lparr>w_heap := h1\<rparr>))) file) = seg_rows segs"
      using h1 segs(1) by (simp_all add: heap_to_def)
    have ix: "index = (case Some (lo_store_options ?o) of None \<Rightarrow> False | Some x \<Rightarrow> enable_record_index x \<noteq> 0)" using index by simp
    show ?thesis
      unfolding if_P [OF kind]
      by (rule outcome_mono [OF sqlite_library.sqlite_open_outcome [OF lib A pre(1) ne pre(2) segs(2,3) ix]])
         (auto simp: sqlite_library.open_failed_def [OF lib] sqlite_library.reach_def [OF lib])
  qed
  show ?thesis
  proof (rule outcome_mono [OF ledger_open_on [OF A w ne refl store]])
    fix l :: "('d sqlite_env, 'u) vicarl_ledger" and w' :: "'d sqlite_world"
    assume "\<exists>lp h1 st. lp \<notin> ?L \<and> heap_to ok (w_heap w) (insert lp ?L) h1 \<and> l = new_ledger lp ?o st \<and> ?Opened h1 st w'"
    then obtain lp h1 st where lp: "lp \<notin> ?L" "heap_to ok (w_heap w) (insert lp ?L) h1" and l: "l = new_ledger lp ?o st" and op: "?Opened h1 st w'" by blast
    have st: "Some st = sqlite_handle A L (st_ptr st) (lo_store_options ?o)" "sqlite_inv view file index ok w'" "sqlite_chain view w' = segs"
      "insert (st_ptr st) (sqlite_own w') \<inter> insert lp ?L = {}" "st_ptr st \<notin> sqlite_own w'"
      "hp_live (w_heap w') = insert lp ?L \<union> insert (st_ptr st) (sqlite_own w')" "hp_bad (w_heap w') = hp_bad (w_heap w)"
      using op lp(2) by (auto simp: sqlite_library.sqlite_opened_def [OF lib] heap_to_def)
    then have "on_sqlite A L view file index ok l w'" unfolding on_sqlite_def ledger_inv_def l by auto
    then show "?Q l w'" using st(2-7) lp(1) unfolding l by auto
  qed (auto simp: heap_to_def)
qed

lemma sqlite_ledger_close_effect:
  assumes lib: "sqlite_library L view healthy max_len" and A: "alloc_rel A ok rel" and on: "on_sqlite A L view file index ok l w"
    and st: "lg_store l = Some st" "st_ptr st \<in> hp_live (w_heap w)" "st_ptr st \<notin> sqlite_own w \<union> own_ledger l"
  shows "heap_to ok (w_heap w) (hp_live (w_heap w) - own_ledger l - insert (st_ptr st) (sqlite_own w)) (w_heap (vicarl_ledger_close A (Some l) w)) \<and>
    vw_files (view (w_lib (vicarl_ledger_close A (Some l) w))) = vw_files (view (w_lib w)) \<and> se_impl (w_env (vicarl_ledger_close A (Some l) w)) = None"
proof -
  let ?L = "hp_live (w_heap w)" and ?S = "insert (st_ptr st) (sqlite_own w)"
  obtain opt where h: "Some st = sqlite_handle A L (st_ptr st) opt" and inv: "ledger_inv (sqlite_inv view file index ok) sqlite_own l w"
    using on st(1) unfolding on_sqlite_def sqlite_handle_def by auto
  have inv: "sqlite_inv view file index ok w" "ledger_ok l" "own_ledger l \<subseteq> ?L" "own_ledger l \<inter> sqlite_own w = {}" using inv by (auto simp: ledger_inv_def)
  obtain ss hd where ss: "se_impl (w_env w) = Some ss" "sq_db ss = Some hd" "ok (w_heap w)" "sqlite_own w \<subseteq> ?L"
    using inv(1) by (rule sqlite_invE) (simp add: sqlite_at_def sqlite_own_def)
  have close: "heap_to ok h' (hp_live h' - ?S) (w_heap (vicarl_store_close A (lg_store l) (w\<lparr>w_heap := h'\<rparr>))) \<and>
      view (w_lib (vicarl_store_close A (lg_store l) (w\<lparr>w_heap := h'\<rparr>))) = set_conn hd None (view (w_lib w)) \<and>
      se_impl (w_env (vicarl_store_close A (lg_store l) (w\<lparr>w_heap := h'\<rparr>))) = None"
    if "heap_to ok (w_heap w) (insert (lg_ptr l) (?L - own_ledger l)) h'" for h'
  proof -
    have live: "ok h'" "hp_live h' = insert (lg_ptr l) (?L - own_ledger l)" using that by (simp_all add: heap_to_def)
    have sub: "sqlite_own w \<subseteq> hp_live h'" "st_ptr st \<in> hp_live h'" using live(2) ss(4) inv(4) st(2,3) by auto
    have w': "sqlite_inv view file index ok (w\<lparr>w_heap := h'\<rparr>) \<and> sqlite_own (w\<lparr>w_heap := h'\<rparr>) = sqlite_own w"
      using segment_store.heap_change [OF sqlite_library.sqlite_segment_store [OF lib A] inv(1) live(1) sub(1)] by simp
    have c: "st_ptr st \<notin> sqlite_own (w\<lparr>w_heap := h'\<rparr>)" "st_ptr st \<in> hp_live (w_heap (w\<lparr>w_heap := h'\<rparr>))" "se_impl (w_env (w\<lparr>w_heap := h'\<rparr>)) = Some ss"
      using sub(2) st(3) w' ss(1) by simp_all
    from sqlite_library.sqlite_close_effect [where view = view and healthy = healthy and w = "w\<lparr>w_heap := h'\<rparr>" and opt = opt, OF lib A conjunct1 [OF w'] c ss(2) refl] w' h
    show ?thesis by (simp add: st(1))
  qed
  have "?S \<inter> own_ledger l = {}" using inv(4) st(3) by auto
  from ledger_close_on [OF A ss(3) inv(2,3) this] close obtain h' where
    h': "heap_to ok (w_heap w) (insert (lg_ptr l) (?L - own_ledger l)) h'"
      "vicarl_ledger_close A (Some l) w = upd_heap (free_fn A (lg_ptr l)) (vicarl_store_close A (lg_store l) (w\<lparr>w_heap := h'\<rparr>))"
      "heap_to ok (w_heap w) (?L - own_ledger l - ?S) (w_heap (vicarl_ledger_close A (Some l) w))" by blast
  show ?thesis using close [OF h'(1)] h'(3) unfolding h'(2) by simp
qed

section \<open>A ledger for examples\<close>

text \<open>A ledger with one buffered record on the simulated library.\<close>

definition sim_ledger :: "(sim sqlite_env, unit) vicarl_ledger" where
  "sim_ledger = \<lparr>lg_ptr = 4, lg_store = sqlite_handle default_allocator sim_api 3 zero_options, lg_opt = defaults, lg_buf_ptr = Some 5,
     lg_buf = [\<lparr>br_ptr = 6, br_bytes = sample_record, br_len = length sample_record, br_id = sha256 sample_record, br_has_sig = False\<rparr>],
     lg_buf_cap = 64, lg_buf_bytes = length sample_record\<rparr>"

definition sim_ledger_world :: "sim_event list \<Rightarrow> sim sqlite_world" where
  "sim_ledger_world script = (sim_store [] False script)\<lparr>w_heap := \<lparr>hp_next = 7, hp_live = {1, 3, 4, 5, 6}, hp_bad = False, hp_oom = []\<rparr>\<rparr>"

lemma sim_ledger_on:
  "on_sqlite default_allocator sim_api sim_view ''d'' False heap_plenty sim_ledger (sim_ledger_world script)"
  "sqlite_chain sim_view (sim_ledger_world script) = []"
  "list_all (\<lambda>e. e = Works) script \<Longrightarrow> sqlite_good sim_view sim_healthy False True (sim_ledger_world script)"
proof -
  let ?h = "\<lparr>hp_next = 7, hp_live = {1, 3, 4, 5, 6}, hp_bad = False, hp_oom = []\<rparr>"
  note at = sim_store_at [OF sample_chain_ok(1), where index = False and script = script]
  have own: "sqlite_own (sim_store [] False script) = {1}" by (simp add: sqlite_own_def sim_store_def)
  have "heap_plenty ?h" "sqlite_own (sim_store [] False script) \<subseteq> hp_live ?h" by (simp_all add: heap_plenty_def heap_wf_def own)
  from sqlite_plenty.heap_change [OF at(1) this] have w: "sqlite_inv sim_view ''d'' False heap_plenty (sim_ledger_world script)"
    "sqlite_own (sim_ledger_world script) = {1}" "sqlite_chain sim_view (sim_ledger_world script) = sqlite_chain sim_view (sim_store [] False script)"
    "sqlite_good sim_view sim_healthy False True (sim_ledger_world script) = sqlite_good sim_view sim_healthy False True (sim_store [] False script)"
    using own by (simp_all add: sim_ledger_world_def)
  with at show "sqlite_chain sim_view (sim_ledger_world script) = []"
    "list_all (\<lambda>e. e = Works) script \<Longrightarrow> sqlite_good sim_view sim_healthy False True (sim_ledger_world script)" by simp_all
  have "ledger_ok sim_ledger"
    using sample_record_ok by (auto simp: ledger_ok_def sim_ledger_def buf_ptrs_def size_mod_def bufrec_ok_def strict_of_def defaults_def)
  moreover have "own_ledger sim_ledger = {4, 5, 6}" by (auto simp: own_ledger_def sim_ledger_def buf_ptrs_def)
  ultimately show "on_sqlite default_allocator sim_api sim_view ''d'' False heap_plenty sim_ledger (sim_ledger_world script)"
    using w(1,2) by (auto simp: on_sqlite_def ledger_inv_def sim_ledger_world_def sim_ledger_def)
qed

section \<open>Properties\<close>

text \<open>C10. A ledger on SQLite stays valid: on every library that keeps its contract, every sequence of appends, flushes and verifications, whatever fails in
  between, leads from a consistent ledger with a valid committed chain to a consistent ledger with a valid
  committed chain that still contains all earlier records, in order, as its first records; store, options and all other blocks are untouched.
  \<^verbatim>\<open>vicarl_ledger_verify\<close> ends on it, and accepts it when library and memory work and no transaction is left over.\<close>
theorem sqlite_ledger_stays_valid:
  assumes "sqlite_library L view healthy max_len" and "alloc_rel A ok rel" and "on_sqlite A L view file index ok l0 w0"
    and "chain_valid (strict_of l0) (sqlite_chain view w0)" and "sqlite_run A view (w0, Some l0) s"
  shows "\<exists>w l. s = (w, Some l) \<and> on_sqlite A L view file index ok l w \<and> chain_valid (strict_of l) (sqlite_chain view w) \<and>
    prefix (ledger_records (sqlite_chain view w0) l0) (ledger_records (sqlite_chain view w) l) \<and>
    lg_store l = lg_store l0 \<and> lg_opt l = lg_opt l0 \<and> hp_live (w_heap w) - own_ledger l = hp_live (w_heap w0) - own_ledger l0 \<and> hp_bad (w_heap w) = hp_bad (w_heap w0) \<and>
    (sqlite_good view healthy index rel w0 \<longrightarrow> sqlite_good view healthy index rel w) \<and>
    (\<exists>r w'. vicarl_ledger_verify A (w, Some l) = Some (r, (w', Some l)) \<and> (sqlite_good view healthy index rel w \<longrightarrow> r = Inr ()))"
proof -
  from sqlite_run_grown [OF assms(5,1,2) refl assms(3)] obtain w l where s: "s = (w, Some l)" "on_sqlite A L view file index ok l w"
    and k: "ledger_kept (sqlite_inv view file index ok) sqlite_own (sqlite_good view healthy index rel) l0 w0 l w" "ledger_grows (sqlite_chain view) l0 w0 l w"
    by (auto simp: sqlite_grown_def)
  have opt: "lg_opt l = lg_opt l0" using k(1) by (simp add: ledger_kept_def)
  then have v: "chain_valid (strict_of l) (sqlite_chain view w)" using k(2) assms(4) by (simp add: ledger_grows_def strict_of_opt [of l l0])
  obtain p o' where "lg_store l = sqlite_handle A L p o'" "ledger_inv (sqlite_inv view file index ok) sqlite_own l w" using s(2) by (rule on_sqliteE)
  note verify = segment_store.verify_state [OF sqlite_library.sqlite_segment_store [OF assms(1,2)] assms(2) this]
  obtain r w' where
    run: "vicarl_ledger_verify A (w, Some l) = Some (r, (w', Some l))" and
    r: "case r of Inr _ \<Rightarrow> chain_valid (strict_of l) (sqlite_chain view w) | Inl e \<Rightarrow> \<not> chain_valid (strict_of l) (sqlite_chain view w) \<or> \<not> (rel \<and> sqlite_good view healthy index rel w)"
    using verify by (elim exE conjE) (rule that)
  have rel: "sqlite_good view healthy index rel w \<Longrightarrow> rel" unfolding sqlite_good_def by (elim conjE)
  have "sqlite_good view healthy index rel w \<longrightarrow> r = Inr ()"
  proof (cases r)
    case (Inl e)
    then show ?thesis using r v rel unfolding Inl sum.case by blast
  qed simp
  moreover have "hp_live (w_heap w) - own_ledger l = hp_live (w_heap w0) - own_ledger l0 \<and> hp_bad (w_heap w) = hp_bad (w_heap w0) \<and>
      lg_store l = lg_store l0 \<and> (sqlite_good view healthy index rel w0 \<longrightarrow> sqlite_good view healthy index rel w)"
    using k(1) unfolding ledger_kept_def by blast
  ultimately show ?thesis using s v opt run k(2) unfolding ledger_grows_def by (intro exI [of _ w] exI [of _ l] conjI exI [of _ r] exI [of _ w']) simp_all
qed

theorem sqlite_ledger_stays_valid_witness:
  "\<exists>w l. snd (vicarl_ledger_flush default_allocator \<lparr>ck_timespec = None, ck_time = 0\<rparr> (sim_ledger_world [Works, Fails, FailsRollback, Fails], Some sim_ledger)) = (w, Some l) \<and>
     chain_valid (strict_of l) (sqlite_chain sim_view w) \<and> prefix [sample_record] (ledger_records (sqlite_chain sim_view w) l)"
proof -
  let ?c = "\<lparr>ck_timespec = None, ck_time = 0\<rparr>" and ?w = "sim_ledger_world [Works, Fails, FailsRollback, Fails]"
  let ?r = "vicarl_ledger_flush default_allocator ?c (?w, Some sim_ledger)"
  have "room_for (sqlite_chain sim_view) sqlite_lim (OpFlush ?c) (?w, Some sim_ledger)"
    using sample_record_size by (simp add: sim_ledger_on(2) size_mod_def buf_size_def buf_limit_def sqlite_lim_def sim_ledger_def)
  moreover have "ledger_step default_allocator (?w, Some sim_ledger) (OpFlush ?c) (snd ?r)"
    by (rule ledger_step.step_flush [where r = "fst ?r"]) simp
  ultimately have run: "sqlite_run default_allocator sim_view (?w, Some sim_ledger) (snd ?r)" using sqlite_run_step sqlite_run_refl by blast
  have v: "chain_valid (strict_of sim_ledger) (sqlite_chain sim_view ?w)" by (simp add: sim_ledger_on(2))
  have "ledger_records (sqlite_chain sim_view ?w) sim_ledger = [sample_record]" by (simp add: ledger_records_def sim_ledger_on(2)) (simp add: sim_ledger_def)
  with sqlite_ledger_stays_valid [OF sim.sqlite_library_axioms libc_reliable sim_ledger_on(1) v run] show ?thesis by auto
qed

text \<open>C18. Flushing to SQLite: \<^verbatim>\<open>vicarl_ledger_flush\<close> commits the buffered records as one segment that continues the chain, and empties the buffer;
  with an empty buffer nothing happens. When it fails, whatever failed, the committed chain and the buffer are as before, so no
  record is lost and none is stored twice. It does not fail when library and memory work, no transaction is left over
  and the segment fits the limits of the library and of the index.\<close>
theorem sqlite_ledger_flush_correct:
  assumes "sqlite_library L view healthy max_len" and "alloc_rel A ok rel" and "on_sqlite A L view file index ok l w"
    and "buf_size l + 100 < sqlite_lim" and "length (sqlite_chain view w) + 2 < size_mod"
  shows "outcome (vicarl_ledger_flush A clk)
    (\<lambda>_ t. \<exists>l'. snd t = Some l' \<and> on_sqlite A L view file index ok l' (fst t) \<and> lg_buf l' = [] \<and>
       sqlite_chain view (fst t) = sqlite_chain view w @ (if lg_buf l = [] then [] else [flush_bytes clk l (sqlite_chain view w)]) \<and>
       ledger_records (sqlite_chain view (fst t)) l' = ledger_records (sqlite_chain view w) l \<and>
       (sqlite_good view healthy index rel w \<longrightarrow> sqlite_good view healthy index rel (fst t)))
    (\<lambda>e t. snd t = Some l \<and> on_sqlite A L view file index ok l (fst t) \<and> sqlite_chain view (fst t) = sqlite_chain view w \<and>
       hp_live (w_heap (fst t)) = hp_live (w_heap w) \<and>
       \<not> (sqlite_good view healthy index rel w \<and> sqlite_fits max_len index (sqlite_chain view w) (flush_bytes clk l (sqlite_chain view w)))) (w, Some l)"
proof -
  obtain p opt where l: "lg_store l = sqlite_handle A L p opt" "ledger_inv (sqlite_inv view file index ok) sqlite_own l w" using assms(3) by (rule on_sqliteE)
  note store = sqlite_library.sqlite_segment_store [OF assms(1,2)]
  have lok: "ledger_ok l" "own_ledger l \<subseteq> hp_live (w_heap w)" using l(2) by (simp_all add: ledger_inv_def)
  have room: "buf_size l < buf_limit" using assms(4) by (simp add: sqlite_lim_def buf_limit_def)
  show ?thesis
  proof (rule outcome_mono [OF segment_store.flush_state [OF store assms(2) l room assms(5,4)]], goal_cases)
    case (1 x t)
    then obtain l' where l': "snd t = Some l'" "ledger_kept (sqlite_inv view file index ok) sqlite_own (sqlite_good view healthy index rel) l w l' (fst t)" "lg_buf l' = []"
      "sqlite_chain view (fst t) = sqlite_chain view w @ (if lg_buf l = [] then [] else [flush_bytes clk l (sqlite_chain view w)])" by blast
    have "lg_opt l' = lg_opt l" using l'(2) by (simp add: ledger_kept_def)
    then have "ledger_records (sqlite_chain view (fst t)) l' = ledger_records (sqlite_chain view w) l"
      using segment_store.flush_contents [OF store lok(1) room l'(3) _ l'(4)] by blast
    moreover have "sqlite_good view healthy index rel w \<longrightarrow> sqlite_good view healthy index rel (fst t)" using l'(2) unfolding ledger_kept_def by blast
    ultimately show ?case using l' on_sqlite_kept [OF assms(3) l'(2)] by blast
  next
    case (2 e t)
    then have e: "snd t = Some l" "ledger_kept (sqlite_inv view file index ok) sqlite_own (sqlite_good view healthy index rel) l w l (fst t)"
      "sqlite_chain view (fst t) = sqlite_chain view w"
      "\<not> (rel \<and> sqlite_good view healthy index rel w \<and> sqlite_fits max_len index (sqlite_chain view w) (flush_bytes clk l (sqlite_chain view w)))" by blast+
    have "hp_live (w_heap (fst t)) = hp_live (w_heap w)" using e(2) lok(2) unfolding ledger_kept_def by blast
    moreover have "sqlite_good view healthy index rel w \<Longrightarrow> rel" unfolding sqlite_good_def by (elim conjE)
    ultimately show ?case using e on_sqlite_kept [OF assms(3) e(2)] by blast
  qed
qed

theorem sqlite_ledger_flush_correct_witness:
  "\<exists>w l bs. vicarl_ledger_flush default_allocator \<lparr>ck_timespec = None, ck_time = 0\<rparr> (sim_ledger_world [], Some sim_ledger) = (Inr (), (w, Some l)) \<and>
     lg_buf l = [] \<and> sqlite_chain sim_view w = [bs] \<and> ledger_records (sqlite_chain sim_view w) l = [sample_record]"
proof -
  let ?c = "\<lparr>ck_timespec = None, ck_time = 0\<rparr>" and ?w = "sim_ledger_world []"
  have size: "buf_size sim_ledger + 100 < sqlite_lim" "buf_size sim_ledger < buf_limit" "buf_size sim_ledger < 200"
    using sample_record_size by (simp_all add: buf_size_def sqlite_lim_def buf_limit_def sim_ledger_def)
  have "length (sqlite_chain sim_view ?w) + 2 < size_mod" by (simp add: sim_ledger_on(2) size_mod_def)
  note fl = sqlite_ledger_flush_correct [OF sim.sqlite_library_axioms libc_reliable sim_ledger_on(1) size(1) this, of ?c]
  have "sqlite_fits sim_max False [] (flush_bytes ?c sim_ledger [])"
    using flush_bytes_length [OF size(2), of ?c "[]"] size(3) by (simp add: sqlite_fits_def sim_max_def)
  moreover have "ledger_records [] sim_ledger = [sample_record]" "lg_buf sim_ledger \<noteq> []" by (simp_all add: ledger_records_def sim_ledger_def)
  moreover have "sqlite_good sim_view sim_healthy False True ?w" using sim_ledger_on(3) by simp
  ultimately show ?thesis using fl by (auto simp: outcome_def sim_ledger_on(2) split: prod.splits sum.splits)
qed

text \<open>C11. A whole session on SQLite: opening a ledger on a file whose table holds a valid chain, any sequence of appends, flushes and verifications, and closing
  it leave exactly the blocks live that were live before, with no invalid free; the file then holds exactly the chain the ledger ended with, a
  valid chain that begins with the records found at the start, so that the next session continues from it. Records that were
  only buffered are gone.\<close>
theorem sqlite_ledger_session:
  assumes "sqlite_library L view healthy max_len" and "alloc_rel A ok rel" and "ok (w_heap w)" and "file \<noteq> []"
    and "seg_table (vw_files (view (w_lib w)) file) = seg_rows segs" and "chain_ok segs" and "length segs < 2 ^ 63"
    and "lo_store_kind (effective_options opt) = VICARL_STORE_SQLITE" and "chain_valid (require_signed_records (effective_options opt) \<noteq> 0) segs"
    and "vicarl_ledger_open A (vicarl_store_open_sqlite A L) open_log (Some file) opt True w = (Inr l0, w0)"
    and "sqlite_run A view (w0, Some l0) (w1, Some l1)" and "w2 = vicarl_ledger_close A (Some l1) w1"
  shows "hp_live (w_heap w2) = hp_live (w_heap w) \<and> hp_bad (w_heap w2) = hp_bad (w_heap w) \<and> se_impl (w_env w2) = None \<and>
    seg_table (vw_files (view (w_lib w2)) file) = seg_rows (sqlite_chain view w1) \<and> chain_ok (sqlite_chain view w1) \<and>
    chain_valid (require_signed_records (effective_options opt) \<noteq> 0) (sqlite_chain view w1) \<and>
    prefix (concat (map seg_records_of segs)) (ledger_records (sqlite_chain view w1) l1)"
proof -
  let ?L = "hp_live (w_heap w)" and ?index = "enable_record_index (lo_store_options (effective_options opt)) \<noteq> 0"
  from outcome_Inr [OF sqlite_ledger_open_outcome [OF assms(1-8) refl, of open_log] assms(10)]
  have o: "on_sqlite A L view file ?index ok l0 w0" "lg_opt l0 = effective_options opt" "lg_buf l0 = []" "sqlite_chain view w0 = segs"
    "hp_live (w_heap w0) = ?L \<union> own_ledger l0 \<union> insert (st_ptr (the (lg_store l0))) (sqlite_own w0)" "hp_bad (w_heap w0) = hp_bad (w_heap w)"
    "(own_ledger l0 \<union> insert (st_ptr (the (lg_store l0))) (sqlite_own w0)) \<inter> ?L = {}" "st_ptr (the (lg_store l0)) \<notin> sqlite_own w0 \<union> own_ledger l0" by blast+
  from sqlite_run_grown [OF assms(11,1,2) refl o(1)] have on1: "on_sqlite A L view file ?index ok l1 w1"
    and k: "ledger_kept (sqlite_inv view file ?index ok) sqlite_own (sqlite_good view healthy ?index rel) l0 w0 l1 w1" "ledger_grows (sqlite_chain view) l0 w0 l1 w1"
    by (auto simp: sqlite_grown_def)
  obtain st where st: "lg_store l0 = Some st" using o(1) by (auto simp: on_sqlite_def sqlite_handle_def)
  let ?S = "insert (st_ptr st) (sqlite_own w0)"
  have kk: "sqlite_own w1 = sqlite_own w0" "lg_store l1 = Some st" "hp_live (w_heap w1) = (hp_live (w_heap w0) - own_ledger l0) \<union> own_ledger l1"
    "own_ledger l1 \<inter> (hp_live (w_heap w0) - own_ledger l0) = {}" "hp_bad (w_heap w1) = hp_bad (w_heap w0)"
    using k(1) st by (simp_all add: ledger_kept_def)
  have own0: "sqlite_own w0 \<inter> own_ledger l0 = {}" using o(1) by (auto simp: on_sqlite_def ledger_inv_def)
  have rest: "hp_live (w_heap w0) - own_ledger l0 = ?L \<union> ?S" using o(5,7,8) st own0 by auto
  have "st_ptr st \<in> hp_live (w_heap w1)" "st_ptr st \<notin> sqlite_own w1 \<union> own_ledger l1" using kk rest o(8) st by auto
  from sqlite_ledger_close_effect [OF assms(1,2) on1 kk(2) this] have c:
    "heap_to ok (w_heap w1) (hp_live (w_heap w1) - own_ledger l1 - ?S) (w_heap w2)"
    "vw_files (view (w_lib w2)) = vw_files (view (w_lib w1))" "se_impl (w_env w2) = None" by (simp_all add: assms(12) kk(1))
  have "hp_live (w_heap w1) - own_ledger l1 - ?S = ?L" using kk(3,4) rest o(7) st by auto
  moreover have "sqlite_inv view file ?index ok w1" using on1 by (simp add: on_sqlite_def ledger_inv_def)
  note rows = sqlite_inv_rows [OF this]
  moreover have "ledger_records segs l0 = concat (map seg_records_of segs)" by (simp add: ledger_records_def o(3))
  ultimately show ?thesis using c rows kk(5) o(2,4,6) k(2) assms(9) by (simp add: heap_to_def ledger_grows_def strict_of_def)
qed

theorem sqlite_ledger_session_witness:
  "\<exists>(l0 :: (sim sqlite_env, unit) vicarl_ledger) w0 w2.
     vicarl_ledger_open default_allocator (vicarl_store_open_sqlite default_allocator sim_api) (\<lambda>_ _ _. failr err_oom) (Some ''d'')
       (Some (defaults\<lparr>lo_store_kind := VICARL_STORE_SQLITE\<rparr>)) True (sim_store [genesis] False []) = (Inr l0, w0) \<and>
     w2 = vicarl_ledger_close default_allocator (Some l0) w0 \<and> hp_live (w_heap w2) = {1} \<and> sqlite_chain sim_view w0 = [genesis] \<and>
     seg_table (vw_files (sim_view (w_lib w2)) ''d'') = seg_rows [genesis]"
proof -
  let ?w = "sim_store [genesis] False []" and ?opt = "Some (defaults\<lparr>lo_store_kind := VICARL_STORE_SQLITE\<rparr>)"
  let ?open = "vicarl_ledger_open default_allocator (vicarl_store_open_sqlite default_allocator sim_api) (\<lambda>_ _ _. failr err_oom) (Some ''d'') ?opt True
    :: (sim sqlite_world, (sim sqlite_env, unit) vicarl_ledger) vm"
  have ck: "chain_ok [genesis]" using genesis_size by (simp add: chain_ok_def size_mod_def seg_limit_def)
  note at = sim_store_at [OF ck, where index = False and script = "[]"]
  have opt: "effective_options ?opt = defaults\<lparr>lo_store_kind := VICARL_STORE_SQLITE\<rparr>" by (simp add: effective_options_def defaults_def)
  have pre: "heap_plenty (w_heap ?w)" "''d'' \<noteq> []" "seg_table (vw_files (sim_view (w_lib ?w)) ''d'') = seg_rows [genesis]" "length [genesis] < 2 ^ 63"
    "lo_store_kind (effective_options ?opt) = VICARL_STORE_SQLITE" "sim_healthy (w_lib ?w)"
    using sqlite_inv_rows [OF at(1)] at(2) by (simp_all add: opt) (simp_all add: sim_store_def heap_plenty_def heap_wf_def sim_healthy_def w_lib_def)
  have v: "chain_valid (require_signed_records (effective_options ?opt) \<noteq> 0) [genesis]"
    using genesis_valid genesis_next chain_valid_snoc [of False "[]" genesis] unfolding opt by (simp add: defaults_def seg_ok_def)
  note outc = sqlite_ledger_open_outcome [OF sim.sqlite_library_axioms libc_reliable pre(1-3) ck pre(4,5) refl, of "\<lambda>_ _ _. failr err_oom"]
  obtain l0 w0 where op: "?open ?w = (Inr l0, w0)" and ch: "sqlite_chain sim_view w0 = [genesis]"
    using outc pre(6) unfolding outcome_def by (auto split: prod.splits sum.splits)
  have "hp_live (w_heap ?w) = {1}" by (simp add: sim_store_def)
  with sqlite_ledger_session [OF sim.sqlite_library_axioms libc_reliable pre(1-3) ck pre(4,5) v op sqlite_run_refl refl] op ch
  show ?thesis by auto
qed

end
