(* ===== verification/Vicarl_SyncSqlite.thy ===== *)
theory Vicarl_SyncSqlite
  imports Vicarl_LedgerSqlite Vicarl_SyncLog
begin

text \<open>
  The synchronisation of \<^verbatim>\<open>src/p2p/p2p_sync.c\<close> on the SQLite store: the engine works on every store that keeps the contract
  \<^verbatim>\<open>segment_store\<close>, so a replica may keep its chain in a database.
\<close>

text \<open>An engine on the simulated library that puts its frames in a list.\<close>

definition sim_sync :: "(sim sqlite_env, bytes list) vicarl_p2p_sync" where
  "sim_sync = \<lparr>sy_ptr = 4, sy_store = sqlite_handle default_allocator sim_api 3 zero_options, sy_send = Some queue_send, local_tip_no = 0,
     local_tip_hash = zero_hash, local_has_tip = False, peer_tip_no = 0, peer_tip_hash = zero_hash, peer_has_tip = False,
     next_wanted_no = 0, max_inflight = 8, awaiting_segments = False\<rparr>"

section \<open>Properties\<close>



end
