(* ===== verification/Spec2Isabelle.thy ===== *)
theory Spec2Isabelle
  imports Vicarl_Error Vicarl_Hash Vicarl_LedgerLog Vicarl_SyncLog Vicarl_Ffi Vicarl_SyncSqlite
begin

text \<open>
  A verification development for \<^verbatim>\<open>vicarl\<close>, a C library for tamper-evident, append-only ledgers. Paths below are
  relative to \<^verbatim>\<open>src/\<close>.

  \<^bold>\<open>The program.\<close> An application encodes \<^emph>\<open>records\<close> (\<^verbatim>\<open>src/model/record.c\<close>) and hands them to a \<^emph>\<open>ledger\<close>
  (\<^verbatim>\<open>src/ledger/ledger.c\<close>), which buffers them and, when enough have come together, writes them as one \<^emph>\<open>segment\<close>
  (\<^verbatim>\<open>src/model/segment.c\<close>) to its \<^emph>\<open>store\<close>. A segment carries its number, the SHA-256 hash (\<^verbatim>\<open>src/core/hash.c\<close>) of the segment
  before it and the Merkle root (\<^verbatim>\<open>src/model/merkle.c\<close>) of its records, so that the hash of the last segment, the
  \<^emph>\<open>tip\<close>, binds the whole chain; \<^verbatim>\<open>vicarl_ledger_verify\<close> walks the chain. A store is a table of functions
  (\<^verbatim>\<open>src/store/store_common.h\<close>); the default one keeps every segment in a file (\<^verbatim>\<open>src/store/store_log.c\<close>), the other one keeps
  segments and an index of records in the tables of an SQLite database (\<^verbatim>\<open>src/store/store_sqlite.c\<close>). Peers replicate
  chains with messages (\<^verbatim>\<open>src/p2p/wire.c\<close>, \<^verbatim>\<open>src/p2p/sync.c\<close>). Everything is encoded through the buffers of
  \<^verbatim>\<open>src/core/codec.c\<close>, allocates through \<^verbatim>\<open>src/core/alloc.c\<close> and reports errors through a status and the message buffer of
  \<^verbatim>\<open>src/core/error.c\<close>; foreign callers use the handles of \<^verbatim>\<open>src/ffi/ffi.c\<close>.

  \<^bold>\<open>How code is modelled.\<close> A C function is a HOL function of the same name. Its status and out-parameters are a value
  of \<^typ>\<open>'a res\<close>: \<^term>\<open>Inr x\<close> for \<^verbatim>\<open>VICARL_OK\<close> with the results \<^term>\<open>x\<close>, \<^term>\<open>Inl e\<close> for an error status with its message, or for
  undefined behaviour (\<^term>\<open>UB\<close>: a read outside a slice), which is therefore visible as a result and excluded by
  proof. State is passed explicitly: write and read buffers, the heap (which blocks are live, whether
  anything was freed that was not), and worlds, which add files or other environment to the heap. Pointers to
  objects are \<^term>\<open>None\<close> for \<^verbatim>\<open>NULL\<close>; whether an out-pointer is given is a Boolean argument. \<^verbatim>\<open>uint64_t\<close> and the like are
  words and wrap; \<^verbatim>\<open>size_t\<close> is a number below \<^term>\<open>size_mod\<close> with the remainder written out where the code can wrap.
  Failures come from outside: the allocator and the file system follow scripts of failures, and theorems
  hold for all scripts. A loop that may run forever is a partial function with \<^term>\<open>None\<close> for no result
  (\<^verbatim>\<open>ledger_verify_loop\<close>, \<^verbatim>\<open>log_iter_loop\<close>, \<^verbatim>\<open>rows_loop\<close>); that it ends is proved where the tip is below the greatest number, for the rows of a query always.

  \<^bold>\<open>The theories.\<close>
  \<^item> \<^verbatim>\<open>Vicarl_Prelude\<close>: statuses, errors, the state-and-error monad with the rule collection for its outcomes, slices, hashes.
  \<^item> \<^verbatim>\<open>Vicarl_Error\<close> (\<^verbatim>\<open>src/core/error.c\<close>): the message buffer; it stays terminated and reads back what was stored.
  \<^item> \<^verbatim>\<open>Vicarl_Alloc\<close> (\<^verbatim>\<open>src/core/alloc.c\<close>): the function table; the contract \<^verbatim>\<open>alloc_rel\<close> of an allocator, which all heap lemmas
    assume, is proved for the default functions on a heap with scripted failures and on one without.
  \<^item> \<^verbatim>\<open>Vicarl_Hash\<close> (\<^verbatim>\<open>src/core/hash.c\<close>): SHA-256 with its block buffer equals the reference function of FIPS 180-4.
  \<^item> \<^verbatim>\<open>Vicarl_Codec\<close> (\<^verbatim>\<open>src/core/codec.c\<close>): readers never leave their buffer; writers append exactly their encoding;
    round trips of varints and length-delimited bytes.
  \<^item> \<^verbatim>\<open>Vicarl_Merkle\<close> (\<^verbatim>\<open>src/model/merkle.c\<close>): the root equals the reference tree; proofs are sound up to an explicit
    collision and complete; no leaks.
  \<^item> \<^verbatim>\<open>Vicarl_Record\<close>, \<^verbatim>\<open>Vicarl_Segment\<close>, \<^verbatim>\<open>Vicarl_Wire\<close> (\<^verbatim>\<open>src/model/record.c\<close>, \<^verbatim>\<open>src/model/segment.c\<close>, \<^verbatim>\<open>src/p2p/wire.c\<close>): encoders and decoders,
    their specification functions, round trips, safety of decoding on all inputs, the types of decoded values, exactness of
    \<^verbatim>\<open>vicarl_segment_verify\<close>, ownership of every block.
  \<^item> \<^verbatim>\<open>Vicarl_Store\<close> (\<^verbatim>\<open>src/store/store_common.h\<close>, dispatch in \<^verbatim>\<open>src/store/store_log.c\<close>): worlds, the function table, and the
    locale \<^verbatim>\<open>segment_store\<close>, the contract of a store: it is a growing list of segments.
  \<^item> \<^verbatim>\<open>Vicarl_StoreLog\<close> (\<^verbatim>\<open>src/store/store_log.c\<close>): the log store over a file system with scripted failures satisfies the
    contract (interpretations \<^verbatim>\<open>log_libc\<close>, \<^verbatim>\<open>log_plenty\<close>); appends are atomic; a new process finds the chain.
  \<^item> \<^verbatim>\<open>Vicarl_Sql\<close>: the functions of the SQLite library as a record of parameters, what the statements of the store mean, and the
    locale \<^verbatim>\<open>sqlite_library\<close>, what the store relies on. \<^verbatim>\<open>Vicarl_SqlSim\<close>: a small engine with scripted failures that keeps this
    contract (interpretation \<^verbatim>\<open>sim\<close>), on which the witnesses run.
  \<^item> \<^verbatim>\<open>Vicarl_StoreSqlite\<close>, \<^verbatim>\<open>Vicarl_SqliteAppend\<close>, \<^verbatim>\<open>Vicarl_SqliteOpen\<close>, \<^verbatim>\<open>Vicarl_SqliteQuery\<close>, \<^verbatim>\<open>Vicarl_SqliteStore\<close> (\<^verbatim>\<open>src/store/store_sqlite.c\<close>): the SQLite store on
    every library that keeps the contract: the definitions with the invariant and reading, the transaction of an append, opening and closing, queries, and the
    properties. It is a \<^verbatim>\<open>segment_store\<close> (interpretations \<^verbatim>\<open>sqlite_libc\<close>, \<^verbatim>\<open>sqlite_plenty\<close>); appends are atomic; opening finds the chain again; iterating ends
    and is complete; records are found by identifier; a query means its filter and its text fits the buffer.
  \<^item> \<^verbatim>\<open>Vicarl_Ledger\<close>, \<^verbatim>\<open>Vicarl_LedgerLog\<close> (\<^verbatim>\<open>src/ledger/ledger.c\<close>): the ledger's operations, proved against the contract of
    a store; on the log store, runs of operations as an inductive relation, validity of the chain as an
    invariant, exactness of verification, tamper evidence, sessions without leaks. \<^verbatim>\<open>Vicarl_LedgerSqlite\<close>: the ledger on the SQLite
    store, from the same lemmas on the contract: validity along every run, flushes, sessions on a database file.
  \<^item> \<^verbatim>\<open>Vicarl_Sync\<close>, \<^verbatim>\<open>Vicarl_SyncLog\<close> (\<^verbatim>\<open>src/p2p/sync.c\<close>): the replication engine against the contract of a store; runs against
    an arbitrary peer, two nodes that exchange frames, the stall after the first answer. \<^verbatim>\<open>Vicarl_SyncSqlite\<close>: a replica in a
    database.
  \<^item> \<^verbatim>\<open>Vicarl_Ffi\<close> (\<^verbatim>\<open>src/ffi/ffi.c\<close>): handles; operations through them are those of the ledger.

  \<^bold>\<open>Specifications.\<close> \<^const>\<open>segment_spec\<close> and \<^const>\<open>record_spec\<close> say what bytes decode to; \<^const>\<open>segment_valid\<close> what a valid segment
  is; \<^const>\<open>next_segment\<close> what continues a chain; \<^const>\<open>chain_valid\<close> what a valid ledger is; \<^const>\<open>sha256\<close> and \<^const>\<open>mroot\<close> are the
  reference hash and tree. Security statements are relative to SHA-256: their conclusion is the property or an
  explicit pair of different inputs with the same hash (\<^const>\<open>collision\<close>).

  \<^bold>\<open>Bounds.\<close> Segments are below \<^term>\<open>seg_limit\<close> (\<open>2 ^ 59\<close> bytes) and buffers of a ledger below \<^term>\<open>buf_limit\<close> (\<open>2 ^ 58\<close>), so
  that no size computation of the encoders wraps and the bit length of SHA-256 fits its counter; a chain
  has fewer than \<open>2 ^ 64 - 2\<close> segments, so that numbers do not wrap. Nothing a machine with 64-bit addresses can
  hold is excluded. File names have twenty digits, which hold all segment numbers. The SQLite store hands lengths to the library as
  \<^verbatim>\<open>int\<close> and numbers as signed integers, so its theorems are about segments below \<^term>\<open>sqlite_lim\<close> (\<open>2 ^ 31\<close> bytes) and, where rows are compared or
  sorted, about fewer than \<open>2 ^ 63\<close> segments and times below \<open>2 ^ 63\<close>.

  \<^bold>\<open>Not modelled.\<close> The SQLite library, a parameter with a contract. The Windows branches of the log store, which mirror the POSIX ones. The signature
  backends behind \<^verbatim>\<open>include/vicarl/crypto.h\<close>, of which the repository has no implementation. Re-entrant callbacks and
  threads: the library documents that objects are not shared between threads. \<^verbatim>\<open>tests/\<close>, \<^verbatim>\<open>examples/\<close> and the build files, which
  only call the library; the empty files \<^verbatim>\<open>src/p2p/peer.c\<close>, \<^verbatim>\<open>src/store/store_common.c\<close> and \<^verbatim>\<open>src/store/sqlite_util.c\<close>.
\<close>

end
